(* ===== verification/Prelude.thy ===== *)
theory Prelude
  imports Main "HOL-Library.Word" "HOL-Library.Sublist"
begin

text \<open>
  Shared vocabulary of the development: names for the machine types of the Rust
  sources, the state-and-result computations in which every fallible stateful
  function is written, big-endian integer codecs, Rust slices, and the iterated
  partial function used to speak about predecessor chains.
\<close>

section \<open>Machine types\<close>

type_synonym byte = "8 word"
type_synonym i32 = "32 word"
type_synonym bytes = "byte list"
type_synonym block_hash = bytes
type_synonym chain_id = bytes
type_synonym operation_hash = bytes
type_synonym context_hash = bytes
type_synonym protocol_hash = bytes

text \<open>A Rust function either returns an error value or panics.\<close>

datatype 'e failure = Err 'e | Panic

named_theorems act_simps "evaluation of state-and-result computations"
named_theorems codec_simps "evaluation of byte level codecs"

section \<open>Results\<close>

text \<open>The operator \<^verbatim>\<open>?\<close> on a pure result.\<close>

definition and_then :: "'e + 'a \<Rightarrow> ('a \<Rightarrow> 'e + 'b) \<Rightarrow> 'e + 'b" where
  "and_then r f = (case r of Inl e \<Rightarrow> Inl e | Inr a \<Rightarrow> f a)"

definition map_err :: "('e \<Rightarrow> 'f) \<Rightarrow> 'e + 'a \<Rightarrow> 'f + 'a" where
  "map_err g r = (case r of Inl e \<Rightarrow> Inl (g e) | Inr a \<Rightarrow> Inr a)"

definition ok_or :: "'e \<Rightarrow> 'a option \<Rightarrow> 'e + 'a" where
  "ok_or e x = (case x of None \<Rightarrow> Inl e | Some a \<Rightarrow> Inr a)"

lemma and_then_simps [simp]:
  "and_then (Inl e) f = Inl e" "and_then (Inr a) f = f a"
  by (simp_all add: and_then_def)

lemma map_err_simps [simp]:
  "map_err g (Inl e) = Inl (g e)" "map_err g (Inr a) = Inr a"
  by (simp_all add: map_err_def)

lemma ok_or_simps [simp]: "ok_or e None = Inl e" "ok_or e (Some a) = Inr a"
  by (simp_all add: ok_or_def)

lemma and_then_cong [fundef_cong]:
  assumes "r = r'" "\<And>a. r' = Inr a \<Longrightarrow> f a = f' a"
  shows "and_then r f = and_then r' f'"
  using assms by (cases r') auto

lemma and_then_Inr_iff: "and_then r f = Inr b \<longleftrightarrow> (\<exists>a. r = Inr a \<and> f a = Inr b)"
  by (cases r) auto

lemma map_err_Inr_iff [simp]: "map_err g r = Inr b \<longleftrightarrow> r = Inr b"
  by (cases r) auto

section \<open>State-and-result computations\<close>

text \<open>
  A method that takes \<^verbatim>\<open>&mut self\<close> (or a shared handle with interior
  mutability) and returns \<^verbatim>\<open>Result\<close>. An error keeps the state reached so
  far: writes made before the failing call are not undone.
\<close>

type_synonym ('s, 'e, 'a) act = "'s \<Rightarrow> ('e + 'a) \<times> 's"

definition ret :: "'a \<Rightarrow> ('s, 'e, 'a) act" where
  "ret a = (\<lambda>s. (Inr a, s))"

definition fail :: "'e \<Rightarrow> ('s, 'e, 'a) act" where
  "fail e = (\<lambda>s. (Inl e, s))"

definition bindA :: "('s, 'e, 'a) act \<Rightarrow> ('a \<Rightarrow> ('s, 'e, 'b) act) \<Rightarrow> ('s, 'e, 'b) act" where
  "bindA m f = (\<lambda>s. case m s of (Inl e, s') \<Rightarrow> (Inl e, s') | (Inr a, s') \<Rightarrow> f a s')"

definition map_errA :: "('e \<Rightarrow> 'f) \<Rightarrow> ('s, 'e, 'a) act \<Rightarrow> ('s, 'f, 'a) act" where
  "map_errA g m = (\<lambda>s. case m s of (r, s') \<Rightarrow> (map_err g r, s'))"

definition liftR :: "'e + 'a \<Rightarrow> ('s, 'e, 'a) act" where
  "liftR r = (\<lambda>s. (r, s))"

definition whenA :: "bool \<Rightarrow> ('s, 'e, unit) act \<Rightarrow> ('s, 'e, unit) act" where
  "whenA b m = (if b then m else ret ())"

lemma ret_run [act_simps]: "ret a s = (Inr a, s)"
  by (simp add: ret_def)

lemma fail_run [act_simps]: "fail e s = (Inl e, s)"
  by (simp add: fail_def)

lemma bindA_run [act_simps]:
  "m s = (Inr a, s') \<Longrightarrow> bindA m f s = f a s'"
  "m s = (Inl e, s') \<Longrightarrow> bindA m f s = (Inl e, s')"
  by (simp_all add: bindA_def)

lemma map_errA_run [act_simps]:
  "m s = (Inr a, s') \<Longrightarrow> map_errA g m s = (Inr a, s')"
  "m s = (Inl e, s') \<Longrightarrow> map_errA g m s = (Inl (g e), s')"
  by (simp_all add: map_errA_def)

lemma whenA_run [act_simps]: "whenA b m s = (if b then m s else (Inr (), s))"
  by (simp add: whenA_def ret_def)

lemma liftR_run [act_simps]: "liftR r s = (r, s)"
  by (simp add: liftR_def)

lemma liftR_simps [simp]: "liftR (Inr a) = ret a" "liftR (Inl e) = fail e"
  by (simp_all add: liftR_def ret_def fail_def)

lemma bindA_InrE:
  assumes "bindA m f s = (Inr b, s'')"
  obtains a s' where "m s = (Inr a, s')" "f a s' = (Inr b, s'')"
  using assms by (auto simp: bindA_def split: prod.splits sum.splits)

lemma bindA_ret [simp]: "bindA (ret a) f = f a"
  by (simp add: bindA_def ret_def)

lemma bindA_fail [simp]: "bindA (fail e) f = fail e"
  by (simp add: bindA_def fail_def)

lemma bindA_assoc: "bindA (bindA m f) g = bindA m (\<lambda>a. bindA (f a) g)"
  by (rule ext) (simp add: bindA_def split: prod.splits sum.splits)

section \<open>Slices and big-endian integers\<close>

text \<open>\<^verbatim>\<open>&xs[a..b]\<close>, for bounds inside the subslice.\<close>

definition subslice :: "nat \<Rightarrow> nat \<Rightarrow> 'a list \<Rightarrow> 'a list" where
  "subslice a b xs = take (b - a) (drop a xs)"

lemma length_subslice [simp]: "length (subslice a b xs) = min (b - a) (length xs - a)"
  by (simp add: subslice_def)

text \<open>\<^verbatim>\<open>to_be_bytes\<close> of an n-byte unsigned value and its inverse.\<close>

fun to_be_bytes :: "nat \<Rightarrow> nat \<Rightarrow> bytes" where
  "to_be_bytes 0 x = []"
| "to_be_bytes (Suc n) x = to_be_bytes n (x div 256) @ [word_of_nat (x mod 256)]"

definition from_be_bytes :: "bytes \<Rightarrow> nat" where
  "from_be_bytes bs = foldl (\<lambda>a b. a * 256 + unat b) 0 bs"

lemma length_to_be_bytes [simp]: "length (to_be_bytes n x) = n"
  by (induction n arbitrary: x) simp_all

lemma from_be_bytes_snoc [simp]: "from_be_bytes (bs @ [b]) = from_be_bytes bs * 256 + unat b"
  by (simp add: from_be_bytes_def)

lemma from_be_bytes_Nil [simp]: "from_be_bytes [] = 0"
  by (simp add: from_be_bytes_def)

lemma from_to_be_bytes: "from_be_bytes (to_be_bytes n x) = x mod 256 ^ n"
proof (induction n arbitrary: x)
  case (Suc n)
  have "x div 256 mod 256 ^ n * 256 + x mod 256 = x mod (256 * 256 ^ n)"
    using mod_mult2_eq [of x 256 "256 ^ n"] by presburger
  then show ?case
    using Suc by (simp add: unat_of_nat)
qed simp

lemma from_be_bytes_bound: "from_be_bytes bs < 256 ^ length bs"
proof (induction bs rule: rev_induct)
  case (snoc b bs)
  have "unat b < 256"
    using unsigned_less [of b] by simp
  then show ?case
    using snoc by simp
qed simp

lemma to_from_be_bytes: "to_be_bytes (length bs) (from_be_bytes bs) = bs"
proof (induction bs rule: rev_induct)
  case (snoc b bs)
  have "unat b < 256"
    using unsigned_less [of b] by simp
  then show ?case
    using snoc by simp
qed simp

lemma from_to_be_bytes_word32:
  "word_of_nat (from_be_bytes (to_be_bytes 4 (unat (w :: i32)))) = w"
proof -
  have "unat w < 256 ^ 4"
    using unsigned_less [of w] by simp
  then show ?thesis
    by (simp add: from_to_be_bytes)
qed

lemma from_to_be_bytes_usize:
  "x < 2 ^ 64 \<Longrightarrow> from_be_bytes (to_be_bytes 8 x) = x"
  by (simp add: from_to_be_bytes)

section \<open>Iterating a partial successor\<close>

text \<open>
  \<open>iter_opt p n b\<close> follows the partial function \<open>p\<close> for \<open>n\<close> steps.
\<close>

fun iter_opt :: "('a \<rightharpoonup> 'a) \<Rightarrow> nat \<Rightarrow> 'a \<rightharpoonup> 'a" where
  "iter_opt p 0 b = Some b"
| "iter_opt p (Suc n) b = (case p b of None \<Rightarrow> None | Some c \<Rightarrow> iter_opt p n c)"

lemma iter_opt_one [simp]: "iter_opt p (Suc 0) b = p b"
  by (simp split: option.split)

lemma iter_opt_add:
  "iter_opt p (m + n) b = (case iter_opt p m b of None \<Rightarrow> None | Some c \<Rightarrow> iter_opt p n c)"
  by (induction m arbitrary: b) (auto split: option.split)

lemma iter_opt_None_mono: "iter_opt p m b = None \<Longrightarrow> m \<le> n \<Longrightarrow> iter_opt p n b = None"
  using iter_opt_add [of p m "n - m" b] by simp

lemma iter_opt_cong:
  assumes "\<And>m c. m < n \<Longrightarrow> iter_opt p m b = Some c \<Longrightarrow> p c = q c"
  shows "iter_opt p n b = iter_opt q n b"
  using assms
proof (induction n arbitrary: b)
  case (Suc n)
  have "p b = q b"
    using Suc.prems [of 0 b] by simp
  moreover have "iter_opt p n c = iter_opt q n c" if pb: "p b = Some c" for c
  proof (rule Suc.IH)
    fix m d
    assume "m < n" "iter_opt p m c = Some d"
    then show "p d = q d"
      using pb by (intro Suc.prems [of "Suc m"]) simp_all
  qed
  ultimately show ?case
    by (simp split: option.split)
qed simp

end
