(* ===== verification/Persistent.thy ===== *)
theory Persistent
  imports Prelude
begin

text \<open>
  The persistence layer (\<^verbatim>\<open>storage/src/persistent\<close>): schema codecs, the trait
  \<^verbatim>\<open>KeyValueStoreBackend\<close> as a record of operations, and its implementation for
  RocksDB. RocksDB itself is third-party: the record \<open>rocks\<close> holds the calls the
  code makes on it, and the locale \<open>rocks_laws\<close> their documented behaviour in the
  absence of I/O errors. The locale \<open>schema_store\<close> shows that a column family whose
  codecs round-trip gives a typed map, which is the contract \<open>kv_contract\<close> that all
  storages rely on.
\<close>

section \<open>Errors\<close>

datatype schema_error = EncodeError | DecodeError | DecodeValidationError string

datatype db_error =
    SchemaErr schema_error
  | RocksDBError string
  | MissingColumnFamily string
  | DatabaseIncompatibility string
  | ValueExists string
  | GuardPoison string
  | SledDBError string
  | HashEncodeError
  | LockError string
  | IOError string
  | MemoryStatisticsOverflow

datatype storage_error =
    DBErr db_error
  | CommitLogErr string
  | MissingKey
  | InvalidColumn
  | SequenceErr string
  | TezosEnvironmentErr string
  | MessageHashErr string
  | PredecessorLookupError
  | HashErr
  | HashDecodeErr

type_synonym ('s, 'a) db_act = "('s, db_error failure, 'a) act"
type_synonym ('s, 'a) storage_act = "('s, storage_error failure, 'a) act"

section \<open>Schema codecs\<close>

text \<open>
  The traits \<^verbatim>\<open>Encoder\<close> and \<^verbatim>\<open>Decoder\<close>. A decoder that indexes past the end of
  its input panics.
\<close>

record 'a codec =
  encode :: "'a \<Rightarrow> schema_error + bytes"
  decode :: "bytes \<Rightarrow> schema_error failure + 'a"

text \<open>Typed hashes are stored as their bytes; decoding checks the size of the hash type.\<close>

definition hash_from_bytes :: "nat \<Rightarrow> bytes \<Rightarrow> schema_error failure + bytes" where
  "hash_from_bytes sz bs = (if length bs = sz then Inr bs else Inl (Err DecodeError))"

definition hash_codec :: "nat \<Rightarrow> bytes codec" where
  "hash_codec sz = \<lparr>encode = (\<lambda>h. Inr h), decode = hash_from_bytes sz\<rparr>"

text \<open>\<^verbatim>\<open>num_from_slice!\<close>: the big-endian number of n bytes starting at an index; the slice panics when it is out of range.\<close>

definition num_from_slice :: "bytes \<Rightarrow> nat \<Rightarrow> nat \<Rightarrow> schema_error failure + nat" where
  "num_from_slice buf from_idx n =
     (if from_idx + n \<le> length buf then Inr (from_be_bytes (subslice from_idx (from_idx + n) buf))
      else Inl Panic)"

text \<open>The codec that \<^verbatim>\<open>num_codec!\<close> generates for an unsigned type of n bytes.\<close>

definition num_encode :: "nat \<Rightarrow> nat \<Rightarrow> schema_error + bytes" where
  "num_encode n x = Inr (to_be_bytes n x)"

definition num_decode :: "nat \<Rightarrow> bytes \<Rightarrow> schema_error failure + nat" where
  "num_decode n bs = (if length bs = n then Inr (from_be_bytes bs) else Inl (Err DecodeError))"

definition num_codec :: "nat \<Rightarrow> nat codec" where
  "num_codec n = \<lparr>encode = num_encode n, decode = num_decode n\<rparr>"

section \<open>The key-value trait\<close>

text \<open>
  \<^verbatim>\<open>KeyValueStoreBackend<S>\<close>: one field per method of the trait that storages call.
\<close>

record ('s, 'k, 'v) kv_store =
  kv_put :: "'k \<Rightarrow> 'v \<Rightarrow> ('s, unit) db_act"
  kv_delete :: "'k \<Rightarrow> ('s, unit) db_act"
  kv_merge :: "'k \<Rightarrow> 'v \<Rightarrow> ('s, unit) db_act"
  kv_get :: "'k \<Rightarrow> ('s, 'v option) db_act"
  kv_contains :: "'k \<Rightarrow> ('s, bool) db_act"
  kv_retain :: "('k \<Rightarrow> bool) \<Rightarrow> ('s, unit) db_act"
  kv_write_batch :: "('k \<times> 'v) list \<Rightarrow> ('s, unit) db_act"

text \<open>The provided method of the trait: read the value and delete it if it is there.\<close>

definition try_delete :: "('s, 'k, 'v) kv_store \<Rightarrow> 'k \<Rightarrow> ('s, 'v option) db_act" where
  "try_delete kv key =
     bindA (kv_get kv key) (\<lambda>v.
     bindA (whenA (v \<noteq> None) (kv_delete kv key)) (\<lambda>_.
     ret v))"

section \<open>RocksDB\<close>

text \<open>The calls made on the RocksDB handle; every call names its column family.\<close>

record 'r rocks =
  cf_handle :: "'r \<Rightarrow> string \<Rightarrow> bool"
  get_cf :: "string \<Rightarrow> bytes \<Rightarrow> ('r, string, bytes option) act"
  put_cf_opt :: "string \<Rightarrow> bytes \<Rightarrow> bytes \<Rightarrow> ('r, string, unit) act"
  merge_cf_opt :: "string \<Rightarrow> bytes \<Rightarrow> bytes \<Rightarrow> ('r, string, unit) act"
  delete_cf_opt :: "string \<Rightarrow> bytes \<Rightarrow> ('r, string, unit) act"
  write_opt :: "(string \<times> bytes \<times> bytes) list \<Rightarrow> ('r, string, unit) act"
  iterator_cf :: "'r \<Rightarrow> string \<Rightarrow> (bytes \<times> bytes) list"

text \<open>A schema: the column family name and the codecs of key and value.\<close>

record ('k, 'v) schema =
  cf_name :: string
  key_codec :: "'k codec"
  value_codec :: "'v codec"

definition encA :: "'a codec \<Rightarrow> 'a \<Rightarrow> ('s, bytes) db_act" where
  "encA c a = liftR (map_err (\<lambda>e. Err (SchemaErr e)) (encode c a))"

definition decA :: "'a codec \<Rightarrow> bytes \<Rightarrow> ('s, 'a) db_act" where
  "decA c bs = liftR (map_err (map_failure SchemaErr) (decode c bs))"

definition need_cf :: "'r rocks \<Rightarrow> ('k, 'v) schema \<Rightarrow> ('r, unit) db_act" where
  "need_cf rk sch = (\<lambda>r. if cf_handle rk r (cf_name sch) then (Inr (), r)
                         else (Inl (Err (MissingColumnFamily (cf_name sch))), r))"

definition rocksA :: "('r, string, 'a) act \<Rightarrow> ('r, 'a) db_act" where
  "rocksA m = map_errA (\<lambda>e. Err (RocksDBError e)) m"

definition db_put :: "'r rocks \<Rightarrow> ('k, 'v) schema \<Rightarrow> 'k \<Rightarrow> 'v \<Rightarrow> ('r, unit) db_act" where
  "db_put rk sch key value =
     bindA (encA (key_codec sch) key) (\<lambda>k.
     bindA (encA (value_codec sch) value) (\<lambda>v.
     bindA (need_cf rk sch) (\<lambda>_.
     rocksA (put_cf_opt rk (cf_name sch) k v))))"

definition db_delete :: "'r rocks \<Rightarrow> ('k, 'v) schema \<Rightarrow> 'k \<Rightarrow> ('r, unit) db_act" where
  "db_delete rk sch key =
     bindA (encA (key_codec sch) key) (\<lambda>k.
     bindA (need_cf rk sch) (\<lambda>_.
     rocksA (delete_cf_opt rk (cf_name sch) k)))"

definition db_merge :: "'r rocks \<Rightarrow> ('k, 'v) schema \<Rightarrow> 'k \<Rightarrow> 'v \<Rightarrow> ('r, unit) db_act" where
  "db_merge rk sch key value =
     bindA (encA (key_codec sch) key) (\<lambda>k.
     bindA (encA (value_codec sch) value) (\<lambda>v.
     bindA (need_cf rk sch) (\<lambda>_.
     rocksA (merge_cf_opt rk (cf_name sch) k v))))"

definition db_get :: "'r rocks \<Rightarrow> ('k, 'v) schema \<Rightarrow> 'k \<Rightarrow> ('r, 'v option) db_act" where
  "db_get rk sch key =
     bindA (encA (key_codec sch) key) (\<lambda>k.
     bindA (need_cf rk sch) (\<lambda>_.
     bindA (rocksA (get_cf rk (cf_name sch) k)) (\<lambda>value.
     case value of
       None \<Rightarrow> ret None
     | Some bs \<Rightarrow> bindA (decA (value_codec sch) bs) (\<lambda>v. ret (Some v)))))"

definition db_contains :: "'r rocks \<Rightarrow> ('k, 'v) schema \<Rightarrow> 'k \<Rightarrow> ('r, bool) db_act" where
  "db_contains rk sch key =
     bindA (encA (key_codec sch) key) (\<lambda>k.
     bindA (need_cf rk sch) (\<lambda>_.
     bindA (rocksA (get_cf rk (cf_name sch) k)) (\<lambda>val.
     ret (val \<noteq> None))))"

fun encode_batch :: "('k, 'v) schema \<Rightarrow> 'r rocks \<Rightarrow> ('k \<times> 'v) list \<Rightarrow>
    ('r, (string \<times> bytes \<times> bytes) list) db_act" where
  "encode_batch sch rk [] = ret []"
| "encode_batch sch rk ((k, v) # batch) =
     bindA (encA (key_codec sch) k) (\<lambda>key.
     bindA (encA (value_codec sch) v) (\<lambda>value.
     bindA (need_cf rk sch) (\<lambda>_.
     bindA (encode_batch sch rk batch) (\<lambda>rest.
     ret ((cf_name sch, key, value) # rest)))))"

definition db_write_batch :: "'r rocks \<Rightarrow> ('k, 'v) schema \<Rightarrow> ('k \<times> 'v) list \<Rightarrow> ('r, unit) db_act" where
  "db_write_batch rk sch batch =
     bindA (encode_batch sch rk batch) (\<lambda>rocksb_batch.
     rocksA (write_opt rk rocksb_batch))"

text \<open>The keys \<^verbatim>\<open>retain\<close> deletes; entries whose key does not decode are skipped, a panicking decoder panics.\<close>

fun garbage_keys :: "'k codec \<Rightarrow> ('k \<Rightarrow> bool) \<Rightarrow> (bytes \<times> bytes) list \<Rightarrow> db_error failure + 'k list" where
  "garbage_keys c predicate [] = Inr []"
| "garbage_keys c predicate ((k, _) # rest) =
     (case decode c k of
        Inl Panic \<Rightarrow> Inl Panic
      | Inl (Err _) \<Rightarrow> garbage_keys c predicate rest
      | Inr value \<Rightarrow> and_then (garbage_keys c predicate rest) (\<lambda>ks.
          Inr (if \<not> predicate value then value # ks else ks)))"

fun delete_all :: "('k \<Rightarrow> ('s, unit) db_act) \<Rightarrow> 'k list \<Rightarrow> ('s, unit) db_act" where
  "delete_all del [] = ret ()"
| "delete_all del (k # ks) = bindA (del k) (\<lambda>_. delete_all del ks)"

definition db_retain :: "'r rocks \<Rightarrow> ('k, 'v) schema \<Rightarrow> ('k \<Rightarrow> bool) \<Rightarrow> ('r, unit) db_act" where
  "db_retain rk sch predicate =
     bindA (need_cf rk sch) (\<lambda>_.
     bindA (\<lambda>r. (garbage_keys (key_codec sch) predicate (iterator_cf rk r (cf_name sch)), r)) (\<lambda>garbage.
     delete_all (db_delete rk sch) garbage))"

definition db_kv :: "'r rocks \<Rightarrow> ('k, 'v) schema \<Rightarrow> ('r, 'k, 'v) kv_store" where
  "db_kv rk sch = \<lparr>
     kv_put = db_put rk sch,
     kv_delete = db_delete rk sch,
     kv_merge = db_merge rk sch,
     kv_get = db_get rk sch,
     kv_contains = db_contains rk sch,
     kv_retain = db_retain rk sch,
     kv_write_batch = db_write_batch rk sch\<rparr>"

section \<open>The contract of a key-value store\<close>

text \<open>
  What a storage relies on: within the invariant and for keys and values it can
  encode, the store behaves like a finite map.
\<close>

locale kv_contract =
  fixes kv :: "('s, 'k, 'v) kv_store"
    and view :: "'s \<Rightarrow> 'k \<rightharpoonup> 'v"
    and inv :: "'s \<Rightarrow> bool"
    and key_ok :: "'k \<Rightarrow> bool"
    and val_ok :: "'v \<Rightarrow> bool"
  assumes get_law: "inv s \<Longrightarrow> key_ok k \<Longrightarrow> kv_get kv k s = (Inr (view s k), s)"
    and contains_law: "inv s \<Longrightarrow> key_ok k \<Longrightarrow> kv_contains kv k s = (Inr (view s k \<noteq> None), s)"
    and put_law: "inv s \<Longrightarrow> key_ok k \<Longrightarrow> val_ok v \<Longrightarrow>
      \<exists>s'. kv_put kv k v s = (Inr (), s') \<and> inv s' \<and> view s' = (view s)(k \<mapsto> v)"
    and delete_law: "inv s \<Longrightarrow> key_ok k \<Longrightarrow>
      \<exists>s'. kv_delete kv k s = (Inr (), s') \<and> inv s' \<and> view s' = (view s)(k := None)"
    and view_ok: "inv s \<Longrightarrow> view s k = Some v \<Longrightarrow> key_ok k \<and> val_ok v"
begin

lemma try_delete_spec:
  assumes "inv s" "key_ok k"
  shows "\<exists>s'. try_delete kv k s = (Inr (view s k), s') \<and> inv s' \<and> view s' = (view s)(k := None)"
proof (cases "view s k")
  case None
  then have "view s = (view s)(k := None)"
    by (simp add: fun_upd_idem)
  with assms None show ?thesis
    by (auto simp: try_delete_def bindA_def get_law whenA_def ret_def)
next
  case (Some v)
  with assms delete_law [of s k] show ?thesis
    by (auto simp: try_delete_def bindA_def get_law whenA_def ret_def)
qed

end

text \<open>
  With a merge operator, \<open>kv_merge\<close> combines the new value with the stored one by \<open>mrg\<close>,
  which is undefined on values the operator refuses to combine.
\<close>

definition merged :: "('v \<Rightarrow> 'v \<Rightarrow> 'v option) \<Rightarrow> 'v option \<Rightarrow> 'v \<Rightarrow> 'v option" where
  "merged mrg old v = (case old of None \<Rightarrow> Some v | Some w \<Rightarrow> mrg w v)"

locale kv_merge_contract = kv_contract kv view inv key_ok val_ok
  for kv :: "('s, 'k, 'v) kv_store" and view inv key_ok val_ok +
  fixes mrg :: "'v \<Rightarrow> 'v \<Rightarrow> 'v option"
  assumes merge_law: "inv s \<Longrightarrow> key_ok k \<Longrightarrow> val_ok v \<Longrightarrow> merged mrg (view s k) v = Some u \<Longrightarrow>
      \<exists>s'. kv_merge kv k v s = (Inr (), s') \<and> inv s' \<and> view s' = (view s)(k \<mapsto> u)"

section \<open>The documented behaviour of RocksDB\<close>

text \<open>
  A column family is a map from bytes to bytes. A merge hands the stored value and
  the operand to the merge operator of the column family. An operator returns the
  merged bytes, gives up (\<^verbatim>\<open>None\<close> in Rust, \<open>Inl (Err ())\<close> here) or panics.
\<close>

type_synonym merge_operator = "bytes option \<Rightarrow> bytes list \<Rightarrow> unit failure + bytes"

locale rocks_laws =
  fixes rk :: "'r rocks"
    and cf :: string
    and rview :: "'r \<Rightarrow> bytes \<rightharpoonup> bytes"
  assumes r_cf: "cf_handle rk r cf"
    and r_get: "get_cf rk cf k r = (Inr (rview r k), r)"
    and r_put: "\<exists>r'. put_cf_opt rk cf k v r = (Inr (), r') \<and> rview r' = (rview r)(k \<mapsto> v)"
    and r_delete: "\<exists>r'. delete_cf_opt rk cf k r = (Inr (), r') \<and> rview r' = (rview r)(k := None)"

text \<open>A schema whose codecs round-trip.\<close>

locale schema_store = rocks_laws rk "cf_name sch" rview
  for rk :: "'r rocks"
    and sch :: "('k, 'v) schema"
    and rview :: "'r \<Rightarrow> bytes \<rightharpoonup> bytes" +
  fixes key_ok :: "'k \<Rightarrow> bool"
    and val_ok :: "'v \<Rightarrow> bool"
    and kenc :: "'k \<Rightarrow> bytes"
    and venc :: "'v \<Rightarrow> bytes"
  assumes key_enc: "key_ok k \<Longrightarrow> encode (key_codec sch) k = Inr (kenc k)"
    and key_inj: "key_ok k \<Longrightarrow> key_ok k' \<Longrightarrow> kenc k = kenc k' \<Longrightarrow> k = k'"
    and val_enc: "val_ok v \<Longrightarrow> encode (value_codec sch) v = Inr (venc v)"
    and val_dec: "val_ok v \<Longrightarrow> decode (value_codec sch) (venc v) = Inr v"
begin

definition tinv :: "'r \<Rightarrow> bool" where
  "tinv r \<longleftrightarrow> (\<forall>kb vb. rview r kb = Some vb \<longrightarrow> (\<exists>v. val_ok v \<and> decode (value_codec sch) vb = Inr v))"

definition tview :: "'r \<Rightarrow> 'k \<rightharpoonup> 'v" where
  "tview r k = (if key_ok k
     then (case rview r (kenc k) of None \<Rightarrow> None
           | Some vb \<Rightarrow> (case decode (value_codec sch) vb of Inr v \<Rightarrow> Some v | Inl _ \<Rightarrow> None))
     else None)"

lemma tinvD: "tinv r \<Longrightarrow> rview r kb = Some vb \<Longrightarrow> \<exists>v. val_ok v \<and> decode (value_codec sch) vb = Inr v"
  by (simp add: tinv_def)

lemma tview_cases:
  assumes "tinv r" "key_ok k"
  shows "(rview r (kenc k) = None \<and> tview r k = None) \<or>
         (\<exists>v vb. val_ok v \<and> rview r (kenc k) = Some vb \<and> decode (value_codec sch) vb = Inr v \<and>
            tview r k = Some v)"
  using assms tinvD [of r "kenc k"] by (cases "rview r (kenc k)") (auto simp: tview_def val_dec)

lemma tview_upd:
  assumes "rview r' = (rview r)(kenc k \<mapsto> vb)" "decode (value_codec sch) vb = Inr v" "key_ok k"
  shows "tview r' = (tview r)(k \<mapsto> v)"
  using assms key_inj by (auto simp: tview_def fun_eq_iff val_dec)

lemma tinv_upd:
  assumes "rview r' = (rview r)(kb \<mapsto> vb)" "decode (value_codec sch) vb = Inr v" "val_ok v" "tinv r"
  shows "tinv r'"
  using assms by (auto simp: tinv_def)

lemma tview_del:
  assumes "rview r' = (rview r)(kenc k := None)" "key_ok k"
  shows "tview r' = (tview r)(k := None)"
  using assms key_inj by (auto simp: tview_def fun_eq_iff)

lemmas run = encA_def decA_def need_cf_def rocksA_def map_errA_def bindA_def ret_def liftR_def
  r_cf r_get key_enc val_enc

lemma db_get_spec: "tinv r \<Longrightarrow> key_ok k \<Longrightarrow> db_get rk sch k r = (Inr (tview r k), r)"
  using tview_cases [of r k] by (auto simp: db_get_def run val_dec)

lemma db_contains_spec:
  "tinv r \<Longrightarrow> key_ok k \<Longrightarrow> db_contains rk sch k r = (Inr (tview r k \<noteq> None), r)"
  using tview_cases [of r k] by (auto simp: db_contains_def run)

lemma db_put_spec:
  assumes "tinv r" "key_ok k" "val_ok v"
  shows "\<exists>r'. db_put rk sch k v r = (Inr (), r') \<and> tinv r' \<and> tview r' = (tview r)(k \<mapsto> v)"
proof -
  obtain r' where "put_cf_opt rk (cf_name sch) (kenc k) (venc v) r = (Inr (), r')"
    "rview r' = (rview r)(kenc k \<mapsto> venc v)"
    using r_put by blast
  with assms tview_upd tinv_upd val_dec [OF assms(3)] show ?thesis
    by (auto simp: db_put_def run)
qed

lemma db_delete_spec:
  assumes "tinv r" "key_ok k"
  shows "\<exists>r'. db_delete rk sch k r = (Inr (), r') \<and> tinv r' \<and> tview r' = (tview r)(k := None)"
proof -
  obtain r' where d: "delete_cf_opt rk (cf_name sch) (kenc k) r = (Inr (), r')"
    "rview r' = (rview r)(kenc k := None)"
    using r_delete by blast
  then have "tinv r'"
    using assms(1) by (auto simp: tinv_def)
  with assms d tview_del show ?thesis
    by (auto simp: db_delete_def run)
qed

end

sublocale schema_store \<subseteq> kv: kv_contract "db_kv rk sch" tview tinv key_ok val_ok
proof unfold_locales
  fix s k v
  assume "tinv s" "tview s k = Some v"
  then show "key_ok k \<and> val_ok v"
    using tview_cases [of s k] by (cases "key_ok k") (auto simp: tview_def)
qed (simp_all add: db_kv_def db_get_spec db_contains_spec db_put_spec db_delete_spec)

text \<open>
  A schema with a merge operator: on a stored value that decodes, the operator gives
  bytes that decode to the merge of the two values.
\<close>

locale schema_merge_store = schema_store rk sch rview key_ok val_ok kenc venc
  for rk :: "'r rocks"
    and sch :: "('k, 'v) schema"
    and rview :: "'r \<Rightarrow> bytes \<rightharpoonup> bytes"
    and key_ok val_ok kenc venc +
  fixes merge_op :: merge_operator
    and mrg :: "'v \<Rightarrow> 'v \<Rightarrow> 'v option"
  assumes r_merge: "merge_op (rview r kb) [ob] = Inr nb \<Longrightarrow>
      \<exists>r'. merge_cf_opt rk (cf_name sch) kb ob r = (Inr (), r') \<and> rview r' = (rview r)(kb \<mapsto> nb)"
    and merge_new: "val_ok v \<Longrightarrow> merge_op None [venc v] = Inr (venc v)"
    and merge_old: "decode (value_codec sch) vb = Inr v \<Longrightarrow> val_ok v \<Longrightarrow> val_ok w \<Longrightarrow>
      mrg v w = Some u \<Longrightarrow>
      \<exists>mb. merge_op (Some vb) [venc w] = Inr mb \<and> decode (value_codec sch) mb = Inr u \<and> val_ok u"
begin

lemma db_merge_spec:
  assumes "tinv r" "key_ok k" "val_ok v" "merged mrg (tview r k) v = Some u"
  shows "\<exists>r'. db_merge rk sch k v r = (Inr (), r') \<and> tinv r' \<and> tview r' = (tview r)(k \<mapsto> u)"
proof -
  obtain mb where u: "merge_op (rview r (kenc k)) [venc v] = Inr mb"
    "decode (value_codec sch) mb = Inr u" "val_ok u"
    using tview_cases [OF assms(1,2)] assms(3,4) merge_new [of v] merge_old val_dec [of v]
    by (fastforce simp: merged_def)
  then obtain r' where "merge_cf_opt rk (cf_name sch) (kenc k) (venc v) r = (Inr (), r')"
    "rview r' = (rview r)(kenc k \<mapsto> mb)"
    using r_merge by blast
  with assms u tview_upd [of r' r k mb u] tinv_upd [of r' r] show ?thesis
    by (auto simp: db_merge_def run)
qed

end

sublocale schema_merge_store \<subseteq> kvm: kv_merge_contract "db_kv rk sch" tview tinv key_ok val_ok mrg
  by unfold_locales (simp add: db_kv_def db_merge_spec)

section \<open>A concrete RocksDB\<close>

text \<open>
  Column families as maps in memory, with one merge operator per family: an instance
  of the documented behaviour on which contracts and witnesses are evaluated. The
  \<open>iterator_cf\<close> of the instance lists nothing, it is not used by any law.
\<close>

type_synonym cfs = "string \<Rightarrow> bytes \<rightharpoonup> bytes"

definition map_rocks :: "(string \<Rightarrow> merge_operator) \<Rightarrow> cfs rocks" where
  "map_rocks mop = \<lparr>
     cf_handle = (\<lambda>r cf. True),
     get_cf = (\<lambda>cf k r. (Inr (r cf k), r)),
     put_cf_opt = (\<lambda>cf k v r. (Inr (), r(cf := (r cf)(k \<mapsto> v)))),
     merge_cf_opt = (\<lambda>cf k v r. case mop cf (r cf k) [v] of
         Inl _ \<Rightarrow> (Inl ''merge operator failed'', r)
       | Inr w \<Rightarrow> (Inr (), r(cf := (r cf)(k \<mapsto> w)))),
     delete_cf_opt = (\<lambda>cf k r. (Inr (), r(cf := (r cf)(k := None)))),
     write_opt = (\<lambda>b r. (Inr (), foldl (\<lambda>r (cf, k, v). r(cf := (r cf)(k \<mapsto> v))) r b)),
     iterator_cf = (\<lambda>r cf. [])\<rparr>"

interpretation mr: rocks_laws "map_rocks mop" cf "\<lambda>r. r cf" for mop cf
  by unfold_locales (simp_all add: map_rocks_def)

section \<open>Codec round trips\<close>

lemma hash_codec_roundtrip [codec_simps]:
  "length h = sz \<Longrightarrow> encode (hash_codec sz) h = Inr h \<and> decode (hash_codec sz) h = Inr h"
  by (simp add: hash_codec_def hash_from_bytes_def)

lemma num_codec_roundtrip:
  "x < 256 ^ n \<Longrightarrow> and_then (map_err Err (encode (num_codec n) x)) (decode (num_codec n)) = Inr x"
  by (simp add: num_codec_def num_encode_def num_decode_def from_to_be_bytes)

lemma num_codec_canonical:
  "decode (num_codec n) bs = Inr x \<Longrightarrow> encode (num_codec n) x = Inr bs"
  using to_from_be_bytes [of bs]
  by (auto simp: num_codec_def num_encode_def num_decode_def split: if_splits)

lemma num_from_slice_app [codec_simps]:
  "num_from_slice (pre @ to_be_bytes n x @ post) (length pre) n = Inr (x mod 256 ^ n)"
  by (simp add: num_from_slice_def subslice_def from_to_be_bytes)

end
