(* ===== verification/BlockHeader.thy ===== *)
theory BlockHeader
  imports Prelude
begin

text \<open>
  Block headers as the peer-to-peer messages carry them
  (\<^verbatim>\<open>tezos/messages/src/p2p/encoding/block_header.rs\<close>), a header together with its
  hash (\<^verbatim>\<open>storage/src/lib.rs\<close>) and the chain head (\<^verbatim>\<open>tezos/messages/src/lib.rs\<close>).
\<close>

type_synonym fitness = "bytes list"

record block_header =
  h_level :: i32
  h_proto :: byte
  h_predecessor :: block_hash
  h_timestamp :: "64 word"
  h_validation_pass :: byte
  h_operations_hash :: bytes
  h_fitness :: fitness
  h_context :: context_hash
  h_protocol_data :: bytes

record block_header_with_hash =
  bh_hash :: block_hash
  bh_header :: block_header

record head =
  head_block_hash :: block_hash
  head_level :: i32
  head_fitness :: fitness

definition new_head :: "block_hash \<Rightarrow> i32 \<Rightarrow> fitness \<Rightarrow> head" where
  "new_head bh lvl fit = \<lparr>head_block_hash = bh, head_level = lvl, head_fitness = fit\<rparr>"

end
