(* ===== verification/BlockMeta.thy ===== *)
theory BlockMeta
  imports Persistent BlockHeader
begin

text \<open>
  Block metadata (\<^verbatim>\<open>storage/src/block_meta_storage.rs\<close>): the record \<^verbatim>\<open>Meta\<close>, its
  byte layout, the merge operator that RocksDB runs on concurrent writes, and the
  operations that create and update the records of a block and of its predecessor.
\<close>

unbundle bit_operations_syntax

section \<open>Metadata\<close>

record meta =
  m_predecessor :: "block_hash option"
  m_successors :: "block_hash list"
  m_is_applied :: bool
  m_level :: i32
  m_chain_id :: chain_id

definition GENESIS_LEVEL :: i32 where
  "GENESIS_LEVEL = 0"

definition genesis_meta :: "block_hash \<Rightarrow> chain_id \<Rightarrow> bool \<Rightarrow> meta" where
  "genesis_meta genesis_hash genesis_chain_id applied = \<lparr>
     m_predecessor = Some genesis_hash,
     m_successors = [],
     m_is_applied = applied,
     m_level = GENESIS_LEVEL,
     m_chain_id = genesis_chain_id\<rparr>"

definition new_meta :: "bool \<Rightarrow> block_hash option \<Rightarrow> i32 \<Rightarrow> chain_id \<Rightarrow> meta" where
  "new_meta applied pred lvl cid = \<lparr>
     m_predecessor = pred,
     m_successors = [],
     m_is_applied = applied,
     m_level = lvl,
     m_chain_id = cid\<rparr>"

definition is_downloaded :: "meta \<Rightarrow> bool" where
  "is_downloaded m \<longleftrightarrow> m_predecessor m \<noteq> None"

definition take_successors :: "meta \<Rightarrow> block_hash list" where
  "take_successors m = m_successors m"

definition take_predecessor :: "meta \<Rightarrow> block_hash option" where
  "take_predecessor m = m_predecessor m"

section \<open>Byte layout\<close>

definition LEN_BLOCK_HASH :: nat where "LEN_BLOCK_HASH = 32"
definition LEN_CHAIN_ID :: nat where "LEN_CHAIN_ID = 4"
definition MASK_IS_APPLIED :: byte where "MASK_IS_APPLIED = 1"
definition MASK_HAS_SUCCESSOR :: byte where "MASK_HAS_SUCCESSOR = 2"
definition MASK_HAS_PREDECESSOR :: byte where "MASK_HAS_PREDECESSOR = 4"
definition IDX_MASK :: nat where "IDX_MASK = 0"
definition IDX_PREDECESSOR :: nat where "IDX_PREDECESSOR = IDX_MASK + 1"
definition IDX_LEVEL :: nat where "IDX_LEVEL = IDX_PREDECESSOR + LEN_BLOCK_HASH"
definition IDX_CHAIN_ID :: nat where "IDX_CHAIN_ID = IDX_LEVEL + 4"
definition IDX_SUCCESSOR_COUNT :: nat where "IDX_SUCCESSOR_COUNT = IDX_CHAIN_ID + LEN_CHAIN_ID"
definition IDX_SUCCESSOR :: nat where "IDX_SUCCESSOR = IDX_SUCCESSOR_COUNT + 8"
definition BLANK_BLOCK_HASH :: bytes where "BLANK_BLOCK_HASH = replicate LEN_BLOCK_HASH 0"
definition LEN_FIXED_META :: nat where "LEN_FIXED_META = 1 + LEN_BLOCK_HASH + 4 + LEN_CHAIN_ID + 8"

lemmas layout = LEN_BLOCK_HASH_def LEN_CHAIN_ID_def IDX_MASK_def IDX_PREDECESSOR_def IDX_LEVEL_def
  IDX_CHAIN_ID_def IDX_SUCCESSOR_COUNT_def IDX_SUCCESSOR_def BLANK_BLOCK_HASH_def LEN_FIXED_META_def

lemma len32 [simp]: "((32 :: nat) = LEN_BLOCK_HASH) = True"
  by (simp add: LEN_BLOCK_HASH_def)

definition total_len :: "nat \<Rightarrow> nat" where
  "total_len predecessors_count = LEN_FIXED_META + predecessors_count * LEN_BLOCK_HASH"

definition mask_is_applied :: "byte \<Rightarrow> bool" where
  "mask_is_applied msk \<longleftrightarrow> msk AND MASK_IS_APPLIED \<noteq> 0"

definition has_predecessor :: "byte \<Rightarrow> bool" where
  "has_predecessor msk \<longleftrightarrow> msk AND MASK_HAS_PREDECESSOR \<noteq> 0"

definition has_successor :: "byte \<Rightarrow> bool" where
  "has_successor msk \<longleftrightarrow> msk AND MASK_HAS_SUCCESSOR \<noteq> 0"

definition successors_count :: "bytes \<Rightarrow> schema_error failure + nat" where
  "successors_count bs = num_from_slice bs IDX_SUCCESSOR_COUNT 8"

definition meta_mask :: "meta \<Rightarrow> byte" where
  "meta_mask m =
     (if m_is_applied m then MASK_IS_APPLIED else 0) OR
     (if m_predecessor m \<noteq> None then MASK_HAS_PREDECESSOR else 0) OR
     (if m_successors m \<noteq> [] then MASK_HAS_SUCCESSOR else 0)"

definition meta_bytes :: "meta \<Rightarrow> bytes" where
  "meta_bytes m =
     [meta_mask m] @
     (case m_predecessor m of Some p \<Rightarrow> p | None \<Rightarrow> BLANK_BLOCK_HASH) @
     to_be_bytes 4 (unat (m_level m)) @
     m_chain_id m @
     to_be_bytes 8 (length (m_successors m)) @
     concat (m_successors m)"

definition meta_encode :: "meta \<Rightarrow> schema_error + bytes" where
  "meta_encode m = Inr (meta_bytes m)"

text \<open>The loop over the successors: each slice panics when it leaves the buffer.\<close>

fun decode_successors :: "bytes \<Rightarrow> nat \<Rightarrow> nat \<Rightarrow> schema_error failure + block_hash list" where
  "decode_successors bs i 0 = Inr []"
| "decode_successors bs i (Suc n) =
     (let next_successor_index = IDX_SUCCESSOR + i * LEN_BLOCK_HASH in
      if length bs < next_successor_index + LEN_BLOCK_HASH then Inl Panic
      else and_then (hash_from_bytes LEN_BLOCK_HASH
             (subslice next_successor_index (next_successor_index + LEN_BLOCK_HASH) bs)) (\<lambda>h.
           and_then (decode_successors bs (i + 1) n) (\<lambda>hs. Inr (h # hs))))"

text \<open>\<^verbatim>\<open>Vec::with_capacity\<close> panics when the capacity exceeds \<^verbatim>\<open>isize::MAX\<close> bytes; a hash handle takes 24.\<close>

definition vec_capacity_ok :: "nat \<Rightarrow> bool" where
  "vec_capacity_ok n \<longleftrightarrow> 24 * n < 2 ^ 63"

definition meta_decode :: "bytes \<Rightarrow> schema_error failure + meta" where
  "meta_decode bs =
     (if LEN_FIXED_META \<le> length bs then
        let msk = bs ! IDX_MASK in
        and_then (if has_predecessor msk
                  then and_then (hash_from_bytes LEN_BLOCK_HASH (subslice IDX_PREDECESSOR IDX_LEVEL bs))
                         (\<lambda>p. Inr (Some p))
                  else Inr None) (\<lambda>pred.
        and_then (num_from_slice bs IDX_LEVEL 4) (\<lambda>lvl.
        and_then (successors_count bs) (\<lambda>count.
        if \<not> vec_capacity_ok count then Inl Panic
        else
          and_then (if has_successor msk then decode_successors bs 0 count else Inr []) (\<lambda>succs.
          and_then (hash_from_bytes LEN_CHAIN_ID (subslice IDX_CHAIN_ID IDX_SUCCESSOR_COUNT bs)) (\<lambda>cid.
          Inr \<lparr>m_predecessor = pred, m_successors = succs, m_is_applied = mask_is_applied msk,
               m_level = word_of_nat lvl, m_chain_id = cid\<rparr>)))))
      else Inl (Err DecodeError))"

definition meta_codec :: "meta codec" where
  "meta_codec = \<lparr>encode = meta_encode, decode = meta_decode\<rparr>"

definition block_meta_schema :: "(block_hash, meta) schema" where
  "block_meta_schema = \<lparr>cf_name = ''block_meta_storage'', key_codec = hash_codec LEN_BLOCK_HASH,
     value_codec = meta_codec\<rparr>"

section \<open>The merge operator\<close>

text \<open>The stored buffer after the mask and the predecessor of the operand are merged in.\<close>

definition merge_front :: "bytes \<Rightarrow> bytes \<Rightarrow> bytes" where
  "merge_front val op =
     (let mask_val = val ! IDX_MASK;
          mask_op = op ! IDX_MASK;
          val1 = val[IDX_MASK := mask_val OR mask_op] in
      if has_predecessor mask_op \<and> \<not> has_predecessor mask_val
      then take IDX_PREDECESSOR val1 @ subslice IDX_PREDECESSOR IDX_LEVEL op @ drop IDX_LEVEL val1
      else val1)"

text \<open>
  One turn of the loop over the operands with a stored value. The stored value is
  indexed before its length is known to be sufficient, which panics on a short one. The check of the
  length at the end is a debug assertion and not part of a release build.
\<close>

definition merge_meta_step :: "bytes \<Rightarrow> bytes \<Rightarrow> unit failure + bytes" where
  "merge_meta_step val0 op =
     (if length op < LEN_FIXED_META then Inl (Err ())
      else if length val0 < LEN_FIXED_META then Inl Panic
      else
        let val = merge_front val0 op in
        case (successors_count val, successors_count op) of
          (Inr val_successors_count, Inr op_successors_count) \<Rightarrow>
            Inr (if has_successor (op ! IDX_MASK) \<and> \<not> has_successor (val0 ! IDX_MASK)
                    \<or> val_successors_count \<noteq> op_successors_count
                 then take IDX_SUCCESSOR_COUNT (take LEN_FIXED_META val) @ drop IDX_SUCCESSOR_COUNT op
                 else val)
        | _ \<Rightarrow> Inl Panic)"

fun merge_meta_loop :: "bytes option \<Rightarrow> bytes list \<Rightarrow> unit failure + bytes option" where
  "merge_meta_loop result [] = Inr result"
| "merge_meta_loop (Some val) (op # ops) =
     and_then (merge_meta_step val op) (\<lambda>val'. merge_meta_loop (Some val') ops)"
| "merge_meta_loop None (op # ops) = merge_meta_loop (Some op) ops"

definition merge_meta_value :: merge_operator where
  "merge_meta_value existing_val operands =
     (if (case existing_val of Some val \<Rightarrow> length val < LEN_FIXED_META | None \<Rightarrow> False) then Inl (Err ())
      else and_then (merge_meta_loop existing_val operands) (\<lambda>r. ok_or (Err ()) r))"

section \<open>Layout lemmas\<close>

lemma has_predecessor_bit: "has_predecessor m \<longleftrightarrow> bit m 2"
  using and_exp_eq_0_iff_not_bit [of m 2] by (simp add: has_predecessor_def MASK_HAS_PREDECESSOR_def)

lemma has_successor_bit: "has_successor m \<longleftrightarrow> bit m 1"
  using and_exp_eq_0_iff_not_bit [of m 1] by (simp add: has_successor_def MASK_HAS_SUCCESSOR_def)

lemma mask_is_applied_bit: "mask_is_applied m \<longleftrightarrow> bit m 0"
  using and_exp_eq_0_iff_not_bit [of m 0] by (simp add: mask_is_applied_def MASK_IS_APPLIED_def)

lemmas mask_bits = has_predecessor_bit has_successor_bit mask_is_applied_bit

lemma mask_or [simp]:
  "has_predecessor (a OR b) \<longleftrightarrow> has_predecessor a \<or> has_predecessor b"
  "has_successor (a OR b) \<longleftrightarrow> has_successor a \<or> has_successor b"
  "mask_is_applied (a OR b) \<longleftrightarrow> mask_is_applied a \<or> mask_is_applied b"
  by (simp_all add: mask_bits bit_or_iff)

lemma meta_mask_bits [simp]:
  "has_predecessor (meta_mask m) \<longleftrightarrow> m_predecessor m \<noteq> None"
  "has_successor (meta_mask m) \<longleftrightarrow> m_successors m \<noteq> []"
  "mask_is_applied (meta_mask m) \<longleftrightarrow> m_is_applied m"
  by (auto simp: meta_mask_def has_predecessor_def has_successor_def mask_is_applied_def
      MASK_IS_APPLIED_def MASK_HAS_SUCCESSOR_def MASK_HAS_PREDECESSOR_def)

lemma decode_successors_iff:
  "decode_successors bs i n = Inr hs \<longleftrightarrow>
     length hs = n \<and> (\<forall>h\<in>set hs. length h = 32) \<and>
     take (32 * n) (drop (49 + 32 * i) bs) = concat hs \<and> (n = 0 \<or> 49 + 32 * (i + n) \<le> length bs)"
proof (induction n arbitrary: i hs)
  case (Suc n)
  have split: "take (32 + 32 * n) ys = take 32 ys @ take (32 * n) (drop 32 ys)" for ys :: bytes
    by (simp add: take_add)
  show ?case
  proof (cases hs)
    case (Cons h hs')
    have "take (32 + 32 * n) (drop (49 + 32 * i) bs) = h @ concat hs' \<longleftrightarrow>
          take 32 (drop (49 + 32 * i) bs) = h \<and>
          take (32 * n) (drop (49 + 32 * (i + 1)) bs) = concat hs'"
      if "length h = 32" "81 + 32 * i \<le> length bs"
      using that by (auto simp: split append_eq_append_conv add.commute)
    then show ?thesis
      using Cons Suc.IH [of "i + 1" hs']
      by (auto simp: Let_def layout hash_from_bytes_def subslice_def and_then_Inr_iff algebra_simps)
  qed (auto simp: Let_def and_then_Inr_iff)
qed auto

text \<open>The fields of a buffer that is long enough, and when it decodes.\<close>

definition raw_count :: "bytes \<Rightarrow> nat" where
  "raw_count bs = from_be_bytes (subslice 41 49 bs)"

lemma successors_count_raw: "49 \<le> length bs \<Longrightarrow> successors_count bs = Inr (raw_count bs)"
  by (simp add: successors_count_def num_from_slice_def layout raw_count_def)

lemma meta_decode_iff:
  assumes "49 \<le> length bs"
  shows "meta_decode bs = Inr m \<longleftrightarrow>
    m_predecessor m = (if has_predecessor (bs ! 0) then Some (subslice 1 33 bs) else None) \<and>
    m_level m = word_of_nat (from_be_bytes (subslice 33 37 bs)) \<and>
    m_chain_id m = subslice 37 41 bs \<and>
    m_is_applied m = mask_is_applied (bs ! 0) \<and>
    vec_capacity_ok (raw_count bs) \<and>
    (if has_successor (bs ! 0) then decode_successors bs 0 (raw_count bs) = Inr (m_successors m)
     else m_successors m = [])"
proof -
  have "subslice 1 33 bs = subslice 1 33 bs \<and> length (subslice 1 33 bs) = 32"
    "length (subslice 37 41 bs) = 4"
    using assms by auto
  then show ?thesis
    using assms
    by (cases m) (auto simp: meta_decode_def layout Let_def successors_count_raw num_from_slice_def
        hash_from_bytes_def and_then_Inr_iff)
qed

lemma meta_decode_short: "meta_decode bs = Inr m \<Longrightarrow> 49 \<le> length bs"
  by (auto simp: meta_decode_def layout split: if_splits)

text \<open>Metadata as Rust can hold it: hashes of the right size, a successor vector that fits in memory.\<close>

definition meta_ok :: "meta \<Rightarrow> bool" where
  "meta_ok m \<longleftrightarrow> (case m_predecessor m of None \<Rightarrow> True | Some p \<Rightarrow> length p = 32) \<and>
     (\<forall>h\<in>set (m_successors m). length h = 32) \<and> length (m_chain_id m) = 4 \<and>
     vec_capacity_ok (length (m_successors m))"

lemma concat_length_32: "\<forall>h\<in>set hs. length h = 32 \<Longrightarrow> length (concat hs) = 32 * length (hs :: bytes list)"
  by (induction hs) auto

lemma meta_bytes_shape:
  assumes "meta_ok m"
  obtains p where "meta_bytes m = meta_mask m # p @ to_be_bytes 4 (unat (m_level m)) @ m_chain_id m @
      to_be_bytes 8 (length (m_successors m)) @ concat (m_successors m)"
    "length p = 32" "m_predecessor m \<noteq> None \<longrightarrow> m_predecessor m = Some p"
proof -
  define p where "p = (case m_predecessor m of Some p \<Rightarrow> p | None \<Rightarrow> BLANK_BLOCK_HASH)"
  have "length p = 32" "m_predecessor m \<noteq> None \<longrightarrow> m_predecessor m = Some p"
    using assms by (auto simp: p_def meta_ok_def layout split: option.splits)
  then show ?thesis
    using that [of p] by (simp add: meta_bytes_def p_def)
qed

lemma meta_roundtrip:
  assumes "meta_ok m"
  shows "meta_decode (meta_bytes m) = Inr m"
proof -
  obtain p where shape: "meta_bytes m = meta_mask m # p @ to_be_bytes 4 (unat (m_level m)) @ m_chain_id m @
      to_be_bytes 8 (length (m_successors m)) @ concat (m_successors m)" "length p = 32"
    and p: "m_predecessor m \<noteq> None \<longrightarrow> m_predecessor m = Some p"
    using assms by (rule meta_bytes_shape)
  let ?n = "length (m_successors m)"
  have ok: "length (m_chain_id m) = 4" "vec_capacity_ok ?n" "\<forall>h\<in>set (m_successors m). length h = 32"
    using assms by (simp_all add: meta_ok_def)
  have len: "length (meta_bytes m) = 49 + 32 * ?n"
    using shape ok by (simp add: concat_length_32)
  have n: "?n < 2 ^ 64"
    using ok by (simp add: vec_capacity_ok_def)
  have cnt: "raw_count (meta_bytes m) = ?n"
    using shape ok from_to_be_bytes_usize [OF n] by (simp add: raw_count_def subslice_def)
  have succ: "decode_successors (meta_bytes m) 0 ?n = Inr (m_successors m)"
    using shape ok len by (simp add: decode_successors_iff concat_length_32)
  have lvl: "subslice 33 37 (meta_bytes m) = to_be_bytes 4 (unat (m_level m))"
    and cid: "subslice 37 41 (meta_bytes m) = m_chain_id m"
    and pred: "subslice 1 33 (meta_bytes m) = p" and msk: "meta_bytes m ! 0 = meta_mask m"
    using shape ok by (simp_all add: subslice_def)
  show ?thesis
    using p ok cnt succ
    by (subst meta_decode_iff) (auto simp: len lvl cid pred [unfolded One_nat_def] msk from_to_be_bytes_word32)
qed

lemma meta_decode_ok:
  assumes "meta_decode bs = Inr m"
  shows "meta_ok m"
proof -
  have len: "49 \<le> length bs"
    using assms by (rule meta_decode_short)
  note d = assms [unfolded meta_decode_iff [OF len]]
  show ?thesis
    using d len by (auto simp: meta_ok_def vec_capacity_ok_def decode_successors_iff split: if_splits)
qed

section \<open>What a merge means\<close>

text \<open>
  The abstract merge: the applied flag is sticky, a known predecessor is never
  replaced, and the successors are replaced only by a vector of another length.
\<close>

definition meta_merge :: "meta \<Rightarrow> meta \<Rightarrow> meta" where
  "meta_merge v w = v\<lparr>
     m_is_applied := m_is_applied v \<or> m_is_applied w,
     m_predecessor := (case m_predecessor v of None \<Rightarrow> m_predecessor w | Some p \<Rightarrow> Some p),
     m_successors := (if length (m_successors v) = length (m_successors w)
                      then m_successors v else m_successors w)\<rparr>"

lemma meta_merge_ok: "meta_ok v \<Longrightarrow> meta_ok w \<Longrightarrow> meta_ok (meta_merge v w)"
  by (auto simp: meta_ok_def meta_merge_def split: option.splits)

lemma meta_merge_extend:
  "length xs \<noteq> length (m_successors m) \<Longrightarrow>
   meta_merge m (m\<lparr>m_successors := xs\<rparr>) = m\<lparr>m_successors := xs\<rparr>"
  by (cases m) (auto simp: meta_merge_def split: option.split)

lemma meta_merge_predecessor:
  "m_predecessor m = None \<Longrightarrow> meta_merge m (m\<lparr>m_predecessor := p\<rparr>) = m\<lparr>m_predecessor := p\<rparr>"
  by (cases m) (auto simp: meta_merge_def)

lemma merge_front_fields:
  assumes "49 \<le> length v" "49 \<le> length op"
  shows "length (merge_front v op) = length v"
    "merge_front v op ! 0 = (v ! 0 OR op ! 0)"
    "subslice 1 33 (merge_front v op) =
       (if has_predecessor (op ! 0) \<and> \<not> has_predecessor (v ! 0) then subslice 1 33 op else subslice 1 33 v)"
    "drop 33 (merge_front v op) = drop 33 v"
proof -
  obtain x xs where v: "v = x # xs"
    using assms by (cases v) auto
  have len: "48 \<le> length xs" "length (subslice 1 33 op) = 32"
    using assms v by auto
  show "length (merge_front v op) = length v" "merge_front v op ! 0 = (v ! 0 OR op ! 0)"
    "drop 33 (merge_front v op) = drop 33 v"
    using len by (auto simp: merge_front_def v Let_def layout)
  show "subslice 1 33 (merge_front v op) =
       (if has_predecessor (op ! 0) \<and> \<not> has_predecessor (v ! 0) then subslice 1 33 op else subslice 1 33 v)"
    using len by (auto simp: merge_front_def v Let_def layout subslice_def)
qed

lemma subslice_tail: "drop 33 xs = drop 33 ys \<Longrightarrow> 33 \<le> a \<Longrightarrow> subslice a b xs = subslice a b (ys :: 'a list)"
  using drop_drop [of "a - 33" 33 xs] drop_drop [of "a - 33" 33 ys] by (simp add: subslice_def)

lemma subslice_splice:
  assumes "41 \<le> length f" "41 \<le> length op"
  shows "b \<le> 41 \<Longrightarrow> subslice a b (take 41 f @ drop 41 op) = subslice a b f"
    "41 \<le> a \<Longrightarrow> subslice a b (take 41 f @ drop 41 op) = subslice a b op"
    "drop 49 (take 41 f @ drop 41 op) = drop 49 op"
  using assms by (auto simp: subslice_def drop_take min_def)

lemma merge_meta_step_eq:
  assumes "49 \<le> length v" "49 \<le> length op"
  shows "merge_meta_step v op =
    Inr (if has_successor (op ! 0) \<and> \<not> has_successor (v ! 0) \<or> raw_count v \<noteq> raw_count op
         then take 41 (merge_front v op) @ drop 41 op else merge_front v op)"
proof -
  note f = merge_front_fields [OF assms]
  have "raw_count (merge_front v op) = raw_count v"
    by (simp add: raw_count_def subslice_tail [OF f(4)])
  moreover have "successors_count (merge_front v op) = Inr (raw_count (merge_front v op))"
    using assms f(1) by (intro successors_count_raw) simp
  ultimately show ?thesis
    using assms successors_count_raw [of op] by (auto simp: merge_meta_step_def layout Let_def)
qed

lemma decode_successors_tail:
  assumes "drop 49 xs = drop 49 ys" "length xs = length ys"
  shows "decode_successors xs 0 n = Inr hs \<longleftrightarrow> decode_successors ys 0 n = Inr hs"
  using assms by (simp add: decode_successors_iff)

lemma merge_meta_step_refines:
  assumes v: "meta_decode v = Inr mv" and w: "meta_decode op = Inr mw"
    and canon: "has_successor (op ! 0) \<longleftrightarrow> raw_count op \<noteq> 0"
  shows "\<exists>r. merge_meta_step v op = Inr r \<and> meta_decode r = Inr (meta_merge mv mw)"
proof -
  have lv: "49 \<le> length v" and lw: "49 \<le> length op"
    using v w by (auto dest: meta_decode_short)
  note dv = v [unfolded meta_decode_iff [OF lv]] and dw = w [unfolded meta_decode_iff [OF lw]]
  let ?f = "merge_front v op"
  note f = merge_front_fields [OF lv lw]
  have tail: "subslice a b ?f = subslice a b v" if "33 \<le> a" for a b
    using f(4) that by (rule subslice_tail)
  have succ_f: "decode_successors ?f 0 n = Inr hs \<longleftrightarrow> decode_successors v 0 n = Inr hs" for n hs
    using f(1,4) drop_drop [of 16 33 v] drop_drop [of 16 33 ?f] by (intro decode_successors_tail) simp_all
  have lens: "has_successor (v ! 0) \<longrightarrow> length (m_successors mv) = raw_count v"
    "has_successor (op ! 0) \<longrightarrow> length (m_successors mw) = raw_count op"
    using dv dw by (auto simp: decode_successors_iff)
  have pred: "m_predecessor (meta_merge mv mw) =
      (if has_predecessor (v ! 0 OR op ! 0) then Some (subslice 1 33 ?f) else None)"
    using dv dw f(3) by (simp add: meta_merge_def split: option.split)
  have fixed: "m_level (meta_merge mv mw) = m_level mv" "m_chain_id (meta_merge mv mw) = m_chain_id mv"
    "m_is_applied (meta_merge mv mw) = mask_is_applied (v ! 0 OR op ! 0)"
    using dv dw by (simp_all add: meta_merge_def)
  show ?thesis
  proof (cases "has_successor (op ! 0) \<and> \<not> has_successor (v ! 0) \<or> raw_count v \<noteq> raw_count op")
    case True
    let ?r = "take 41 ?f @ drop 41 op"
    have lr: "length ?r = length op"
      using lv lw f(1) by simp
    have lf: "41 \<le> length ?f" "41 \<le> length op"
      using lv lw f(1) by simp_all
    note r = subslice_splice [OF lf]
    have "decode_successors ?r 0 n = Inr hs \<longleftrightarrow> decode_successors op 0 n = Inr hs" for n hs
      using lr r(3) by (intro decode_successors_tail) simp_all
    moreover have "?r ! 0 = (v ! 0 OR op ! 0)"
      using lv f(1,2) by (simp add: nth_append)
    moreover have "raw_count ?r = raw_count op"
      by (simp add: raw_count_def r(2))
    moreover have "m_successors (meta_merge mv mw) = m_successors mw"
      using lens True dv dw by (auto simp: meta_merge_def)
    moreover have "decode_successors op 0 (raw_count op) = Inr (m_successors mw)"
      using dw canon by (cases "has_successor (op ! 0)") simp_all
    ultimately have "meta_decode ?r = Inr (meta_merge mv mw)"
      using lr lw dv dw by (subst meta_decode_iff) (simp_all add: pred fixed r(1) tail)
    then show ?thesis
      unfolding merge_meta_step_eq [OF lv lw] if_P [OF True] by blast
  next
    case False
    then have "m_successors (meta_merge mv mw) = m_successors mv"
      using lens dv dw canon by (auto simp: meta_merge_def)
    moreover have "raw_count ?f = raw_count v"
      by (simp add: raw_count_def tail)
    ultimately have "meta_decode ?f = Inr (meta_merge mv mw)"
      using f(1,2) lv dv False by (subst meta_decode_iff) (auto simp: pred fixed tail succ_f)
    then show ?thesis
      unfolding merge_meta_step_eq [OF lv lw] if_not_P [OF False] by blast
  qed
qed

lemma meta_bytes_canonical:
  assumes "meta_ok m"
  shows "has_successor (meta_bytes m ! 0) \<longleftrightarrow> raw_count (meta_bytes m) \<noteq> 0"
proof -
  have "49 \<le> length (meta_bytes m)" and d: "meta_decode (meta_bytes m) = Inr m"
    using assms meta_roundtrip meta_decode_short by blast+
  moreover have "meta_bytes m ! 0 = meta_mask m"
    by (simp add: meta_bytes_def)
  moreover obtain p where "meta_bytes m = meta_mask m # p @ to_be_bytes 4 (unat (m_level m)) @ m_chain_id m @
      to_be_bytes 8 (length (m_successors m)) @ concat (m_successors m)" "length p = 32"
    using assms by (rule meta_bytes_shape)
  then have "raw_count (meta_bytes m) = length (m_successors m)"
    using assms by (simp add: raw_count_def subslice_def from_to_be_bytes meta_ok_def vec_capacity_ok_def)
  ultimately show ?thesis
    by simp
qed

lemma merge_meta_value_refines:
  assumes "meta_decode v = Inr mv" "meta_ok mw"
  shows "\<exists>r. merge_meta_value (Some v) [meta_bytes mw] = Inr r \<and> meta_decode r = Inr (meta_merge mv mw)"
proof -
  obtain r where "merge_meta_step v (meta_bytes mw) = Inr r" "meta_decode r = Inr (meta_merge mv mw)"
    using merge_meta_step_refines [OF assms(1) meta_roundtrip [OF assms(2)] meta_bytes_canonical [OF assms(2)]]
    by blast
  then show ?thesis
    using meta_decode_short [OF assms(1)] by (simp add: merge_meta_value_def layout)
qed

text \<open>A RocksDB column family with this schema and merge operator is a typed map with \<open>meta_merge\<close>.\<close>

interpretation bm: schema_merge_store "map_rocks (\<lambda>_. merge_meta_value)" block_meta_schema
  "\<lambda>r. r (cf_name block_meta_schema)" "\<lambda>h. length h = LEN_BLOCK_HASH" meta_ok id meta_bytes
  merge_meta_value "\<lambda>v w. Some (meta_merge v w)"
proof unfold_locales
  show "\<exists>mb. merge_meta_value (Some vb) [meta_bytes w] = Inr mb \<and>
      decode (value_codec block_meta_schema) mb = Inr u \<and> meta_ok u"
    if "decode (value_codec block_meta_schema) vb = Inr v" "meta_ok v" "meta_ok w"
      "Some (meta_merge v w) = Some u" for vb v w u
    using that merge_meta_value_refines [of vb v w] meta_merge_ok
    by (auto simp: block_meta_schema_def meta_codec_def)
qed (simp_all add: map_rocks_def block_meta_schema_def meta_codec_def meta_encode_def meta_roundtrip
    hash_codec_def hash_from_bytes_def merge_meta_value_def)

section \<open>Properties\<close>

definition sample_meta :: meta where
  "sample_meta = \<lparr>m_predecessor = Some (replicate 32 3), m_successors = [replicate 32 5, replicate 32 6],
     m_is_applied = True, m_level = 10, m_chain_id = [1, 2, 3, 4]\<rparr>"

lemma sample_meta_ok: "meta_ok sample_meta"
  by (simp add: sample_meta_def meta_ok_def vec_capacity_ok_def)

text \<open>
  Property C29. Decoding the bytes that \<^verbatim>\<open>Meta\<close> encodes to gives the record back.
\<close>

theorem meta_codec_roundtrip:
  assumes "meta_ok m"
  shows "and_then (map_err Err (encode meta_codec m)) (decode meta_codec) = Inr m"
  using meta_roundtrip [OF assms] by (simp add: meta_codec_def meta_encode_def)

theorem meta_codec_roundtrip_witness:
  "and_then (map_err Err (encode meta_codec sample_meta)) (decode meta_codec) = Inr sample_meta"
  using sample_meta_ok by (rule meta_codec_roundtrip)

text \<open>
  Property C21. The merge operator implements the abstract merge on encoded records: on any
  stored bytes that decode, merging an encoded record succeeds without panic, keeps the
  predecessor and the applied flag once they are set, and replaces the successors only by a
  vector of another length.
\<close>

theorem merge_operator_refines:
  assumes "meta_decode v = Inr mv" "meta_ok mw"
  shows "\<exists>r. merge_meta_value (Some v) [meta_bytes mw] = Inr r \<and> meta_decode r = Inr (meta_merge mv mw)"
  using assms by (rule merge_meta_value_refines)

theorem merge_operator_refines_witness:
  "\<exists>r. merge_meta_value (Some (meta_bytes (genesis_meta (replicate 32 3) [1, 2, 3, 4] False))) [meta_bytes sample_meta] = Inr r \<and>
    meta_decode r = Inr (meta_merge (genesis_meta (replicate 32 3) [1, 2, 3, 4] False) sample_meta)"
proof (rule merge_operator_refines)
  show "meta_decode (meta_bytes (genesis_meta (replicate 32 3) [1, 2, 3, 4] False)) =
      Inr (genesis_meta (replicate 32 3) [1, 2, 3, 4] False)"
    by (rule meta_roundtrip) (simp add: genesis_meta_def meta_ok_def vec_capacity_ok_def)
qed (rule sample_meta_ok)

end
