(* ===== verification/BlockMetaStorage.thy ===== *)
theory BlockMetaStorage
  imports BlockMeta
begin

text \<open>
  The operations of \<^verbatim>\<open>BlockMetaStorage\<close> on the metadata column family. They reach the
  store only through the trait record \<open>kv_store\<close>; the locale \<open>block_meta_kv\<close> is the
  contract \<open>kv_merge_contract\<close> at the metadata types.
\<close>

section \<open>Operations\<close>

definition storageA :: "('s, 'a) db_act \<Rightarrow> ('s, 'a) storage_act" where
  "storageA m = map_errA (map_failure DBErr) m"

lemma storageA_run [act_simps]:
  "m s = (Inr a, s') \<Longrightarrow> storageA m s = (Inr a, s')"
  by (simp add: storageA_def map_errA_def)

definition bms_put :: "('s, block_hash, meta) kv_store \<Rightarrow> block_hash \<Rightarrow> meta \<Rightarrow> ('s, unit) storage_act" where
  "bms_put kv bh m = storageA (kv_merge kv bh m)"

definition bms_get :: "('s, block_hash, meta) kv_store \<Rightarrow> block_hash \<Rightarrow> ('s, meta option) storage_act" where
  "bms_get kv bh = storageA (kv_get kv bh)"

definition bms_contains :: "('s, block_hash, meta) kv_store \<Rightarrow> block_hash \<Rightarrow> ('s, bool) storage_act" where
  "bms_contains kv bh = storageA (kv_contains kv bh)"

definition is_applied :: "('s, block_hash, meta) kv_store \<Rightarrow> block_hash \<Rightarrow> ('s, bool) storage_act" where
  "is_applied kv bh = bindA (bms_get kv bh) (\<lambda>m.
     ret (case m of Some meta \<Rightarrow> m_is_applied meta | None \<Rightarrow> False))"

text \<open>First half of \<^verbatim>\<open>put_block_header\<close>: the record of the block itself.\<close>

definition put_own_record ::
  "('s, block_hash, meta) kv_store \<Rightarrow> block_header_with_hash \<Rightarrow> chain_id \<Rightarrow> ('s, meta) storage_act" where
  "put_own_record kv bh cid =
     bindA (bms_get kv (bh_hash bh)) (\<lambda>stored.
     case stored of
       Some meta \<Rightarrow>
         (if m_predecessor meta = None then
            let meta' = meta\<lparr>m_predecessor := Some (h_predecessor (bh_header bh))\<rparr> in
            bindA (bms_put kv (bh_hash bh) meta') (\<lambda>_. ret meta')
          else ret meta)
     | None \<Rightarrow>
         let meta = \<lparr>m_predecessor = Some (h_predecessor (bh_header bh)), m_successors = [],
                     m_is_applied = False, m_level = h_level (bh_header bh), m_chain_id = cid\<rparr> in
         bindA (bms_put kv (bh_hash bh) meta) (\<lambda>_. ret meta))"

text \<open>Second half: the record of the predecessor learns its successor.\<close>

definition put_predecessor_record ::
  "('s, block_hash, meta) kv_store \<Rightarrow> block_header_with_hash \<Rightarrow> chain_id \<Rightarrow> ('s, unit) storage_act" where
  "put_predecessor_record kv bh cid =
     bindA (bms_get kv (h_predecessor (bh_header bh))) (\<lambda>stored.
     case stored of
       Some meta \<Rightarrow>
         let need_change = (if m_successors meta = [] then True
                            else bh_hash bh \<notin> set (m_successors meta)) in
         whenA need_change
           (bms_put kv (h_predecessor (bh_header bh))
              (meta\<lparr>m_successors := m_successors meta @ [bh_hash bh]\<rparr>))
     | None \<Rightarrow>
         bms_put kv (h_predecessor (bh_header bh))
           \<lparr>m_predecessor = None, m_successors = [bh_hash bh], m_is_applied = False,
            m_level = h_level (bh_header bh) - 1, m_chain_id = cid\<rparr>)"

definition put_block_header ::
  "('s, block_hash, meta) kv_store \<Rightarrow> block_header_with_hash \<Rightarrow> chain_id \<Rightarrow> ('s, meta) storage_act" where
  "put_block_header kv bh cid =
     bindA (put_own_record kv bh cid) (\<lambda>block_metadata.
     bindA (put_predecessor_record kv bh cid) (\<lambda>_.
     ret block_metadata))"

text \<open>What block application leaves behind for the application of the next block.\<close>

record block_additional_data =
  max_operations_ttl :: "16 word"
  last_allowed_fork_level :: i32
  bad_protocol_hash :: protocol_hash
  bad_next_protocol_hash :: protocol_hash
  block_metadata_hash :: "bytes option"
  ops_metadata_hash :: "bytes option"
  ops_metadata_hashes :: "bytes list list option"

definition new_additional_data ::
  "16 word \<Rightarrow> i32 \<Rightarrow> protocol_hash \<Rightarrow> protocol_hash \<Rightarrow> bytes option \<Rightarrow> bytes option \<Rightarrow>
   bytes list list option \<Rightarrow> block_additional_data" where
  "new_additional_data ttl fork ph nph bmh omh omhs = \<lparr>
     max_operations_ttl = ttl, last_allowed_fork_level = fork, bad_protocol_hash = ph,
     bad_next_protocol_hash = nph, block_metadata_hash = bmh, ops_metadata_hash = omh,
     ops_metadata_hashes = omhs\<rparr>"

definition into_metadata_hashes :: "block_additional_data \<Rightarrow> bytes option \<times> bytes option" where
  "into_metadata_hashes d = (block_metadata_hash d, ops_metadata_hash d)"

definition into_metadata_hashes_ttl ::
  "block_additional_data \<Rightarrow> bytes option \<times> bytes option \<times> 16 word" where
  "into_metadata_hashes_ttl d = (block_metadata_hash d, ops_metadata_hash d, max_operations_ttl d)"

definition put_block_additional_data ::
  "('s, block_hash, block_additional_data) kv_store \<Rightarrow> block_hash \<Rightarrow> block_additional_data \<Rightarrow>
   ('s, unit) storage_act" where
  "put_block_additional_data kv bh additional_data = storageA (kv_put kv bh additional_data)"

definition get_additional_data ::
  "('s, block_hash, block_additional_data) kv_store \<Rightarrow> block_hash \<Rightarrow>
   ('s, block_additional_data option) storage_act" where
  "get_additional_data kv bh = storageA (kv_get kv bh)"

section \<open>The abstract effect\<close>

text \<open>What the operation does to the map of metadata, written without the store.\<close>

definition own_record :: "(block_hash \<rightharpoonup> meta) \<Rightarrow> block_header_with_hash \<Rightarrow> chain_id \<Rightarrow> meta" where
  "own_record v bh cid =
     (case v (bh_hash bh) of
        None \<Rightarrow> new_meta False (Some (h_predecessor (bh_header bh))) (h_level (bh_header bh)) cid
      | Some m \<Rightarrow> (case m_predecessor m of
                    None \<Rightarrow> m\<lparr>m_predecessor := Some (h_predecessor (bh_header bh))\<rparr>
                  | Some _ \<Rightarrow> m))"

definition predecessor_record :: "(block_hash \<rightharpoonup> meta) \<Rightarrow> block_header_with_hash \<Rightarrow> chain_id \<Rightarrow> meta" where
  "predecessor_record v bh cid =
     (case v (h_predecessor (bh_header bh)) of
        None \<Rightarrow> (new_meta False None (h_level (bh_header bh) - 1) cid)\<lparr>m_successors := [bh_hash bh]\<rparr>
      | Some m \<Rightarrow> if bh_hash bh \<in> set (m_successors m) then m
                  else m\<lparr>m_successors := m_successors m @ [bh_hash bh]\<rparr>)"

definition put_header_view ::
  "(block_hash \<rightharpoonup> meta) \<Rightarrow> block_header_with_hash \<Rightarrow> chain_id \<Rightarrow> block_hash \<rightharpoonup> meta" where
  "put_header_view v bh cid =
     (let v' = v(bh_hash bh \<mapsto> own_record v bh cid) in
      v'(h_predecessor (bh_header bh) \<mapsto> predecessor_record v' bh cid))"

text \<open>Headers as the node accepts them: both hashes and the chain id have their size.\<close>

definition header_ok :: "block_header_with_hash \<Rightarrow> chain_id \<Rightarrow> bool" where
  "header_ok bh cid \<longleftrightarrow> length (bh_hash bh) = LEN_BLOCK_HASH \<and>
     length (h_predecessor (bh_header bh)) = LEN_BLOCK_HASH \<and> length cid = LEN_CHAIN_ID"

text \<open>No block has so many successors that its vector could not be extended in memory.\<close>

definition room :: "(block_hash \<rightharpoonup> meta) \<Rightarrow> bool" where
  "room v \<longleftrightarrow> (\<forall>b m. v b = Some m \<longrightarrow> vec_capacity_ok (Suc (length (m_successors m))))"

locale block_meta_kv =
  kv_merge_contract kv view inv "\<lambda>h. length h = LEN_BLOCK_HASH" meta_ok
    "\<lambda>v w. Some (meta_merge v w)"
  for kv :: "('s, block_hash, meta) kv_store"
    and view :: "'s \<Rightarrow> block_hash \<rightharpoonup> meta"
    and inv :: "'s \<Rightarrow> bool"
begin

lemma bms_get_spec:
  "inv s \<Longrightarrow> length h = LEN_BLOCK_HASH \<Longrightarrow> bms_get kv h s = (Inr (view s h), s)"
  by (simp add: bms_get_def act_simps get_law)

lemma bms_put_spec:
  assumes "inv s" "length h = LEN_BLOCK_HASH" "meta_ok m"
  shows "\<exists>s'. bms_put kv h m s = (Inr (), s') \<and> inv s' \<and>
    view s' = (view s)(h \<mapsto> (case view s h of None \<Rightarrow> m | Some w \<Rightarrow> meta_merge w m))"
proof -
  obtain s' where s': "kv_merge kv h m s = (Inr (), s')" "inv s'"
    "view s' = (view s)(h \<mapsto> (case view s h of None \<Rightarrow> m | Some w \<Rightarrow> meta_merge w m))"
    using merge_law [OF assms] by (fastforce simp: merged_def split: option.splits)
  have "bms_put kv h m s = (Inr (), s')"
    using s'(1) by (simp add: bms_put_def act_simps)
  with s' show ?thesis
    by blast
qed

lemma put_own_record_spec:
  assumes "inv s" "header_ok bh cid"
  shows "\<exists>s'. put_own_record kv bh cid s = (Inr (own_record (view s) bh cid), s') \<and> inv s' \<and>
    view s' = (view s)(bh_hash bh \<mapsto> own_record (view s) bh cid)"
proof -
  have len: "length (bh_hash bh) = LEN_BLOCK_HASH"
    using assms by (simp add: header_ok_def)
  note get = bms_get_spec [OF assms(1) len]
  let ?m = "own_record (view s) bh cid"
  have ok: "meta_ok ?m"
    using assms view_ok [OF assms(1), of "bh_hash bh"]
    by (auto simp: own_record_def new_meta_def meta_ok_def header_ok_def layout vec_capacity_ok_def
        split: option.splits)
  show ?thesis
  proof (cases "\<exists>m. view s (bh_hash bh) = Some m \<and> m_predecessor m \<noteq> None")
    case True
    then show ?thesis
      using assms(1) by (auto simp: put_own_record_def bindA_def get own_record_def ret_def fun_upd_idem)
  next
    case False
    obtain s' where "bms_put kv (bh_hash bh) ?m s = (Inr (), s')" "inv s'"
      "view s' = (view s)(bh_hash bh \<mapsto> (case view s (bh_hash bh) of None \<Rightarrow> ?m | Some w \<Rightarrow> meta_merge w ?m))"
      using bms_put_spec [OF assms(1) len ok] by blast
    with False show ?thesis
      by (auto simp: put_own_record_def bindA_def get own_record_def ret_def new_meta_def Let_def
          meta_merge_predecessor split: option.splits)
  qed
qed

lemma put_predecessor_record_spec:
  assumes "inv s" "header_ok bh cid" "room (view s)"
  shows "\<exists>s'. put_predecessor_record kv bh cid s = (Inr (), s') \<and> inv s' \<and>
    view s' = (view s)(h_predecessor (bh_header bh) \<mapsto> predecessor_record (view s) bh cid)"
proof -
  let ?p = "h_predecessor (bh_header bh)"
  have len: "length ?p = LEN_BLOCK_HASH"
    using assms by (simp add: header_ok_def)
  note get = bms_get_spec [OF assms(1) len]
  let ?m = "predecessor_record (view s) bh cid"
  have ok: "meta_ok ?m"
    using assms view_ok [OF assms(1), of ?p]
    by (auto simp: predecessor_record_def new_meta_def meta_ok_def header_ok_def layout room_def
        vec_capacity_ok_def split: option.splits)
  show ?thesis
  proof (cases "\<exists>m. view s ?p = Some m \<and> bh_hash bh \<in> set (m_successors m)")
    case True
    then show ?thesis
      using assms(1) by (auto simp: put_predecessor_record_def bindA_def get predecessor_record_def
          whenA_def ret_def fun_upd_idem Let_def)
  next
    case False
    obtain s' where "bms_put kv ?p ?m s = (Inr (), s')" "inv s'"
      "view s' = (view s)(?p \<mapsto> (case view s ?p of None \<Rightarrow> ?m | Some w \<Rightarrow> meta_merge w ?m))"
      using bms_put_spec [OF assms(1) len ok] by blast
    with False show ?thesis
      by (auto simp: put_predecessor_record_def bindA_def get predecessor_record_def whenA_def ret_def
          new_meta_def Let_def meta_merge_extend split: option.splits)
  qed
qed

lemma room_own:
  assumes "room (view s)"
  shows "room ((view s)(bh_hash bh \<mapsto> own_record (view s) bh cid))"
  using assms by (auto simp: room_def own_record_def new_meta_def vec_capacity_ok_def split: option.splits)

lemma put_block_header_spec:
  assumes "inv s" "header_ok bh cid" "room (view s)"
  shows "\<exists>s'. put_block_header kv bh cid s = (Inr (own_record (view s) bh cid), s') \<and> inv s' \<and>
    view s' = put_header_view (view s) bh cid"
proof -
  obtain s1 where s1: "put_own_record kv bh cid s = (Inr (own_record (view s) bh cid), s1)" "inv s1"
    and v1: "view s1 = (view s)(bh_hash bh \<mapsto> own_record (view s) bh cid)"
    using put_own_record_spec [OF assms(1,2)] by blast
  obtain s2 where "put_predecessor_record kv bh cid s1 = (Inr (), s2)" "inv s2"
    "view s2 = (view s1)(h_predecessor (bh_header bh) \<mapsto> predecessor_record (view s1) bh cid)"
    using put_predecessor_record_spec [OF s1(2) assms(2)] room_own [OF assms(3)] v1 by metis
  with s1 v1 show ?thesis
    by (simp add: put_block_header_def bindA_def ret_def put_header_view_def Let_def)
qed

lemma is_applied_spec:
  "inv s \<Longrightarrow> length h = LEN_BLOCK_HASH \<Longrightarrow>
   is_applied kv h s = (Inr (\<exists>m. view s h = Some m \<and> m_is_applied m), s)"
  by (auto simp: is_applied_def bindA_def bms_get_spec ret_def split: option.splits)

end

text \<open>The node's own store: RocksDB with the metadata schema and merge operator.\<close>

abbreviation meta_db :: "cfs rocks" where
  "meta_db \<equiv> map_rocks (\<lambda>_. merge_meta_value)"

abbreviation meta_kv :: "(cfs, block_hash, meta) kv_store" where
  "meta_kv \<equiv> db_kv meta_db block_meta_schema"

abbreviation meta_view :: "cfs \<Rightarrow> block_hash \<rightharpoonup> meta" where
  "meta_view \<equiv> bm.tview"

abbreviation meta_inv :: "cfs \<Rightarrow> bool" where
  "meta_inv \<equiv> bm.tinv"

interpretation bms: block_meta_kv meta_kv meta_view meta_inv
  by unfold_locales

section \<open>Invariants of the metadata map\<close>

text \<open>
  A later record keeps what an earlier one knew: the predecessor, the applied flag,
  the level and the chain, and a successor vector that only grows.
\<close>

definition meta_grows :: "meta \<Rightarrow> meta \<Rightarrow> bool" where
  "meta_grows m m' \<longleftrightarrow>
     (m_predecessor m \<noteq> None \<longrightarrow> m_predecessor m' = m_predecessor m) \<and>
     (m_is_applied m \<longrightarrow> m_is_applied m') \<and>
     m_level m' = m_level m \<and> m_chain_id m' = m_chain_id m \<and>
     prefix (m_successors m) (m_successors m')"

definition view_grows :: "(block_hash \<rightharpoonup> meta) \<Rightarrow> (block_hash \<rightharpoonup> meta) \<Rightarrow> bool" where
  "view_grows v v' \<longleftrightarrow> (\<forall>b m. v b = Some m \<longrightarrow> (\<exists>m'. v' b = Some m' \<and> meta_grows m m'))"

text \<open>Every block with a known predecessor is listed among the successors of that predecessor.\<close>

definition linked :: "(block_hash \<rightharpoonup> meta) \<Rightarrow> bool" where
  "linked v \<longleftrightarrow> (\<forall>b m p. v b = Some m \<longrightarrow> m_predecessor m = Some p \<longrightarrow> p \<noteq> b \<longrightarrow>
     (\<exists>mp. v p = Some mp \<and> b \<in> set (m_successors mp)))"

lemma meta_grows_refl [simp]: "meta_grows m m"
  by (simp add: meta_grows_def)

lemma own_record_grows: "v (bh_hash bh) = Some m \<Longrightarrow> meta_grows m (own_record v bh cid)"
  by (auto simp: own_record_def meta_grows_def split: option.splits)

lemma predecessor_record_grows:
  "v (h_predecessor (bh_header bh)) = Some m \<Longrightarrow> meta_grows m (predecessor_record v bh cid)"
  by (auto simp: predecessor_record_def meta_grows_def split: option.splits)

lemma meta_grows_trans: "meta_grows a b \<Longrightarrow> meta_grows b c \<Longrightarrow> meta_grows a c"
  by (auto simp: meta_grows_def)

lemma put_header_view_grows: "view_grows v (put_header_view v bh cid)"
proof -
  let ?v1 = "v(bh_hash bh \<mapsto> own_record v bh cid)"
  have "view_grows v ?v1"
    using own_record_grows by (auto simp: view_grows_def)
  moreover have "view_grows ?v1 (put_header_view v bh cid)"
    using predecessor_record_grows [of ?v1]
    by (auto simp: view_grows_def put_header_view_def Let_def)
  ultimately show ?thesis
    unfolding view_grows_def by (meson meta_grows_trans)
qed

lemma own_record_predecessor: "\<exists>p. m_predecessor (own_record v bh cid) = Some p"
  by (auto simp: own_record_def new_meta_def split: option.splits)

lemma put_header_view_origin:
  assumes "put_header_view v bh cid b = Some m" "m_predecessor m = Some p"
  shows "(\<exists>m0. v b = Some m0 \<and> m_predecessor m0 = Some p) \<or>
         (b = bh_hash bh \<and> p = h_predecessor (bh_header bh))"
  using assms
  by (auto simp: put_header_view_def Let_def own_record_def predecessor_record_def new_meta_def
      split: if_splits option.splits)

lemma put_header_view_lists:
  "\<exists>mp. put_header_view v bh cid (h_predecessor (bh_header bh)) = Some mp \<and> bh_hash bh \<in> set (m_successors mp)"
  by (auto simp: put_header_view_def Let_def predecessor_record_def new_meta_def split: option.splits)

lemma put_header_view_linked:
  assumes "linked v"
  shows "linked (put_header_view v bh cid)"
  unfolding linked_def
proof (intro allI impI)
  fix b m p
  assume "put_header_view v bh cid b = Some m" "m_predecessor m = Some p" "p \<noteq> b"
  then consider m0 where "v b = Some m0" "m_predecessor m0 = Some p"
    | "b = bh_hash bh" "p = h_predecessor (bh_header bh)"
    using put_header_view_origin by blast
  then show "\<exists>mp. put_header_view v bh cid p = Some mp \<and> b \<in> set (m_successors mp)"
  proof cases
    case 1
    then obtain mp where "v p = Some mp" "b \<in> set (m_successors mp)"
      using assms \<open>p \<noteq> b\<close> unfolding linked_def by blast
    then show ?thesis
      using put_header_view_grows [of v bh cid] unfolding view_grows_def meta_grows_def
      by (meson in_mono set_mono_prefix)
  next
    case 2
    then show ?thesis
      using put_header_view_lists by simp
  qed
qed

lemma own_record_put:
  "own_record (put_header_view v bh cid) bh cid' = the (put_header_view v bh cid (bh_hash bh))"
  by (auto simp: own_record_def put_header_view_def Let_def predecessor_record_def new_meta_def
      split: option.splits)

lemma put_header_view_idem:
  "put_header_view (put_header_view v bh cid) bh cid' = put_header_view v bh cid"
proof -
  let ?v = "put_header_view v bh cid"
  have "?v(bh_hash bh \<mapsto> own_record ?v bh cid') = ?v"
    using own_record_put [of v bh cid cid']
    by (auto simp: put_header_view_def Let_def fun_upd_idem_iff)
  moreover obtain mp where "?v (h_predecessor (bh_header bh)) = Some mp" "bh_hash bh \<in> set (m_successors mp)"
    using put_header_view_lists by blast
  then have "?v(h_predecessor (bh_header bh) \<mapsto> predecessor_record ?v bh cid') = ?v"
    by (simp add: predecessor_record_def fun_upd_idem)
  ultimately show ?thesis
    by (subst (1) put_header_view_def) (simp add: Let_def)
qed

section \<open>Properties\<close>

text \<open>
  Property C23. On any store that keeps the key-value contract with the metadata merge, storing a
  header succeeds, returns the record of the block, and changes the metadata exactly as
  \<open>put_header_view\<close> says: the block gets its predecessor if none was known, the
  predecessor gets the block appended to its successors once, a missing record is created,
  and no other record changes.
\<close>

theorem put_block_header_refines:
  assumes "block_meta_kv kv view good" "good s" "header_ok bh cid" "room (view s)"
  shows "\<exists>s'. put_block_header kv bh cid s = (Inr (own_record (view s) bh cid), s') \<and> good s' \<and>
    view s' = put_header_view (view s) bh cid"
  using assms by (rule block_meta_kv.put_block_header_spec)

text \<open>A header at level 1 on a genesis hash, and the empty database.\<close>

definition sample_header :: block_header_with_hash where
  "sample_header = \<lparr>bh_hash = replicate 32 7, bh_header = \<lparr>h_level = 1, h_proto = 0,
     h_predecessor = replicate 32 3, h_timestamp = 0, h_validation_pass = 4, h_operations_hash = [],
     h_fitness = [], h_context = [], h_protocol_data = []\<rparr>\<rparr>"

definition empty_cfs :: cfs where
  "empty_cfs = (\<lambda>_ _. None)"

lemma sample_ok: "header_ok sample_header [0, 0, 0, 0]"
  by (simp add: header_ok_def sample_header_def layout)

lemma empty_cfs_ok: "meta_inv empty_cfs" "room (meta_view empty_cfs)" "linked (meta_view empty_cfs)"
  by (simp_all add: empty_cfs_def bm.tinv_def bm.tview_def room_def linked_def)

theorem put_block_header_refines_witness:
  "\<exists>s'. put_block_header meta_kv sample_header [0, 0, 0, 0] empty_cfs =
      (Inr (own_record (meta_view empty_cfs) sample_header [0, 0, 0, 0]), s') \<and> meta_inv s' \<and>
    meta_view s' = put_header_view (meta_view empty_cfs) sample_header [0, 0, 0, 0]"
  using put_block_header_refines [of meta_kv meta_view meta_inv empty_cfs sample_header "[0, 0, 0, 0]"]
    bms.block_meta_kv_axioms empty_cfs_ok(1,2) sample_ok by blast

text \<open>
  Storing a header never loses information: known predecessors, applied flags,
  levels and chain ids stay, successor vectors only grow; if every block with a known
  predecessor was listed by that predecessor, this is still so afterwards; and storing the
  same header again changes nothing.
\<close>

theorem put_block_header_keeps:
  assumes "block_meta_kv kv view good" "good s" "header_ok bh cid" "room (view s)"
    and "put_block_header kv bh cid s = (Inr m, s')" "linked (view s)"
  shows "view_grows (view s) (view s') \<and> linked (view s') \<and> put_header_view (view s') bh cid = view s'"
proof -
  have "view s' = put_header_view (view s) bh cid"
    using block_meta_kv.put_block_header_spec [OF assms(1-4)] assms(5) by auto
  then show ?thesis
    using put_header_view_grows put_header_view_linked [OF assms(6)] put_header_view_idem by simp
qed

theorem put_block_header_keeps_witness:
  "view_grows (meta_view empty_cfs)
     (meta_view (snd (put_block_header meta_kv sample_header [0, 0, 0, 0] empty_cfs))) \<and>
   linked (meta_view (snd (put_block_header meta_kv sample_header [0, 0, 0, 0] empty_cfs)))"
proof -
  obtain s' where s': "put_block_header meta_kv sample_header [0, 0, 0, 0] empty_cfs =
      (Inr (own_record (meta_view empty_cfs) sample_header [0, 0, 0, 0]), s')"
    using bms.put_block_header_spec [OF empty_cfs_ok(1) sample_ok empty_cfs_ok(2)] by blast
  show ?thesis
    using put_block_header_keeps [of meta_kv meta_view meta_inv empty_cfs sample_header "[0, 0, 0, 0]"]
      bms.block_meta_kv_axioms empty_cfs_ok sample_ok s' by simp
qed

end
