(* ===== verification/Predecessors.thy ===== *)
theory Predecessors
  imports BlockMetaStorage "HOL-Library.List_Lexorder"
begin

text \<open>
  The exponential predecessor index (\<^verbatim>\<open>storage/src/predecessor_storage.rs\<close>) and the
  searches that \<^verbatim>\<open>BlockMetaStorage\<close> runs over it: slot k of a block holds its
  predecessor at distance \<open>2 ^ k\<close>, and a distance is walked by its binary digits.
\<close>

section \<open>Storing the index\<close>

text \<open>A key is a block hash with an exponent slot.\<close>

type_synonym predecessor_key = "block_hash \<times> nat"
type_synonym 's pred_kv = "('s, predecessor_key, block_hash) kv_store"

definition STORED_PREDECESSORS_SIZE :: nat where
  "STORED_PREDECESSORS_SIZE = 12"

definition pred_put :: "'s pred_kv \<Rightarrow> predecessor_key \<Rightarrow> block_hash \<Rightarrow> ('s, unit) storage_act" where
  "pred_put kv key h = storageA (kv_put kv key h)"

definition pred_get :: "'s pred_kv \<Rightarrow> predecessor_key \<Rightarrow> ('s, block_hash option) storage_act" where
  "pred_get kv key = storageA (kv_get kv key)"

text \<open>The loop over the slots; it stops at the first slot its predecessor does not have.\<close>

fun fill_slots :: "'s pred_kv \<Rightarrow> block_hash \<Rightarrow> block_hash \<Rightarrow> nat \<Rightarrow> nat \<Rightarrow> ('s, unit) storage_act" where
  "fill_slots kv bh pred slot 0 = ret ()"
| "fill_slots kv bh pred slot (Suc n) =
     bindA (pred_get kv (pred, slot - 1)) (\<lambda>r.
     case r of
       Some p \<Rightarrow> bindA (pred_put kv (bh, slot) p) (\<lambda>_. fill_slots kv bh p (slot + 1) n)
     | None \<Rightarrow> ret ())"

definition index_store_predecessors ::
  "'s pred_kv \<Rightarrow> block_hash \<Rightarrow> meta \<Rightarrow> nat \<Rightarrow> ('s, unit) storage_act" where
  "index_store_predecessors kv bh meta stored_predecessors_size =
     (case m_predecessor meta of
        Some direct_predecessor \<Rightarrow>
          if direct_predecessor = bh then ret ()
          else bindA (pred_put kv (bh, 0) direct_predecessor) (\<lambda>_.
               fill_slots kv bh direct_predecessor 1 (stored_predecessors_size - 1))
      | None \<Rightarrow> ret ())"

definition store_predecessors :: "'s pred_kv \<Rightarrow> block_hash \<Rightarrow> meta \<Rightarrow> ('s, unit) storage_act" where
  "store_predecessors kv bh meta = index_store_predecessors kv bh meta STORED_PREDECESSORS_SIZE"

section \<open>Binary digits of a distance\<close>

function closest_loop :: "nat \<Rightarrow> int \<Rightarrow> int \<Rightarrow> nat \<times> int" where
  "closest_loop closest_power rest distance =
     (if distance > 1
      then closest_loop (closest_power + 1) (rest + 2 ^ closest_power * (distance mod 2)) (distance div 2)
      else (closest_power, rest))"
  by pat_completeness auto
termination
  by (relation "measure (\<lambda>(_, _, d). nat d)") auto

declare closest_loop.simps [simp del]

definition closest_power_two_and_rest :: "int \<Rightarrow> storage_error failure + (nat \<times> int)" where
  "closest_power_two_and_rest distance =
     (if distance < 0 then Inl (Err PredecessorLookupError)
      else Inr (closest_loop 0 0 distance))"

lemma closest_loop_spec:
  assumes "1 \<le> d" "0 \<le> r" "r < 2 ^ p" "closest_loop p r d = (q, t)"
  shows "2 ^ q + t = 2 ^ p * d + r \<and> 0 \<le> t \<and> t < 2 ^ q \<and> p \<le> q"
  using assms
proof (induction p r d rule: closest_loop.induct)
  case (1 p r d)
  show ?case
  proof (cases "d > 1")
    case True
    let ?r = "r + 2 ^ p * (d mod 2)"
    have rec: "closest_loop (p + 1) ?r (d div 2) = (q, t)"
      using 1(5) True by (subst (asm) closest_loop.simps) simp
    have "d mod 2 = 0 \<or> d mod 2 = 1"
      by auto
    then have "0 \<le> ?r" "?r < 2 ^ (p + 1)"
      using 1(3,4) by auto
    then have ih: "2 ^ q + t = 2 ^ (p + 1) * (d div 2) + ?r \<and> 0 \<le> t \<and> t < 2 ^ q \<and> p + 1 \<le> q"
      using 1(1) [OF True _ _ _ rec] True by simp
    have "2 ^ p * d = 2 ^ p * (2 * (d div 2) + d mod 2)"
      by simp
    then have "2 ^ p * d = 2 ^ (p + 1) * (d div 2) + 2 ^ p * (d mod 2)"
      by (simp only: distrib_left) simp
    with ih show ?thesis
      by linarith
  next
    case False
    then show ?thesis
      using 1(2-5) by (subst (asm) closest_loop.simps) auto
  qed
qed

lemma closest_power_spec:
  assumes "1 \<le> d" "closest_power_two_and_rest d = Inr (q, t)"
  shows "d = 2 ^ q + t" "0 \<le> t" "t < 2 ^ q"
  using closest_loop_spec [of d 0 0 q t] assms
  by (auto simp: closest_power_two_and_rest_def split: if_splits)

lemma closest_power_rest_less:
  assumes "closest_power_two_and_rest d = Inr (q, t)" "t \<noteq> 0"
  shows "t < d" "0 < d"
proof -
  have "0 \<le> d"
    using assms by (auto simp: closest_power_two_and_rest_def split: if_splits)
  moreover have "d \<noteq> 0"
    using assms by (auto simp: closest_power_two_and_rest_def closest_loop.simps [of 0 0 0])
  ultimately show "0 < d"
    by simp
  then have "d = 2 ^ q + t"
    using closest_power_spec [of d q t] assms by simp
  then show "t < d"
    by simp
qed

section \<open>Searching\<close>

text \<open>
  One step of the search: the slot to read and the distance that remains, the slot capped
  at the last one stored. The arithmetic stays between 0 and the requested distance, so
  it is written on integers.
\<close>

definition next_hop :: "int \<Rightarrow> storage_error failure + (nat \<times> int)" where
  "next_hop distance =
     and_then (closest_power_two_and_rest distance) (\<lambda>(pow, rest).
     Inr (if pow \<ge> STORED_PREDECESSORS_SIZE
          then (STORED_PREDECESSORS_SIZE - 1, distance - 2 ^ (STORED_PREDECESSORS_SIZE - 1))
          else (pow, rest)))"

lemma next_hop_spec:
  assumes "1 \<le> d" "next_hop d = Inr (q, t)"
  shows "d = 2 ^ q + t \<and> 0 \<le> t \<and> q < STORED_PREDECESSORS_SIZE"
proof -
  obtain pow rest where c: "closest_power_two_and_rest d = Inr (pow, rest)"
    using assms(2) by (auto simp: next_hop_def and_then_Inr_iff)
  note e = closest_power_spec [OF assms(1) c]
  have "(2 :: int) ^ 11 \<le> 2 ^ pow" if "12 \<le> pow"
    using that by (intro power_increasing) simp_all
  with assms(2) c e show ?thesis
    by (auto simp: next_hop_def STORED_PREDECESSORS_SIZE_def split: if_splits)
qed

lemma next_hop_less:
  assumes "next_hop d = Inr (q, t)" "t \<noteq> 0"
  shows "0 < d \<and> t < d"
proof -
  obtain pow rest where c: "closest_power_two_and_rest d = Inr (pow, rest)"
    using assms(1) by (auto simp: next_hop_def and_then_Inr_iff)
  have "0 < d"
  proof (rule ccontr)
    assume "\<not> 0 < d"
    then have "d = 0"
      using c by (simp add: closest_power_two_and_rest_def split: if_splits)
    with assms show False
      by (simp add: next_hop_def closest_power_two_and_rest_def closest_loop.simps [of 0 0 0]
          STORED_PREDECESSORS_SIZE_def)
  qed
  then show ?thesis
    using next_hop_spec [OF _ assms(1)] by simp
qed

function find_loop :: "'s pred_kv \<Rightarrow> block_hash \<Rightarrow> int \<Rightarrow> ('s, block_hash option) storage_act" where
  "find_loop kv bh distance s =
     (if distance = 1 then pred_get kv (bh, 0) s
      else (case next_hop distance of
        Inl e \<Rightarrow> (Inl e, s)
      | Inr (pow, rest) \<Rightarrow>
          (case pred_get kv (bh, pow) s of
             (Inl e, s') \<Rightarrow> (Inl e, s')
           | (Inr None, s') \<Rightarrow> (Inr None, s')
           | (Inr (Some pred), s') \<Rightarrow>
               if rest = 0 then (Inr (Some pred), s') else find_loop kv pred rest s')))"
  by pat_completeness auto
termination
  by (relation "measure (\<lambda>(_, _, d, _). nat d)") (auto dest: next_hop_less)

declare find_loop.simps [simp del]

definition find_block_at_distance ::
  "'s pred_kv \<Rightarrow> block_hash \<Rightarrow> int \<Rightarrow> ('s, block_hash option) storage_act" where
  "find_block_at_distance kv bh requested_distance =
     (if requested_distance = 0 then ret (Some bh)
      else if requested_distance < 0 then fail Panic
      else find_loop kv bh requested_distance)"

text \<open>The ancestors collected one by one, up to the limit.\<close>

fun live_loop :: "'s pred_kv \<Rightarrow> block_hash \<Rightarrow> nat \<Rightarrow> ('s, block_hash list) storage_act" where
  "live_loop kv current 0 = ret []"
| "live_loop kv current (Suc n) =
     bindA (find_block_at_distance kv current 1) (\<lambda>r.
     case r of
       Some pred \<Rightarrow> bindA (live_loop kv pred n) (\<lambda>bs. ret (pred # bs))
     | None \<Rightarrow> ret [])"

text \<open>The two column families the search reads are the two halves of the state.\<close>

definition get_live_blocks ::
  "('m, block_hash, meta) kv_store \<Rightarrow> 's pred_kv \<Rightarrow> block_hash \<Rightarrow> nat \<Rightarrow>
   ('m \<times> 's, block_hash list) storage_act" where
  "get_live_blocks kvm kv bh max_ttl = (\<lambda>(sm, sp).
     (case bms_get kvm bh sm of
        (Inl e, sm') \<Rightarrow> (Inl e, (sm', sp))
      | (Inr None, sm') \<Rightarrow> (Inr [], (sm', sp))
      | (Inr (Some _), sm') \<Rightarrow>
          (case live_loop kv bh (max_ttl + 1 - 1) sp of
             (Inl e, sp') \<Rightarrow> (Inl e, (sm', sp'))
           | (Inr bs, sp') \<Rightarrow> (Inr (sort (bh # bs)), (sm', sp')))))"

section \<open>The index invariant\<close>

text \<open>
  Slot 0 is the direct predecessor, and slot k the predecessor at distance \<open>2 ^ k\<close>, absent
  exactly when the chain is shorter.
\<close>

definition direct :: "(predecessor_key \<rightharpoonup> block_hash) \<Rightarrow> block_hash \<rightharpoonup> block_hash" where
  "direct v b = v (b, 0)"

definition index_ok :: "(predecessor_key \<rightharpoonup> block_hash) \<Rightarrow> bool" where
  "index_ok v \<longleftrightarrow> (\<forall>b k. k < STORED_PREDECESSORS_SIZE \<longrightarrow> v (b, k) = iter_opt (direct v) (2 ^ k) b)"

text \<open>A block the index has not seen: it has no slots and is nobody's predecessor.\<close>

definition fresh_block :: "(predecessor_key \<rightharpoonup> block_hash) \<Rightarrow> block_hash \<Rightarrow> bool" where
  "fresh_block v b \<longleftrightarrow> (\<forall>k. v (b, k) = None) \<and> (\<forall>c k. v (c, k) \<noteq> Some b)"

text \<open>The ancestors of a block, nearest first, at most n of them.\<close>

fun ancestors :: "('a \<rightharpoonup> 'a) \<Rightarrow> nat \<Rightarrow> 'a \<Rightarrow> 'a list" where
  "ancestors p 0 b = []"
| "ancestors p (Suc n) b = (case p b of None \<Rightarrow> [] | Some c \<Rightarrow> c # ancestors p n c)"

lemma ancestors_nth: "i < length (ancestors p n b) \<Longrightarrow> iter_opt p (Suc i) b = Some (ancestors p n b ! i)"
proof (induction n arbitrary: b i)
  case (Suc n)
  then obtain c where c: "p b = Some c"
    by (auto split: option.splits)
  show ?case
    using Suc.prems Suc.IH [of "i - 1" c] c by (cases i) simp_all
qed simp

lemma iter_opt_avoids:
  assumes "\<And>c. p c \<noteq> Some b" "c \<noteq> b"
  shows "iter_opt p n c \<noteq> Some b"
  using assms(2)
proof (induction n arbitrary: c)
  case (Suc n)
  show ?case
    using Suc.IH assms(1) [of c] by (cases "p c") auto
qed simp

lemma iter_opt_extend:
  assumes "\<And>c. p c \<noteq> Some b" "c \<noteq> b"
  shows "iter_opt (p(b := x)) n c = iter_opt p n c"
proof (rule sym, rule iter_opt_cong)
  fix m d
  assume "iter_opt p m c = Some d"
  then have "d \<noteq> b"
    using iter_opt_avoids [of p, OF assms, where n = m] by auto
  then show "p d = (p(b := x)) d"
    by simp
qed

lemma iter_opt_double: "iter_opt p (2 ^ Suc k) b =
    (case iter_opt p (2 ^ k) b of None \<Rightarrow> None | Some c \<Rightarrow> iter_opt p (2 ^ k) c)"
  using iter_opt_add [of p "2 ^ k" "2 ^ k" b] by (simp add: mult_2)


text \<open>The index after the first j slots of a new block are written.\<close>

definition index_upto ::
  "(predecessor_key \<rightharpoonup> block_hash) \<Rightarrow> block_hash \<Rightarrow> block_hash \<Rightarrow> nat \<Rightarrow> predecessor_key \<rightharpoonup> block_hash" where
  "index_upto v b d j = (\<lambda>(c, k). if c = b
     then (if k < j then iter_opt ((direct v)(b \<mapsto> d)) (2 ^ k) b else None) else v (c, k))"

lemma fresh_direct: "fresh_block v b \<Longrightarrow> direct v c \<noteq> Some b"
  by (simp add: fresh_block_def direct_def)

lemma index_upto_one:
  "fresh_block v b \<Longrightarrow> v((b, 0) \<mapsto> d) = index_upto v b d 1"
  by (auto simp: index_upto_def fun_eq_iff fresh_block_def)

lemma index_upto_Suc:
  "iter_opt ((direct v)(b \<mapsto> d)) (2 ^ j) b = Some x \<Longrightarrow>
   (index_upto v b d j)((b, j) \<mapsto> x) = index_upto v b d (Suc j)"
  by (auto simp: index_upto_def fun_eq_iff)

lemma index_upto_full:
  assumes "iter_opt ((direct v)(b \<mapsto> d)) (2 ^ j) b = None" "j \<le> n"
  shows "index_upto v b d j = index_upto v b d n"
proof -
  have "iter_opt ((direct v)(b \<mapsto> d)) (2 ^ k) b = None" if "j \<le> k" for k
    by (rule iter_opt_None_mono [OF assms(1)]) (use that in \<open>simp add: power_increasing\<close>)
  then show ?thesis
    using assms(2) by (auto simp: index_upto_def fun_eq_iff)
qed

lemma index_upto_slot:
  assumes "index_ok v" "fresh_block v b" "0 < j" "j \<le> STORED_PREDECESSORS_SIZE" "c \<noteq> b"
    and "iter_opt ((direct v)(b \<mapsto> d)) (2 ^ (j - 1)) b = Some c"
  shows "index_upto v b d j (c, j - 1) = iter_opt ((direct v)(b \<mapsto> d)) (2 ^ j) b"
proof -
  have "index_upto v b d j (c, j - 1) = iter_opt (direct v) (2 ^ (j - 1)) c"
    using assms(1,3-5) by (simp add: index_upto_def index_ok_def)
  also have "\<dots> = iter_opt ((direct v)(b \<mapsto> d)) (2 ^ (j - 1)) c"
    using fresh_direct [OF assms(2)] assms(5) by (simp add: iter_opt_extend)
  finally show ?thesis
    using assms(3,6) iter_opt_double [of "(direct v)(b \<mapsto> d)" "j - 1" b] by simp
qed

lemma index_upto_ok:
  assumes "index_ok v" "fresh_block v b"
  shows "index_ok (index_upto v b d STORED_PREDECESSORS_SIZE)"
proof -
  have p: "direct (index_upto v b d STORED_PREDECESSORS_SIZE) = (direct v)(b \<mapsto> d)"
    by (auto simp: direct_def index_upto_def fun_eq_iff STORED_PREDECESSORS_SIZE_def)
  show ?thesis
    using assms fresh_direct [OF assms(2)] unfolding index_ok_def p
    by (auto simp: index_upto_def iter_opt_extend)
qed

lemma iter_opt_new_avoids:
  assumes "fresh_block v b" "d \<noteq> b" "iter_opt ((direct v)(b \<mapsto> d)) n b = Some c" "0 < n"
  shows "c \<noteq> b"
proof -
  have "iter_opt ((direct v)(b \<mapsto> d)) (n - 1) d = Some c"
    using assms(3,4) by (cases n) auto
  then show ?thesis
    using iter_opt_avoids [of "direct v" b d "n - 1"] iter_opt_extend [of "direct v" b d]
      fresh_direct [OF assms(1)] assms(2) by auto
qed

text \<open>A key has a hash of the right size and a 32-bit slot.\<close>

definition slot_key_ok :: "predecessor_key \<Rightarrow> bool" where
  "slot_key_ok k \<longleftrightarrow> length (fst k) = LEN_BLOCK_HASH \<and> snd k < 2 ^ 32"

locale pred_index = kv_contract kv view inv slot_key_ok
    "\<lambda>h. length h = LEN_BLOCK_HASH"
  for kv :: "'s pred_kv" and view :: "'s \<Rightarrow> predecessor_key \<rightharpoonup> block_hash" and inv
begin

lemma pred_get_spec:
  "inv s \<Longrightarrow> length h = LEN_BLOCK_HASH \<Longrightarrow> k < STORED_PREDECESSORS_SIZE \<Longrightarrow> pred_get kv (h, k) s = (Inr (view s (h, k)), s)"
  using get_law [of s "(h, k)"] by (simp add: pred_get_def act_simps slot_key_ok_def STORED_PREDECESSORS_SIZE_def)

lemma pred_put_spec:
  assumes "inv s" "length h = LEN_BLOCK_HASH" "length x = LEN_BLOCK_HASH" "k < STORED_PREDECESSORS_SIZE"
  shows "\<exists>s'. pred_put kv (h, k) x s = (Inr (), s') \<and> inv s' \<and> view s' = (view s)((h, k) \<mapsto> x)"
proof -
  obtain s' where s': "kv_put kv (h, k) x s = (Inr (), s')" "inv s'" "view s' = (view s)((h, k) \<mapsto> x)"
    using put_law [of s "(h, k)" x] assms by (auto simp: slot_key_ok_def STORED_PREDECESSORS_SIZE_def)
  then have "pred_put kv (h, k) x s = (Inr (), s')"
    by (simp add: pred_put_def act_simps)
  with s' show ?thesis
    by blast
qed

lemma find_loop_spec:
  assumes "inv s" "index_ok (view s)" "length b = LEN_BLOCK_HASH" "1 \<le> d"
  shows "find_loop kv b d s = (Inr (iter_opt (direct (view s)) (nat d) b), s)"
  using assms(3,4)
proof (induction "nat d" arbitrary: b d rule: less_induct)
  case less
  have slot: "view s (b, k) = iter_opt (direct (view s)) (2 ^ k) b" if "k < STORED_PREDECESSORS_SIZE" for k
    using assms(2) that by (simp add: index_ok_def)
  show ?case
  proof (cases "d = 1")
    case True
    then show ?thesis
      using assms(1) less.prems by (simp add: find_loop.simps [of _ _ 1] pred_get_spec direct_def STORED_PREDECESSORS_SIZE_def split: option.split)
  next
    case False
    obtain q t where h: "next_hop d = Inr (q, t)"
      using less.prems(2) by (cases "next_hop d") (auto simp: next_hop_def closest_power_two_and_rest_def
          split: prod.splits)
    note e = next_hop_spec [OF less.prems(2) h]
    have d: "nat d = 2 ^ q + nat t"
      using e by (simp add: nat_add_distrib nat_power_eq)
    note split = iter_opt_add [of "direct (view s)" "2 ^ q" "nat t" b, folded d]
    have q: "q < STORED_PREDECESSORS_SIZE"
      using e by simp
    have vq: "iter_opt (direct (view s)) (2 ^ q) b = view s (b, q)"
      using slot e by simp
    show ?thesis
    proof (cases "view s (b, q)")
      case None
      then show ?thesis
        using False h assms(1) less.prems q
        by (subst find_loop.simps) (simp add: pred_get_spec split vq)
    next
      case (Some c)
      have c: "length c = LEN_BLOCK_HASH"
        using view_ok [OF assms(1) Some] by simp
      have "find_loop kv c t s = (Inr (iter_opt (direct (view s)) (nat t) c), s)" if "t \<noteq> 0"
        using that e next_hop_less [OF h that] by (intro less.hyps c) simp_all
      then show ?thesis
        using False h assms(1) less.prems Some q
        by (subst find_loop.simps) (simp add: pred_get_spec split vq)
    qed
  qed
qed

lemma find_block_spec:
  assumes "inv s" "index_ok (view s)" "length b = LEN_BLOCK_HASH" "0 \<le> d"
  shows "find_block_at_distance kv b d s = (Inr (iter_opt (direct (view s)) (nat d) b), s)"
  using assms find_loop_spec [OF assms(1-3), of d] by (cases "d = 0") (simp_all add: find_block_at_distance_def ret_def)

lemma live_loop_spec:
  assumes "inv s" "index_ok (view s)" "length b = LEN_BLOCK_HASH"
  shows "live_loop kv b n s = (Inr (ancestors (direct (view s)) n b), s)"
  using assms(3)
proof (induction n arbitrary: b)
  case (Suc n)
  have find: "find_block_at_distance kv b 1 s = (Inr (direct (view s) b), s)"
    using find_block_spec [OF assms(1,2) Suc.prems, of 1] by (simp split: option.split)
  have "length c = LEN_BLOCK_HASH" if "direct (view s) b = Some c" for c
    using that view_ok [OF assms(1), of "(b, 0)" c] by (simp add: direct_def)
  then show ?case
    using Suc.IH by (auto simp: bindA_def find ret_def split: option.split)
qed (simp add: ret_def)

lemma fill_slots_spec:
  assumes "index_ok v" "fresh_block v b" "d \<noteq> b" "length b = LEN_BLOCK_HASH"
    and "inv s" "view s = index_upto v b d j" "0 < j" "j + n = STORED_PREDECESSORS_SIZE"
    and "iter_opt ((direct v)(b \<mapsto> d)) (2 ^ (j - 1)) b = Some c" "length c = LEN_BLOCK_HASH"
  shows "\<exists>s'. fill_slots kv b c j n s = (Inr (), s') \<and> inv s' \<and>
    view s' = index_upto v b d STORED_PREDECESSORS_SIZE"
  using assms(5-)
proof (induction n arbitrary: s j c)
  case 0
  then show ?case
    by (simp add: ret_def)
next
  case (Suc n)
  let ?p = "(direct v)(b \<mapsto> d)"
  have "c \<noteq> b"
    using iter_opt_new_avoids [OF assms(2,3) Suc.prems(5)] by simp
  then have slot: "view s (c, j - 1) = iter_opt ?p (2 ^ j) b"
    using index_upto_slot [OF assms(1,2) Suc.prems(3) _ _ Suc.prems(5)] Suc.prems(2,4) by simp
  have get: "pred_get kv (c, j - 1) s = (Inr (iter_opt ?p (2 ^ j) b), s)"
    using pred_get_spec [OF Suc.prems(1,6)] slot Suc.prems(4) by simp
  show ?case
  proof (cases "iter_opt ?p (2 ^ j) b")
    case None
    then show ?thesis
      using get Suc.prems index_upto_full [OF None, of STORED_PREDECESSORS_SIZE]
      by (simp add: bindA_def ret_def)
  next
    case (Some x)
    have x: "length x = LEN_BLOCK_HASH"
      using view_ok [OF Suc.prems(1)] slot Some by fastforce
    obtain s1 where s1: "pred_put kv (b, j) x s = (Inr (), s1)" "inv s1"
      "view s1 = index_upto v b d (Suc j)"
      using pred_put_spec [OF Suc.prems(1) assms(4) x, of j] Suc.prems(4)
      unfolding Suc.prems(2) index_upto_Suc [OF Some] by auto
    have "\<exists>s'. fill_slots kv b x (Suc j) n s1 = (Inr (), s') \<and> inv s' \<and>
        view s' = index_upto v b d STORED_PREDECESSORS_SIZE"
      by (rule Suc.IH [OF s1(2,3) _ _ _ x]) (use Suc.prems(4) Some in \<open>simp_all del: fun_upd_apply\<close>)
    then show ?thesis
      using get Some s1 by (simp add: bindA_def)
  qed
qed

lemma store_predecessors_spec:
  assumes "inv s" "index_ok (view s)" "fresh_block (view s) b" "length b = LEN_BLOCK_HASH"
    and "m_predecessor m = Some d" "d \<noteq> b" "length d = LEN_BLOCK_HASH"
  shows "\<exists>s'. store_predecessors kv b m s = (Inr (), s') \<and> inv s' \<and> index_ok (view s') \<and>
    direct (view s') = (direct (view s))(b \<mapsto> d)"
proof -
  obtain s1 where s1: "pred_put kv (b, 0) d s = (Inr (), s1)" "inv s1" "view s1 = index_upto (view s) b d 1"
    using pred_put_spec [OF assms(1,4,7), of 0] index_upto_one [OF assms(3)]
    by (auto simp: STORED_PREDECESSORS_SIZE_def)
  obtain s2 where s2: "fill_slots kv b d 1 11 s1 = (Inr (), s2)" "inv s2"
    "view s2 = index_upto (view s) b d STORED_PREDECESSORS_SIZE"
    using fill_slots_spec [OF assms(2,3,6,4) s1(2,3), of 11 d] assms(7)
    by (auto simp: STORED_PREDECESSORS_SIZE_def)
  have "direct (view s2) = (direct (view s))(b \<mapsto> d)"
    by (auto simp: s2(3) direct_def index_upto_def fun_eq_iff STORED_PREDECESSORS_SIZE_def)
  then show ?thesis
    using s1 s2 assms(5,6) index_upto_ok [OF assms(2,3), of d]
    by (simp add: store_predecessors_def index_store_predecessors_def bindA_def STORED_PREDECESSORS_SIZE_def)
qed

end

section \<open>The index in the node's database\<close>

text \<open>
  Keys are written with \<^verbatim>\<open>bincode\<close>, a third-party serializer, so the key codec is a
  parameter: an injective encoding of well-sized keys.
\<close>

definition predecessor_schema :: "predecessor_key codec \<Rightarrow> (predecessor_key, block_hash) schema" where
  "predecessor_schema bincode = \<lparr>cf_name = ''predecessor_storage'', key_codec = bincode,
     value_codec = hash_codec LEN_BLOCK_HASH\<rparr>"

text \<open>An instance of the key codec: the hash followed by the slot in eight bytes.\<close>

definition key_bytes :: "predecessor_key \<Rightarrow> bytes" where
  "key_bytes k = fst k @ to_be_bytes 8 (snd k)"

definition sample_key_codec :: "predecessor_key codec" where
  "sample_key_codec = \<lparr>encode = (\<lambda>k. if snd k < 2 ^ 32 then Inr (key_bytes k) else Inl EncodeError),
     decode = (\<lambda>bs. Inr (take 32 bs, from_be_bytes (drop 32 bs)))\<rparr>"


lemma key_bytes_inj:
  assumes "length (fst k) = 32" "length (fst k') = 32" "snd k < 2 ^ 32" "snd k' < 2 ^ 32"
    "key_bytes k = key_bytes k'"
  shows "k = k'"
proof -
  have "fst k = fst k'" "to_be_bytes 8 (snd k) = to_be_bytes 8 (snd k')"
    using assms by (simp_all add: key_bytes_def)
  moreover have "snd k < 2 ^ 64" "snd k' < 2 ^ 64"
    using assms(3,4) by simp_all
  ultimately have "snd k = snd k'"
    by (metis from_to_be_bytes_usize)
  with \<open>fst k = fst k'\<close> show ?thesis
    by (rule prod_eqI)
qed

abbreviation index_kv :: "cfs pred_kv" where
  "index_kv \<equiv> db_kv (map_rocks (\<lambda>_ _ _. Inl (Err ()))) (predecessor_schema sample_key_codec)"

interpretation pdb: schema_store "map_rocks (\<lambda>_ _ _. Inl (Err ()))" "predecessor_schema sample_key_codec"
  "\<lambda>r. r (cf_name (predecessor_schema sample_key_codec))"
  slot_key_ok "\<lambda>h. length h = LEN_BLOCK_HASH" key_bytes id
proof unfold_locales
  fix k k' :: predecessor_key
  assume "slot_key_ok k" "slot_key_ok k'" "key_bytes k = key_bytes k'"
  then show "k = k'"
    using key_bytes_inj [of k k'] by (auto simp: layout slot_key_ok_def)
qed (auto simp: map_rocks_def predecessor_schema_def sample_key_codec_def hash_codec_def
    hash_from_bytes_def slot_key_ok_def)

interpretation pidx: pred_index index_kv pdb.tview pdb.tinv
  by unfold_locales

lemma empty_index: "pdb.tinv empty_cfs" "pdb.tview empty_cfs = Map.empty"
  by (simp_all add: empty_cfs_def pdb.tinv_def pdb.tview_def fun_eq_iff)

lemma empty_index_ok [simp]: "index_ok Map.empty" "fresh_block Map.empty b"
proof -
  have "iter_opt (direct Map.empty) (2 ^ k) b = None" for k b
    using iter_opt_None_mono [of "direct Map.empty" 1 b "2 ^ k"] by (simp add: direct_def)
  then show "index_ok Map.empty" "fresh_block Map.empty b"
    by (simp_all add: index_ok_def fresh_block_def)
qed

text \<open>An index that holds one block, written by the code's own \<open>store_predecessors\<close>.\<close>

lemma one_block_index:
  obtains s where "pdb.tinv s" "index_ok (pdb.tview s)"
    "direct (pdb.tview s) = [replicate 32 7 \<mapsto> replicate 32 3]"
proof -
  have "direct Map.empty = Map.empty"
    by (simp add: direct_def fun_eq_iff)
  then show ?thesis
    using that pidx.store_predecessors_spec [of empty_cfs "replicate 32 7"
        "new_meta False (Some (replicate 32 3)) 1 [0, 0, 0, 0]" "replicate 32 3"]
    by (auto simp: empty_index new_meta_def)
qed

section \<open>Properties\<close>

text \<open>
  Every positive distance is split into its highest power of two and the rest:
  \<open>distance = 2 ^ power + rest\<close> with \<open>0 \<le> rest < 2 ^ power\<close>, and the loop ends.
\<close>

theorem closest_power_two_and_rest_correct:
  assumes "1 \<le> d"
  shows "\<exists>q t. closest_power_two_and_rest d = Inr (q, t) \<and> d = 2 ^ q + t \<and> 0 \<le> t \<and> t < 2 ^ q"
proof -
  obtain q t where "closest_power_two_and_rest d = Inr (q, t)"
    using assms by (auto simp: closest_power_two_and_rest_def intro: prod.exhaust)
  then show ?thesis
    using closest_power_spec [OF assms] by blast
qed

theorem closest_power_two_and_rest_correct_witness:
  "\<exists>q t. closest_power_two_and_rest 13 = Inr (q, t) \<and> 13 = 2 ^ q + t \<and> 0 \<le> t \<and> t < 2 ^ q"
  by (rule closest_power_two_and_rest_correct) simp

text \<open>
  Property C11. Over a store that keeps the contract and an index in which every slot is right,
  \<open>find_block_at_distance\<close> ends, leaves the store alone and returns the predecessor at
  exactly the requested distance, or nothing when the chain is shorter.
\<close>

theorem find_block_at_distance_correct:
  assumes "pred_index kv view good" "good s" "index_ok (view s)" "length b = LEN_BLOCK_HASH" "0 \<le> d"
  shows "find_block_at_distance kv b d s = (Inr (iter_opt (direct (view s)) (nat d) b), s)"
  using assms by (rule pred_index.find_block_spec)

theorem find_block_at_distance_correct_witness:
  "\<exists>s. find_block_at_distance index_kv (replicate 32 7) 1 s = (Inr (Some (replicate 32 3)), s)"
proof -
  obtain s where s: "pdb.tinv s" "index_ok (pdb.tview s)"
    "direct (pdb.tview s) = [replicate 32 7 \<mapsto> replicate 32 3]"
    by (rule one_block_index)
  have "find_block_at_distance index_kv (replicate 32 7) 1 s =
      (Inr (iter_opt (direct (pdb.tview s)) (nat 1) (replicate 32 7)), s)"
    by (rule find_block_at_distance_correct [of _ _ pdb.tinv])
      (simp_all add: pidx.pred_index_axioms s)
  then show ?thesis
    by (auto simp: s)
qed

text \<open>
  Property C24. Storing the predecessors of a block the index has not seen keeps every slot
  right and links the block to its direct predecessor.
\<close>

theorem store_predecessors_keeps_index:
  assumes "pred_index kv view good" "good s" "index_ok (view s)" "fresh_block (view s) b"
    "length b = LEN_BLOCK_HASH" "m_predecessor m = Some d" "d \<noteq> b" "length d = LEN_BLOCK_HASH"
  shows "\<exists>s'. store_predecessors kv b m s = (Inr (), s') \<and> good s' \<and> index_ok (view s') \<and>
    direct (view s') = (direct (view s))(b \<mapsto> d)"
  using assms by (rule pred_index.store_predecessors_spec)

theorem store_predecessors_keeps_index_witness:
  "\<exists>s'. store_predecessors index_kv (replicate 32 7) (new_meta False (Some (replicate 32 3)) 1 [0, 0, 0, 0])
     empty_cfs = (Inr (), s') \<and> index_ok (pdb.tview s')"
  using store_predecessors_keeps_index [OF pidx.pred_index_axioms, of empty_cfs "replicate 32 7"
      "new_meta False (Some (replicate 32 3)) 1 [0, 0, 0, 0]" "replicate 32 3"]
  by (auto simp: empty_index new_meta_def)

text \<open>
  \<open>get_live_blocks\<close> of a known block returns, sorted by bytes, the block and its
  nearest ancestors, at most \<open>max_ttl\<close> of them; of an unknown block it returns nothing.
\<close>

theorem get_live_blocks_correct:
  assumes "block_meta_kv kvm viewm goodm" "goodm sm"
    and "pred_index kv view good" "good s" "index_ok (view s)" "length b = LEN_BLOCK_HASH"
  shows "get_live_blocks kvm kv b max_ttl (sm, s) =
    (Inr (if viewm sm b = None then [] else sort (b # ancestors (direct (view s)) max_ttl b)), (sm, s))"
  using block_meta_kv.bms_get_spec [OF assms(1,2,6)] pred_index.live_loop_spec [OF assms(3-6)]
  by (auto simp: get_live_blocks_def)

theorem get_live_blocks_correct_witness:
  "get_live_blocks meta_kv index_kv (replicate 32 7) 60 (empty_cfs, empty_cfs) = (Inr [], (empty_cfs, empty_cfs))"
proof -
  have "meta_view empty_cfs (replicate 32 7) = None"
    by (simp add: empty_cfs_def bm.tview_def)
  then show ?thesis
    using get_live_blocks_correct [of meta_kv meta_view meta_inv empty_cfs index_kv pdb.tview pdb.tinv
        empty_cfs "replicate 32 7" 60] bms.block_meta_kv_axioms pidx.pred_index_axioms
    by (simp add: empty_cfs_ok(1) empty_index)
qed

end
