(* ===== verification/Messages.thy ===== *)
theory Messages
  imports BlockHeader
begin

text \<open>
  The peer-to-peer messages that the block pipeline exchanges
  (\<^verbatim>\<open>tezos/messages/src/p2p/encoding\<close>).
\<close>

record operation =
  op_branch :: block_hash
  op_data :: bytes

text \<open>A message key for the operations of one validation pass; the pass is a signed byte.\<close>

record operations_for_block =
  ofb_hash :: block_hash
  ofb_validation_pass :: byte

datatype path_item = PathRight bytes | PathLeft bytes

record operations_for_blocks_message =
  operations_for_block :: operations_for_block
  operation_hashes_path :: "path_item list"
  operations :: "operation list"

record mempool =
  known_valid :: "operation_hash list"
  mempool_pending :: "operation_hash list"

definition mempool_is_empty :: "mempool \<Rightarrow> bool" where
  "mempool_is_empty mp \<longleftrightarrow> known_valid mp = [] \<and> mempool_pending mp = []"

record current_branch =
  cb_current_head :: block_header
  cb_history :: "block_hash list"

text \<open>The messages a node sends to one peer.\<close>

datatype peer_message =
    GetBlockHeaders "block_hash list"
  | GetOperationsForBlocks "operations_for_block list"
  | GetOperations "operation_hash list"

text \<open>How an operation entered the mempool (\<^verbatim>\<open>storage/src/mempool_storage.rs\<close>).\<close>

datatype mempool_operation_type = Pending | KnownValid

text \<open>The length limits of requests (\<^verbatim>\<open>limits.rs\<close>).\<close>

definition MEMPOOL_MAX_OPERATIONS :: nat where
  "MEMPOOL_MAX_OPERATIONS = 4000"

definition GET_BLOCK_HEADERS_MAX_LENGTH :: nat where
  "GET_BLOCK_HEADERS_MAX_LENGTH = 10"

definition GET_OPERATIONS_MAX_LENGTH :: nat where
  "GET_OPERATIONS_MAX_LENGTH = 10"

definition GET_OPERATIONS_FOR_BLOCKS_MAX_LENGTH :: nat where
  "GET_OPERATIONS_FOR_BLOCKS_MAX_LENGTH = 10"

text \<open>Splitting a slice into chunks of a given size.\<close>

function chunks :: "nat \<Rightarrow> 'a list \<Rightarrow> 'a list list" where
  "chunks n xs = (if xs = [] \<or> n = 0 then [] else take n xs # chunks n (drop n xs))"
  by pat_completeness auto
termination
  by (relation "measure (\<lambda>(n, xs). length xs)") auto

declare chunks.simps [simp del]

lemma concat_chunks: "0 < n \<Longrightarrow> concat (chunks n xs) = xs"
  by (induction n xs rule: chunks.induct) (subst chunks.simps, auto)

lemma chunks_size: "c \<in> set (chunks n xs) \<Longrightarrow> c \<noteq> [] \<and> length c \<le> n"
proof (induction n xs rule: chunks.induct)
  case (1 n xs)
  then show ?case
    by (subst (asm) (2) chunks.simps) (auto split: if_splits)
qed

end
