(* ===== verification/Validation.thy ===== *)
theory Validation
  imports BlockMetaStorage Messages "HOL-Library.List_Lexorder" "HOL-Library.Product_Lexorder"
begin

text \<open>
  Validation rules of the shell (\<^verbatim>\<open>shell/src/validation/mod.rs\<close>): the fitness order that
  decides which head wins, the acceptance of operations, and when a block can be applied.
\<close>

section \<open>Fitness\<close>

datatype ordering = Less | Equal | Greater

datatype fitness_wrapper = FitnessWrapper (fw_fitness: fitness)

definition cmp :: "'a :: linorder \<Rightarrow> 'a \<Rightarrow> ordering" where
  "cmp a b = (if a < b then Less else if a = b then Equal else Greater)"

text \<open>The inner loop compares the bytes of two parts of equal length from the left.\<close>

fun cmp_bytes :: "bytes \<Rightarrow> bytes \<Rightarrow> ordering" where
  "cmp_bytes (b1 # xs) (b2 # ys) = (if cmp b1 b2 \<noteq> Equal then cmp b1 b2 else cmp_bytes xs ys)"
| "cmp_bytes _ _ = Equal"

text \<open>The outer loop compares the parts: first their lengths, then their bytes.\<close>

fun cmp_parts :: "fitness \<Rightarrow> fitness \<Rightarrow> ordering" where
  "cmp_parts (p # ps) (q # qs) =
     (if cmp (length p) (length q) \<noteq> Equal then cmp (length p) (length q)
      else if cmp_bytes p q \<noteq> Equal then cmp_bytes p q
      else cmp_parts ps qs)"
| "cmp_parts _ _ = Equal"

fun fitness_cmp :: "fitness_wrapper \<Rightarrow> fitness_wrapper \<Rightarrow> ordering" where
  "fitness_cmp (FitnessWrapper f) (FitnessWrapper g) =
     (if cmp (length f) (length g) \<noteq> Equal then cmp (length f) (length g) else cmp_parts f g)"

text \<open>The order of Rust's \<^verbatim>\<open>PartialOrd\<close>, given by \<^verbatim>\<open>cmp\<close>.\<close>

instantiation fitness_wrapper :: ord
begin

definition less_fitness_wrapper :: "fitness_wrapper \<Rightarrow> fitness_wrapper \<Rightarrow> bool" where
  "less_fitness_wrapper f g \<longleftrightarrow> fitness_cmp f g = Less"

definition less_eq_fitness_wrapper :: "fitness_wrapper \<Rightarrow> fitness_wrapper \<Rightarrow> bool" where
  "less_eq_fitness_wrapper f g \<longleftrightarrow> fitness_cmp f g \<noteq> Greater"

instance ..

end

text \<open>
  The order is lexicographic on this key: number of parts, then every part as its length
  with its bytes.
\<close>

definition fitness_key :: "fitness_wrapper \<Rightarrow> nat \<times> (nat \<times> bytes) list" where
  "fitness_key f = (length (fw_fitness f), map (\<lambda>p. (length p, p)) (fw_fitness f))"

lemma cmp_iff [simp]:
  "cmp a b = Less \<longleftrightarrow> a < b" "cmp a b = Equal \<longleftrightarrow> a = b" "cmp a b = Greater \<longleftrightarrow> b < a"
  by (auto simp: cmp_def)

lemma cmp_bytes_cmp: "length xs = length ys \<Longrightarrow> cmp_bytes xs ys = cmp xs ys"
  by (induction xs ys rule: list_induct2) (auto simp: cmp_def)

lemma cmp_parts_cmp:
  "length f = length g \<Longrightarrow> cmp_parts f g = cmp (map (\<lambda>p. (length p, p)) f) (map (\<lambda>p. (length p, p)) g)"
  by (induction f g rule: list_induct2) (auto simp: cmp_def cmp_bytes_cmp less_prod_def)

lemma fitness_cmp_key: "fitness_cmp f g = cmp (fitness_key f) (fitness_key g)"
  by (cases f; cases g) (auto simp: fitness_key_def cmp_def cmp_parts_cmp less_prod_def)

lemma fitness_key_inj [simp]: "fitness_key f = fitness_key g \<longleftrightarrow> f = g"
proof -
  have "inj (\<lambda>p :: bytes. (length p, p))"
    by (rule injI) simp
  then show ?thesis
    by (cases f; cases g) (auto simp: fitness_key_def inj_map_eq_map)
qed

lemma fitness_less_key: "f < g \<longleftrightarrow> fitness_key f < fitness_key g"
  by (simp add: less_fitness_wrapper_def fitness_cmp_key)

lemma fitness_le_key: "f \<le> g \<longleftrightarrow> fitness_key f \<le> fitness_key g"
  by (simp add: less_eq_fitness_wrapper_def fitness_cmp_key not_less)

instance fitness_wrapper :: linorder
proof
  fix x y z :: fitness_wrapper
  show "(x < y) = (x \<le> y \<and> \<not> y \<le> x)"
    by (simp add: fitness_less_key fitness_le_key less_le_not_le)
  show "x \<le> y \<or> y \<le> x"
    by (simp add: fitness_le_key linear)
  show "x = y" if "x \<le> y" "y \<le> x"
    using that fitness_key_inj [of x y] by (simp only: fitness_le_key) simp
  show "x \<le> z" if "x \<le> y" "y \<le> z"
    using that by (simp add: fitness_le_key)
qed (simp add: fitness_le_key)

section \<open>Heads\<close>

definition can_update_current_head :: "block_header_with_hash \<Rightarrow> head \<Rightarrow> fitness \<Rightarrow> bool" where
  "can_update_current_head nh current_head current_context_fitness =
     (let new_head_fitness = FitnessWrapper (h_fitness (bh_header nh));
          current_head_fitness = FitnessWrapper (head_fitness current_head);
          context_fitness = FitnessWrapper current_context_fitness in
      if context_fitness = current_head_fitness
      then new_head_fitness > current_head_fitness
      else new_head_fitness \<ge> context_fitness)"

text \<open>These two compare the plain vectors, lexicographically, not the wrapped fitness.\<close>

definition is_fitness_increases :: "head \<Rightarrow> fitness \<Rightarrow> bool" where
  "is_fitness_increases ch new_fitness \<longleftrightarrow> new_fitness > head_fitness ch"

definition is_fitness_increases_or_same :: "head \<Rightarrow> fitness \<Rightarrow> bool" where
  "is_fitness_increases_or_same ch new_fitness \<longleftrightarrow> new_fitness \<ge> head_fitness ch"

text \<open>Hashing a header runs third-party code and is a parameter.\<close>

definition is_same_head :: "(block_header \<Rightarrow> 'e + bytes) \<Rightarrow> head \<Rightarrow> block_header \<Rightarrow> 'e + bool" where
  "is_same_head message_hash ch incoming_header =
     and_then (message_hash incoming_header) (\<lambda>h.
     Inr (head_block_hash ch = h \<and> head_fitness ch = h_fitness incoming_header \<and>
          head_level ch = h_level incoming_header))"

text \<open>
  The clock (in nanoseconds) and \<^verbatim>\<open>chrono\<close>'s conversion of seconds to a point in time
  are parameters; the conversion panics outside its documented range (\<open>None\<close> here).
\<close>

definition is_future_block :: "int \<Rightarrow> (int \<Rightarrow> int option) \<Rightarrow> block_header \<Rightarrow> 'e failure + bool" where
  "is_future_block now from_timestamp bh =
     (let future_margin = now + 15 * 10 ^ 9 in
      case from_timestamp (sint (h_timestamp bh)) of
        None \<Rightarrow> Inl Panic
      | Some block_timestamp \<Rightarrow> Inr (block_timestamp > future_margin))"

section \<open>Operations\<close>

record applied =
  ap_hash :: operation_hash
  protocol_data_json :: string

record errored =
  er_hash :: operation_hash
  is_endorsement :: "bool option"
  error_json :: string

record validate_operation_result =
  applied_ops :: "applied list"
  refused_ops :: "errored list"
  branch_refused :: "errored list"
  branch_delayed :: "errored list"

definition default_result :: validate_operation_result where
  "default_result = \<lparr>applied_ops = [], refused_ops = [], branch_refused = [], branch_delayed = []\<rparr>"

definition can_accept_operation_from_rpc :: "operation_hash \<Rightarrow> validate_operation_result \<Rightarrow> bool" where
  "can_accept_operation_from_rpc oph result = list_ex (\<lambda>r. ap_hash r = oph) (applied_ops result)"

definition can_accept_operation_from_p2p :: "operation_hash \<Rightarrow> validate_operation_result \<Rightarrow> bool" where
  "can_accept_operation_from_p2p oph result =
     (if list_ex (\<lambda>r. er_hash r = oph) (refused_ops result) then False
      else if list_ex (\<lambda>r. ap_hash r = oph) (applied_ops result) then True
      else if list_ex (\<lambda>r. er_hash r = oph) (branch_refused result) then True
      else if list_ex (\<lambda>r. er_hash r = oph) (branch_delayed result) then True
      else False)"

section \<open>Applying a block\<close>

datatype can_apply_status =
    Ready | AlreadyApplied | MissingPredecessor | PredecessorNotApplied | MissingOperations

definition can_apply_block ::
  "block_hash \<Rightarrow> meta \<Rightarrow> (block_hash \<Rightarrow> 'e + bool) \<Rightarrow> (block_hash \<Rightarrow> 'e + bool) \<Rightarrow> 'e + can_apply_status" where
  "can_apply_block block block_metadata operations_complete predecessor_applied =
     (if m_is_applied block_metadata then Inr AlreadyApplied
      else if m_predecessor block_metadata = None then Inr MissingPredecessor
      else and_then (operations_complete block) (\<lambda>complete.
        if \<not> complete then Inr MissingOperations
        else (case m_predecessor block_metadata of
          Some pred \<Rightarrow> and_then (predecessor_applied pred) (\<lambda>applied.
            if applied then Inr Ready else Inr PredecessorNotApplied)
        | None \<Rightarrow> Inr PredecessorNotApplied)))"

lemma list_ex_image: "list_ex (\<lambda>r. f r = x) xs \<longleftrightarrow> x \<in> f ` set xs"
  by (auto simp: list_ex_iff)

lemma can_apply_block_Ready:
  "can_apply_block b m oc pa = Inr Ready \<longleftrightarrow>
     \<not> m_is_applied m \<and> oc b = Inr True \<and> (\<exists>p. m_predecessor m = Some p \<and> pa p = Inr True)"
  by (auto simp: can_apply_block_def and_then_Inr_iff split: option.splits if_splits)

lemma can_apply_block_AlreadyApplied:
  "can_apply_block b m oc pa = Inr AlreadyApplied \<longleftrightarrow> m_is_applied m"
  by (auto simp: can_apply_block_def and_then_Inr_iff split: option.splits if_splits)

section \<open>Properties\<close>

text \<open>
  The fitness comparison is a total order that is consistent with equality of
  fitness vectors: longer vectors win, then longer parts, then larger bytes.
\<close>

theorem fitness_order_total:
  "(fitness_cmp f g = Equal \<longleftrightarrow> f = g) \<and> (fitness_cmp f g = Less \<longleftrightarrow> fitness_cmp g f = Greater) \<and>
   (fitness_cmp f g \<noteq> Greater \<and> fitness_cmp g h \<noteq> Greater \<longrightarrow> fitness_cmp f h \<noteq> Greater) \<and>
   (fitness_cmp f g = Less \<longleftrightarrow> fitness_key f < fitness_key g)"
  by (auto simp: fitness_cmp_key)

theorem fitness_order_total_witness:
  "fitness_cmp (FitnessWrapper [[1]]) (FitnessWrapper [[0, 0]]) = Less \<and>
   fitness_cmp (FitnessWrapper [[0, 0]]) (FitnessWrapper [[1], []]) \<noteq> Greater \<and>
   fitness_cmp (FitnessWrapper [[1]]) (FitnessWrapper [[1], []]) \<noteq> Greater"
  using fitness_order_total [of "FitnessWrapper [[1]]" "FitnessWrapper [[0, 0]]" "FitnessWrapper [[1], []]"]
  by (simp add: cmp_def)

text \<open>
  A head is replaced only by a block that is at least as fit as the context of the
  current head, and strictly fitter than the current head when that context has the fitness
  of the head; so with a context fitness equal to the head's, accepted heads strictly increase.
\<close>

theorem can_update_current_head_monotone:
  "can_update_current_head nh ch ctx \<longleftrightarrow>
     FitnessWrapper ctx \<le> FitnessWrapper (h_fitness (bh_header nh)) \<and>
     (ctx = head_fitness ch \<longrightarrow> FitnessWrapper (head_fitness ch) < FitnessWrapper (h_fitness (bh_header nh)))"
  by (auto simp: can_update_current_head_def Let_def)

theorem can_update_current_head_monotone_witness:
  "can_update_current_head (sample_header\<lparr>bh_header := (bh_header sample_header)\<lparr>h_fitness := [[1], [2]]\<rparr>\<rparr>)
     (new_head (replicate 32 3) 0 [[1]]) [[1]]"
  using can_update_current_head_monotone
    [of "sample_header\<lparr>bh_header := (bh_header sample_header)\<lparr>h_fitness := [[1], [2]]\<rparr>\<rparr>"
        "new_head (replicate 32 3) 0 [[1]]" "[[1]]"]
  by (simp add: new_head_def less_fitness_wrapper_def less_eq_fitness_wrapper_def cmp_def)

text \<open>
  A block may be applied exactly when it is not applied yet, its operations are
  complete, and its predecessor is known and applied; an applied block is always reported so,
  and errors of the two storage lookups are passed on.
\<close>

theorem can_apply_block_correct:
  "(can_apply_block b m oc pa = Inr Ready \<longleftrightarrow>
      \<not> m_is_applied m \<and> oc b = Inr True \<and> (\<exists>p. m_predecessor m = Some p \<and> pa p = Inr True)) \<and>
   (can_apply_block b m oc pa = Inr AlreadyApplied \<longleftrightarrow> m_is_applied m) \<and>
   (can_apply_block b m oc pa = Inl e \<longleftrightarrow> \<not> m_is_applied m \<and>
      (\<exists>p. m_predecessor m = Some p \<and> (oc b = Inl e \<or> oc b = Inr True \<and> pa p = Inl e)))"
  by (cases "oc b") (auto simp: can_apply_block_def and_then_def split: option.splits if_splits sum.splits)

lemma less_after_prefix: "p \<noteq> q \<Longrightarrow> pre @ p # s < pre @ q # t \<longleftrightarrow> (p :: 'a :: linorder) < q"
  by (induction pre) auto

text \<open>
  Two fitness vectors that first differ in the parts \<open>p\<close> and \<open>q\<close>: the comparison used
  for received branches and heads looks at the bytes of these parts only, while the fitness order used
  for switching heads asks for the number of parts first, then for the lengths of \<open>p\<close> and \<open>q\<close>, and
  only then for their bytes. So the two disagree whenever the bytes and the lengths point in opposite directions.
\<close>

theorem is_fitness_increases_ignores_lengths:
  assumes "head_fitness ch = pre @ p # s" "new_fitness = pre @ q # t" "p \<noteq> q"
  shows "(is_fitness_increases ch new_fitness \<longleftrightarrow> p < q) \<and>
    (FitnessWrapper (head_fitness ch) < FitnessWrapper new_fitness \<longleftrightarrow>
       (if length s \<noteq> length t then length s < length t
        else if length p \<noteq> length q then length p < length q
        else p < q))"
proof -
  let ?m = "map (\<lambda>x :: bytes. (length x, x))"
  have "?m pre @ (length p, p) # ?m s < ?m pre @ (length q, q) # ?m t \<longleftrightarrow> (length p, p) < (length q, q)"
    using assms(3) by (intro less_after_prefix) simp
  then show ?thesis
    using assms less_after_prefix [of p q pre s t]
    by (auto simp: is_fitness_increases_def fitness_less_key fitness_key_def less_prod_def)
qed

theorem is_fitness_increases_ignores_lengths_witness:
  "is_fitness_increases (new_head (replicate 32 3) 0 [[9], [0, 1]]) [[9], [1]] \<and>
   \<not> FitnessWrapper [[9], [0, 1]] < FitnessWrapper [[9], [1]]"
  using is_fitness_increases_ignores_lengths [of "new_head (replicate 32 3) 0 [[9], [0, 1]]" "[[9]]" "[0, 1]" "[]"
      "[[9], [1]]" "[1]" "[]"]
  by (simp add: new_head_def)

text \<open>
  An operation received from a peer is accepted exactly when it is not refused and
  is applied, branch-refused or branch-delayed; every operation accepted from RPC that is not
  refused is accepted from peers as well.
\<close>

theorem can_accept_operation_correct:
  "(can_accept_operation_from_p2p oph r \<longleftrightarrow> oph \<notin> er_hash ` set (refused_ops r) \<and>
      oph \<in> ap_hash ` set (applied_ops r) \<union> er_hash ` set (branch_refused r) \<union> er_hash ` set (branch_delayed r)) \<and>
   (can_accept_operation_from_rpc oph r \<longleftrightarrow> oph \<in> ap_hash ` set (applied_ops r))"
  by (auto simp: can_accept_operation_from_p2p_def can_accept_operation_from_rpc_def list_ex_image)

end
