(* ===== verification/MempoolState.thy ===== *)
theory MempoolState
  imports Validation "HOL-Library.AList"
begin

text \<open>
  The mempool of the shell (\<^verbatim>\<open>shell/src/mempool\<close>): the in-memory state, the handling of
  pending operations by the protocol runner, and the event loop of the prevalidator. The
  protocol runner is a service outside the node: its two calls are parameters with their own
  state. The operation cache and the pending set are iterated by the code, so they are
  lists without repetition, in any order.
\<close>

section \<open>State\<close>

record prevalidator_wrapper =
  pv_chain_id :: chain_id
  pv_protocol :: protocol_hash
  pv_context_fitness :: "fitness option"

record mempool_state =
  prevalidator :: "prevalidator_wrapper option"
  prevalidator_started :: "int option"
  ms_predecessor :: "block_hash option"
  validation_result :: validate_operation_result
  ms_operations :: "(operation_hash \<times> operation) list"
  pending :: "operation_hash list"

definition default_mempool_state :: mempool_state where
  "default_mempool_state = \<lparr>prevalidator = None, prevalidator_started = None, ms_predecessor = None,
     validation_result = default_result, ms_operations = [], pending = []\<rparr>"

section \<open>Cumulated results\<close>

text \<open>A new item replaces the first one with its hash, or is appended.\<close>

fun merge_item :: "('i \<Rightarrow> operation_hash) \<Rightarrow> 'i list \<Rightarrow> 'i \<Rightarrow> 'i list" where
  "merge_item h [] new_item = [new_item]"
| "merge_item h (old_item # items) new_item =
     (if h old_item = h new_item then new_item # items else old_item # merge_item h items new_item)"

definition merge_items :: "('i \<Rightarrow> operation_hash) \<Rightarrow> 'i list \<Rightarrow> 'i list \<Rightarrow> 'i list \<times> bool" where
  "merge_items h result_items new_items = (foldl (merge_item h) result_items new_items, new_items \<noteq> [])"

definition result_merge ::
  "validate_operation_result \<Rightarrow> validate_operation_result \<Rightarrow> validate_operation_result \<times> bool" where
  "result_merge r new_result =
     (let (a, c1) = merge_items ap_hash (applied_ops r) (applied_ops new_result);
          (f, c2) = merge_items er_hash (refused_ops r) (refused_ops new_result);
          (b, c3) = merge_items er_hash (branch_refused r) (branch_refused new_result);
          (d, c4) = merge_items er_hash (branch_delayed r) (branch_delayed new_result) in
      (\<lparr>applied_ops = a, refused_ops = f, branch_refused = b, branch_delayed = d\<rparr>, c1 \<or> c2 \<or> c3 \<or> c4))"

section \<open>Operations on the state\<close>

definition is_already_validated :: "mempool_state \<Rightarrow> operation_hash \<Rightarrow> bool" where
  "is_already_validated st oph =
     (if list_ex (\<lambda>r. ap_hash r = oph) (applied_ops (validation_result st)) then True
      else if list_ex (\<lambda>r. er_hash r = oph) (branch_delayed (validation_result st)) then True
      else if list_ex (\<lambda>r. er_hash r = oph) (branch_refused (validation_result st)) then True
      else if list_ex (\<lambda>r. er_hash r = oph) (refused_ops (validation_result st)) then True
      else False)"

definition is_already_in_mempool :: "mempool_state \<Rightarrow> operation_hash \<Rightarrow> bool" where
  "is_already_in_mempool st oph \<longleftrightarrow> oph \<in> set (pending st) \<or> is_already_validated st oph"

definition reinit ::
  "prevalidator_wrapper option \<Rightarrow> block_hash option \<Rightarrow> mempool_state \<Rightarrow> operation_hash list \<times> mempool_state" where
  "reinit pv pred st =
     (let unneeded_operations = filter (\<lambda>key. key \<notin> set (pending st)) (map fst (ms_operations st)) in
      (unneeded_operations,
       st\<lparr>ms_operations := foldl (\<lambda>ops oph. AList.delete oph ops) (ms_operations st) unneeded_operations,
          ms_predecessor := pred,
          prevalidator := pv,
          validation_result := default_result\<rparr>))"

definition add_to_pending :: "operation_hash \<Rightarrow> operation \<Rightarrow> mempool_state \<Rightarrow> bool \<times> mempool_state" where
  "add_to_pending oph op st =
     (if is_already_validated st oph then (False, st)
      else if oph \<in> set (pending st) then (False, st)
      else (True, st\<lparr>ms_operations := AList.update oph op (ms_operations st),
                     pending := pending st @ [oph]\<rparr>))"

text \<open>\<^verbatim>\<open>position\<close> followed by \<^verbatim>\<open>remove\<close>: the first match goes, and whether there was one.\<close>

fun remove_first :: "('i \<Rightarrow> bool) \<Rightarrow> 'i list \<Rightarrow> bool \<times> 'i list" where
  "remove_first P [] = (False, [])"
| "remove_first P (x # xs) = (if P x then (True, xs) else (let (b, ys) = remove_first P xs in (b, x # ys)))"

definition remove_operation :: "operation_hash \<Rightarrow> mempool_state \<Rightarrow> mempool_state" where
  "remove_operation oph st =
     (let r = validation_result st;
          (f1, a) = remove_first (\<lambda>x. ap_hash x = oph) (applied_ops r);
          (f2, d) = remove_first (\<lambda>x. er_hash x = oph) (branch_delayed r);
          (f3, b) = remove_first (\<lambda>x. er_hash x = oph) (branch_refused r);
          (f4, f) = remove_first (\<lambda>x. er_hash x = oph) (refused_ops r);
          f5 = (oph \<in> set (pending st));
          ops = (if f1 \<or> f2 \<or> f3 \<or> f4 \<or> f5 then AList.delete oph (ms_operations st) else ms_operations st) in
      st\<lparr>validation_result := \<lparr>applied_ops = a, refused_ops = f, branch_refused = b, branch_delayed = d\<rparr>,
         pending := (if f5 then removeAll oph (pending st) else pending st),
         ms_operations := ops\<rparr>)"

text \<open>Whether pending operations can be handled, and with which prevalidator and head.\<close>

definition can_handle_pending :: "mempool_state \<Rightarrow> (prevalidator_wrapper \<times> block_hash) option" where
  "can_handle_pending st =
     (if pending st = [] then None
      else (case prevalidator st of
        Some pv \<Rightarrow> (case ms_predecessor st of Some hb \<Rightarrow> Some (pv, hb) | None \<Rightarrow> None)
      | None \<Rightarrow> None))"

definition set_prevalidator_started :: "int \<Rightarrow> mempool_state \<Rightarrow> mempool_state" where
  "set_prevalidator_started now st = st\<lparr>prevalidator_started := Some now\<rparr>"

definition collect_mempool :: "applied list \<Rightarrow> operation_hash list \<Rightarrow> mempool" where
  "collect_mempool as ps = \<lparr>known_valid = map ap_hash as, mempool_pending = ps\<rparr>"

definition mempool_of_state :: "mempool_state \<Rightarrow> mempool" where
  "mempool_of_state st = collect_mempool (applied_ops (validation_result st)) (pending st)"

section \<open>Handling pending operations\<close>

datatype protocol_service_error =
    IpcError string
  | ProtocolError string
  | UnexpectedMessage string
  | InvalidDataError string
  | LockPoisonError string

text \<open>Errors of the connection are passed on, all others are logged.\<close>

definition handle_protocol_service_error :: "protocol_service_error \<Rightarrow> protocol_service_error + unit" where
  "handle_protocol_service_error e =
     (case e of IpcError _ \<Rightarrow> Inl e | UnexpectedMessage _ \<Rightarrow> Inl e | _ \<Rightarrow> Inr ())"

datatype prevalidation_error =
    PvStorageError storage_error
  | PvProtocolServiceError protocol_service_error
  | CurrentMempoolStorageLockError string

datatype shell_message = AdvertiseToP2pNewMempool chain_id block_hash mempool

type_synonym 'a validate_api =
  "prevalidator_wrapper \<Rightarrow> operation \<Rightarrow> ('a, protocol_service_error, validate_operation_result) act"

type_synonym 'a construct_api =
  "chain_id \<Rightarrow> block_header \<Rightarrow> ('a, protocol_service_error, prevalidator_wrapper) act"

fun validate_loop :: "'a validate_api \<Rightarrow> prevalidator_wrapper \<Rightarrow> (operation_hash \<times> operation) list \<Rightarrow>
    operation_hash list \<Rightarrow> validate_operation_result \<Rightarrow> 'a \<Rightarrow>
    (protocol_service_error + unit) \<times> validate_operation_result \<times> 'a" where
  "validate_loop validate_operation pv ops [] r a = (Inr (), r, a)"
| "validate_loop validate_operation pv ops (pending_op # pendings) r a =
     (case map_of ops pending_op of
        Some op \<Rightarrow>
          (case validate_operation pv op a of
             (Inr response, a') \<Rightarrow>
               validate_loop validate_operation pv ops pendings (fst (result_merge r response)) a'
           | (Inl pse, a') \<Rightarrow>
               (case handle_protocol_service_error pse of
                  Inl e \<Rightarrow> (Inl e, r, a')
                | Inr _ \<Rightarrow> validate_loop validate_operation pv ops pendings r a'))
      | None \<Rightarrow> validate_loop validate_operation pv ops pendings r a)"

text \<open>Other actors hear of the mempool only if something was applied.\<close>

definition advertise_new_mempool ::
  "prevalidator_wrapper \<Rightarrow> block_hash \<Rightarrow> applied list \<Rightarrow> operation_hash list \<Rightarrow> shell_message list" where
  "advertise_new_mempool pv hb as ps =
     (if as = [] then [] else [AdvertiseToP2pNewMempool (pv_chain_id pv) hb (collect_mempool as ps)])"

text \<open>
  The pending set is drained: it is empty afterwards whether or not the loop is left
  early. The result is the outcome, the messages sent, the new state and the service state.
\<close>

definition handle_pending_operations :: "'a validate_api \<Rightarrow> mempool_state \<Rightarrow> 'a \<Rightarrow>
    (prevalidation_error + shell_message list) \<times> mempool_state \<times> 'a" where
  "handle_pending_operations validate_operation st a =
     (case can_handle_pending st of
        None \<Rightarrow> (Inr [], st, a)
      | Some (pv, hb) \<Rightarrow>
          (case validate_loop validate_operation pv (ms_operations st) (pending st) (validation_result st) a of
             (outcome, r, a') \<Rightarrow>
               let st' = st\<lparr>pending := [], validation_result := r\<rparr> in
               (case outcome of
                  Inl e \<Rightarrow> (Inl (PvProtocolServiceError e), st', a')
                | Inr _ \<Rightarrow> (Inr (advertise_new_mempool pv hb (applied_ops r) []), st', a'))))"

definition begin_construction :: "'a construct_api \<Rightarrow> chain_id \<Rightarrow> block_hash \<Rightarrow> block_header \<Rightarrow>
    ('a, prevalidation_error, prevalidator_wrapper option \<times> block_hash option) act" where
  "begin_construction api cid bh hdr = (\<lambda>a.
     case api cid hdr a of
       (Inr pv, a') \<Rightarrow> (Inr (Some pv, Some bh), a')
     | (Inl pse, a') \<Rightarrow>
         (case handle_protocol_service_error pse of
            Inl e \<Rightarrow> (Inl (PvProtocolServiceError e), a')
          | Inr _ \<Rightarrow> (Inr (None, None), a')))"

section \<open>Mempool storage\<close>

text \<open>Persisted operations (\<^verbatim>\<open>storage/src/mempool_storage.rs\<close>), keyed by kind and hash.\<close>

definition to_u8 :: "mempool_operation_type \<Rightarrow> byte" where
  "to_u8 t = (case t of Pending \<Rightarrow> 0 | KnownValid \<Rightarrow> 1)"

definition from_u8 :: "byte \<Rightarrow> byte + mempool_operation_type" where
  "from_u8 num = (if num = 0 then Inr Pending else if num = 1 then Inr KnownValid else Inl num)"

type_synonym mempool_key = "mempool_operation_type \<times> operation_hash"
type_synonym 'k mempool_kv = "('k, mempool_key, operation) kv_store"

definition LEN_OPERATION_HASH :: nat where
  "LEN_OPERATION_HASH = 32"

definition mempool_key_encode :: "mempool_key \<Rightarrow> schema_error + bytes" where
  "mempool_key_encode k =
     (if length (snd k) = LEN_OPERATION_HASH then Inr (to_u8 (fst k) # snd k) else Inl EncodeError)"

definition mempool_key_decode :: "bytes \<Rightarrow> schema_error failure + mempool_key" where
  "mempool_key_decode bs =
     (if length bs = 1 + LEN_OPERATION_HASH then
        and_then (num_from_slice bs 0 1) (\<lambda>n.
        and_then (map_err (\<lambda>_. Err DecodeError) (from_u8 (word_of_nat n))) (\<lambda>t.
        and_then (hash_from_bytes LEN_OPERATION_HASH (subslice 1 (1 + LEN_OPERATION_HASH) bs)) (\<lambda>h.
        Inr (t, h))))
      else Inl (Err DecodeError))"

text \<open>The hash of an operation is computed by third-party code.\<close>

definition mps_put :: "'k mempool_kv \<Rightarrow> (operation \<Rightarrow> storage_error + bytes) \<Rightarrow> mempool_operation_type \<Rightarrow>
    operation \<Rightarrow> ('k, unit) storage_act" where
  "mps_put kv message_hash t op =
     bindA (liftR (map_err Err (message_hash op))) (\<lambda>h.
     bindA (liftR (map_err (\<lambda>_. Err HashErr) (hash_from_bytes LEN_OPERATION_HASH h))) (\<lambda>oph.
     storageA (kv_put kv (t, oph) op)))"

definition put_pending :: "'k mempool_kv \<Rightarrow> (operation \<Rightarrow> storage_error + bytes) \<Rightarrow> operation \<Rightarrow> ('k, unit) storage_act" where
  "put_pending kv mh op = mps_put kv mh Pending op"

definition put_known_valid :: "'k mempool_kv \<Rightarrow> (operation \<Rightarrow> storage_error + bytes) \<Rightarrow> operation \<Rightarrow> ('k, unit) storage_act" where
  "put_known_valid kv mh op = mps_put kv mh KnownValid op"

definition mps_get :: "'k mempool_kv \<Rightarrow> mempool_operation_type \<Rightarrow> operation_hash \<Rightarrow> ('k, operation option) storage_act" where
  "mps_get kv t oph = storageA (kv_get kv (t, oph))"

definition mps_delete :: "'k mempool_kv \<Rightarrow> operation_hash \<Rightarrow> ('k, unit) storage_act" where
  "mps_delete kv oph =
     bindA (storageA (kv_delete kv (Pending, oph))) (\<lambda>_.
     storageA (kv_delete kv (KnownValid, oph)))"

definition mps_find :: "'k mempool_kv \<Rightarrow> operation_hash \<Rightarrow> ('k, operation option) storage_act" where
  "mps_find kv oph =
     bindA (mps_get kv Pending oph) (\<lambda>found.
     case found of
       Some op \<Rightarrow> ret (Some op)
     | None \<Rightarrow> bindA (mps_get kv KnownValid oph) (\<lambda>found'.
         case found' of Some op \<Rightarrow> ret (Some op) | None \<Rightarrow> ret None))"

section \<open>The event loop\<close>

datatype mempool_event =
    NewHead block_header_with_hash
  | ValidateOperation operation_hash mempool_operation_type
  | ShuttingDown

datatype mempool_output = ToShell shell_message | Callback "string + unit"

text \<open>What the loop owns: the shared state, the storage, the service and the run flag.\<close>

record ('k, 'a) prevalidation =
  pr_state :: mempool_state
  pr_storage :: 'k
  pr_api :: 'a
  pr_run :: bool

text \<open>Deletions whose error is only logged.\<close>

fun delete_each :: "'k mempool_kv \<Rightarrow> operation_hash list \<Rightarrow> 'k \<Rightarrow> 'k" where
  "delete_each kv [] k = k"
| "delete_each kv (oph # ophs) k = delete_each kv ophs (snd (mps_delete kv oph k))"

definition handle_event :: "'k mempool_kv \<Rightarrow> 'a construct_api \<Rightarrow> chain_id \<Rightarrow> mempool_event \<Rightarrow>
    ('k, 'a) prevalidation \<Rightarrow> (prevalidation_error failure + mempool_output list) \<times> ('k, 'a) prevalidation" where
  "handle_event kv construct cid ev p =
     (case ev of
        NewHead hdr \<Rightarrow>
          if (case ms_predecessor (pr_state p) of Some mempool_head \<Rightarrow> mempool_head \<noteq> bh_hash hdr | None \<Rightarrow> True)
          then (case begin_construction construct cid (bh_hash hdr) (bh_header hdr) (pr_api p) of
              (Inl e, a') \<Rightarrow> (Inl (Err e), p\<lparr>pr_api := a'\<rparr>)
            | (Inr (pv, hb), a') \<Rightarrow>
                (case reinit pv hb (pr_state p) of
                   (operations_to_delete, st') \<Rightarrow>
                     (Inr [], p\<lparr>pr_api := a', pr_state := st',
                                 pr_storage := delete_each kv operations_to_delete (pr_storage p)\<rparr>)))
          else (Inr [], p)
      | ValidateOperation oph t \<Rightarrow>
          (case mps_get kv t oph (pr_storage p) of
             (Inl e, k') \<Rightarrow> (Inl (map_failure PvStorageError e), p\<lparr>pr_storage := k'\<rparr>)
           | (Inr None, k') \<Rightarrow> (Inr [Callback (Inl ''previously validated and removed'')], p\<lparr>pr_storage := k'\<rparr>)
           | (Inr (Some op), k') \<Rightarrow>
               (case add_to_pending oph op (pr_state p) of
                  (was_added, st') \<Rightarrow>
                    (Inr [Callback (if was_added then Inr () else Inl ''operation already validated'')],
                     p\<lparr>pr_storage := k', pr_state := st'\<rparr>)))
      | ShuttingDown \<Rightarrow> (Inr [], p\<lparr>pr_run := False\<rparr>))"

text \<open>One turn of the loop: an event if one arrived, then the pending operations.\<close>

definition prevalidation_turn :: "'k mempool_kv \<Rightarrow> 'a validate_api \<Rightarrow> 'a construct_api \<Rightarrow> chain_id \<Rightarrow>
    mempool_event option \<Rightarrow> ('k, 'a) prevalidation \<Rightarrow>
    (prevalidation_error failure + mempool_output list) \<times> ('k, 'a) prevalidation" where
  "prevalidation_turn kv validate construct cid ev p =
     (case (case ev of Some e \<Rightarrow> handle_event kv construct cid e p | None \<Rightarrow> (Inr [], p)) of
        (Inl e, p') \<Rightarrow> (Inl e, p')
      | (Inr out, p') \<Rightarrow>
          (case handle_pending_operations validate (pr_state p') (pr_api p') of
             (Inl e, st', a') \<Rightarrow> (Inl (Err e), p'\<lparr>pr_state := st', pr_api := a'\<rparr>)
           | (Inr msgs, st', a') \<Rightarrow> (Inr (out @ map ToShell msgs), p'\<lparr>pr_state := st', pr_api := a'\<rparr>)))"

fun add_all_pending :: "(operation_hash \<times> operation) list \<Rightarrow> mempool_state \<Rightarrow> mempool_state" where
  "add_all_pending [] st = st"
| "add_all_pending ((oph, op) # ops) st = add_all_pending ops (snd (add_to_pending oph op st))"

text \<open>
  Start-up: the stored head (if any) opens a construction, the stored operations become
  pending and are validated at once. The reads of the head and of the stored operations are
  given by their results.
\<close>

definition hydrate_state :: "'a validate_api \<Rightarrow> 'a construct_api \<Rightarrow> chain_id \<Rightarrow> int \<Rightarrow>
    (head \<times> block_header) option \<Rightarrow> (operation_hash \<times> operation) list \<Rightarrow> mempool_state \<Rightarrow> 'a \<Rightarrow>
    (prevalidation_error + shell_message list) \<times> mempool_state \<times> 'a" where
  "hydrate_state validate construct cid now current_head stored st a =
     (case (case current_head of
              Some (h, hdr) \<Rightarrow> begin_construction construct cid (head_block_hash h) hdr a
            | None \<Rightarrow> (Inr (None, None), a)) of
        (Inl e, a') \<Rightarrow> (Inl e, st, a')
      | (Inr (pv, hb), a') \<Rightarrow>
          let st1 = add_all_pending stored (snd (reinit pv hb st));
              st2 = (if prevalidator_started st1 = None then set_prevalidator_started now st1 else st1) in
          handle_pending_operations validate st2 a')"

section \<open>Invariant\<close>

definition validated :: "validate_operation_result \<Rightarrow> operation_hash set" where
  "validated r = ap_hash ` set (applied_ops r) \<union> er_hash ` set (refused_ops r) \<union>
     er_hash ` set (branch_refused r) \<union> er_hash ` set (branch_delayed r)"

definition result_ok :: "validate_operation_result \<Rightarrow> bool" where
  "result_ok r \<longleftrightarrow> distinct (map ap_hash (applied_ops r)) \<and> distinct (map er_hash (refused_ops r)) \<and>
     distinct (map er_hash (branch_refused r)) \<and> distinct (map er_hash (branch_delayed r))"

text \<open>
  No operation is listed twice, the data of every pending operation is in the cache, and
  no pending operation has been validated.
\<close>

definition mempool_ok :: "mempool_state \<Rightarrow> bool" where
  "mempool_ok st \<longleftrightarrow> distinct (pending st) \<and> distinct (map fst (ms_operations st)) \<and>
     set (pending st) \<subseteq> fst ` set (ms_operations st) \<and> result_ok (validation_result st) \<and>
     set (pending st) \<inter> validated (validation_result st) = {}"

lemma is_already_validated_iff: "is_already_validated st oph \<longleftrightarrow> oph \<in> validated (validation_result st)"
  by (auto simp: is_already_validated_def validated_def list_ex_image)

lemma merge_item_set: "h ` set (merge_item h items x) = insert (h x) (h ` set items)"
  by (induction items) auto

lemma merge_item_distinct: "distinct (map h items) \<Longrightarrow> distinct (map h (merge_item h items x))"
proof (induction items)
  case (Cons y items)
  then show ?case
    using merge_item_set [of h items x] by auto
qed simp

lemma merge_items_facts:
  "h ` set (fst (merge_items h items new)) = h ` set items \<union> h ` set new"
  "distinct (map h items) \<Longrightarrow> distinct (map h (fst (merge_items h items new)))"
  by (induction new arbitrary: items) (simp_all add: merge_items_def merge_item_set merge_item_distinct)

lemma result_merge_fst:
  "fst (result_merge r n) = \<lparr>applied_ops = fst (merge_items ap_hash (applied_ops r) (applied_ops n)),
     refused_ops = fst (merge_items er_hash (refused_ops r) (refused_ops n)),
     branch_refused = fst (merge_items er_hash (branch_refused r) (branch_refused n)),
     branch_delayed = fst (merge_items er_hash (branch_delayed r) (branch_delayed n))\<rparr>"
  by (simp add: result_merge_def split: prod.splits)

lemma result_merge_facts:
  "validated (fst (result_merge r n)) = validated r \<union> validated n"
  "result_ok r \<Longrightarrow> result_ok (fst (result_merge r n))"
  by (auto simp: result_merge_fst validated_def result_ok_def merge_items_facts)

lemma default_result_ok [simp]: "result_ok default_result" "validated default_result = {}"
  by (simp_all add: default_result_def result_ok_def validated_def)

lemma foldl_delete:
  "foldl (\<lambda>ops oph. AList.delete oph ops) ops ks = filter (\<lambda>(k, _). k \<notin> set ks) ops"
  by (induction ks arbitrary: ops) (auto simp: AList.delete_eq intro!: filter_cong)

lemma reinit_operations:
  "ms_operations (snd (reinit pv pred st)) = filter (\<lambda>(k, _). k \<in> set (pending st)) (ms_operations st)"
  by (auto simp: reinit_def Let_def foldl_delete intro!: filter_cong) (metis fst_conv image_eqI)

lemma reinit_ok: "mempool_ok st \<Longrightarrow> mempool_ok (snd (reinit pv pred st))"
  unfolding mempool_ok_def reinit_operations
  by (auto simp: reinit_def Let_def distinct_map_filter image_iff) force

lemma add_to_pending_ok: "mempool_ok st \<Longrightarrow> mempool_ok (snd (add_to_pending oph op st))"
  using distinct_update [of "ms_operations st" oph op] dom_update [of oph op "ms_operations st"]
  by (auto simp: mempool_ok_def add_to_pending_def is_already_validated_iff dom_map_of_conv_image_fst)

lemma remove_first_facts:
  assumes "distinct (map h xs)"
  shows "h ` set (snd (remove_first (\<lambda>x. h x = k) xs)) = h ` set xs - {k} \<and>
    distinct (map h (snd (remove_first (\<lambda>x. h x = k) xs))) \<and>
    (fst (remove_first (\<lambda>x. h x = k) xs) \<longleftrightarrow> k \<in> h ` set xs)"
  using assms
proof (induction xs)
  case (Cons x xs)
  then have "h x \<notin> h ` set xs"
    by simp
  with Cons show ?case
    by (auto split: prod.splits) (metis DiffD2 imageI insertI1, metis imageI)
qed simp

lemma remove_operation_eq:
  "remove_operation oph st =
     (let r = validation_result st in
      st\<lparr>validation_result := \<lparr>
           applied_ops = snd (remove_first (\<lambda>x. ap_hash x = oph) (applied_ops r)),
           refused_ops = snd (remove_first (\<lambda>x. er_hash x = oph) (refused_ops r)),
           branch_refused = snd (remove_first (\<lambda>x. er_hash x = oph) (branch_refused r)),
           branch_delayed = snd (remove_first (\<lambda>x. er_hash x = oph) (branch_delayed r))\<rparr>,
         pending := removeAll oph (pending st),
         ms_operations := (if fst (remove_first (\<lambda>x. ap_hash x = oph) (applied_ops r)) \<or>
             fst (remove_first (\<lambda>x. er_hash x = oph) (branch_delayed r)) \<or>
             fst (remove_first (\<lambda>x. er_hash x = oph) (branch_refused r)) \<or>
             fst (remove_first (\<lambda>x. er_hash x = oph) (refused_ops r)) \<or> oph \<in> set (pending st)
           then AList.delete oph (ms_operations st) else ms_operations st)\<rparr>)"
  by (simp add: remove_operation_def Let_def split: prod.splits)

lemma remove_operation_facts:
  assumes "mempool_ok st"
  shows "validated (validation_result (remove_operation oph st)) = validated (validation_result st) - {oph}"
    "result_ok (validation_result (remove_operation oph st))"
    "pending (remove_operation oph st) = removeAll oph (pending st)"
    "ms_operations (remove_operation oph st) =
       (if is_already_in_mempool st oph then AList.delete oph (ms_operations st) else ms_operations st)"
proof -
  let ?r = "validation_result st"
  have d: "distinct (map ap_hash (applied_ops ?r))" "distinct (map er_hash (refused_ops ?r))"
    "distinct (map er_hash (branch_refused ?r))" "distinct (map er_hash (branch_delayed ?r))"
    using assms by (auto simp: mempool_ok_def result_ok_def)
  note f = d [THEN remove_first_facts, of oph]
  show "validated (validation_result (remove_operation oph st)) = validated (validation_result st) - {oph}"
    "result_ok (validation_result (remove_operation oph st))"
    "pending (remove_operation oph st) = removeAll oph (pending st)"
    using f by (auto simp: remove_operation_eq Let_def validated_def result_ok_def)
  show "ms_operations (remove_operation oph st) =
       (if is_already_in_mempool st oph then AList.delete oph (ms_operations st) else ms_operations st)"
    using f by (auto simp: remove_operation_eq Let_def is_already_in_mempool_def is_already_validated_iff validated_def)
qed

lemma remove_operation_ok:
  assumes "mempool_ok st"
  shows "mempool_ok (remove_operation oph st)"
proof -
  have "distinct (map fst (AList.delete oph (ms_operations st)))"
    "fst ` set (AList.delete oph (ms_operations st)) = fst ` set (ms_operations st) - {oph}"
    using assms by (auto simp: mempool_ok_def AList.delete_eq distinct_map_filter)
  then show ?thesis
    using assms remove_operation_facts [OF assms, of oph]
    unfolding mempool_ok_def by (auto simp: distinct_removeAll split: if_splits)
qed

lemma validate_loop_ok:
  assumes "result_ok r" "validate_loop validate pv ops ps r a = (res, r', a')"
  shows "result_ok r' \<and> validated r \<subseteq> validated r'"
  using assms
proof (induction ps arbitrary: r a)
  case (Cons p ps)
  show ?case
  proof (cases "map_of ops p")
    case None
    then show ?thesis
      using Cons by simp
  next
    case (Some op)
    obtain v a1 where v: "validate pv op a = (v, a1)"
      by fastforce
    show ?thesis
    proof (cases v)
      case (Inl e)
      then show ?thesis
        using Cons Some v by (cases "handle_protocol_service_error e") auto
    next
      case (Inr resp)
      then show ?thesis
        using Cons.IH [of "fst (result_merge r resp)" a1] Cons.prems Some v result_merge_facts [of r resp] by auto
    qed
  qed
qed simp

lemma handle_pending_ok:
  assumes "mempool_ok st" "handle_pending_operations validate st a = (res, st', a')"
  shows "mempool_ok st' \<and> (can_handle_pending st \<noteq> None \<longrightarrow> pending st' = []) \<and>
    ms_operations st' = ms_operations st \<and> validated (validation_result st) \<subseteq> validated (validation_result st')"
proof (cases "can_handle_pending st")
  case None
  then show ?thesis
    using assms by (simp add: handle_pending_operations_def)
next
  case (Some x)
  obtain pv hb where x: "x = (pv, hb)"
    by fastforce
  obtain out r a1 where l: "validate_loop validate pv (ms_operations st) (pending st) (validation_result st) a = (out, r, a1)"
    by (metis prod_cases3)
  have r: "result_ok r" "validated (validation_result st) \<subseteq> validated r"
    using validate_loop_ok [OF _ l] assms(1) by (simp_all add: mempool_ok_def)
  have st': "st' = st\<lparr>pending := [], validation_result := r\<rparr>"
    using assms(2) Some x l by (auto simp: handle_pending_operations_def Let_def split: sum.splits)
  show ?thesis
    using assms(1) r by (simp add: st' mempool_ok_def)
qed

lemma add_all_pending_ok: "mempool_ok st \<Longrightarrow> mempool_ok (add_all_pending ops st)"
  by (induction ops st rule: add_all_pending.induct) (auto intro: add_to_pending_ok)

lemma reinit_eq_ok: "reinit pv pred st = (x, st') \<Longrightarrow> mempool_ok st \<Longrightarrow> mempool_ok st'"
  using reinit_ok [of st pv pred] by simp

lemma add_to_pending_eq_ok: "add_to_pending oph op st = (x, st') \<Longrightarrow> mempool_ok st \<Longrightarrow> mempool_ok st'"
  using add_to_pending_ok [of st oph op] by simp

lemma handle_event_ok:
  assumes "mempool_ok (pr_state p)" "handle_event kv construct cid ev p = (res, p')"
  shows "mempool_ok (pr_state p')"
proof (cases ev)
  case (NewHead hdr)
  then show ?thesis
    using assms
    by (auto simp: handle_event_def split: if_splits prod.splits sum.splits dest: reinit_eq_ok)
next
  case (ValidateOperation oph t)
  then show ?thesis
    using assms
    by (auto simp: handle_event_def split: prod.splits sum.splits option.splits dest: add_to_pending_eq_ok)
qed (use assms in \<open>auto simp: handle_event_def\<close>)

lemma prevalidation_turn_ok:
  assumes "mempool_ok (pr_state p)" "prevalidation_turn kv validate construct cid ev p = (res, p')"
  shows "mempool_ok (pr_state p')"
proof -
  define q where "q = (case ev of Some e \<Rightarrow> handle_event kv construct cid e p | None \<Rightarrow> (Inr [], p))"
  obtain r1 p1 where q: "q = (r1, p1)"
    by fastforce
  have ok: "mempool_ok (pr_state p1)"
    using assms(1) q handle_event_ok unfolding q_def by (auto split: option.splits)
  show ?thesis
  proof (cases r1)
    case (Inl e)
    then show ?thesis
      using assms(2) q ok unfolding prevalidation_turn_def q_def [symmetric] by simp
  next
    case (Inr out)
    then show ?thesis
      using assms(2) q unfolding prevalidation_turn_def q_def [symmetric]
      by (auto split: prod.splits sum.splits dest!: handle_pending_ok [OF ok])
  qed
qed

section \<open>Reachable states\<close>

text \<open>
  The shared state changes by a turn of the running loop, by the removal of an operation on
  behalf of a client, or by a restart of the loop (start-up on the state it finds).
\<close>

inductive mempool_step :: "'k mempool_kv \<Rightarrow> 'a validate_api \<Rightarrow> 'a construct_api \<Rightarrow> chain_id \<Rightarrow>
    ('k, 'a) prevalidation \<Rightarrow> ('k, 'a) prevalidation \<Rightarrow> bool"
  for kv validate construct cid where
  turn: "pr_run p \<Longrightarrow> prevalidation_turn kv validate construct cid ev p = (res, p') \<Longrightarrow>
    mempool_step kv validate construct cid p p'"
| removal: "mempool_step kv validate construct cid p (p\<lparr>pr_state := remove_operation oph (pr_state p)\<rparr>)"
| restart: "hydrate_state validate construct cid now ch stored (pr_state p) (pr_api p) = (res, st', a') \<Longrightarrow>
    mempool_step kv validate construct cid p (p\<lparr>pr_state := st', pr_api := a', pr_run := True\<rparr>)"

lemma hydrate_ok:
  assumes "mempool_ok st" "hydrate_state validate construct cid now ch stored st a = (res, st', a')"
  shows "mempool_ok st'"
proof -
  define q where "q = (case ch of Some (h, hdr) \<Rightarrow> begin_construction construct cid (head_block_hash h) hdr a
            | None \<Rightarrow> (Inr (None, None), a))"
  obtain r1 a1 where q: "q = (r1, a1)"
    by fastforce
  show ?thesis
  proof (cases r1)
    case (Inl e)
    then show ?thesis
      using assms q unfolding hydrate_state_def q_def [symmetric] by simp
  next
    case (Inr x)
    obtain pv hb where x: "x = (pv, hb)"
      by fastforce
    let ?s1 = "add_all_pending stored (snd (reinit pv hb st))"
    let ?s2 = "if prevalidator_started ?s1 = None then set_prevalidator_started now ?s1 else ?s1"
    have "mempool_ok ?s1"
      by (intro add_all_pending_ok reinit_ok assms(1))
    then have "mempool_ok ?s2"
      by (simp add: set_prevalidator_started_def mempool_ok_def)
    then show ?thesis
      using assms(2) q Inr x handle_pending_ok [of ?s2 validate a1 res st' a']
      unfolding hydrate_state_def q_def [symmetric] by (simp add: Let_def)
  qed
qed

lemma mempool_step_ok: "mempool_step kv validate construct cid p p' \<Longrightarrow> mempool_ok (pr_state p) \<Longrightarrow> mempool_ok (pr_state p')"
  by (induction rule: mempool_step.induct) (auto intro: prevalidation_turn_ok remove_operation_ok hydrate_ok)

lemma default_mempool_ok: "mempool_ok default_mempool_state"
  by (simp add: default_mempool_state_def mempool_ok_def)

section \<open>Properties\<close>

text \<open>
  Property C22. In every state the mempool reaches from its initial state, by turns of the event
  loop (whatever the protocol runner and the storage answer), removals and restarts, no
  operation is listed twice, every pending operation has its data in the cache, and no pending
  operation has already been validated.
\<close>

theorem mempool_reachable_ok:
  assumes "(mempool_step kv validate construct cid)\<^sup>*\<^sup>* p p'" "pr_state p = default_mempool_state"
  shows "mempool_ok (pr_state p')"
  using assms(1)
proof (induction rule: rtranclp_induct)
  case base
  then show ?case
    using assms(2) default_mempool_ok by simp
next
  case (step y z)
  then show ?case
    using mempool_step_ok by blast
qed

definition refusing_validate :: "unit validate_api" where
  "refusing_validate = (\<lambda>_ _ a. (Inl (ProtocolError ''refused''), a))"

definition sample_construct :: "unit construct_api" where
  "sample_construct = (\<lambda>cid _ a. (Inr \<lparr>pv_chain_id = cid, pv_protocol = [], pv_context_fitness = None\<rparr>, a))"

definition sample_operation :: operation where
  "sample_operation = \<lparr>op_branch = replicate 32 3, op_data = [1]\<rparr>"

definition idle_kv :: "(unit, 'k, 'v) kv_store" where
  "idle_kv = \<lparr>kv_put = (\<lambda>_ _. ret ()), kv_delete = (\<lambda>_. ret ()), kv_merge = (\<lambda>_ _. ret ()),
     kv_get = (\<lambda>_. ret None), kv_contains = (\<lambda>_. ret False), kv_retain = (\<lambda>_. ret ()),
     kv_write_batch = (\<lambda>_. ret ())\<rparr>"

definition started_state :: mempool_state where
  "started_state = fst (snd (hydrate_state refusing_validate sample_construct [0, 0, 0, 0] 0 None
     [(replicate 32 9, sample_operation)] default_mempool_state ()))"

theorem mempool_reachable_ok_witness:
  "mempool_ok started_state \<and> pending started_state = [replicate 32 9]"
proof -
  let ?p = "\<lparr>pr_state = default_mempool_state, pr_storage = (), pr_api = (), pr_run = True\<rparr>"
  let ?kv = "idle_kv :: unit mempool_kv"
  have "mempool_step ?kv refusing_validate sample_construct [0, 0, 0, 0] ?p
      (?p\<lparr>pr_state := started_state, pr_api := (), pr_run := True\<rparr>)"
    by (rule mempool_step.restart [of _ _ _ 0 None "[(replicate 32 9, sample_operation)]"])
      (simp add: started_state_def prod_eq_iff)
  then have "mempool_ok started_state"
    using mempool_reachable_ok [of ?kv refusing_validate sample_construct "[0, 0, 0, 0]" ?p
        "?p\<lparr>pr_state := started_state, pr_api := (), pr_run := True\<rparr>"] by auto
  moreover have "pending started_state = [replicate 32 9]"
    by (simp add: started_state_def hydrate_state_def reinit_def add_to_pending_def is_already_validated_def
        default_mempool_state_def default_result_def set_prevalidator_started_def
        handle_pending_operations_def can_handle_pending_def Let_def)
  ultimately show ?thesis ..
qed

text \<open>
  Removing an operation really removes it: afterwards it is neither pending nor
  validated and its data is gone if it was there, while every other operation keeps its place.
\<close>

theorem remove_operation_correct:
  assumes "mempool_ok st"
  shows "\<not> is_already_in_mempool (remove_operation oph st) oph \<and>
    (is_already_in_mempool st oph \<longrightarrow> map_of (ms_operations (remove_operation oph st)) oph = None) \<and>
    (\<forall>other. other \<noteq> oph \<longrightarrow>
       is_already_in_mempool (remove_operation oph st) other = is_already_in_mempool st other \<and>
       map_of (ms_operations (remove_operation oph st)) other = map_of (ms_operations st) other)"
proof -
  note f = remove_operation_facts [OF assms, of oph]
  show ?thesis
    by (auto simp: is_already_in_mempool_def is_already_validated_iff f AList.delete_conv')
qed

theorem remove_operation_correct_witness:
  "\<not> is_already_in_mempool (remove_operation (replicate 32 9) (snd (add_to_pending (replicate 32 9) sample_operation default_mempool_state))) (replicate 32 9)"
  using remove_operation_correct [OF add_to_pending_ok [OF default_mempool_ok]] by blast

text \<open>
  What the protocol runner answers when it is given operations one after the other, and the
  responses before the connection breaks. A class of results is a map from hashes.
\<close>

primrec answers :: "'a validate_api \<Rightarrow> prevalidator_wrapper \<Rightarrow> operation list \<Rightarrow> 'a \<Rightarrow>
    (protocol_service_error + validate_operation_result) list" where
  "answers validate_operation pv [] a = []"
| "answers validate_operation pv (op # ops) a =
     fst (validate_operation pv op a) # answers validate_operation pv ops (snd (validate_operation pv op a))"

definition broken :: "protocol_service_error + validate_operation_result \<Rightarrow> bool" where
  "broken r \<longleftrightarrow> (\<exists>s. r = Inl (IpcError s) \<or> r = Inl (UnexpectedMessage s))"

definition responses :: "(protocol_service_error + validate_operation_result) list \<Rightarrow> validate_operation_result list" where
  "responses rs = concat (map (\<lambda>r. case r of Inr x \<Rightarrow> [x] | Inl _ \<Rightarrow> []) (takeWhile (\<lambda>r. \<not> broken r) rs))"

definition by_hash :: "('i \<Rightarrow> operation_hash) \<Rightarrow> 'i list \<Rightarrow> operation_hash \<rightharpoonup> 'i" where
  "by_hash h items = map_of (map (\<lambda>i. (h i, i)) items)"

lemma not_broken_Inr [simp]: "\<not> broken (Inr x)"
  by (simp add: broken_def)

lemma by_hash_simps [simp]:
  "by_hash h [] = Map.empty" "by_hash h (x # xs) = (by_hash h xs)(h x \<mapsto> x)" "by_hash h (xs @ ys) = by_hash h ys ++ by_hash h xs"
  by (simp_all add: by_hash_def)

lemma by_hash_merge_item: "by_hash h (merge_item h items x) = (by_hash h items)(h x \<mapsto> x)"
  by (induction items) (auto simp: fun_eq_iff)

lemma by_hash_merge: "by_hash h (foldl (merge_item h) items new) = by_hash h items ++ by_hash h (rev new)"
  by (induction new arbitrary: items) (simp_all add: by_hash_merge_item fun_eq_iff map_add_def split: option.split)

text \<open>All classes of a result, under the field \<open>f\<close> with the hash \<open>h\<close>.\<close>

definition class_merges :: "(validate_operation_result \<Rightarrow> 'i list) \<Rightarrow> ('i \<Rightarrow> operation_hash) \<Rightarrow> bool" where
  "class_merges f h \<longleftrightarrow> (\<forall>r x. f (fst (result_merge r x)) = foldl (merge_item h) (f r) (f x))"

lemma classes_merge:
  "class_merges applied_ops ap_hash" "class_merges refused_ops er_hash"
  "class_merges branch_refused er_hash" "class_merges branch_delayed er_hash"
  by (simp_all add: class_merges_def result_merge_def merge_items_def)

lemma by_hash_results:
  assumes "class_merges f h"
  shows "by_hash h (f (foldl (\<lambda>r x. fst (result_merge r x)) r xs)) = by_hash h (f r) ++ by_hash h (rev (concat (map f xs)))"
  using assms by (induction xs arbitrary: r) (simp_all add: class_merges_def by_hash_merge)

lemma validate_loop_answers:
  assumes "\<And>oph. oph \<in> set ps \<Longrightarrow> map_of ops oph = Some (body oph)"
    and "validate_loop validate pv ops ps r a = (outcome, r', a')"
  shows "r' = foldl (\<lambda>r x. fst (result_merge r x)) r (responses (answers validate pv (map body ps) a)) \<and>
    (case outcome of
       Inr _ \<Rightarrow> find broken (answers validate pv (map body ps) a) = None
     | Inl e \<Rightarrow> find broken (answers validate pv (map body ps) a) = Some (Inl e))"
  using assms
proof (induction ps arbitrary: r a)
  case Nil
  then show ?case
    by (auto simp: responses_def)
next
  case (Cons oph ps)
  have body: "map_of ops oph = Some (body oph)" "\<And>x. x \<in> set ps \<Longrightarrow> map_of ops x = Some (body x)"
    using Cons.prems(1) by simp_all
  obtain v a1 where v: "validate pv (body oph) a = (v, a1)"
    by (cases "validate pv (body oph) a")
  show ?case
  proof (cases v)
    case (Inr x)
    then have "validate_loop validate pv ops ps (fst (result_merge r x)) a1 = (outcome, r', a')"
      using Cons.prems(2) body(1) v by simp
    from Cons.IH [OF body(2) this] show ?thesis
      using v Inr by (cases outcome) (simp_all add: responses_def)
  next
    case (Inl pse)
    show ?thesis
    proof (cases "handle_protocol_service_error pse")
      case (Inl e)
      then have "outcome = Inl e" "r' = r" "e = pse" "broken v"
        using Cons.prems(2) body(1) v \<open>v = Inl pse\<close>
        by (auto simp: handle_protocol_service_error_def broken_def split: protocol_service_error.splits)
      then show ?thesis
        using v \<open>v = Inl pse\<close> by (simp add: responses_def)
    next
      case (Inr u)
      then have "validate_loop validate pv ops ps r a1 = (outcome, r', a')" "\<not> broken v"
        using Cons.prems(2) body(1) v \<open>v = Inl pse\<close>
        by (auto simp: handle_protocol_service_error_def broken_def split: protocol_service_error.splits)
      then show ?thesis
        using Cons.IH [OF body(2)] v \<open>v = Inl pse\<close> by (cases outcome) (simp_all add: responses_def)
    qed
  qed
qed

text \<open>
  Property C33. Handling the pending operations hands the bodies of all of them, in turn, to the protocol
  runner. Every item of a response takes its place in its class of the results, under its hash; a later one
  replaces an earlier one, and results cumulated before are kept otherwise. The only failure is a broken
  connection, whose first error is returned; what was answered before it counts. On success the mempool is
  advertised, once, exactly if there is an applied operation at all. In any case nothing stays pending.
\<close>

theorem handle_pending_operations_validates:
  assumes "mempool_ok st" "prevalidator st = Some pv" "ms_predecessor st = Some hb" "pending st \<noteq> []"
    and "handle_pending_operations validate st a = (res, st', a')"
    and "rs = answers validate pv (map (\<lambda>oph. the (map_of (ms_operations st) oph)) (pending st)) a"
  shows "by_hash ap_hash (applied_ops (validation_result st')) =
      by_hash ap_hash (applied_ops (validation_result st)) ++ by_hash ap_hash (rev (concat (map applied_ops (responses rs)))) \<and>
    by_hash er_hash (refused_ops (validation_result st')) =
      by_hash er_hash (refused_ops (validation_result st)) ++ by_hash er_hash (rev (concat (map refused_ops (responses rs)))) \<and>
    by_hash er_hash (branch_refused (validation_result st')) =
      by_hash er_hash (branch_refused (validation_result st)) ++ by_hash er_hash (rev (concat (map branch_refused (responses rs)))) \<and>
    by_hash er_hash (branch_delayed (validation_result st')) =
      by_hash er_hash (branch_delayed (validation_result st)) ++ by_hash er_hash (rev (concat (map branch_delayed (responses rs)))) \<and>
    st' = st\<lparr>pending := [], validation_result := validation_result st'\<rparr> \<and>
    (case find broken rs of
       Some r \<Rightarrow> (\<exists>e. r = Inl e \<and> res = Inl (PvProtocolServiceError e))
     | None \<Rightarrow> res = Inr (if applied_ops (validation_result st') = [] then []
         else [AdvertiseToP2pNewMempool (pv_chain_id pv) hb
           \<lparr>known_valid = map ap_hash (applied_ops (validation_result st')), mempool_pending = []\<rparr>]))"
proof -
  let ?body = "\<lambda>oph. the (map_of (ms_operations st) oph)"
  obtain outcome r a1 where l: "validate_loop validate pv (ms_operations st) (pending st) (validation_result st) a = (outcome, r, a1)"
    by (metis prod_cases3)
  have "map_of (ms_operations st) oph = Some (?body oph)" if "oph \<in> set (pending st)" for oph
    using assms(1) that by (auto simp: mempool_ok_def map_of_eq_None_iff subset_iff)
  note v = validate_loop_answers [OF this l, folded assms(6)]
  have st': "st' = st\<lparr>pending := [], validation_result := r\<rparr>"
    and res: "res = map_err PvProtocolServiceError (and_then outcome (\<lambda>_. Inr (advertise_new_mempool pv hb (applied_ops r) [])))"
    using assms(2-5) l
    by (auto simp: handle_pending_operations_def can_handle_pending_def map_err_def Let_def split: sum.splits)
  note classes = classes_merge [THEN by_hash_results, of "validation_result st" "responses rs"]
  have r: "r = foldl (\<lambda>r x. fst (result_merge r x)) (validation_result st) (responses rs)"
    using v by blast
  have out: "case find broken rs of
       Some r \<Rightarrow> (\<exists>e. r = Inl e \<and> res = Inl (PvProtocolServiceError e))
     | None \<Rightarrow> res = Inr (if applied_ops r = [] then []
         else [AdvertiseToP2pNewMempool (pv_chain_id pv) hb \<lparr>known_valid = map ap_hash (applied_ops r), mempool_pending = []\<rparr>])"
    using v unfolding res
    by (cases outcome) (auto simp: advertise_new_mempool_def collect_mempool_def map_err_def)
  have st'_r: "validation_result st' = r"
    using st' by simp
  show ?thesis
    unfolding st'_r by (intro conjI classes [folded r] st' out)
qed

definition pending_state :: mempool_state where
  "pending_state = snd (add_to_pending (replicate 32 9) sample_operation
     (snd (reinit (Some \<lparr>pv_chain_id = [0, 0, 0, 0], pv_protocol = [], pv_context_fitness = None\<rparr>)
       (Some (replicate 32 3)) default_mempool_state)))"

definition applying_validate :: "unit validate_api" where
  "applying_validate = (\<lambda>_ op a. (Inr (default_result\<lparr>applied_ops := [\<lparr>ap_hash = replicate 32 9, protocol_data_json = []\<rparr>]\<rparr>), a))"

lemmas pending_state_simps = pending_state_def add_to_pending_def is_already_validated_def reinit_def Let_def
  default_mempool_state_def default_result_def

theorem handle_pending_operations_validates_witness:
  "\<exists>st'. handle_pending_operations applying_validate pending_state () =
     (Inr [AdvertiseToP2pNewMempool [0, 0, 0, 0] (replicate 32 3)
        \<lparr>known_valid = [replicate 32 9], mempool_pending = []\<rparr>], st', ()) \<and>
     replicate 32 9 \<in> dom (by_hash ap_hash (applied_ops (validation_result st')))"
proof -
  let ?pv = "\<lparr>pv_chain_id = [0, 0, 0, 0], pv_protocol = [], pv_context_fitness = None\<rparr>"
  have ok: "mempool_ok pending_state"
    unfolding pending_state_def by (intro add_to_pending_ok reinit_ok default_mempool_ok)
  have p: "prevalidator pending_state = Some ?pv" "ms_predecessor pending_state = Some (replicate 32 3)"
    "pending pending_state = [replicate 32 9]" "ms_operations pending_state = [(replicate 32 9, sample_operation)]"
    "validation_result pending_state = default_result"
    by (simp_all add: pending_state_simps)
  obtain res st' where h: "handle_pending_operations applying_validate pending_state () = (res, st', ())"
    by (metis (full_types) old.unit.exhaust prod_cases3)
  have applied: "applied_ops (validation_result st') = [\<lparr>ap_hash = replicate 32 9, protocol_data_json = []\<rparr>]"
    using h p by (auto simp: handle_pending_operations_def can_handle_pending_def applying_validate_def Let_def
        result_merge_def merge_items_def default_result_def)
  have "find broken (answers applying_validate ?pv (map (\<lambda>oph. the (map_of (ms_operations pending_state) oph)) (pending pending_state)) ()) = None"
    by (simp add: p applying_validate_def)
  then have "res = Inr [AdvertiseToP2pNewMempool [0, 0, 0, 0] (replicate 32 3)
      \<lparr>known_valid = [replicate 32 9], mempool_pending = []\<rparr>]"
    using handle_pending_operations_validates [OF ok p(1,2) _ h refl] p(3) applied by simp
  then show ?thesis
    using h applied by auto
qed

text \<open>
  A new head keeps exactly the pending operations: the hashes handed back for
  deletion are precisely the cached operations that are not pending, and the results of the
  old head are forgotten.
\<close>

theorem reinit_correct:
  "set (fst (reinit pv pred st)) = fst ` set (ms_operations st) - set (pending st) \<and>
   fst ` set (ms_operations (snd (reinit pv pred st))) = fst ` set (ms_operations st) \<inter> set (pending st) \<and>
   pending (snd (reinit pv pred st)) = pending st \<and> validation_result (snd (reinit pv pred st)) = default_result \<and>
   prevalidator (snd (reinit pv pred st)) = pv \<and> ms_predecessor (snd (reinit pv pred st)) = pred"
  unfolding reinit_operations by (auto simp: reinit_def Let_def)

end
