(* ===== verification/ApplyBatch.thy ===== *)
theory ApplyBatch
  imports BlockMetaStorage Messages "HOL-Library.AList"
begin

text \<open>
  Shared pieces of the shell state (\<^verbatim>\<open>shell/src/state/mod.rs\<close>): errors, batches of blocks
  for application, and requests for missing operations.
\<close>

datatype state_error =
    StStorageError storage_error
  | StLockError string
  | ProcessingError string

section \<open>Batches\<close>

record apply_block_batch =
  block_to_apply :: block_hash
  batch_successors :: "block_hash list"

definition batch_one :: "block_hash \<Rightarrow> apply_block_batch" where
  "batch_one bh = \<lparr>block_to_apply = bh, batch_successors = []\<rparr>"

definition start_batch :: "block_hash \<Rightarrow> nat \<Rightarrow> apply_block_batch" where
  "start_batch bh expected_size = \<lparr>block_to_apply = bh, batch_successors = []\<rparr>"

definition batch :: "block_hash \<Rightarrow> block_hash list \<Rightarrow> apply_block_batch" where
  "batch starting_block succs = \<lparr>block_to_apply = starting_block, batch_successors = succs\<rparr>"

definition add_successor :: "block_hash \<Rightarrow> apply_block_batch \<Rightarrow> apply_block_batch" where
  "add_successor bh b =
     (if bh \<notin> set (batch_successors b) then b\<lparr>batch_successors := batch_successors b @ [bh]\<rparr> else b)"

definition successors_size :: "apply_block_batch \<Rightarrow> nat" where
  "successors_size b = length (batch_successors b)"

definition batch_total_size :: "apply_block_batch \<Rightarrow> nat" where
  "batch_total_size b = successors_size b + 1"

definition take_all_blocks_to_apply :: "apply_block_batch \<Rightarrow> block_hash list" where
  "take_all_blocks_to_apply b = block_to_apply b # batch_successors b"

definition shift :: "apply_block_batch \<Rightarrow> apply_block_batch option" where
  "shift b = (case batch_successors b of [] \<Rightarrow> None | h # succs \<Rightarrow> Some (batch h succs))"

definition batch_into :: "apply_block_batch \<Rightarrow> block_hash \<times> block_hash list" where
  "batch_into b = (block_to_apply b, batch_successors b)"

section \<open>Missing operations\<close>

text \<open>The passes are a hash set that is iterated: a list without repetition, in any order.\<close>

record missing_operations =
  mo_block_hash :: block_hash
  mo_validation_passes :: "byte list"
  mo_history_order_priority :: nat
  mo_retries :: byte

definition retry :: "missing_operations \<Rightarrow> bool \<times> missing_operations" where
  "retry mo = (if mo_retries mo = 0 then (False, mo) else (True, mo\<lparr>mo_retries := mo_retries mo - 1\<rparr>))"

definition operations_for_blocks :: "missing_operations \<Rightarrow> operations_for_block list" where
  "operations_for_blocks mo =
     map (\<lambda>vp. \<lparr>ofb_hash = mo_block_hash mo, ofb_validation_pass = vp\<rparr>) (mo_validation_passes mo)"

section \<open>Lemmas\<close>

lemma take_all_shift: "shift b = Some b' \<Longrightarrow> take_all_blocks_to_apply b = block_to_apply b # take_all_blocks_to_apply b'"
  by (auto simp: shift_def take_all_blocks_to_apply_def batch_def split: list.splits)

lemma shift_None: "shift b = None \<longleftrightarrow> take_all_blocks_to_apply b = [block_to_apply b]"
  by (auto simp: shift_def take_all_blocks_to_apply_def split: list.splits)

lemma length_take_all: "length (take_all_blocks_to_apply b) = batch_total_size b"
  by (simp add: take_all_blocks_to_apply_def batch_total_size_def successors_size_def)

lemma retry_decreases: "retry mo = (True, mo') \<Longrightarrow> unat (mo_retries mo') + 1 = unat (mo_retries mo)"
  by (auto simp: retry_def unat_minus_one unat_gt_0 split: if_splits)

end
