(* ===== verification/BranchInterval.thy ===== *)
theory BranchInterval
  imports ApplyBatch
begin

text \<open>
  Intervals of a branch that is being downloaded (\<^verbatim>\<open>shell/src/state/bootstrap_state.rs\<close>):
  how a sampled history is split, how the seek of an interval moves back along known
  predecessors, and which blocks of an interval are handed over for application. Loops over
  predecessors of stored blocks end only when the stored chain has no cycle, so they are
  partial functions; the termination lemmas need a measure that decreases towards the
  predecessor, such as the level.
\<close>

section \<open>What the loops read\<close>

text \<open>The two storages behind the data requester, as their reads.\<close>

record reader =
  rd_meta :: "block_hash \<Rightarrow> storage_error + meta option"
  rd_complete :: "block_hash \<Rightarrow> storage_error + bool"

section \<open>Blocks scheduled for application\<close>

text \<open>Every scheduled block with its predecessor.\<close>

type_synonym block_state_db = "(block_hash \<times> block_hash) list"

definition db_scheduled :: "block_state_db \<Rightarrow> block_hash \<Rightarrow> bool" where
  "db_scheduled db b \<longleftrightarrow> map_of db b \<noteq> None"

text \<open>Sharing of an existing reference does not change the value.\<close>

definition get_block_ref :: "block_state_db \<Rightarrow> block_hash \<Rightarrow> block_hash" where
  "get_block_ref db b = b"

lemma length_delete_less: "map_of db b = Some p \<Longrightarrow> length (AList.delete b db) < length db"
  by (induction db) (auto simp: AList.delete_eq less_Suc_eq_le split: if_splits intro: le_SucI length_filter_le)

function remove_chain :: "block_state_db \<Rightarrow> block_hash option \<Rightarrow> block_hash list \<times> block_state_db" where
  "remove_chain db None = ([], db)"
| "remove_chain db (Some b) =
     (case map_of db b of
        None \<Rightarrow> ([], db)
      | Some pred \<Rightarrow>
          (case remove_chain (AList.delete b db) (Some pred) of
             (removed, db') \<Rightarrow> (b # removed, db')))"
  by pat_completeness auto
termination
  by (relation "measure (\<lambda>(db, _). length db)") (auto simp: length_delete_less)

definition remove_with_all_predecessors :: "block_hash \<Rightarrow> block_state_db \<Rightarrow> block_hash list \<times> block_state_db" where
  "remove_with_all_predecessors b db = remove_chain db (Some b)"

section \<open>Intervals\<close>

datatype interval_state = Open | Downloaded | ScheduledForApply

record branch_interval =
  iv_state :: interval_state
  iv_start :: block_hash
  iv_seek :: block_hash
  iv_end :: block_hash

definition new_start_end :: "block_hash \<Rightarrow> block_hash \<Rightarrow> branch_interval" where
  "new_start_end st en = \<lparr>iv_state = Open, iv_start = st, iv_seek = en, iv_end = en\<rparr>"

definition new_interval :: "block_hash \<Rightarrow> branch_interval" where
  "new_interval st = new_start_end st st"

definition split_step :: "branch_interval list \<Rightarrow> block_hash \<Rightarrow> branch_interval list" where
  "split_step intervals bh =
     (if intervals = [] then [new_interval bh]
      else
        let last_part = last intervals in
        if iv_start last_part \<noteq> iv_end last_part
        then intervals @ [new_start_end (iv_end last_part) bh]
        else butlast intervals @ [last_part\<lparr>iv_end := bh, iv_seek := bh\<rparr>])"

definition interval_split :: "block_hash \<Rightarrow> block_hash list \<Rightarrow> branch_interval list" where
  "interval_split first_block blocks = foldl split_step [new_interval first_block] blocks"

section \<open>Seeking back along predecessors\<close>

text \<open>
  What is found at one block: the search stops there (with the block, whether the interval
  can be closed, and the block again if it is applied), or goes on to the predecessor.
\<close>

datatype seek_step = Found block_hash bool "block_hash option" | Onward block_hash

definition known_step :: "reader \<Rightarrow> block_state_db \<Rightarrow> block_hash \<Rightarrow> block_hash \<Rightarrow> block_hash list \<Rightarrow>
    block_hash list \<times> seek_step" where
  "known_step rd db block_to block missing =
     (if db_scheduled db block then (missing, Found (get_block_ref db block) True None)
      else if block_to = block then (missing, Found (get_block_ref db block) True None)
      else (case rd_meta rd block of
        Inr (Some block_metadata) \<Rightarrow>
          if m_is_applied block_metadata
          then (missing, Found (get_block_ref db block) True (Some (get_block_ref db block)))
          else if \<not> is_downloaded block_metadata
          then (missing, Found (get_block_ref db block) False None)
          else
            let missing' = (if rd_complete rd block \<noteq> Inr True
                            then List.insert (get_block_ref db block) missing else missing) in
            (case take_predecessor block_metadata of
               Some pred \<Rightarrow>
                 if pred = block then (missing', Found (get_block_ref db pred) True None)
                 else (missing', Onward pred)
             | None \<Rightarrow> (missing', Found (get_block_ref db block) False None))
      | _ \<Rightarrow> (missing, Found (get_block_ref db block) False None)))"

partial_function (option) find_known_loop :: "reader \<Rightarrow> block_state_db \<Rightarrow> block_hash \<Rightarrow> block_hash \<Rightarrow>
    block_hash list \<Rightarrow> (block_hash list \<times> (block_hash \<times> bool) option \<times> block_hash option) option" where
  "find_known_loop rd db block_to block missing =
     (case known_step rd db block_to block missing of
        (missing', Found b can_close app) \<Rightarrow> Some (missing', Some (b, can_close), app)
      | (missing', Onward pred) \<Rightarrow> find_known_loop rd db block_to pred missing')"

definition find_last_known_predecessor :: "reader \<Rightarrow> block_state_db \<Rightarrow> block_hash \<Rightarrow> block_hash \<Rightarrow>
    block_hash list \<Rightarrow> (block_hash list \<times> (block_hash \<times> bool) option \<times> block_hash option) option" where
  "find_last_known_predecessor rd db block_from block_to missing =
     (case known_step rd db block_to block_from missing of
        (missing', Found b can_close app) \<Rightarrow> Some (missing', Some (b, can_close), app)
      | (missing', Onward pred) \<Rightarrow> find_known_loop rd db block_to pred missing')"

text \<open>The result: the missing operations, the block to download, an applied block, and the interval.\<close>

definition shift_and_find_next_missing_predecessor :: "reader \<Rightarrow> block_state_db \<Rightarrow> block_hash list \<Rightarrow>
    branch_interval \<Rightarrow> (block_hash list \<times> block_hash option \<times> block_hash option \<times> branch_interval) option" where
  "shift_and_find_next_missing_predecessor rd db missing iv =
     (if iv_state iv \<noteq> Open then Some (missing, None, None, iv)
      else (case find_last_known_predecessor rd db (iv_seek iv) (iv_start iv) missing of
        None \<Rightarrow> None
      | Some (missing', oldest_known_predecessor, newest_applied_found) \<Rightarrow>
          let iv1 = (case oldest_known_predecessor of
                       Some (b, can_close_interval) \<Rightarrow>
                         let iv0 = iv\<lparr>iv_seek := b\<rparr> in
                         if can_close_interval then iv0\<lparr>iv_state := Downloaded\<rparr> else iv0
                     | None \<Rightarrow> iv);
              iv2 = (if iv_seek iv1 = iv_start iv1 then iv1\<lparr>iv_state := Downloaded\<rparr> else iv1) in
          if iv_state iv2 \<noteq> Open then Some (missing', None, newest_applied_found, iv2)
          else Some (missing', Some (iv_seek iv2), newest_applied_found, iv2)))"

section \<open>Collecting blocks for application\<close>

partial_function (option) collect_loop :: "reader \<Rightarrow> block_state_db \<Rightarrow> branch_interval \<Rightarrow>
    block_hash option \<Rightarrow> block_hash list \<Rightarrow> (state_error + block_hash list) option" where
  "collect_loop rd db iv predecessor_selector interval_blocks =
     (case predecessor_selector of
        None \<Rightarrow> Some (Inr interval_blocks)
      | Some pred \<Rightarrow>
          if db_scheduled db pred then Some (Inr interval_blocks)
          else (case rd_meta rd pred of
            Inr (Some predecessor_metadata) \<Rightarrow>
              if m_is_applied predecessor_metadata then Some (Inr interval_blocks)
              else if iv_start iv = pred then Some (Inr (interval_blocks @ [pred]))
              else if iv_seek iv = pred then Some (Inr (interval_blocks @ [pred]))
              else (case take_predecessor predecessor_metadata of
                Some pred_predecessor \<Rightarrow>
                  if pred_predecessor = pred then Some (Inr (interval_blocks @ [pred]))
                  else collect_loop rd db iv (Some pred_predecessor) (interval_blocks @ [pred])
              | None \<Rightarrow> Some (Inl (ProcessingError ''Invalid interval/block - block does not have predecessor'')))
          | _ \<Rightarrow> Some (Inl (ProcessingError ''Invalid interval - missing or failed to get block data''))))"

definition collect_blocks_for_apply :: "reader \<Rightarrow> block_state_db \<Rightarrow> branch_interval \<Rightarrow>
    (state_error + block_hash list) option" where
  "collect_blocks_for_apply rd db iv =
     (if iv_state iv \<noteq> Downloaded then Some (Inr [])
      else if db_scheduled db (iv_end iv) then Some (Inr [])
      else (case rd_meta rd (iv_end iv) of
        Inl e \<Rightarrow> Some (Inl (StStorageError e))
      | Inr None \<Rightarrow> Some (Inl (ProcessingError ''Invalid interval, missing end block''))
      | Inr (Some end_metadata) \<Rightarrow>
          if m_is_applied end_metadata then Some (Inr [])
          else (case collect_loop rd db iv (take_predecessor end_metadata) [iv_end iv] of
            None \<Rightarrow> None
          | Some (Inl e) \<Rightarrow> Some (Inl e)
          | Some (Inr blocks) \<Rightarrow>
              let interval_blocks = rev blocks;
                  is_end_ok = (if interval_blocks \<noteq> [] then iv_end iv = last interval_blocks else False) in
              if is_end_ok then Some (Inr interval_blocks)
              else Some (Inl (ProcessingError ''Invalid interval, is_end_ok: false'')))))"

section \<open>Removing a chain\<close>

lemma iter_opt_mono:
  assumes "m' \<subseteq>\<^sub>m m" "iter_opt m' n b = Some c"
  shows "iter_opt m n b = Some c"
  using assms(2)
proof (induction n arbitrary: b)
  case (Suc n)
  then obtain d where "m' b = Some d" "iter_opt m' n d = Some c"
    by (auto split: option.splits)
  moreover from this have "m b = Some d"
    using assms(1) by (metis domI map_le_def)
  ultimately show ?case
    using Suc.IH by simp
qed simp

lemma remove_chain_facts:
  assumes "remove_chain db (Some b) = (rs, db')"
  shows "map_of db' = (map_of db) |` (- set rs) \<and> distinct rs \<and> set rs \<subseteq> dom (map_of db) \<and>
    (b \<in> dom (map_of db) \<longrightarrow> b \<in> set rs) \<and>
    (\<forall>r\<in>set rs. \<forall>q. map_of db r = Some q \<longrightarrow> q \<in> dom (map_of db) \<longrightarrow> q \<in> set rs) \<and>
    (\<forall>r\<in>set rs. \<exists>n. iter_opt (map_of db) n b = Some r)"
  using assms
proof (induction db "Some b" arbitrary: b rs db' rule: remove_chain.induct)
  case (2 db b)
  show ?case
  proof (cases "map_of db b")
    case None
    then show ?thesis
      using 2(2) by auto
  next
    case (Some pred)
    obtain rs' where rs: "remove_chain (AList.delete b db) (Some pred) = (rs', db')" "rs = b # rs'"
      using 2(2) Some by (auto split: prod.splits)
    have m: "map_of (AList.delete b db) = (map_of db)(b := None)"
      by (simp add: delete_conv')
    note ih = 2(1) [OF Some rs(1), unfolded m]
    have le: "(map_of db)(b := None) \<subseteq>\<^sub>m map_of db"
      by (simp add: map_le_def)
    have "\<exists>n. iter_opt (map_of db) n b = Some r" if "r \<in> set rs" for r
    proof (cases "r = b")
      case True
      then show ?thesis
        by (intro exI [of _ 0]) simp
    next
      case False
      then have "r \<in> set rs'"
        using that rs(2) by simp
      then obtain n where "iter_opt ((map_of db)(b := None)) n pred = Some r"
        using ih by blast
      then show ?thesis
        using iter_opt_mono [OF le] Some by (intro exI [of _ "Suc n"]) simp
    qed
    moreover have "map_of db' = (map_of db) |` (- set rs)"
      using ih rs(2) by (auto simp: restrict_map_def fun_eq_iff)
    moreover have "q \<in> set rs" if "r \<in> set rs" "map_of db r = Some q" "q \<in> dom (map_of db)" for r q
      using that ih rs(2) Some by (cases "r = b"; cases "q = b") auto
    moreover have "distinct rs" "set rs \<subseteq> dom (map_of db)" "b \<in> set rs"
      using ih rs(2) Some by auto
    ultimately show ?thesis
      by blast
  qed
qed

lemma remove_chain_closed:
  assumes "b \<in> dom m \<longrightarrow> b \<in> R" "\<forall>r\<in>R. \<forall>q. m r = Some q \<longrightarrow> q \<in> dom m \<longrightarrow> q \<in> R"
    and "iter_opt m n b = Some c" "c \<in> dom m"
  shows "c \<in> R"
  using assms(1,3)
proof (induction n arbitrary: b)
  case (Suc n)
  then obtain d where d: "m b = Some d" "iter_opt m n d = Some c"
    by (auto split: option.splits)
  then have "b \<in> R"
    using Suc.prems(1) by blast
  then have "d \<in> dom m \<longrightarrow> d \<in> R"
    using assms(2) d(1) by blast
  then show ?case
    using Suc.IH d(2) by blast
qed (use assms(4) in auto)

lemma remove_with_all_predecessors_spec:
  assumes "remove_with_all_predecessors b db = (rs, db')"
  shows "set rs = {c. \<exists>n. iter_opt (map_of db) n b = Some c} \<inter> dom (map_of db)"
    "map_of db' = (map_of db) |` (- set rs)" "distinct rs"
proof -
  note f = remove_chain_facts [OF assms [unfolded remove_with_all_predecessors_def]]
  show "map_of db' = (map_of db) |` (- set rs)" "distinct rs"
    using f by simp_all
  have "c \<in> set rs" if "iter_opt (map_of db) n b = Some c" "c \<in> dom (map_of db)" for c n
    using remove_chain_closed [of b "map_of db" "set rs" n c] f that by blast
  with f show "set rs = {c. \<exists>n. iter_opt (map_of db) n b = Some c} \<inter> dom (map_of db)"
    by auto
qed

section \<open>Splitting a history\<close>

text \<open>Consecutive intervals share their boundary block.\<close>

fun linked_intervals :: "branch_interval list \<Rightarrow> bool" where
  "linked_intervals (a # b # ivs) \<longleftrightarrow> iv_end a = iv_start b \<and> linked_intervals (b # ivs)"
| "linked_intervals _ \<longleftrightarrow> True"

lemma linked_intervals_append:
  "xs \<noteq> [] \<Longrightarrow> ys \<noteq> [] \<Longrightarrow>
   linked_intervals (xs @ ys) \<longleftrightarrow> linked_intervals xs \<and> linked_intervals ys \<and> iv_end (last xs) = iv_start (hd ys)"
  by (induction xs rule: linked_intervals.induct) (auto simp: neq_Nil_conv)

lemma linked_intervals_tl: "linked_intervals ivs \<Longrightarrow> linked_intervals (tl ivs)"
  by (cases ivs rule: linked_intervals.cases) auto

lemma linked_intervals_drop: "linked_intervals ivs \<Longrightarrow> linked_intervals (drop n ivs)"
  by (induction n arbitrary: ivs) (auto simp: drop_Suc intro: linked_intervals_tl)

text \<open>The shape of a fresh split: boundaries chained, everything open, seeks at the ends.\<close>

definition split_ok :: "block_hash \<Rightarrow> block_hash \<Rightarrow> branch_interval list \<Rightarrow> bool" where
  "split_ok a z ivs \<longleftrightarrow> ivs \<noteq> [] \<and> linked_intervals ivs \<and> iv_start (hd ivs) = a \<and> iv_end (last ivs) = z \<and>
     (\<forall>iv\<in>set ivs. iv_state iv = Open \<and> iv_seek iv = iv_end iv)"

lemma split_step_ok:
  assumes "split_ok a z ivs"
  shows "split_ok a b (split_step ivs b)"
proof -
  have ne: "ivs \<noteq> []" and ivs: "butlast ivs @ [last ivs] = ivs"
    using assms by (simp_all add: split_ok_def)
  show ?thesis
  proof (cases "iv_start (last ivs) = iv_end (last ivs)")
    case False
    then show ?thesis
      using assms ne by (auto simp: split_ok_def split_step_def Let_def linked_intervals_append new_start_end_def)
  next
    case True
    let ?l = "(last ivs)\<lparr>iv_end := b, iv_seek := b\<rparr>"
    have step: "split_step ivs b = butlast ivs @ [?l]"
      using True ne by (simp add: split_step_def Let_def)
    have "linked_intervals (butlast ivs @ [?l]) \<and> iv_start (hd (butlast ivs @ [?l])) = a"
    proof (cases "butlast ivs = []")
      case True
      then have "hd ivs = last ivs"
        using ivs by (metis append_Nil list.sel(1))
      then show ?thesis
        using assms True by (simp add: split_ok_def)
    next
      case False
      then have "linked_intervals (butlast ivs) \<and> iv_end (last (butlast ivs)) = iv_start (last ivs)"
        using assms linked_intervals_append [of "butlast ivs" "[last ivs]"] ivs by (simp add: split_ok_def)
      moreover have "hd (butlast ivs) = hd ivs"
        using False ivs by (metis hd_append2)
      ultimately show ?thesis
        using assms False by (simp add: linked_intervals_append split_ok_def)
    qed
    then show ?thesis
      using assms step by (auto simp: split_ok_def dest: in_set_butlastD)
  qed
qed

lemma interval_split_ok: "split_ok first (last (first # blocks)) (interval_split first blocks)"
proof (induction blocks rule: rev_induct)
  case Nil
  show ?case
    by (simp add: interval_split_def split_ok_def new_interval_def new_start_end_def)
next
  case (snoc b blocks)
  then show ?case
    using split_step_ok by (auto simp: interval_split_def)
qed

text \<open>Every sampled block becomes a boundary, in order; only repeated neighbours are collapsed.\<close>

lemma split_steps_exact:
  assumes "a \<noteq> z" "distinct_adj (z # blocks)"
  shows "foldl split_step (ivs @ [new_start_end a z]) blocks =
    ivs @ new_start_end a z # map2 new_start_end (z # blocks) blocks"
  using assms
proof (induction blocks arbitrary: ivs a z)
  case (Cons b blocks)
  have "split_step (ivs @ [new_start_end a z]) b = (ivs @ [new_start_end a z]) @ [new_start_end z b]"
    using Cons.prems(1) by (simp add: split_step_def Let_def new_start_end_def)
  then show ?case
    using Cons.IH [of z b "ivs @ [new_start_end a z]"] Cons.prems(2) by simp
qed simp

lemma interval_split_exact:
  assumes "blocks \<noteq> []" "distinct_adj (first # blocks)"
  shows "interval_split first blocks = map2 new_start_end (first # blocks) blocks"
proof -
  obtain b bs where bs: "blocks = b # bs"
    using assms(1) by (cases blocks) auto
  have "split_step [new_interval first] b = [] @ [new_start_end first b]"
    by (simp add: split_step_def new_interval_def new_start_end_def Let_def)
  then show ?thesis
    using split_steps_exact [of first b bs "[]"] assms(2) bs by (simp add: interval_split_def)
qed

section \<open>Seeking\<close>

text \<open>The predecessor recorded in the stored metadata.\<close>

definition pred_of :: "reader \<Rightarrow> block_hash \<rightharpoonup> block_hash" where
  "pred_of rd b = (case rd_meta rd b of Inr (Some m) \<Rightarrow> m_predecessor m | _ \<Rightarrow> None)"

definition applied_in :: "reader \<Rightarrow> block_hash \<Rightarrow> bool" where
  "applied_in rd b \<longleftrightarrow> (\<exists>m. rd_meta rd b = Inr (Some m) \<and> m_is_applied m)"

text \<open>A search may go past a block: its header is known and nothing closes the interval there.\<close>

definition passable :: "reader \<Rightarrow> block_state_db \<Rightarrow> block_hash \<Rightarrow> block_hash \<Rightarrow> bool" where
  "passable rd db block_to b \<longleftrightarrow> \<not> db_scheduled db b \<and> b \<noteq> block_to \<and> \<not> applied_in rd b \<and>
     (\<exists>p. pred_of rd b = Some p \<and> p \<noteq> b)"

text \<open>Where an interval can be closed: a scheduled or applied block, its start, or genesis.\<close>

definition closes :: "reader \<Rightarrow> block_state_db \<Rightarrow> block_hash \<Rightarrow> block_hash \<Rightarrow> bool" where
  "closes rd db block_to b \<longleftrightarrow> db_scheduled db b \<or> b = block_to \<or> applied_in rd b \<or> pred_of rd b = Some b"

lemma known_step_cases:
  assumes "known_step rd db block_to b missing = (missing', st)"
  shows "(passable rd db block_to b \<and> st = Onward (the (pred_of rd b))) \<or>
    (closes rd db block_to b \<and> st = Found b True (if applied_in rd b \<and> \<not> db_scheduled db b \<and> b \<noteq> block_to then Some b else None)) \<or>
    (\<not> passable rd db block_to b \<and> \<not> closes rd db block_to b \<and> pred_of rd b = None \<and> st = Found b False None)"
  using assms
  by (auto simp: known_step_def passable_def closes_def pred_of_def applied_in_def get_block_ref_def
      take_predecessor_def is_downloaded_def Let_def
      split: if_splits sum.splits option.splits)

text \<open>A measure that falls along stored predecessors, such as the level of a block.\<close>

definition descending :: "reader \<Rightarrow> (block_hash \<Rightarrow> nat) \<Rightarrow> bool" where
  "descending rd f \<longleftrightarrow> (\<forall>b p. pred_of rd b = Some p \<longrightarrow> p \<noteq> b \<longrightarrow> f p < f b)"

lemma find_known_loop_terminates:
  assumes "descending rd f"
  shows "\<exists>r. find_known_loop rd db block_to b missing = Some r"
proof (induction "f b" arbitrary: b missing rule: less_induct)
  case less
  obtain missing' st where k: "known_step rd db block_to b missing = (missing', st)"
    by fastforce
  show ?case
  proof (cases st)
    case (Onward p)
    then have "f p < f b"
      using known_step_cases [OF k] assms by (auto simp: passable_def descending_def)
    then show ?thesis
      using less k Onward by (subst find_known_loop.simps) auto
  next
    case (Found x y z)
    then show ?thesis
      using k by (subst find_known_loop.simps) auto
  qed
qed

text \<open>What a search from a block finds after some number of steps along passable blocks.\<close>

definition seek_result :: "reader \<Rightarrow> block_state_db \<Rightarrow> block_hash \<Rightarrow> block_hash \<Rightarrow>
    block_hash \<times> bool \<Rightarrow> block_hash option \<Rightarrow> bool" where
  "seek_result rd db block_to from found app \<longleftrightarrow>
     (\<exists>n. iter_opt (pred_of rd) n from = Some (fst found) \<and>
        (\<forall>i<n. \<exists>c. iter_opt (pred_of rd) i from = Some c \<and> passable rd db block_to c)) \<and>
     (if snd found then closes rd db block_to (fst found) else pred_of rd (fst found) = None) \<and>
     (app \<noteq> None \<longrightarrow> app = Some (fst found) \<and> applied_in rd (fst found))"

lemma seek_result_here:
  "(if c then closes rd db block_to b else pred_of rd b = None) \<Longrightarrow>
   (app \<noteq> None \<longrightarrow> app = Some b \<and> applied_in rd b) \<Longrightarrow> seek_result rd db block_to b (b, c) app"
  unfolding seek_result_def by (intro conjI exI [of _ 0]) auto

lemma seek_result_onward:
  assumes "passable rd db block_to b" "pred_of rd b = Some p" "seek_result rd db block_to p found app"
  shows "seek_result rd db block_to b found app"
proof -
  obtain n where n: "iter_opt (pred_of rd) n p = Some (fst found)"
    "\<forall>i<n. \<exists>c. iter_opt (pred_of rd) i p = Some c \<and> passable rd db block_to c"
    using assms(3) by (auto simp: seek_result_def)
  have "\<exists>c. iter_opt (pred_of rd) i b = Some c \<and> passable rd db block_to c" if "i < Suc n" for i
    using that n(2) assms(1,2) by (cases i) auto
  moreover have "iter_opt (pred_of rd) (Suc n) b = Some (fst found)"
    using n(1) assms(2) by simp
  ultimately show ?thesis
    using assms(3) unfolding seek_result_def by blast
qed

lemma known_step_result:
  assumes "known_step rd db block_to b missing = (missing', Found x c app)"
  shows "seek_result rd db block_to b (x, c) app"
  using known_step_cases [OF assms] by (auto intro!: seek_result_here split: if_splits)

lemma find_known_loop_sound:
  assumes "find_known_loop rd db block_to b missing = Some (missing', r, app)"
  shows "\<exists>found. r = Some found \<and> seek_result rd db block_to b found app"
proof -
  define P where "P = (\<lambda>rd db block_to b (missing :: block_hash list) (y :: block_hash list \<times> (block_hash \<times> bool) option \<times> block_hash option).
    \<exists>found. fst (snd y) = Some found \<and> seek_result rd db block_to b found (snd (snd y)))"
  have "P rd db block_to b missing (missing', r, app)"
  proof (rule find_known_loop.raw_induct [where P = P, OF _ assms])
    fix loop rd db block_to b missing y
    assume ih: "\<And>rd db block_to b missing y. loop rd db block_to b missing = Some y \<Longrightarrow> P rd db block_to b missing y"
      and eq: "(case known_step rd db block_to b missing of
        (missing', Found b can_close app) \<Rightarrow> Some (missing', Some (b, can_close), app)
      | (missing', Onward pred) \<Rightarrow> loop rd db block_to pred missing') = Some y"
    obtain missing1 st where k: "known_step rd db block_to b missing = (missing1, st)"
      by fastforce
    show "P rd db block_to b missing y"
    proof (cases st)
      case (Found x c app)
      then show ?thesis
        using eq k known_step_result [of rd db block_to b missing] by (auto simp: P_def)
    next
      case (Onward p)
      have "passable rd db block_to b" "pred_of rd b = Some p"
        using known_step_cases [OF k] Onward by (auto simp: passable_def)
      moreover have "P rd db block_to p missing1 y"
        using ih eq k Onward by simp
      ultimately show ?thesis
        unfolding P_def using seek_result_onward by blast
    qed
  qed
  then show ?thesis
    by (simp add: P_def)
qed

lemma find_last_known_predecessor_loop:
  "find_last_known_predecessor rd db block_from block_to missing = find_known_loop rd db block_to block_from missing"
  by (subst find_known_loop.simps) (simp add: find_last_known_predecessor_def)

section \<open>Moving the seek of an interval\<close>

text \<open>The seek is always a stored ancestor of the end: every header between them is known.\<close>

definition seek_ok :: "reader \<Rightarrow> branch_interval \<Rightarrow> bool" where
  "seek_ok rd iv \<longleftrightarrow> (\<exists>n. iter_opt (pred_of rd) n (iv_end iv) = Some (iv_seek iv))"

lemma new_start_end_seek: "seek_ok rd (new_start_end a b)"
  unfolding seek_ok_def by (intro exI [of _ 0]) (simp add: new_start_end_def)

lemma shift_terminates:
  assumes "descending rd f"
  shows "\<exists>r. shift_and_find_next_missing_predecessor rd db missing iv = Some r"
  using find_known_loop_terminates [OF assms, of db "iv_start iv" "iv_seek iv" missing]
  by (auto simp: shift_and_find_next_missing_predecessor_def find_last_known_predecessor_loop Let_def)

lemma shift_sound:
  assumes "shift_and_find_next_missing_predecessor rd db missing iv = Some (missing', todo, app, iv')"
    and "iv_state iv = Open" "seek_ok rd iv"
  shows "iv_start iv' = iv_start iv \<and> iv_end iv' = iv_end iv \<and> seek_ok rd iv' \<and>
    (case todo of
       None \<Rightarrow> iv_state iv' = Downloaded \<and> closes rd db (iv_start iv) (iv_seek iv')
     | Some b \<Rightarrow> iv_state iv' = Open \<and> b = iv_seek iv' \<and> pred_of rd b = None) \<and>
    (app \<noteq> None \<longrightarrow> app = Some (iv_seek iv') \<and> applied_in rd (iv_seek iv'))"
proof -
  obtain r where f: "find_known_loop rd db (iv_start iv) (iv_seek iv) missing = Some (missing', r, app)"
    using assms(1,2) by (auto simp: shift_and_find_next_missing_predecessor_def
        find_last_known_predecessor_loop Let_def split: option.splits if_splits prod.splits)
  obtain b c where r: "r = Some (b, c)" and sr: "seek_result rd db (iv_start iv) (iv_seek iv) (b, c) app"
    using find_known_loop_sound [OF f] by auto
  have reach: "\<exists>n. iter_opt (pred_of rd) n (iv_end iv) = Some b"
  proof -
    obtain k n where "iter_opt (pred_of rd) k (iv_end iv) = Some (iv_seek iv)"
      "iter_opt (pred_of rd) n (iv_seek iv) = Some b"
      using assms(3) sr by (auto simp: seek_ok_def seek_result_def)
    then show ?thesis
      using iter_opt_add [of "pred_of rd" k n "iv_end iv"] by auto
  qed
  have "closes rd db (iv_start iv) (iv_start iv)"
    by (simp add: closes_def)
  then show ?thesis
    using assms(1,2) f r sr reach
    by (auto simp: shift_and_find_next_missing_predecessor_def find_last_known_predecessor_loop Let_def
        seek_ok_def seek_result_def split: if_splits)
qed

section \<open>Collected blocks\<close>

text \<open>Consecutive blocks of the list are predecessor and successor.\<close>

fun pred_chain :: "(block_hash \<rightharpoonup> block_hash) \<Rightarrow> block_hash list \<Rightarrow> bool" where
  "pred_chain p (a # b # bs) \<longleftrightarrow> p b = Some a \<and> pred_chain p (b # bs)"
| "pred_chain p _ \<longleftrightarrow> True"

definition to_apply :: "reader \<Rightarrow> block_state_db \<Rightarrow> block_hash \<Rightarrow> bool" where
  "to_apply rd db b \<longleftrightarrow> \<not> db_scheduled db b \<and> \<not> applied_in rd b \<and> (\<exists>m. rd_meta rd b = Inr (Some m))"

lemma pred_chain_Cons: "bs \<noteq> [] \<Longrightarrow> pred_chain p (a # bs) \<longleftrightarrow> p (hd bs) = Some a \<and> pred_chain p bs"
  by (cases bs) auto

lemma collect_loop_terminates:
  assumes "descending rd f"
  shows "\<exists>r. collect_loop rd db iv sel acc = Some r"
proof (cases sel)
  case None
  then show ?thesis
    by (subst collect_loop.simps) simp
next
  case (Some b)
  have "\<exists>r. collect_loop rd db iv (Some b) acc = Some r"
  proof (induction "f b" arbitrary: b acc rule: less_induct)
    case less
    have "f p < f b" if "rd_meta rd b = Inr (Some m)" "m_predecessor m = Some p" "p \<noteq> b" for m p
      using assms that by (auto simp: descending_def pred_of_def)
    then show ?case
      using less by (subst collect_loop.simps)
        (auto simp: take_predecessor_def split: sum.split option.split)
  qed
  then show ?thesis
    using Some by simp
qed

text \<open>
  Where the collection stops: at the start or seek of the interval, at genesis, or at a
  block whose predecessor is scheduled or applied already.
\<close>

definition bottom :: "reader \<Rightarrow> block_state_db \<Rightarrow> branch_interval \<Rightarrow> block_hash \<Rightarrow> bool" where
  "bottom rd db iv z \<longleftrightarrow> z = iv_start iv \<or> z = iv_seek iv \<or>
     (case pred_of rd z of None \<Rightarrow> True | Some p \<Rightarrow> p = z \<or> db_scheduled db p \<or> applied_in rd p)"

definition collected :: "reader \<Rightarrow> block_state_db \<Rightarrow> block_hash list \<Rightarrow> bool" where
  "collected rd db acc \<longleftrightarrow> acc \<noteq> [] \<and> pred_chain (pred_of rd) (rev acc) \<and> (\<forall>b\<in>set acc. to_apply rd db b)"

lemma collected_snoc:
  assumes "collected rd db acc" "pred_of rd (last acc) = Some p" "to_apply rd db p"
  shows "collected rd db (acc @ [p])"
  using assms by (auto simp: collected_def pred_chain_Cons hd_rev)

lemma collect_loop_sound:
  assumes "collect_loop rd db iv sel acc = Some (Inr blocks)" "collected rd db acc" "sel = pred_of rd (last acc)"
  shows "collected rd db blocks \<and> hd blocks = hd acc \<and> bottom rd db iv (last blocks)"
proof -
  define P where "P = (\<lambda>rd db iv sel acc (y :: state_error + block_hash list). \<forall>blocks. y = Inr blocks \<longrightarrow>
    collected rd db acc \<longrightarrow> sel = pred_of rd (last acc) \<longrightarrow>
    collected rd db blocks \<and> hd blocks = hd acc \<and> bottom rd db iv (last blocks))"
  have "P rd db iv sel acc (Inr blocks)"
  proof (rule collect_loop.raw_induct [where P = P, OF _ assms(1)], goal_cases)
    case (1 loop rd db iv sel acc y)
    show ?case
      unfolding P_def
    proof (intro allI impI)
      fix blocks
      assume y: "y = Inr blocks" and acc: "collected rd db acc" and sel: "sel = pred_of rd (last acc)"
      have ne: "acc \<noteq> []"
        using acc by (simp add: collected_def)
      show "collected rd db blocks \<and> hd blocks = hd acc \<and> bottom rd db iv (last blocks)"
      proof (cases "sel = None \<or> (\<exists>p. sel = Some p \<and> (db_scheduled db p \<or> applied_in rd p))")
        case True
        then have "blocks = acc" "bottom rd db iv (last acc)"
          using 1(2) y sel by (auto simp: bottom_def applied_in_def split: if_splits sum.splits option.splits)
        with acc show ?thesis
          by simp
      next
        case False
        then obtain p m where p: "sel = Some p" "\<not> db_scheduled db p" "rd_meta rd p = Inr (Some m)" "\<not> m_is_applied m"
          using 1(2) y by (auto simp: applied_in_def split: if_splits sum.splits option.splits)
        then have "to_apply rd db p"
          by (simp add: to_apply_def applied_in_def)
        then have snoc: "collected rd db (acc @ [p])"
          using collected_snoc acc sel p(1) by simp
        have pp: "pred_of rd p = m_predecessor m"
          using p(3) by (simp add: pred_of_def)
        show ?thesis
        proof (cases "iv_start iv = p \<or> iv_seek iv = p \<or> m_predecessor m = Some p")
          case True
          then have "blocks = acc @ [p]"
            using 1(2) y p by (auto simp: take_predecessor_def split: if_splits)
          moreover have "bottom rd db iv p"
            using True pp by (auto simp: bottom_def)
          ultimately show ?thesis
            using snoc ne by simp
        next
          case False
          then obtain q where "m_predecessor m = Some q" "loop rd db iv (Some q) (acc @ [p]) = Some y"
            using 1(2) y p by (auto simp: take_predecessor_def split: option.splits if_splits)
          then show ?thesis
            using 1(1) snoc pp y ne unfolding P_def by fastforce
        qed
      qed
    qed
  qed
  then show ?thesis
    using assms(2,3) by (simp add: P_def)
qed

lemma collect_blocks_for_apply_sound:
  assumes "collect_blocks_for_apply rd db iv = Some (Inr blocks)" "blocks \<noteq> []"
  shows "last blocks = iv_end iv \<and> pred_chain (pred_of rd) blocks \<and> (\<forall>b\<in>set blocks. to_apply rd db b) \<and>
    bottom rd db iv (hd blocks) \<and> iv_state iv = Downloaded"
proof -
  obtain m acc where m: "iv_state iv = Downloaded" "\<not> db_scheduled db (iv_end iv)" "rd_meta rd (iv_end iv) = Inr (Some m)"
    "\<not> m_is_applied m" "collect_loop rd db iv (take_predecessor m) [iv_end iv] = Some (Inr acc)" "blocks = rev acc"
    using assms by (auto simp: collect_blocks_for_apply_def Let_def
        split: if_splits sum.splits option.splits)
  have "to_apply rd db (iv_end iv)"
    using m by (simp add: to_apply_def applied_in_def)
  then have "collected rd db [iv_end iv]"
    by (simp add: collected_def)
  moreover have "take_predecessor m = pred_of rd (last [iv_end iv])"
    using m(3) by (simp add: take_predecessor_def pred_of_def)
  ultimately have "collected rd db acc \<and> hd acc = iv_end iv \<and> bottom rd db iv (last acc)"
    using collect_loop_sound [OF m(5)] by simp
  then show ?thesis
    using m(1,6) by (auto simp: collected_def last_rev hd_rev)
qed

lemma collect_blocks_for_apply_terminates:
  assumes "descending rd f"
  shows "\<exists>r. collect_blocks_for_apply rd db iv = Some r"
proof -
  have loop: "\<exists>r. collect_loop rd db iv (take_predecessor m) [iv_end iv] = Some r" for m
    using collect_loop_terminates [OF assms] .
  show ?thesis
  proof (cases "rd_meta rd (iv_end iv)")
    case (Inr m)
    then show ?thesis
    proof (cases m)
      case (Some m')
      obtain r where "collect_loop rd db iv (take_predecessor m') [iv_end iv] = Some r"
        using loop by blast
      with Inr Some show ?thesis
        unfolding collect_blocks_for_apply_def Let_def by (cases r) simp_all
    qed (simp add: collect_blocks_for_apply_def)
  qed (simp add: collect_blocks_for_apply_def)
qed

section \<open>Properties\<close>

text \<open>Three blocks in a row, the newest two not applied, for the concrete instances below.\<close>

definition chain_meta :: "block_hash option \<Rightarrow> bool \<Rightarrow> i32 \<Rightarrow> meta" where
  "chain_meta p app l = \<lparr>m_predecessor = p, m_successors = [], m_is_applied = app, m_level = l, m_chain_id = []\<rparr>"

definition chain_reader :: reader where
  "chain_reader = \<lparr>
     rd_meta = (\<lambda>b. Inr (if b = [1] then Some (chain_meta (Some [0]) True 1)
       else if b = [2] then Some (chain_meta (Some [1]) False 2)
       else if b = [3] then Some (chain_meta (Some [2]) False 3) else None)),
     rd_complete = (\<lambda>b. Inr (b = [3]))\<rparr>"

lemmas chain_reader_simps = chain_reader_def chain_meta_def pred_of_def applied_in_def

lemma chain_reader_descending: "descending chain_reader (\<lambda>b. unat (hd b))"
  by (auto simp: descending_def chain_reader_simps split: if_splits)

text \<open>
  Dropping a block from the scheduled blocks (done once it is applied)
  removes exactly the scheduled blocks that are reachable from it along recorded
  predecessors, each once, and leaves every other entry as it was.
\<close>

theorem remove_with_all_predecessors_exact:
  assumes "remove_with_all_predecessors b db = (removed, db')"
  shows "distinct removed \<and>
    set removed = {c. \<exists>n. iter_opt (map_of db) n b = Some c} \<inter> dom (map_of db) \<and>
    map_of db' = (map_of db) |` (- set removed)"
  using remove_with_all_predecessors_spec [OF assms] by simp

theorem remove_with_all_predecessors_exact_witness:
  "remove_with_all_predecessors [2] [([1], [0]), ([2], [1]), ([3], [2])] = ([[2], [1]], [([3], [2])]) \<and>
   set [[2], [1 :: byte]] = {c. \<exists>n. iter_opt (map_of [([1 :: byte], [0]), ([2], [1]), ([3], [2])]) n [2 :: byte] = Some c}
      \<inter> dom (map_of [([1 :: byte], [0]), ([2], [1]), ([3], [2 :: byte])])"
proof -
  have e: "remove_with_all_predecessors [2] [([1], [0]), ([2], [1]), ([3], [2])] = ([[2], [1]], [([3], [2])])"
    by (simp add: remove_with_all_predecessors_def)
  show ?thesis
    using e remove_with_all_predecessors_exact [OF e] by blast
qed

text \<open>
  Splitting a block history into intervals yields open intervals that are
  chained (each starts where the one before it ends), start at the first block and end
  at the last one; when no two neighbours of the history coincide there is one interval
  per consecutive pair.
\<close>

theorem interval_split_correct:
  "split_ok first (last (first # blocks)) (interval_split first blocks) \<and>
   (blocks \<noteq> [] \<and> distinct_adj (first # blocks) \<longrightarrow>
      interval_split first blocks = map2 new_start_end (first # blocks) blocks)"
  using interval_split_ok interval_split_exact by blast

theorem interval_split_correct_witness:
  "interval_split [1] [[5], [9]] = [new_start_end [1] [5], new_start_end [5] [9]]"
  using interval_split_correct [of "[1]" "[[5], [9]]"] by simp

text \<open>
  Moving the seek of an open interval always returns (stored levels fall
  along predecessors). The bounds stay, the new seek is a stored ancestor of the end, and
  either the interval becomes downloaded, because the seek reached a scheduled or applied
  block, the start or genesis, or it stays open and the block asked for is the seek,
  whose header is not known; an applied block reported back is the seek and is applied.
\<close>

theorem shift_and_find_next_missing_predecessor_correct:
  assumes "descending rd f" "iv_state iv = Open" "seek_ok rd iv"
  shows "\<exists>missing' todo app iv'.
    shift_and_find_next_missing_predecessor rd db missing iv = Some (missing', todo, app, iv') \<and>
    iv_start iv' = iv_start iv \<and> iv_end iv' = iv_end iv \<and> seek_ok rd iv' \<and>
    (case todo of
       None \<Rightarrow> iv_state iv' = Downloaded \<and> closes rd db (iv_start iv) (iv_seek iv')
     | Some b \<Rightarrow> iv_state iv' = Open \<and> b = iv_seek iv' \<and> pred_of rd b = None) \<and>
    (app \<noteq> None \<longrightarrow> app = Some (iv_seek iv') \<and> applied_in rd (iv_seek iv'))"
proof -
  obtain r where r: "shift_and_find_next_missing_predecessor rd db missing iv = Some r"
    using shift_terminates [OF assms(1)] by blast
  obtain missing' todo app iv' where "r = (missing', todo, app, iv')"
    by (cases r)
  with r shift_sound [OF _ assms(2,3)] show ?thesis
    by blast
qed

theorem shift_and_find_next_missing_predecessor_correct_witness:
  "\<exists>missing' todo app iv'.
    shift_and_find_next_missing_predecessor chain_reader [] [] (new_start_end [0] [3]) = Some (missing', todo, app, iv') \<and>
    seek_ok chain_reader iv' \<and> (todo = None \<longrightarrow> iv_state iv' = Downloaded)"
proof -
  have "iv_state (new_start_end [0] [3]) = Open"
    by (simp add: new_start_end_def)
  from shift_and_find_next_missing_predecessor_correct [OF chain_reader_descending this new_start_end_seek, of "[]" "[]"]
  show ?thesis
    by (elim ex_forward) auto
qed

text \<open>
  Property C30. Collecting the blocks of an interval for application always returns
  (stored levels fall along predecessors). A non-empty result comes from a downloaded
  interval, ends with the end of the interval, is a gap-free chain from oldest to newest,
  holds only known blocks that are neither scheduled nor applied, and begins where
  nothing older is left: at the start or seek of the interval, at genesis, or right after
  a scheduled or applied block.
\<close>

theorem collect_blocks_for_apply_correct:
  assumes "descending rd f"
  shows "\<exists>r. collect_blocks_for_apply rd db iv = Some r \<and>
    (\<forall>blocks. r = Inr blocks \<and> blocks \<noteq> [] \<longrightarrow>
       iv_state iv = Downloaded \<and> last blocks = iv_end iv \<and> pred_chain (pred_of rd) blocks \<and>
       (\<forall>b\<in>set blocks. to_apply rd db b) \<and> bottom rd db iv (hd blocks))"
proof -
  obtain r where "collect_blocks_for_apply rd db iv = Some r"
    using collect_blocks_for_apply_terminates [OF assms] by blast
  then show ?thesis
    using collect_blocks_for_apply_sound [of rd db iv] by blast
qed

theorem collect_blocks_for_apply_correct_witness:
  "collect_blocks_for_apply chain_reader [] ((new_start_end [0] [3])\<lparr>iv_state := Downloaded\<rparr>) = Some (Inr [[2], [3]]) \<and>
   pred_chain (pred_of chain_reader) [[2], [3]]"
proof -
  have "collect_blocks_for_apply chain_reader [] ((new_start_end [0] [3])\<lparr>iv_state := Downloaded\<rparr>) = Some (Inr [[2], [3]])"
    by (simp add: collect_blocks_for_apply_def new_start_end_def chain_reader_simps take_predecessor_def
        db_scheduled_def collect_loop.simps Let_def)
  with collect_blocks_for_apply_correct [OF chain_reader_descending, of "[]" "(new_start_end [0] [3])\<lparr>iv_state := Downloaded\<rparr>"]
  show ?thesis
    by simp
qed

end
