(* ===== verification/BranchState.thy ===== *)
theory BranchState
  imports BranchInterval "HOL-Library.Sublist"
begin

text \<open>
  One branch that is bootstrapped from a peer (\<^verbatim>\<open>BranchState\<close> of
  \<^verbatim>\<open>shell/src/state/bootstrap_state.rs\<close>): its chained intervals, the blocks with missing
  operations and the blocks ready for application. Storage is read through \<^typ>\<open>reader\<close>,
  one snapshot per call; batches handed over for application are part of the result.
\<close>

section \<open>State and construction\<close>

record branch_state =
  br_to_level :: i32
  br_intervals :: "branch_interval list"
  br_missing_operations :: "block_hash list"
  br_blocks_to_apply :: "block_hash list"

definition new_branch :: "block_hash \<Rightarrow> block_hash list \<Rightarrow> i32 \<Rightarrow> block_state_db \<Rightarrow> branch_state" where
  "new_branch start_block blocks to_level db =
     \<lparr>br_to_level = to_level,
      br_intervals = interval_split (get_block_ref db start_block) (map (get_block_ref db) blocks),
      br_missing_operations = [], br_blocks_to_apply = []\<rparr>"

definition contains_block_to_apply :: "branch_state \<Rightarrow> block_hash \<Rightarrow> bool" where
  "contains_block_to_apply br b \<longleftrightarrow>
     (if b \<in> set (br_blocks_to_apply br) then True
      else \<exists>iv\<in>set (br_intervals br). iv_start iv = b \<or> iv_end iv = b \<or> iv_seek iv = b)"

fun position :: "('a \<Rightarrow> bool) \<Rightarrow> 'a list \<Rightarrow> nat option" where
  "position P [] = None"
| "position P (x # xs) = (if P x then Some 0 else map_option Suc (position P xs))"

definition br_merge :: "i32 \<Rightarrow> block_hash list \<Rightarrow> block_state_db \<Rightarrow> branch_state \<Rightarrow> bool \<times> branch_state" where
  "br_merge new_bootstrap_level new_missing_history db br =
     (if br_intervals br = [] then (False, br)
      else
        let last_interval = last (br_intervals br) in
        (case position (\<lambda>b. b = iv_end last_interval) new_missing_history of
           None \<Rightarrow> (False, br)
         | Some found_position \<Rightarrow>
             if found_position + 1 < length new_missing_history
             then
               let extended_missing_history = map (get_block_ref db) (drop (found_position + 1) new_missing_history);
                   new_intervals = interval_split (iv_end last_interval) extended_missing_history in
               if new_intervals \<noteq> []
               then (True, br\<lparr>br_intervals := br_intervals br @ new_intervals, br_to_level := new_bootstrap_level\<rparr>)
               else (False, br)
             else (False, br)))"

section \<open>Applied blocks\<close>

text \<open>The hash set of applied blocks is only extended and asked for membership.\<close>

definition forget :: "block_hash \<Rightarrow> block_hash set \<times> block_state_db \<Rightarrow> block_hash set \<times> block_state_db" where
  "forget b s = (case s of (applied_blocks, db) \<Rightarrow>
     (case remove_with_all_predecessors b db of (removed, db') \<Rightarrow> (applied_blocks \<union> set removed, db')))"

definition forget_interval :: "branch_interval \<Rightarrow> block_hash set \<times> block_state_db \<Rightarrow>
    block_hash set \<times> block_state_db" where
  "forget_interval iv s = forget (iv_end iv) (forget (iv_seek iv) (forget (iv_start iv) s))"

fun highest_applied :: "block_hash set \<Rightarrow> nat \<Rightarrow> block_hash list \<Rightarrow> nat option \<Rightarrow> nat option" where
  "highest_applied applied_blocks idx [] found = found"
| "highest_applied applied_blocks idx (b # bs) found =
     highest_applied applied_blocks (idx + 1) bs (if b \<in> applied_blocks then Some idx else found)"

definition interval_touched :: "block_hash set \<Rightarrow> branch_interval \<Rightarrow> bool" where
  "interval_touched applied_blocks iv \<longleftrightarrow>
     iv_start iv \<in> applied_blocks \<or> iv_seek iv \<in> applied_blocks \<or> iv_end iv \<in> applied_blocks"

definition trim_blocks :: "block_hash set \<Rightarrow> block_state_db \<Rightarrow> block_hash list \<Rightarrow>
    block_hash list \<times> block_hash set \<times> block_state_db" where
  "trim_blocks applied_blocks db blocks =
     (case highest_applied applied_blocks 0 blocks None of
        None \<Rightarrow> (blocks, applied_blocks, db)
      | Some idx \<Rightarrow> (drop (idx + 1) blocks, fold forget (take (idx + 1) blocks) (applied_blocks, db)))"

definition trim_intervals :: "block_hash set \<Rightarrow> block_state_db \<Rightarrow> branch_interval list \<Rightarrow>
    branch_interval list \<times> block_hash set \<times> block_state_db" where
  "trim_intervals applied_blocks db intervals =
     (case position (interval_touched applied_blocks) intervals of
        None \<Rightarrow> (intervals, applied_blocks, db)
      | Some idx \<Rightarrow>
          (case (if iv_end (intervals ! idx) \<in> applied_blocks
                 then (take idx intervals @ drop (idx + 1) intervals,
                       forget_interval (intervals ! idx) (applied_blocks, db))
                 else (intervals, applied_blocks, db)) of
             (intervals', s) \<Rightarrow> (drop idx intervals', fold forget_interval (take idx intervals') s)))"

definition br_block_applied :: "block_hash set \<Rightarrow> block_state_db \<Rightarrow> branch_state \<Rightarrow>
    block_hash set \<times> block_state_db \<times> branch_state" where
  "br_block_applied applied_blocks db br =
     (case trim_blocks applied_blocks db (br_blocks_to_apply br) of
        (blocks, applied1, db1) \<Rightarrow>
          (case trim_intervals applied1 db1 (br_intervals br) of
             (intervals, applied2, db2) \<Rightarrow>
               (applied2, db2, br\<lparr>br_blocks_to_apply := blocks, br_intervals := intervals\<rparr>)))"

text \<open>An applied block that was found in storage: it counts as applied even if it was not scheduled.\<close>

definition found_applied :: "block_hash option \<Rightarrow> block_state_db \<Rightarrow> branch_state \<Rightarrow> block_state_db \<times> branch_state" where
  "found_applied last_applied_block db br =
     (case last_applied_block of
        None \<Rightarrow> (db, br)
      | Some b \<Rightarrow>
          (case remove_with_all_predecessors b db of
             (removed, db') \<Rightarrow> snd (br_block_applied (insert b (set removed)) db' br)))"

definition br_block_operations_downloaded :: "block_hash \<Rightarrow> branch_state \<Rightarrow> branch_state" where
  "br_block_operations_downloaded bh br = br\<lparr>br_missing_operations := removeAll bh (br_missing_operations br)\<rparr>"

definition is_done :: "branch_state \<Rightarrow> bool" where
  "is_done br \<longleftrightarrow> br_intervals br = []"

section \<open>Blocks to download\<close>

definition push_missing :: "block_hash list \<Rightarrow> block_hash option \<Rightarrow> block_hash list \<Rightarrow> block_hash list" where
  "push_missing ignored_blocks missing_block blocks_to_download =
     (case missing_block of
        None \<Rightarrow> blocks_to_download
      | Some b \<Rightarrow>
          if b \<in> set ignored_blocks \<or> b \<in> set blocks_to_download then blocks_to_download
          else blocks_to_download @ [b])"

fun headers_loop :: "reader \<Rightarrow> block_state_db \<Rightarrow> nat \<Rightarrow> block_hash list \<Rightarrow> bool \<Rightarrow> branch_interval list \<Rightarrow>
    block_hash list \<Rightarrow> block_hash list \<Rightarrow> block_hash option \<Rightarrow>
    (branch_interval list \<times> block_hash list \<times> block_hash list \<times> block_hash option) option" where
  "headers_loop rd db requested_count ignored prev_downloaded [] missing todo applied = Some ([], missing, todo, applied)"
| "headers_loop rd db requested_count ignored prev_downloaded (iv # ivs) missing todo applied =
     (if \<not> prev_downloaded then Some (iv # ivs, missing, todo, applied)
      else if iv_state iv \<noteq> Open
      then map_option (apfst ((#) iv)) (headers_loop rd db requested_count ignored True ivs missing todo applied)
      else (case shift_and_find_next_missing_predecessor rd db missing iv of
        None \<Rightarrow> None
      | Some (missing', missing_block, applied_block, iv') \<Rightarrow>
          let todo' = push_missing ignored missing_block todo;
              applied' = (if applied_block \<noteq> None then applied_block else applied) in
          if length todo' \<ge> requested_count then Some (iv' # ivs, missing', todo', applied')
          else map_option (apfst ((#) iv'))
            (headers_loop rd db requested_count ignored (iv_state iv' \<noteq> Open) ivs missing' todo' applied')))"

definition collect_next_block_headers_to_download :: "reader \<Rightarrow> nat \<Rightarrow> block_hash list \<Rightarrow> block_hash list \<Rightarrow>
    block_state_db \<Rightarrow> branch_state \<Rightarrow> (block_hash list \<times> block_state_db \<times> branch_state) option" where
  "collect_next_block_headers_to_download rd requested_count ignored todo db br =
     (if requested_count = 0 then Some (todo, db, br)
      else (case headers_loop rd db requested_count ignored True (br_intervals br)
                   (br_missing_operations br) todo None of
        None \<Rightarrow> None
      | Some (intervals, missing, todo', last_applied_block) \<Rightarrow>
          Some (todo', found_applied last_applied_block db
            (br\<lparr>br_intervals := intervals, br_missing_operations := missing\<rparr>))))"

fun operations_loop :: "nat \<Rightarrow> block_hash list \<Rightarrow> block_hash list \<Rightarrow> block_hash list \<Rightarrow> block_hash list" where
  "operations_loop requested_count ignored [] todo = todo"
| "operations_loop requested_count ignored (b # bs) todo =
     (if b \<in> set ignored \<or> b \<in> set todo then operations_loop requested_count ignored bs todo
      else if length todo \<ge> requested_count then todo
      else operations_loop requested_count ignored bs (todo @ [b]))"

definition collect_next_block_operations_to_download :: "nat \<Rightarrow> block_hash list \<Rightarrow> block_hash list \<Rightarrow>
    branch_state \<Rightarrow> block_hash list" where
  "collect_next_block_operations_to_download requested_count ignored todo br =
     (if requested_count = 0 then todo
      else operations_loop requested_count ignored (br_missing_operations br) todo)"

section \<open>Scheduling blocks for application\<close>

text \<open>Downloaded intervals hand over their blocks, up to the first open interval.\<close>

fun schedule_intervals :: "reader \<Rightarrow> block_state_db \<Rightarrow> branch_interval list \<Rightarrow> block_hash list \<Rightarrow>
    ((state_error + unit) \<times> branch_interval list \<times> block_hash list) option" where
  "schedule_intervals rd db [] blocks = Some (Inr (), [], blocks)"
| "schedule_intervals rd db (iv # ivs) blocks =
     (case iv_state iv of
        Open \<Rightarrow> Some (Inr (), iv # ivs, blocks)
      | Downloaded \<Rightarrow>
          (case collect_blocks_for_apply rd db iv of
             None \<Rightarrow> None
           | Some (Inl e) \<Rightarrow> Some (Inl e, iv # ivs, blocks)
           | Some (Inr bs) \<Rightarrow>
               map_option (apsnd (apfst ((#) (iv\<lparr>iv_state := ScheduledForApply\<rparr>))))
                 (schedule_intervals rd db ivs (blocks @ bs)))
      | ScheduledForApply \<Rightarrow>
          map_option (apsnd (apfst ((#) iv))) (schedule_intervals rd db ivs blocks))"

record schedule =
  sc_db :: block_state_db
  sc_missing :: "block_hash list"
  sc_batch :: "apply_block_batch option"
  sc_sent :: "apply_block_batch list"
  sc_last_applied :: "block_hash option"
  sc_last_scheduled :: "block_hash option"

text \<open>A block joins the open batch, which is sent when it is full, or starts a new one.\<close>

definition batch_block :: "nat \<Rightarrow> block_hash \<Rightarrow> schedule \<Rightarrow> schedule" where
  "batch_block max_block_apply_batch block_ref s =
     (case sc_batch s of
        Some b \<Rightarrow>
          let b' = add_successor block_ref b in
          if successors_size b' \<ge> max_block_apply_batch
          then s\<lparr>sc_sent := sc_sent s @ [b'], sc_batch := None\<rparr>
          else s\<lparr>sc_batch := Some b'\<rparr>
      | None \<Rightarrow> s\<lparr>sc_batch := Some (start_batch block_ref max_block_apply_batch)\<rparr>)"

fun schedule_loop :: "reader \<Rightarrow> nat \<Rightarrow> block_hash list \<Rightarrow> schedule \<Rightarrow> (state_error + unit) \<times> schedule" where
  "schedule_loop rd max_block_apply_batch [] s = (Inr (), s)"
| "schedule_loop rd max_block_apply_batch (b # bs) s =
     (if db_scheduled (sc_db s) b
      then schedule_loop rd max_block_apply_batch bs (s\<lparr>sc_last_scheduled := Some b\<rparr>)
      else (case rd_meta rd b of
        Inl e \<Rightarrow> (Inl (StStorageError e), s)
      | Inr None \<Rightarrow> (Inl (ProcessingError ''Block should be already downloaded, but it is not''), s)
      | Inr (Some block_metadata) \<Rightarrow>
          if m_is_applied block_metadata
          then schedule_loop rd max_block_apply_batch bs
                 (s\<lparr>sc_last_scheduled := Some b, sc_last_applied := Some b\<rparr>)
          else if \<not> is_downloaded block_metadata
          then (Inl (ProcessingError ''Block should be downloaded, but it is not''), s)
          else if rd_complete rd b \<noteq> Inr True
          then (Inr (), s\<lparr>sc_missing := List.insert (get_block_ref (sc_db s) b) (sc_missing s)\<rparr>)
          else (case take_predecessor block_metadata of
            None \<Rightarrow> (Inl (ProcessingError ''Block does not have predecessor, this should not happen''), s)
          | Some predecessor \<Rightarrow>
              let block_ref = get_block_ref (sc_db s) b;
                  s1 = s\<lparr>sc_db := AList.update block_ref (get_block_ref (sc_db s) predecessor) (sc_db s)\<rparr> in
              schedule_loop rd max_block_apply_batch bs
                ((batch_block max_block_apply_batch block_ref s1)\<lparr>sc_last_scheduled := Some b\<rparr>))))"

definition drop_scheduled :: "block_hash option \<Rightarrow> block_hash list \<Rightarrow> block_hash list" where
  "drop_scheduled last_already_scheduled blocks =
     (case last_already_scheduled of
        None \<Rightarrow> blocks
      | Some l \<Rightarrow>
          (case position (\<lambda>b. b = l) blocks of
             None \<Rightarrow> blocks
           | Some p \<Rightarrow> drop (p + 1) blocks))"

text \<open>The result: the outcome, the batches sent, the scheduled blocks and the branch.\<close>

definition schedule_next_block_to_apply :: "reader \<Rightarrow> nat \<Rightarrow> block_state_db \<Rightarrow> branch_state \<Rightarrow>
    ((state_error + unit) \<times> apply_block_batch list \<times> block_state_db \<times> branch_state) option" where
  "schedule_next_block_to_apply rd max_block_apply_batch db br =
     (case schedule_intervals rd db (br_intervals br) (br_blocks_to_apply br) of
        None \<Rightarrow> None
      | Some (Inl e, intervals, blocks) \<Rightarrow>
          Some (Inl e, [], db, br\<lparr>br_intervals := intervals, br_blocks_to_apply := blocks\<rparr>)
      | Some (Inr _, intervals, blocks) \<Rightarrow>
          (case schedule_loop rd max_block_apply_batch blocks
                  \<lparr>sc_db = db, sc_missing = br_missing_operations br, sc_batch = None, sc_sent = [],
                   sc_last_applied = None, sc_last_scheduled = None\<rparr> of
             (Inl e, s) \<Rightarrow>
               Some (Inl e, sc_sent s, sc_db s, br\<lparr>br_intervals := intervals, br_blocks_to_apply := blocks\<rparr>)
           | (Inr _, s) \<Rightarrow>
               let sent = sc_sent s @ (case sc_batch s of None \<Rightarrow> [] | Some b \<Rightarrow> [b]);
                   br' = \<lparr>br_to_level = br_to_level br, br_intervals = intervals,
                          br_missing_operations = sc_missing s,
                          br_blocks_to_apply = drop_scheduled (sc_last_scheduled s) blocks\<rparr> in
               Some (Inr (), sent, found_applied (sc_last_applied s) (sc_db s) br')))"

section \<open>Positions\<close>

lemma position_None_iff: "position P xs = None \<longleftrightarrow> (\<forall>x\<in>set xs. \<not> P x)"
  by (induction xs) auto

lemma position_SomeD: "position P xs = Some i \<Longrightarrow> i < length xs \<and> P (xs ! i) \<and> (\<forall>j<i. \<not> P (xs ! j))"
proof (induction xs arbitrary: i)
  case (Cons x xs)
  then show ?case
    by (cases i) (auto split: if_splits simp: less_Suc_eq_0_disj)
qed simp

lemma highest_applied_spec:
  "highest_applied A n xs found =
     (case highest_applied A 0 xs None of None \<Rightarrow> found | Some i \<Rightarrow> Some (n + i))"
proof (induction xs arbitrary: n found)
  case (Cons x xs)
  show ?case
    using Cons.IH [of "Suc n" "if x \<in> A then Some n else found"] Cons.IH [of "Suc 0" "if x \<in> A then Some 0 else None"]
    by (auto split: option.splits)
qed simp

lemma drop_highest_applied:
  "case highest_applied A 0 xs None of
     None \<Rightarrow> set xs \<inter> A = {}
   | Some i \<Rightarrow> i < length xs \<and> xs ! i \<in> A \<and> set (drop (Suc i) xs) \<inter> A = {}"
proof (induction xs)
  case (Cons x xs)
  show ?case
    using Cons.IH highest_applied_spec [of A "Suc 0" xs "if x \<in> A then Some 0 else None"]
    by (auto split: option.splits if_splits)
qed simp

section \<open>Applied blocks only shrink the branch\<close>

text \<open>Scheduled entries are removed, each removed block counts as applied.\<close>

definition shrinks :: "block_hash set \<times> block_state_db \<Rightarrow> block_hash set \<times> block_state_db \<Rightarrow> bool" where
  "shrinks s s' \<longleftrightarrow> (\<exists>R. R \<subseteq> dom (map_of (snd s)) \<and> fst s' = fst s \<union> R \<and>
     map_of (snd s') = (map_of (snd s)) |` (- R))"

lemma shrinks_refl [simp]: "shrinks s s"
  unfolding shrinks_def by (intro exI [of _ "{}"]) (simp add: restrict_map_def)

lemma shrinks_trans:
  assumes "shrinks a b" "shrinks b c"
  shows "shrinks a c"
proof -
  obtain R S where "R \<subseteq> dom (map_of (snd a))" "fst b = fst a \<union> R" "map_of (snd b) = (map_of (snd a)) |` (- R)"
    and "S \<subseteq> dom (map_of (snd b))" "fst c = fst b \<union> S" "map_of (snd c) = (map_of (snd b)) |` (- S)"
    using assms by (auto simp: shrinks_def)
  then show ?thesis
    unfolding shrinks_def by (intro exI [of _ "R \<union> S"]) (auto simp: restrict_map_def dom_def subset_iff split: if_splits)
qed

lemma shrinks_applied: "shrinks (A, db) (A', db') \<Longrightarrow> A \<subseteq> A'"
  by (auto simp: shrinks_def)

lemma shrinks_fold: "(\<And>x s. shrinks s (f x s)) \<Longrightarrow> shrinks s (fold f xs s)"
proof (induction xs arbitrary: s)
  case (Cons x xs)
  then show ?case
    using shrinks_trans [of s "f x s"] by simp
qed simp

lemma shrinks_forget: "shrinks s (forget b s)"
proof -
  obtain A db where s: "s = (A, db)"
    by (cases s)
  obtain rs db' where r: "remove_with_all_predecessors b db = (rs, db')"
    by (cases "remove_with_all_predecessors b db")
  from remove_with_all_predecessors_spec [OF r] have "set rs \<subseteq> dom (map_of db)"
    "map_of db' = (map_of db) |` (- set rs)"
    by auto
  then show ?thesis
    by (auto simp: shrinks_def s forget_def r)
qed

lemma shrinks_forget_interval: "shrinks s (forget_interval iv s)"
  unfolding forget_interval_def by (intro shrinks_trans [OF _ shrinks_forget] shrinks_refl)

lemma trim_blocks_spec:
  assumes "trim_blocks A db blocks = (blocks', s')"
  shows "shrinks (A, db) s' \<and> (\<exists>k. blocks' = drop k blocks \<and> set blocks' \<inter> A = {} \<and>
    (0 < k \<longrightarrow> k \<le> length blocks \<and> blocks ! (k - 1) \<in> A))"
proof (cases "highest_applied A 0 blocks None")
  case None
  with assms drop_highest_applied [where A = A and xs = blocks] show ?thesis
    by (auto simp: trim_blocks_def intro: exI [of _ 0])
next
  case (Some i)
  with assms drop_highest_applied [where A = A and xs = blocks] show ?thesis
    by (auto simp: trim_blocks_def shrinks_fold shrinks_forget intro!: exI [of _ "Suc i"])
qed

text \<open>
  How many intervals go: all below the first one an applied block touches, and that one
  too if its end is applied.
\<close>

definition trimmed :: "block_hash set \<Rightarrow> branch_interval list \<Rightarrow> nat \<Rightarrow> bool" where
  "trimmed A ivs k \<longleftrightarrow>
     (\<forall>i. Suc i < k \<longrightarrow> \<not> interval_touched A (ivs ! i)) \<and>
     (k = 0 \<or> k \<le> length ivs \<and> (iv_end (ivs ! (k - 1)) \<in> A \<or> k < length ivs \<and> interval_touched A (ivs ! k))) \<and>
     (k < length ivs \<and> interval_touched A (ivs ! k) \<and> (\<forall>i<k. \<not> interval_touched A (ivs ! i)) \<longrightarrow> iv_end (ivs ! k) \<notin> A)"

lemma trim_intervals_spec:
  assumes "trim_intervals A db ivs = (ivs', s')"
  shows "shrinks (A, db) s' \<and> (\<exists>k. ivs' = drop k ivs \<and> trimmed A ivs k)"
proof (cases "position (interval_touched A) ivs")
  case None
  with assms show ?thesis
    by (auto simp: trim_intervals_def position_None_iff trimmed_def intro!: exI [of _ 0])
next
  case (Some i)
  note pos = position_SomeD [OF Some]
  have fold: "shrinks s (fold forget_interval xs s)" for xs s
    by (simp add: shrinks_fold shrinks_forget_interval)
  show ?thesis
  proof (cases "iv_end (ivs ! i) \<in> A")
    case True
    then have "ivs' = drop (Suc i) ivs" "s' = fold forget_interval (take i ivs) (forget_interval (ivs ! i) (A, db))"
      using assms Some pos by (simp_all add: trim_intervals_def min_def)
    moreover have "trimmed A ivs (Suc i)"
      using True pos by (auto simp: trimmed_def)
    ultimately show ?thesis
      using shrinks_trans [OF shrinks_forget_interval fold] by blast
  next
    case False
    then have "ivs' = drop i ivs" "s' = fold forget_interval (take i ivs) (A, db)"
      using assms Some by (simp_all add: trim_intervals_def)
    moreover have "trimmed A ivs i"
      using False pos by (auto simp: trimmed_def)
    ultimately show ?thesis
      using fold by blast
  qed
qed

lemma br_block_applied_spec:
  assumes "br_block_applied A db br = (A', db', br')"
  shows "shrinks (A, db) (A', db')"
    "\<exists>k. br_blocks_to_apply br' = drop k (br_blocks_to_apply br) \<and> set (br_blocks_to_apply br') \<inter> A = {} \<and>
       (0 < k \<longrightarrow> k \<le> length (br_blocks_to_apply br) \<and> br_blocks_to_apply br ! (k - 1) \<in> A)"
    "\<exists>B k. A \<subseteq> B \<and> B \<subseteq> A' \<and> br_intervals br' = drop k (br_intervals br) \<and> trimmed B (br_intervals br) k"
    "br_to_level br' = br_to_level br" "br_missing_operations br' = br_missing_operations br"
proof -
  obtain blocks B db1 where t: "trim_blocks A db (br_blocks_to_apply br) = (blocks, B, db1)"
    by (cases "trim_blocks A db (br_blocks_to_apply br)") auto
  obtain ivs where v: "trim_intervals B db1 (br_intervals br) = (ivs, A', db')"
    and br': "br' = br\<lparr>br_blocks_to_apply := blocks, br_intervals := ivs\<rparr>"
    using assms t by (auto simp: br_block_applied_def split: prod.splits)
  note tb = trim_blocks_spec [OF t] and ti = trim_intervals_spec [OF v]
  show "shrinks (A, db) (A', db')"
    using tb ti shrinks_trans by blast
  show "\<exists>k. br_blocks_to_apply br' = drop k (br_blocks_to_apply br) \<and> set (br_blocks_to_apply br') \<inter> A = {} \<and>
       (0 < k \<longrightarrow> k \<le> length (br_blocks_to_apply br) \<and> br_blocks_to_apply br ! (k - 1) \<in> A)"
    using tb br' by simp
  show "\<exists>B k. A \<subseteq> B \<and> B \<subseteq> A' \<and> br_intervals br' = drop k (br_intervals br) \<and> trimmed B (br_intervals br) k"
    using tb ti br' shrinks_applied by (metis branch_state.select_convs(2) branch_state.surjective
      branch_state.update_convs(2) branch_state.update_convs(4))
  show "br_to_level br' = br_to_level br" "br_missing_operations br' = br_missing_operations br"
    using br' by simp_all
qed

section \<open>The branch invariant\<close>

text \<open>Intervals are chained, and every header between seek and end of each is known.\<close>

definition branch_ok :: "reader \<Rightarrow> branch_state \<Rightarrow> bool" where
  "branch_ok rd br \<longleftrightarrow> linked_intervals (br_intervals br) \<and> (\<forall>iv\<in>set (br_intervals br). seek_ok rd iv)"

lemma split_ok_seek: "split_ok a z ivs \<Longrightarrow> iv \<in> set ivs \<Longrightarrow> seek_ok rd iv"
  unfolding seek_ok_def by (intro exI [of _ 0]) (simp add: split_ok_def)

lemma map_get_block_ref [simp]: "map (get_block_ref db) bs = bs"
  by (simp add: get_block_ref_def map_idI)

lemma new_branch_ok: "branch_ok rd (new_branch b bs l db)"
  using interval_split_ok [of b bs] split_ok_seek
  by (auto simp: branch_ok_def new_branch_def get_block_ref_def split_ok_def)

lemma branch_ok_drop:
  "branch_ok rd br \<Longrightarrow> br_intervals br' = drop k (br_intervals br) \<Longrightarrow> branch_ok rd br'"
  by (auto simp: branch_ok_def linked_intervals_drop dest: in_set_dropD)

lemma br_block_applied_ok:
  assumes "br_block_applied A db br = (A', db', br')" "branch_ok rd br"
  shows "branch_ok rd br'"
  using br_block_applied_spec(3) [OF assms(1)] branch_ok_drop [OF assms(2)] by blast

lemma map_le_restrict: "m |` A \<subseteq>\<^sub>m m"
  by (auto simp: map_le_def restrict_map_def split: if_splits)

lemma found_applied_cases:
  assumes "found_applied l db br = (db', br')"
  obtains "db' = db" "br' = br"
  | A A' db1 where "br_block_applied A db1 br = (A', db', br')" "map_of db1 \<subseteq>\<^sub>m map_of db"
proof (cases l)
  case None
  then show ?thesis
    using assms that(1) by (simp add: found_applied_def)
next
  case (Some b)
  obtain rs db1 where r: "remove_with_all_predecessors b db = (rs, db1)"
    by (cases "remove_with_all_predecessors b db")
  obtain A' where "br_block_applied (insert b (set rs)) db1 br = (A', db', br')"
    using assms Some r by (cases "br_block_applied (insert b (set rs)) db1 br") (auto simp: found_applied_def)
  then show ?thesis
    using that(2) remove_with_all_predecessors_spec(2) [OF r] map_le_restrict by metis
qed

lemma found_applied_ok: "found_applied l db br = (db', br') \<Longrightarrow> branch_ok rd br \<Longrightarrow> branch_ok rd br'"
  by (erule found_applied_cases) (auto dest: br_block_applied_ok)

lemma br_block_applied_db: "br_block_applied A db br = (A', db', br') \<Longrightarrow> map_of db' \<subseteq>\<^sub>m map_of db"
  by (drule br_block_applied_spec(1)) (auto simp: shrinks_def map_le_restrict)

lemma found_applied_db: "found_applied l db br = (db', br') \<Longrightarrow> map_of db' \<subseteq>\<^sub>m map_of db"
  by (erule found_applied_cases) (auto dest: br_block_applied_db intro: map_le_trans)

section \<open>Merging a longer history\<close>

lemma br_merge_cases:
  assumes "br_merge l hist db br = (ok, br')"
  shows "(\<not> ok \<and> br' = br) \<or>
    (ok \<and> br_intervals br \<noteq> [] \<and> (\<exists>pre post. hist = pre @ iv_end (last (br_intervals br)) # post \<and> post \<noteq> [] \<and>
       iv_end (last (br_intervals br)) \<notin> set pre \<and>
       br' = br\<lparr>br_intervals := br_intervals br @ interval_split (iv_end (last (br_intervals br))) post, br_to_level := l\<rparr>))"
proof (cases "br_intervals br = []")
  case True
  then show ?thesis
    using assms by (simp add: br_merge_def)
next
  case False
  let ?e = "iv_end (last (br_intervals br))"
  show ?thesis
  proof (cases "position (\<lambda>b. b = ?e) hist")
    case None
    then show ?thesis
      using assms False by (simp add: br_merge_def)
  next
    case (Some i)
    note pos = position_SomeD [OF Some]
    have "hist = take i hist @ ?e # drop (Suc i) hist"
      using pos id_take_nth_drop [of i hist] by simp
    moreover have "?e \<notin> set (take i hist)"
      using pos by (auto simp: in_set_conv_nth)
    moreover have "(\<not> ok \<and> br' = br) \<or> (ok \<and> Suc i < length hist \<and>
        br' = br\<lparr>br_intervals := br_intervals br @ interval_split ?e (drop (Suc i) hist), br_to_level := l\<rparr>)"
      using assms False Some by (simp add: br_merge_def Let_def split: if_splits)
    ultimately show ?thesis
      using False by (metis drop_eq_Nil linorder_not_le)
  qed
qed

lemma br_merge_ok:
  assumes "br_merge l hist db br = (ok, br')" "branch_ok rd br"
  shows "branch_ok rd br'"
  using br_merge_cases [OF assms(1)]
proof
  assume "\<not> ok \<and> br' = br"
  then show ?thesis
    using assms(2) by simp
next
  let ?e = "iv_end (last (br_intervals br))"
  assume "ok \<and> br_intervals br \<noteq> [] \<and> (\<exists>pre post. hist = pre @ ?e # post \<and> post \<noteq> [] \<and> ?e \<notin> set pre \<and>
       br' = br\<lparr>br_intervals := br_intervals br @ interval_split ?e post, br_to_level := l\<rparr>)"
  then obtain post where ne: "br_intervals br \<noteq> []" and
    br': "br' = br\<lparr>br_intervals := br_intervals br @ interval_split ?e post, br_to_level := l\<rparr>"
    by blast
  have "split_ok ?e (last (?e # post)) (interval_split ?e post)"
    by (rule interval_split_ok)
  then show ?thesis
    using assms(2) ne br' split_ok_seek
    by (auto simp: branch_ok_def split_ok_def linked_intervals_append)
qed

section \<open>Requests for headers\<close>

definition same_bounds :: "branch_interval list \<Rightarrow> branch_interval list \<Rightarrow> bool" where
  "same_bounds ivs ivs' \<longleftrightarrow> list_all2 (\<lambda>a b. iv_start a = iv_start b \<and> iv_end a = iv_end b) ivs ivs'"

lemma same_bounds_refl [simp]: "same_bounds ivs ivs"
  by (simp add: same_bounds_def list.rel_refl)

lemma same_bounds_Cons [simp]:
  "same_bounds (a # ivs) (b # ivs') \<longleftrightarrow> iv_start a = iv_start b \<and> iv_end a = iv_end b \<and> same_bounds ivs ivs'"
  by (auto simp: same_bounds_def)

lemma linked_same_bounds: "same_bounds ivs ivs' \<Longrightarrow> linked_intervals ivs \<Longrightarrow> linked_intervals ivs'"
proof (induction ivs arbitrary: ivs' rule: linked_intervals.induct)
  case (1 a b ivs)
  then show ?case
    by (auto simp: same_bounds_def list_all2_Cons1)
qed (auto simp: same_bounds_def list_all2_Cons1)

lemma headers_loop_terminates:
  assumes "descending rd f"
  shows "\<exists>r. headers_loop rd db n ign prev ivs missing todo app = Some r"
proof (induction ivs arbitrary: prev missing todo app)
  case (Cons iv ivs)
  obtain m b a iv' where "shift_and_find_next_missing_predecessor rd db missing iv = Some (m, b, a, iv')"
    using shift_terminates [OF assms, of db missing iv] by auto
  moreover obtain r1 where "headers_loop rd db n ign True ivs missing todo app = Some r1"
    using Cons.IH by blast
  moreover obtain r2 where "headers_loop rd db n ign (iv_state iv' \<noteq> Open) ivs m (push_missing ign b todo)
      (if a \<noteq> None then a else app) = Some r2"
    using Cons.IH by blast
  ultimately show ?case
    by (cases r1; cases r2) (simp add: Let_def)
qed simp

text \<open>At most one header is requested per pass over a branch, and only one that is not known.\<close>

definition one_more :: "reader \<Rightarrow> block_hash list \<Rightarrow> block_hash list \<Rightarrow> block_hash list \<Rightarrow> bool" where
  "one_more rd ignored todo todo' \<longleftrightarrow> todo' = todo \<or>
     (\<exists>b. todo' = todo @ [b] \<and> b \<notin> set ignored \<and> b \<notin> set todo \<and> pred_of rd b = None)"

lemma headers_loop_sound:
  assumes "headers_loop rd db n ign prev ivs missing todo app = Some (ivs', missing', todo', app')"
    and "\<forall>iv\<in>set ivs. seek_ok rd iv"
  shows "same_bounds ivs ivs' \<and> (\<forall>iv\<in>set ivs'. seek_ok rd iv) \<and> one_more rd ign todo todo'"
  using assms
proof (induction ivs arbitrary: prev missing todo app ivs' missing' todo' app')
  case (Cons iv ivs)
  have seek: "seek_ok rd iv" "\<forall>iv\<in>set ivs. seek_ok rd iv"
    using Cons.prems(2) by simp_all
  consider "\<not> prev" | "prev" "iv_state iv \<noteq> Open" | "prev" "iv_state iv = Open"
    by blast
  then show ?case
  proof cases
    case 1
    then show ?thesis
      using Cons.prems by (auto simp: one_more_def)
  next
    case 2
    then obtain r where "headers_loop rd db n ign True ivs missing todo app = Some (r, missing', todo', app')" "ivs' = iv # r"
      using Cons.prems(1) by auto
    then show ?thesis
      using Cons.IH seek by auto
  next
    case 3
    obtain m b a iv' where sh: "shift_and_find_next_missing_predecessor rd db missing iv = Some (m, b, a, iv')"
      using Cons.prems(1) 3 by (auto split: option.splits)
    note ss = shift_sound [OF sh 3(2) seek(1)]
    define t where "t = push_missing ign b todo"
    have bounds: "iv_start iv' = iv_start iv" "iv_end iv' = iv_end iv" "seek_ok rd iv'"
      using ss by simp_all
    have t: "one_more rd ign todo t" "b = None \<Longrightarrow> t = todo" "b \<noteq> None \<Longrightarrow> iv_state iv' = Open"
      using ss by (auto simp: t_def push_missing_def one_more_def split: option.splits if_splits)
    show ?thesis
    proof (cases "length t \<ge> n")
      case True
      then have "ivs' = iv' # ivs" "todo' = t"
        using Cons.prems(1) 3 sh t_def by (simp_all add: Let_def)
      then show ?thesis
        using bounds seek t(1) by simp
    next
      case False
      then obtain r a' where h: "headers_loop rd db n ign (iv_state iv' \<noteq> Open) ivs m t a' = Some (r, missing', todo', app')"
        "ivs' = iv' # r"
        using Cons.prems(1) 3 sh t_def by (auto simp: Let_def split: if_splits)
      note ih = Cons.IH [OF h(1) seek(2)]
      have "one_more rd ign todo todo'"
      proof (cases b)
        case None
        then show ?thesis
          using ih t(2) by simp
      next
        case (Some c)
        then have "todo' = t"
          using h(1) t(3) by (cases ivs) simp_all
        then show ?thesis
          using t(1) by simp
      qed
      then show ?thesis
        using ih h(2) bounds by simp
    qed
  qed
qed (auto simp: one_more_def)

lemma collect_headers_terminates:
  assumes "descending rd f"
  shows "\<exists>r. collect_next_block_headers_to_download rd n ign todo db br = Some r"
  using headers_loop_terminates [OF assms, of db n ign True "br_intervals br" "br_missing_operations br" todo None]
  by (auto simp: collect_next_block_headers_to_download_def)

lemma collect_headers_sound:
  assumes "collect_next_block_headers_to_download rd n ign todo db br = Some (todo', db', br')" "branch_ok rd br"
  shows "one_more rd ign todo todo' \<and> branch_ok rd br' \<and> map_of db' \<subseteq>\<^sub>m map_of db"
proof (cases "n = 0")
  case True
  then show ?thesis
    using assms by (simp add: collect_next_block_headers_to_download_def one_more_def)
next
  case False
  then obtain ivs m l where h: "headers_loop rd db n ign True (br_intervals br) (br_missing_operations br) todo None =
      Some (ivs, m, todo', l)"
    and f: "found_applied l db (br\<lparr>br_intervals := ivs, br_missing_operations := m\<rparr>) = (db', br')"
    using assms(1) by (auto simp: collect_next_block_headers_to_download_def split: option.splits)
  have "\<forall>iv\<in>set (br_intervals br). seek_ok rd iv"
    using assms(2) by (simp add: branch_ok_def)
  note hs = headers_loop_sound [OF h this]
  have "branch_ok rd (br\<lparr>br_intervals := ivs, br_missing_operations := m\<rparr>)"
    using hs assms(2) linked_same_bounds by (auto simp: branch_ok_def)
  then show ?thesis
    using hs found_applied_ok [OF f] found_applied_db [OF f] by blast
qed

lemma operations_loop_spec:
  "\<exists>new. operations_loop n ign bs todo = todo @ new \<and> subseq new bs \<and> distinct new \<and>
     set new \<inter> (set ign \<union> set todo) = {} \<and> length (operations_loop n ign bs todo) \<le> max n (length todo)"
proof (induction bs arbitrary: todo)
  case (Cons b bs)
  obtain new1 where 1: "operations_loop n ign bs todo = todo @ new1" "subseq new1 bs" "distinct new1"
    "set new1 \<inter> (set ign \<union> set todo) = {}" "length (operations_loop n ign bs todo) \<le> max n (length todo)"
    using Cons.IH by blast
  obtain new2 where 2: "operations_loop n ign bs (todo @ [b]) = (todo @ [b]) @ new2" "subseq new2 bs" "distinct new2"
    "set new2 \<inter> (set ign \<union> set (todo @ [b])) = {}"
    "length (operations_loop n ign bs (todo @ [b])) \<le> max n (length (todo @ [b]))"
    using Cons.IH by blast
  consider "b \<in> set ign \<union> set todo" | "b \<notin> set ign \<union> set todo" "n \<le> length todo" | "b \<notin> set ign \<union> set todo" "length todo < n"
    by linarith
  then show ?case
  proof cases
    case 1
    then show ?thesis
      using \<open>operations_loop n ign bs todo = todo @ new1\<close> \<open>subseq new1 bs\<close> \<open>distinct new1\<close>
        \<open>set new1 \<inter> (set ign \<union> set todo) = {}\<close> \<open>length (operations_loop n ign bs todo) \<le> max n (length todo)\<close>
      by (intro exI [of _ new1]) (auto intro: list_emb_Cons)
  next
    case 2
    then show ?thesis
      by (intro exI [of _ "[]"]) auto
  next
    case 3
    then show ?thesis
      using 2 by (intro exI [of _ "b # new2"]) auto
  qed
qed simp

section \<open>What is scheduled\<close>

lemma schedule_intervals_terminates:
  assumes "descending rd f"
  shows "\<exists>r. schedule_intervals rd db ivs blocks = Some r"
proof (induction ivs arbitrary: blocks)
  case (Cons iv ivs)
  obtain r where r: "collect_blocks_for_apply rd db iv = Some r"
    using collect_blocks_for_apply_terminates [OF assms] by blast
  have ih: "schedule_intervals rd db ivs bs \<noteq> None" for bs
    using Cons.IH by auto
  have "schedule_intervals rd db (iv # ivs) blocks \<noteq> None"
    using r ih by (cases "iv_state iv"; cases r) simp_all
  then show ?case
    by blast
qed simp

lemma schedule_intervals_sound:
  assumes "schedule_intervals rd db ivs blocks = Some (r, ivs', blocks')" "\<forall>iv\<in>set ivs. seek_ok rd iv"
  shows "same_bounds ivs ivs' \<and> (\<forall>iv\<in>set ivs'. seek_ok rd iv) \<and> (\<exists>more. blocks' = blocks @ more)"
  using assms
proof (induction ivs arbitrary: blocks ivs')
  case (Cons iv ivs)
  have seek: "seek_ok rd (iv\<lparr>iv_state := ScheduledForApply\<rparr>)" "\<forall>iv\<in>set ivs. seek_ok rd iv"
    using Cons.prems(2) by (simp_all add: seek_ok_def)
  show ?case
    using Cons.prems(1) Cons.prems(2) Cons.IH [OF _ seek(2)] seek
    by (fastforce split: interval_state.splits option.splits sum.splits)
qed simp

definition planned :: "schedule \<Rightarrow> block_hash list" where
  "planned s = concat (map take_all_blocks_to_apply (sc_sent s @ (case sc_batch s of None \<Rightarrow> [] | Some b \<Rightarrow> [b])))"

text \<open>A block that may be handed over: known, not applied, operations complete.\<close>

definition ready :: "reader \<Rightarrow> block_hash \<Rightarrow> bool" where
  "ready rd b \<longleftrightarrow> (\<exists>m. rd_meta rd b = Inr (Some m) \<and> \<not> m_is_applied m \<and> m_predecessor m \<noteq> None) \<and> rd_complete rd b = Inr True"

definition sizes_ok :: "nat \<Rightarrow> schedule \<Rightarrow> bool" where
  "sizes_ok n s \<longleftrightarrow> (\<forall>c\<in>set (sc_sent s). batch_total_size c \<le> Suc (max 1 n)) \<and>
     (case sc_batch s of None \<Rightarrow> True | Some c \<Rightarrow> successors_size c < max 1 n)"

definition sched_ok :: "reader \<Rightarrow> block_state_db \<Rightarrow> schedule \<Rightarrow> bool" where
  "sched_ok rd db s \<longleftrightarrow> distinct (planned s) \<and> (\<forall>b\<in>set (planned s). ready rd b \<and> \<not> db_scheduled db b) \<and>
     map_of (sc_db s) = (\<lambda>b. if b \<in> set (planned s) then pred_of rd b else map_of db b)"

lemma batch_block_db [simp]: "sc_db (batch_block n b s) = sc_db s"
  by (simp add: batch_block_def Let_def split: option.split)

lemma planned_batch_block: "b \<notin> set (planned s) \<Longrightarrow> planned (batch_block n b s) = planned s @ [b]"
  by (auto simp: planned_def batch_block_def Let_def take_all_blocks_to_apply_def add_successor_def start_batch_def
      split: option.split)

lemma sizes_batch_block: "sizes_ok n s \<Longrightarrow> sizes_ok n (batch_block n b s)"
  by (auto simp: sizes_ok_def batch_block_def Let_def add_successor_def start_batch_def successors_size_def
      batch_total_size_def split: option.splits)

lemma planned_updates [simp]:
  "planned (s\<lparr>sc_last_scheduled := x\<rparr>) = planned s" "planned (s\<lparr>sc_last_applied := y\<rparr>) = planned s"
  "planned (s\<lparr>sc_missing := z\<rparr>) = planned s" "planned (s\<lparr>sc_db := d\<rparr>) = planned s"
  by (simp_all add: planned_def)

lemma sizes_updates [simp]:
  "sizes_ok n (s\<lparr>sc_last_scheduled := x\<rparr>) = sizes_ok n s" "sizes_ok n (s\<lparr>sc_last_applied := y\<rparr>) = sizes_ok n s"
  "sizes_ok n (s\<lparr>sc_missing := z\<rparr>) = sizes_ok n s" "sizes_ok n (s\<lparr>sc_db := d\<rparr>) = sizes_ok n s"
  by (simp_all add: sizes_ok_def)

lemma sched_ok_updates [simp]:
  "sched_ok rd db (s\<lparr>sc_last_scheduled := x\<rparr>) = sched_ok rd db s"
  "sched_ok rd db (s\<lparr>sc_last_applied := y\<rparr>) = sched_ok rd db s"
  "sched_ok rd db (s\<lparr>sc_missing := z\<rparr>) = sched_ok rd db s"
  by (simp_all add: sched_ok_def)

lemma sched_ok_batch_block:
  assumes "sched_ok rd db s" "\<not> db_scheduled (sc_db s) b" "ready rd b" "pred_of rd b = Some p"
  shows "sched_ok rd db (batch_block n b (s\<lparr>sc_db := AList.update b p (sc_db s)\<rparr>))"
    "planned (batch_block n b (s\<lparr>sc_db := AList.update b p (sc_db s)\<rparr>)) = planned s @ [b]"
proof -
  have new: "b \<notin> set (planned s)" "\<not> db_scheduled db b"
    using assms(1,2) by (auto simp: sched_ok_def db_scheduled_def ready_def pred_of_def split: if_splits)
  then show pl: "planned (batch_block n b (s\<lparr>sc_db := AList.update b p (sc_db s)\<rparr>)) = planned s @ [b]"
    by (simp add: planned_batch_block)
  show "sched_ok rd db (batch_block n b (s\<lparr>sc_db := AList.update b p (sc_db s)\<rparr>))"
    using assms new unfolding sched_ok_def pl by (auto simp: update_conv' fun_eq_iff)
qed

lemma schedule_loop_sound:
  assumes "schedule_loop rd n bs s = (r, s')" "sched_ok rd db s" "sizes_ok n s"
  shows "sched_ok rd db s' \<and> sizes_ok n s' \<and> (\<exists>new. planned s' = planned s @ new \<and> subseq new bs)"
  using assms
proof (induction bs arbitrary: s)
  case (Cons b bs)
  have skip: ?case if "schedule_loop rd n bs t = (r, s')" "sched_ok rd db t" "sizes_ok n t" "planned t = planned s" for t
    using Cons.IH [OF that(1,2,3)] that(4) list_emb_Cons by fastforce
  have stop: ?case if "s' = s \<or> (\<exists>z. s' = s\<lparr>sc_missing := z\<rparr>)"
    using that Cons.prems(2,3) by auto
  show ?case
  proof (cases "db_scheduled (sc_db s) b \<or> applied_in rd b")
    case True
    then consider "schedule_loop rd n bs (s\<lparr>sc_last_scheduled := Some b\<rparr>) = (r, s')"
      | "schedule_loop rd n bs (s\<lparr>sc_last_scheduled := Some b, sc_last_applied := Some b\<rparr>) = (r, s')"
      using Cons.prems(1) by (auto simp: applied_in_def split: if_splits)
    then show ?thesis
    proof cases
      case 1
      then show ?thesis
        by (rule skip) (use Cons.prems(2,3) in simp_all)
    next
      case 2
      then show ?thesis
        by (rule skip) (use Cons.prems(2,3) in simp_all)
    qed
  next
    case False
    show ?thesis
    proof (cases "ready rd b")
      case True
      then obtain m p where m: "rd_meta rd b = Inr (Some m)" "\<not> m_is_applied m" "m_predecessor m = Some p" "rd_complete rd b = Inr True"
        by (auto simp: ready_def)
      define t where "t = batch_block n b (s\<lparr>sc_db := AList.update b p (sc_db s)\<rparr>)"
      have "pred_of rd b = Some p"
        using m by (simp add: pred_of_def)
      then have t: "sched_ok rd db t" "planned t = planned s @ [b]" "sizes_ok n t"
        unfolding t_def using sched_ok_batch_block [OF Cons.prems(2) _ True] False sizes_batch_block Cons.prems(3) by simp_all
      have "schedule_loop rd n bs (t\<lparr>sc_last_scheduled := Some b\<rparr>) = (r, s')"
        using Cons.prems(1) False m by (simp add: t_def get_block_ref_def take_predecessor_def is_downloaded_def Let_def)
      from Cons.IH [OF this] t show ?thesis
        by fastforce
    next
      case False
      with \<open>\<not> (db_scheduled (sc_db s) b \<or> applied_in rd b)\<close> show ?thesis
        using Cons.prems(1)
        by (intro stop) (auto simp: applied_in_def ready_def is_downloaded_def take_predecessor_def
            split: sum.splits option.splits if_splits)
    qed
  qed
qed simp

lemma concat_sent:
  "concat (map take_all_blocks_to_apply (sc_sent s @ (case sc_batch s of None \<Rightarrow> [] | Some b \<Rightarrow> [b]))) = planned s"
  by (simp add: planned_def)

lemma sizes_all:
  "sizes_ok n s \<Longrightarrow> c \<in> set (sc_sent s @ (case sc_batch s of None \<Rightarrow> [] | Some b \<Rightarrow> [b])) \<Longrightarrow> batch_total_size c \<le> Suc (max 1 n)"
  by (auto simp: sizes_ok_def batch_total_size_def split: option.splits)

text \<open>What one round of scheduling guarantees of the batches it sends.\<close>

definition round_ok :: "reader \<Rightarrow> nat \<Rightarrow> block_state_db \<Rightarrow> apply_block_batch list \<Rightarrow> bool" where
  "round_ok rd n db sent \<longleftrightarrow>
     (let bs = concat (map take_all_blocks_to_apply sent) in
      distinct bs \<and> (\<forall>b\<in>set bs. ready rd b \<and> \<not> db_scheduled db b) \<and>
      (\<forall>c\<in>set sent. batch_total_size c \<le> Suc (max 1 n)))"

lemma round_ok_prefix: "round_ok rd n db (xs @ ys) \<Longrightarrow> round_ok rd n db xs"
  by (auto simp: round_ok_def Let_def)

lemma round_ok_planned:
  assumes "sched_ok rd db s" "sizes_ok n s"
  shows "round_ok rd n db (sc_sent s @ (case sc_batch s of None \<Rightarrow> [] | Some b \<Rightarrow> [b]))"
  unfolding round_ok_def Let_def concat_sent using assms sizes_all [OF assms(2)] by (auto simp: sched_ok_def)

lemma sched_ok_start:
  "sched_ok rd db \<lparr>sc_db = db, sc_missing = m, sc_batch = None, sc_sent = [], sc_last_applied = None, sc_last_scheduled = None\<rparr>"
  "sizes_ok n \<lparr>sc_db = db, sc_missing = m, sc_batch = None, sc_sent = [], sc_last_applied = None, sc_last_scheduled = None\<rparr>"
  by (simp_all add: sched_ok_def sizes_ok_def planned_def)

lemma schedule_next_sound:
  assumes "schedule_next_block_to_apply rd n db br = Some (r, sent, db', br')" "branch_ok rd br"
  shows "branch_ok rd br' \<and> round_ok rd n db sent \<and>
    (r = Inr () \<longrightarrow> dom (map_of db') \<subseteq> dom (map_of db) \<union> set (concat (map take_all_blocks_to_apply sent)))"
proof -
  obtain r1 ivs blocks where si: "schedule_intervals rd db (br_intervals br) (br_blocks_to_apply br) = Some (r1, ivs, blocks)"
    using assms(1) by (auto simp: schedule_next_block_to_apply_def split: option.splits)
  have "\<forall>iv\<in>set (br_intervals br). seek_ok rd iv" "linked_intervals (br_intervals br)"
    using assms(2) by (simp_all add: branch_ok_def)
  then have ivs: "linked_intervals ivs" "\<forall>iv\<in>set ivs. seek_ok rd iv"
    using schedule_intervals_sound [OF si] linked_same_bounds by blast+
  define s0 where "s0 = \<lparr>sc_db = db, sc_missing = br_missing_operations br, sc_batch = None, sc_sent = [],
    sc_last_applied = None, sc_last_scheduled = None\<rparr>"
  obtain r2 s where sl: "schedule_loop rd n blocks s0 = (r2, s)"
    by (cases "schedule_loop rd n blocks s0")
  have s: "sched_ok rd db s" "sizes_ok n s"
    using schedule_loop_sound [OF sl, of db] sched_ok_start by (simp_all add: s0_def)
  consider e where "r1 = Inl e" | e where "r1 = Inr ()" "r2 = Inl e" | "r1 = Inr ()" "r2 = Inr ()"
    by (cases r1; cases r2) auto
  then show ?thesis
  proof cases
    case 1
    then have "r = Inl e" "sent = []" "br_intervals br' = ivs"
      using assms(1) si by (auto simp: schedule_next_block_to_apply_def)
    then show ?thesis
      using ivs by (simp add: branch_ok_def round_ok_def)
  next
    case 2
    then have "r = Inl e" "sent = sc_sent s" "br_intervals br' = ivs"
      using assms(1) si sl [unfolded s0_def] by (auto simp: schedule_next_block_to_apply_def)
    then show ?thesis
      using ivs round_ok_planned [OF s] round_ok_prefix by (auto simp: branch_ok_def)
  next
    case 3
    define br1 where "br1 = \<lparr>br_to_level = br_to_level br, br_intervals = ivs, br_missing_operations = sc_missing s,
      br_blocks_to_apply = drop_scheduled (sc_last_scheduled s) blocks\<rparr>"
    have sent: "sent = sc_sent s @ (case sc_batch s of None \<Rightarrow> [] | Some b \<Rightarrow> [b])"
      and f: "found_applied (sc_last_applied s) (sc_db s) br1 = (db', br')"
      using assms(1) si sl [unfolded s0_def] 3 by (auto simp: schedule_next_block_to_apply_def Let_def br1_def)
    have "branch_ok rd br1"
      using ivs by (simp add: branch_ok_def br1_def)
    moreover have "dom (map_of (sc_db s)) \<subseteq> dom (map_of db) \<union> set (planned s)"
      using s(1) by (auto simp: sched_ok_def split: if_splits)
    ultimately show ?thesis
      using found_applied_ok [OF f] map_le_implies_dom_le [OF found_applied_db [OF f]] round_ok_planned [OF s]
      unfolding sent concat_sent by blast
  qed
qed

section \<open>Properties\<close>

text \<open>
  Merging a longer history into a branch either leaves the branch untouched and
  reports so, or the history contains the current end of the branch followed by further
  blocks: then exactly those further blocks are appended as new intervals, the branch
  ends at the last block of the history and takes its level. The intervals stay chained.
\<close>

theorem br_merge_correct:
  assumes "br_merge l hist db br = (ok, br')" "branch_ok rd br"
  shows "branch_ok rd br' \<and>
    (if ok then br_intervals br \<noteq> [] \<and> br_to_level br' = l \<and> iv_end (last (br_intervals br')) = last hist \<and>
       (\<exists>pre post. hist = pre @ iv_end (last (br_intervals br)) # post \<and> post \<noteq> [] \<and>
          br_intervals br' = br_intervals br @ interval_split (iv_end (last (br_intervals br))) post)
     else br' = br)"
proof (cases ok)
  case True
  then obtain pre post where p: "br_intervals br \<noteq> []" "hist = pre @ iv_end (last (br_intervals br)) # post" "post \<noteq> []"
    "br' = br\<lparr>br_intervals := br_intervals br @ interval_split (iv_end (last (br_intervals br))) post, br_to_level := l\<rparr>"
    using br_merge_cases [OF assms(1)] by blast
  have "split_ok (iv_end (last (br_intervals br))) (last post) (interval_split (iv_end (last (br_intervals br))) post)"
    using interval_split_ok [of "iv_end (last (br_intervals br))" post] p(3) by simp
  then show ?thesis
    using br_merge_ok [OF assms] p True by (auto simp: split_ok_def)
next
  case False
  then show ?thesis
    using br_merge_ok [OF assms] br_merge_cases [OF assms(1)] by auto
qed

theorem br_merge_correct_witness:
  "branch_ok chain_reader (snd (br_merge 9 [[2], [3], [5], [9]] [] (new_branch [0] [[3]] 3 []))) \<and>
   iv_end (last (br_intervals (snd (br_merge 9 [[2], [3], [5], [9]] [] (new_branch [0] [[3]] 3 []))))) = [9]"
proof -
  define m where "m = br_merge 9 [[2], [3], [5], [9]] [] (new_branch [0] [[3]] 3 [])"
  have "fst m"
    by (simp add: m_def br_merge_def new_branch_def interval_split_def split_step_def new_interval_def
        new_start_end_def get_block_ref_def Let_def)
  moreover have "br_merge 9 [[2], [3], [5], [9]] [] (new_branch [0] [[3]] 3 []) = (fst m, snd m)"
    by (simp add: m_def)
  from br_merge_correct [OF this new_branch_ok, of chain_reader]
  have "branch_ok chain_reader (snd m)" "fst m \<Longrightarrow> iv_end (last (br_intervals (snd m))) = last [[2], [3], [5], [9]]"
    by (auto split: if_splits)
  ultimately show ?thesis
    by (simp add: m_def)
qed

text \<open>
  Learning that blocks are applied only trims a branch: from the blocks ready
  for application it drops a prefix that ends with an applied block and leaves no applied
  block behind; from the intervals it drops those below the first one an applied block
  touches, and that one as well when its end is applied; scheduled entries are only
  removed, and every removed one counts as applied from then on. Intervals stay chained.
\<close>

theorem br_block_applied_correct:
  assumes "br_block_applied A db br = (A', db', br')" "branch_ok rd br"
  shows "branch_ok rd br' \<and> shrinks (A, db) (A', db') \<and>
    (\<exists>k. br_blocks_to_apply br' = drop k (br_blocks_to_apply br) \<and> set (br_blocks_to_apply br') \<inter> A = {} \<and>
       (0 < k \<longrightarrow> k \<le> length (br_blocks_to_apply br) \<and> br_blocks_to_apply br ! (k - 1) \<in> A)) \<and>
    (\<exists>B k. A \<subseteq> B \<and> B \<subseteq> A' \<and> br_intervals br' = drop k (br_intervals br) \<and> trimmed B (br_intervals br) k)"
  using br_block_applied_spec [OF assms(1)] br_block_applied_ok [OF assms] by blast

theorem br_block_applied_correct_witness:
  "branch_ok chain_reader (snd (snd (br_block_applied {[3]} [([3], [2])] (new_branch [0] [[3], [9]] 9 [])))) \<and>
   br_intervals (snd (snd (br_block_applied {[3]} [([3], [2])] (new_branch [0] [[3], [9]] 9 [])))) = [new_start_end [3] [9]]"
proof -
  define m where "m = br_block_applied {[3]} [([3], [2])] (new_branch [0] [[3], [9]] 9 [])"
  have "br_block_applied {[3]} [([3], [2])] (new_branch [0] [[3], [9]] 9 []) = (fst m, fst (snd m), snd (snd m))"
    by (simp add: m_def)
  from br_block_applied_correct [OF this new_branch_ok, of chain_reader]
  have "branch_ok chain_reader (snd (snd m))"
    by blast
  moreover have "br_intervals (snd (snd m)) = [new_start_end [3] [9]]"
    by (simp add: m_def br_block_applied_def trim_blocks_def trim_intervals_def interval_touched_def new_branch_def
        interval_split_def split_step_def new_interval_def new_start_end_def Let_def get_block_ref_def
        forget_interval_def forget_def remove_with_all_predecessors_def)
  ultimately show ?thesis
    by (simp add: m_def)
qed

text \<open>
  Looking for headers to download always returns, adds at most one request per
  branch and pass, and asks only for a block whose header is unknown and that is neither
  queued nor requested already. Scheduled blocks are only removed, and the branch stays
  well formed: later intervals wait until the earlier ones are complete.
\<close>

theorem collect_next_block_headers_correct:
  assumes "descending rd f" "branch_ok rd br"
  shows "\<exists>todo' db' br'. collect_next_block_headers_to_download rd n ignored todo db br = Some (todo', db', br') \<and>
    one_more rd ignored todo todo' \<and> branch_ok rd br' \<and> map_of db' \<subseteq>\<^sub>m map_of db"
  using collect_headers_terminates [OF assms(1), of n ignored todo db br] collect_headers_sound [OF _ assms(2)]
  by fast

theorem collect_next_block_headers_correct_witness:
  "\<exists>todo' db' br'. collect_next_block_headers_to_download chain_reader 5 [] [] [] (new_branch [0] [[3], [9]] 9 []) =
     Some (todo', db', br') \<and> one_more chain_reader [] [] todo' \<and> branch_ok chain_reader br'"
  using collect_next_block_headers_correct [OF chain_reader_descending new_branch_ok, of 5 "[]" "[]" "[]" "[0]" "[[3], [9]]" 9 "[]"]
  by blast

text \<open>
  Property C12. A round of scheduling always returns. The batches it sends together contain
  no block twice, only blocks that are known, not applied and have all operations, and no
  block that was scheduled before; a batch has at most one block more than the configured
  size. When the round succeeds, every block it marked as scheduled is in one of these
  batches. The branch stays well formed.
\<close>

theorem schedule_next_block_to_apply_correct:
  assumes "descending rd f" "branch_ok rd br"
  shows "\<exists>r sent db' br'. schedule_next_block_to_apply rd n db br = Some (r, sent, db', br') \<and>
    branch_ok rd br' \<and> round_ok rd n db sent \<and>
    (r = Inr () \<longrightarrow> dom (map_of db') \<subseteq> dom (map_of db) \<union> set (concat (map take_all_blocks_to_apply sent)))"
proof -
  obtain r1 ivs blocks where "schedule_intervals rd db (br_intervals br) (br_blocks_to_apply br) = Some (r1, ivs, blocks)"
    using schedule_intervals_terminates [OF assms(1), of db "br_intervals br" "br_blocks_to_apply br"] by auto
  then have "schedule_next_block_to_apply rd n db br \<noteq> None"
    unfolding schedule_next_block_to_apply_def Let_def by (simp split: sum.split prod.split)
  then obtain r sent db' br' where "schedule_next_block_to_apply rd n db br = Some (r, sent, db', br')"
    by auto
  with schedule_next_sound [OF this assms(2)] show ?thesis
    by blast
qed

theorem schedule_next_block_to_apply_correct_witness:
  "\<exists>r sent db' br'. schedule_next_block_to_apply chain_reader 5 [] (new_branch [0] [[3], [9]] 9 []) = Some (r, sent, db', br') \<and>
    round_ok chain_reader 5 [] sent"
  using schedule_next_block_to_apply_correct [OF chain_reader_descending new_branch_ok, of 5 "[]" "[0]" "[[3], [9]]" 9 "[]"]
  by blast

text \<open>
  A loop over blocks that are ready, too few to fill a batch, up to one that cannot be read: all of
  them are marked and nothing is sent.
\<close>

definition room_for :: "nat \<Rightarrow> nat \<Rightarrow> schedule \<Rightarrow> bool" where
  "room_for n k s \<longleftrightarrow> (case sc_batch s of None \<Rightarrow> k \<le> n | Some c \<Rightarrow> successors_size c + k < n)"

lemma batch_block_room:
  assumes "room_for n (Suc k) s"
  shows "sc_sent (batch_block n b s) = sc_sent s \<and> room_for n k (batch_block n b s)"
  using assms by (auto simp: room_for_def batch_block_def Let_def add_successor_def start_batch_def successors_size_def
      split: option.splits)

lemma schedule_loop_strands:
  assumes "distinct rs" "\<And>x. x \<in> set rs \<Longrightarrow> ready rd x \<and> \<not> db_scheduled (sc_db s) x"
    and "room_for n (length rs) s" "sc_sent s = []"
    and "rd_meta rd b = Inl e" "\<not> db_scheduled (sc_db s) b" "b \<notin> set rs"
  shows "\<exists>s'. schedule_loop rd n (rs @ b # rest) s = (Inl (StStorageError e), s') \<and> sc_sent s' = [] \<and>
    dom (map_of (sc_db s')) = dom (map_of (sc_db s)) \<union> set rs"
  using assms
proof (induction rs arbitrary: s)
  case (Cons r rs)
  obtain m p where m: "rd_meta rd r = Inr (Some m)" "\<not> m_is_applied m" "m_predecessor m = Some p" "rd_complete rd r = Inr True"
    using Cons.prems(2) [of r] by (auto simp: ready_def)
  define t where "t = (batch_block n r (s\<lparr>sc_db := AList.update r p (sc_db s)\<rparr>))\<lparr>sc_last_scheduled := Some r\<rparr>"
  have db: "map_of (sc_db t) = (map_of (sc_db s))(r \<mapsto> p)"
    by (simp add: t_def update_conv')
  have room: "sc_sent t = []" "room_for n (length rs) t"
    using batch_block_room [of n "length rs" "s\<lparr>sc_db := AList.update r p (sc_db s)\<rparr>" r] Cons.prems(3,4)
    by (simp_all add: t_def room_for_def)
  have fresh: "ready rd x \<and> \<not> db_scheduled (sc_db t) x" if "x \<in> set rs" for x
    using Cons.prems(1,2) that by (auto simp: db_scheduled_def db)
  have b: "\<not> db_scheduled (sc_db t) b" "b \<notin> set rs"
    using Cons.prems(6,7) by (auto simp: db_scheduled_def db)
  have "schedule_loop rd n ((r # rs) @ b # rest) s = schedule_loop rd n (rs @ b # rest) t"
    using Cons.prems(2) [of r] m
    by (simp add: t_def get_block_ref_def take_predecessor_def is_downloaded_def Let_def)
  moreover obtain s' where "schedule_loop rd n (rs @ b # rest) t = (Inl (StStorageError e), s')" "sc_sent s' = []"
    "dom (map_of (sc_db s')) = dom (map_of (sc_db t)) \<union> set rs"
    using Cons.IH [OF _ fresh room(2,1) Cons.prems(5) b] Cons.prems(1) by auto
  ultimately show ?case
    by (auto simp: db)
qed auto

text \<open>
  Property C31. A round that fails strands blocks. Let the blocks to apply start with blocks that are ready and
  not scheduled yet, not more than a batch takes, followed by a block whose metadata cannot be
  read. Then the round returns that error and sends nothing, but the ready blocks stay marked as scheduled. No later
  round, on any branch, with any store and batch size, sends a block that is still marked.
\<close>

theorem schedule_error_strands_blocks:
  assumes "schedule_intervals rd db (br_intervals br) (br_blocks_to_apply br) = Some (Inr (), ivs, rs @ b # rest)"
    and "distinct rs" "length rs \<le> n" "\<And>x. x \<in> set rs \<Longrightarrow> ready rd x \<and> \<not> db_scheduled db x"
    and "rd_meta rd b = Inl e" "\<not> db_scheduled db b" "b \<notin> set rs"
  shows "\<exists>db' br'. schedule_next_block_to_apply rd n db br = Some (Inl (StStorageError e), [], db', br') \<and>
    dom (map_of db') = dom (map_of db) \<union> set rs \<and>
    (\<forall>rd2 m db2 br2 r sent db3 br3. branch_ok rd2 br2 \<longrightarrow> set rs \<subseteq> dom (map_of db2) \<longrightarrow>
       schedule_next_block_to_apply rd2 m db2 br2 = Some (r, sent, db3, br3) \<longrightarrow>
       set rs \<inter> set (concat (map take_all_blocks_to_apply sent)) = {})"
proof -
  let ?s = "\<lparr>sc_db = db, sc_missing = br_missing_operations br, sc_batch = None, sc_sent = [],
    sc_last_applied = None, sc_last_scheduled = None\<rparr>"
  obtain s' where s': "schedule_loop rd n (rs @ b # rest) ?s = (Inl (StStorageError e), s')" "sc_sent s' = []"
    "dom (map_of (sc_db s')) = dom (map_of db) \<union> set rs"
    using schedule_loop_strands [of rs rd ?s n b e rest] assms(2-) by (auto simp: room_for_def)
  have "set rs \<inter> set (concat (map take_all_blocks_to_apply sent)) = {}"
    if "branch_ok rd2 br2" "set rs \<subseteq> dom (map_of db2)"
      "schedule_next_block_to_apply rd2 m db2 br2 = Some (r, sent, db3, br3)" for rd2 m db2 br2 r sent db3 br3
    using schedule_next_sound [OF that(3,1)] that(2) unfolding round_ok_def Let_def db_scheduled_def by blast
  moreover have "schedule_next_block_to_apply rd n db br =
      Some (Inl (StStorageError e), [], sc_db s', br\<lparr>br_intervals := ivs, br_blocks_to_apply := rs @ b # rest\<rparr>)"
    using assms(1) s'(1,2) by (simp add: schedule_next_block_to_apply_def)
  ultimately show ?thesis
    using s'(3) by blast
qed

text \<open>A store that fails to read one block, and a branch whose blocks wait for application.\<close>

definition failing_reader :: reader where
  "failing_reader = \<lparr>
     rd_meta = (\<lambda>b. if b = [3] then Inl (DBErr (RocksDBError ''read failed'')) else rd_meta chain_reader b),
     rd_complete = (\<lambda>b. Inr True)\<rparr>"

definition waiting_branch :: branch_state where
  "waiting_branch = \<lparr>br_to_level = 3, br_intervals = [(new_start_end [1] [3])\<lparr>iv_state := ScheduledForApply\<rparr>],
     br_missing_operations = [], br_blocks_to_apply = [[2], [3]]\<rparr>"

theorem schedule_error_strands_blocks_witness:
  "\<exists>e db' br'. schedule_next_block_to_apply failing_reader 5 [] waiting_branch = Some (Inl e, [], db', br') \<and>
     db_scheduled db' [2]"
proof -
  have si: "schedule_intervals failing_reader [] (br_intervals waiting_branch) (br_blocks_to_apply waiting_branch) =
      Some (Inr (), br_intervals waiting_branch, [[2]] @ [3] # [])"
    by (simp add: waiting_branch_def)
  have "ready failing_reader [2] \<and> \<not> db_scheduled [] [2]" "\<not> db_scheduled [] [3]"
    "rd_meta failing_reader [3] = Inl (DBErr (RocksDBError ''read failed''))"
    by (simp_all add: ready_def failing_reader_def chain_reader_simps db_scheduled_def)
  then obtain db' br' where "schedule_next_block_to_apply failing_reader 5 [] waiting_branch =
      Some (Inl (StStorageError (DBErr (RocksDBError ''read failed''))), [], db', br')"
    "dom (map_of db') = dom (map_of []) \<union> set [[2]]"
    using schedule_error_strands_blocks [OF si, of 5 "DBErr (RocksDBError ''read failed'')"] by auto
  moreover from this(2) have "[2] \<in> dom (map_of db')"
    by simp
  ultimately show ?thesis
    unfolding db_scheduled_def by blast
qed

end
