(* ===== verification/PeerState.thy ===== *)
theory PeerState
  imports ApplyBatch
begin

text \<open>
  What the node keeps per peer (\<^verbatim>\<open>shell/src/state/peer_state.rs\<close>): the queues of requested
  block headers and operations with their limits, the mempool operations still to ask
  for, and the head the peer announced. A mutex that was poisoned by a panic makes every
  later lock fail; the flags record that. Times are milliseconds on the clock of the node.
\<close>

section \<open>Queues\<close>

record data_queues_limits =
  max_queued_block_headers_count :: "16 word"
  max_queued_block_operations_count :: "16 word"

record data_queues =
  dq_limits :: data_queues_limits
  queued_block_headers :: "(block_hash \<times> nat) list"
  headers_poisoned :: bool
  queued_block_operations :: "(block_hash \<times> byte list \<times> nat) list"
  operations_poisoned :: bool

definition new_data_queues :: "data_queues_limits \<Rightarrow> data_queues" where
  "new_data_queues limits = \<lparr>dq_limits = limits, queued_block_headers = [], headers_poisoned = False,
     queued_block_operations = [], operations_poisoned = False\<rparr>"

definition lock_headers :: "data_queues \<Rightarrow> state_error + (block_hash \<times> nat) list" where
  "lock_headers q = (if headers_poisoned q then Inl (StLockError ''poisoned lock: another task failed inside'')
     else Inr (queued_block_headers q))"

definition lock_operations :: "data_queues \<Rightarrow> state_error + (block_hash \<times> byte list \<times> nat) list" where
  "lock_operations q = (if operations_poisoned q then Inl (StLockError ''poisoned lock: another task failed inside'')
     else Inr (queued_block_operations q))"

definition get_already_queued_block_headers_and_max_capacity :: "data_queues \<Rightarrow> state_error + (block_hash list \<times> nat)" where
  "get_already_queued_block_headers_and_max_capacity q =
     and_then (lock_headers q) (\<lambda>queue.
       let already_queued = map fst queue;
           limit = unat (max_queued_block_headers_count (dq_limits q));
           available = (if length already_queued < limit then limit - length already_queued else 0) in
       Inr (already_queued, available))"

definition get_already_queued_block_operations_and_max_capacity :: "data_queues \<Rightarrow> state_error + (block_hash list \<times> nat)" where
  "get_already_queued_block_operations_and_max_capacity q =
     and_then (lock_operations q) (\<lambda>queue.
       let already_queued = map fst queue;
           limit = unat (max_queued_block_operations_count (dq_limits q));
           available = (if length already_queued < limit then limit - length already_queued else 0) in
       Inr (already_queued, available))"

definition find_any_block_header_response_pending :: "nat \<Rightarrow> nat \<Rightarrow> data_queues \<Rightarrow>
    state_error + (block_hash \<times> nat) option" where
  "find_any_block_header_response_pending now timeout q =
     and_then (lock_headers q) (\<lambda>queue.
       Inr (map_option (\<lambda>(b, requested_time). (b, now - requested_time))
         (List.find (\<lambda>(_, requested_time). timeout < now - requested_time) queue)))"

definition find_any_block_operations_response_pending :: "nat \<Rightarrow> nat \<Rightarrow> data_queues \<Rightarrow>
    state_error + (block_hash \<times> nat) option" where
  "find_any_block_operations_response_pending now timeout q =
     and_then (lock_operations q) (\<lambda>queue.
       Inr (map_option (\<lambda>(b, _, requested_time). (b, now - requested_time))
         (List.find (\<lambda>(_, _, requested_time). timeout < now - requested_time) queue)))"

section \<open>Peers\<close>

type_synonym actor_uri = string

record peer_id =
  peer_uri :: actor_uri
  peer_public_key_hash :: bytes
  peer_id_marker :: string
  peer_address :: string

record message_stats =
  unexpected_response_block :: nat
  unexpected_response_operations :: nat

definition increment_unexpected_response_block :: "message_stats \<Rightarrow> message_stats" where
  "increment_unexpected_response_block st = st\<lparr>unexpected_response_block := unexpected_response_block st + 1\<rparr>"

definition increment_unexpected_response_operations :: "message_stats \<Rightarrow> message_stats" where
  "increment_unexpected_response_operations st = st\<lparr>unexpected_response_operations := unexpected_response_operations st + 1\<rparr>"

definition default_message_stats :: message_stats where
  "default_message_stats = \<lparr>unexpected_response_block = 0, unexpected_response_operations = 0\<rparr>"

record peer_state =
  ps_peer_id :: peer_id
  mempool_enabled :: bool
  is_bootstrapped :: bool
  ps_queues :: data_queues
  missing_operations_for_blocks :: "block_hash \<rightharpoonup> byte set"
  current_head_level :: "i32 option"
  current_head_update_last :: nat
  current_head_request_last :: nat
  current_head_response_last :: nat
  mempool_operations_request_last :: nat
  mempool_operations_response_last :: nat
  missing_mempool_operations :: "(operation_hash \<times> mempool_operation_type) list"
  queued_mempool_operations :: "(operation_hash \<times> mempool_operation_type) list"
  ps_message_stats :: message_stats

definition new_peer_state :: "nat \<Rightarrow> peer_id \<Rightarrow> bool \<Rightarrow> data_queues_limits \<Rightarrow> peer_state" where
  "new_peer_state now peer disable_mempool limits =
     \<lparr>ps_peer_id = peer, mempool_enabled = \<not> disable_mempool, is_bootstrapped = False,
      ps_queues = new_data_queues limits, missing_operations_for_blocks = Map.empty,
      current_head_level = None, current_head_update_last = now, current_head_request_last = now,
      current_head_response_last = now, mempool_operations_request_last = now,
      mempool_operations_response_last = now, missing_mempool_operations = [],
      queued_mempool_operations = [], ps_message_stats = default_message_stats\<rparr>"

definition MEMPOOL_OPERATIONS_BATCH_SIZE :: nat where
  "MEMPOOL_OPERATIONS_BATCH_SIZE = MEMPOOL_MAX_OPERATIONS"

definition available_mempool_operations_queue_capacity :: "peer_state \<Rightarrow> nat" where
  "available_mempool_operations_queue_capacity p =
     (let queued_count = length (queued_mempool_operations p) in
      if queued_count < MEMPOOL_OPERATIONS_BATCH_SIZE then MEMPOOL_OPERATIONS_BATCH_SIZE - queued_count else 0)"

definition update_current_head_level :: "nat \<Rightarrow> i32 \<Rightarrow> peer_state \<Rightarrow> bool \<times> peer_state" where
  "update_current_head_level now new_level p =
     (if current_head_level p = None \<or> sint (the (current_head_level p)) \<le> sint new_level
      then (True, p\<lparr>current_head_level := Some new_level, current_head_update_last := now\<rparr>)
      else (False, p))"

definition update_current_head :: "nat \<Rightarrow> block_header_with_hash \<Rightarrow> peer_state \<Rightarrow> bool \<times> peer_state" where
  "update_current_head now bh p =
     (if current_head_level p = None \<or> sint (h_level (bh_header bh)) \<ge> sint (the (current_head_level p))
      then (True, p\<lparr>current_head_level := Some (h_level (bh_header bh)), current_head_update_last := now\<rparr>)
      else (False, p))"

definition clear :: "peer_state \<Rightarrow> peer_state" where
  "clear p = p\<lparr>missing_mempool_operations := [], queued_mempool_operations := [],
     missing_operations_for_blocks := Map.empty\<rparr>"

definition set_is_bootstrapped :: "bool \<Rightarrow> peer_state \<Rightarrow> peer_state" where
  "set_is_bootstrapped new_status p = p\<lparr>is_bootstrapped := new_status\<rparr>"

section \<open>Mempool operations of a peer\<close>

definition add_missing_mempool_operations :: "operation_hash \<Rightarrow> mempool_operation_type \<Rightarrow> peer_state \<Rightarrow> peer_state" where
  "add_missing_mempool_operations oph t p =
     (if \<exists>(h, _)\<in>set (missing_mempool_operations p). h = oph then p
      else if map_of (queued_mempool_operations p) oph \<noteq> None then p
      else p\<lparr>missing_mempool_operations := missing_mempool_operations p @ [(oph, t)]\<rparr>)"

text \<open>One peer: the messages sent to it and its new state.\<close>

definition schedule_peer_mempool :: "nat \<Rightarrow> peer_state \<Rightarrow> peer_message list \<times> peer_state" where
  "schedule_peer_mempool now p =
     (if missing_mempool_operations p = [] then ([], p)
      else if \<not> available_mempool_operations_queue_capacity p > 0 then ([], p)
      else
        let num_opts_to_get = min (length (missing_mempool_operations p)) (available_mempool_operations_queue_capacity p);
            ops_to_enqueue = take num_opts_to_get (missing_mempool_operations p);
            p1 = p\<lparr>missing_mempool_operations := drop num_opts_to_get (missing_mempool_operations p),
                   queued_mempool_operations :=
                     fold (\<lambda>(h, t) q. AList.update h t q) ops_to_enqueue (queued_mempool_operations p),
                   mempool_operations_request_last := now\<rparr>;
            ops_to_get = map fst ops_to_enqueue in
        (if GET_OPERATIONS_MAX_LENGTH > 0
         then map GetOperations (chunks GET_OPERATIONS_MAX_LENGTH ops_to_get)
         else [GetOperations ops_to_get], p1))"

definition schedule_missing_operations_for_mempool :: "nat \<Rightarrow> (actor_uri \<times> peer_state) list \<Rightarrow>
    (actor_uri \<times> peer_message list) list \<times> (actor_uri \<times> peer_state) list" where
  "schedule_missing_operations_for_mempool now peers =
     (map (\<lambda>(u, p). (u, fst (schedule_peer_mempool now p))) peers,
      map (\<lambda>(u, p). (u, snd (schedule_peer_mempool now p))) peers)"

section \<open>The mempool queue of a peer stays bounded and free of repetition\<close>

definition peer_mempool_ok :: "peer_state \<Rightarrow> bool" where
  "peer_mempool_ok p \<longleftrightarrow> distinct (map fst (missing_mempool_operations p) @ map fst (queued_mempool_operations p)) \<and>
     length (queued_mempool_operations p) \<le> MEMPOOL_OPERATIONS_BATCH_SIZE"

lemma update_fresh: "k \<notin> set (map fst q) \<Longrightarrow> AList.update k v q = q @ [(k, v)]"
  by (induction q) auto

lemma fold_update_fresh:
  "distinct (map fst kvs) \<Longrightarrow> set (map fst kvs) \<inter> set (map fst q) = {} \<Longrightarrow>
   fold (\<lambda>(k, v) q. AList.update k v q) kvs q = q @ kvs"
  by (induction kvs arbitrary: q) (auto simp: update_fresh)

lemma new_peer_state_mempool: "peer_mempool_ok (new_peer_state now peer d limits)"
  by (simp add: peer_mempool_ok_def new_peer_state_def)

lemma clear_mempool: "peer_mempool_ok (clear p)"
  by (simp add: peer_mempool_ok_def clear_def)

lemma add_missing_mempool:
  assumes "peer_mempool_ok p"
  shows "peer_mempool_ok (add_missing_mempool_operations h t p)"
proof -
  have "(\<exists>(h', _)\<in>set ops. h' = h) \<longleftrightarrow> h \<in> fst ` set ops" for ops :: "(operation_hash \<times> mempool_operation_type) list"
    by force
  then show ?thesis
    using assms
    by (auto simp: peer_mempool_ok_def add_missing_mempool_operations_def map_of_eq_None_iff)
qed

lemma distinct_take_drop:
  assumes "distinct (map fst ms @ xs)"
  shows "distinct (map fst (drop n ms) @ xs @ map fst (take n ms))"
proof -
  have "distinct ((map fst (take n ms) @ map fst (drop n ms)) @ xs)"
    using assms by (simp flip: map_append)
  then show ?thesis
    by (auto simp del: map_append)
qed

text \<open>The hashes a message asks for.\<close>

fun asked_hashes :: "peer_message \<Rightarrow> operation_hash list" where
  "asked_hashes (GetOperations hs) = hs"
| "asked_hashes _ = []"

lemma asked_hashes_chunks [simp]: "0 < n \<Longrightarrow> concat (map (asked_hashes \<circ> GetOperations) (chunks n hs)) = hs"
  by (simp add: comp_def concat_chunks)

text \<open>A peer that announced one operation, for the concrete instance.\<close>

definition sample_peer :: peer_state where
  "sample_peer = add_missing_mempool_operations [1] Pending
     (new_peer_state 0 \<lparr>peer_uri = ''peer'', peer_public_key_hash = [], peer_id_marker = [], peer_address = []\<rparr> False
       \<lparr>max_queued_block_headers_count = 5, max_queued_block_operations_count = 5\<rparr>)"

text \<open>
  Scheduling mempool requests for a peer asks for the oldest missing operations
  in order, as many as fit into the queue, in messages of one to ten hashes; exactly
  these operations move from missing to queued, the queue never exceeds the limit of
  4000 operations, and no operation is ever both missing and queued or listed twice.
\<close>

theorem schedule_peer_mempool_correct:
  assumes "peer_mempool_ok p"
  shows "case schedule_peer_mempool now p of (msgs, p') \<Rightarrow>
    (let n = min (length (missing_mempool_operations p)) (4000 - length (queued_mempool_operations p)) in
     peer_mempool_ok p' \<and>
     concat (map asked_hashes msgs) = map fst (take n (missing_mempool_operations p)) \<and>
     (\<forall>m\<in>set msgs. \<exists>hs. m = GetOperations hs \<and> 0 < length hs \<and> length hs \<le> 10) \<and>
     missing_mempool_operations p' = drop n (missing_mempool_operations p) \<and>
     queued_mempool_operations p' = queued_mempool_operations p @ take n (missing_mempool_operations p))"
proof -
  let ?n = "min (length (missing_mempool_operations p)) (4000 - length (queued_mempool_operations p))"
  let ?ops = "take ?n (missing_mempool_operations p)"
  have cap: "available_mempool_operations_queue_capacity p = 4000 - length (queued_mempool_operations p)"
    by (simp add: available_mempool_operations_queue_capacity_def MEMPOOL_OPERATIONS_BATCH_SIZE_def
        MEMPOOL_MAX_OPERATIONS_def Let_def)
  have d: "distinct (map fst (missing_mempool_operations p) @ map fst (queued_mempool_operations p))"
    and len: "length (queued_mempool_operations p) \<le> 4000"
    using assms by (simp_all add: peer_mempool_ok_def MEMPOOL_OPERATIONS_BATCH_SIZE_def MEMPOOL_MAX_OPERATIONS_def)
  have fresh: "fold (\<lambda>(k, v) q. AList.update k v q) ?ops (queued_mempool_operations p) =
      queued_mempool_operations p @ ?ops"
  proof (rule fold_update_fresh)
    show "distinct (map fst ?ops)"
      using d by (simp flip: take_map)
    show "set (map fst ?ops) \<inter> set (map fst (queued_mempool_operations p)) = {}"
      using d set_take_subset [of ?n "missing_mempool_operations p"] by auto
  qed
  show ?thesis
  proof (cases "?n = 0")
    case True
    then have "missing_mempool_operations p = [] \<or> available_mempool_operations_queue_capacity p = 0"
      by (auto simp: cap min_def split: if_splits)
    then show ?thesis
      using True assms by (auto simp: schedule_peer_mempool_def)
  next
    case False
    then have s: "schedule_peer_mempool now p =
      (map GetOperations (chunks 10 (map fst ?ops)),
       p\<lparr>missing_mempool_operations := drop ?n (missing_mempool_operations p),
         queued_mempool_operations := queued_mempool_operations p @ ?ops, mempool_operations_request_last := now\<rparr>)"
      unfolding schedule_peer_mempool_def Let_def cap fresh by (auto simp: GET_OPERATIONS_MAX_LENGTH_def)
    have "distinct (map fst (drop ?n (missing_mempool_operations p)) @ map fst (queued_mempool_operations p @ ?ops))"
      using distinct_take_drop [OF d, of ?n] by simp
    then show ?thesis
      unfolding s using len
      by (auto simp: Let_def peer_mempool_ok_def MEMPOOL_OPERATIONS_BATCH_SIZE_def MEMPOOL_MAX_OPERATIONS_def
          dest: chunks_size)
  qed
qed

theorem schedule_peer_mempool_correct_witness:
  "peer_mempool_ok (snd (schedule_peer_mempool 7 sample_peer)) \<and>
   concat (map asked_hashes (fst (schedule_peer_mempool 7 sample_peer))) = [[1]]"
proof -
  have ok: "peer_mempool_ok sample_peer"
    unfolding sample_peer_def by (intro add_missing_mempool new_peer_state_mempool)
  have "missing_mempool_operations sample_peer = [([1], Pending)]" "queued_mempool_operations sample_peer = []"
    by (simp_all add: sample_peer_def add_missing_mempool_operations_def new_peer_state_def)
  with schedule_peer_mempool_correct [OF ok, of 7] show ?thesis
    by (simp add: Let_def split: prod.splits)
qed

end
