(* ===== verification/OperationsMeta.thy ===== *)
theory OperationsMeta
  imports BlockMetaStorage Messages
begin

text \<open>
  Which operations of a block have arrived
  (\<^verbatim>\<open>storage/src/operations_meta_storage.rs\<close>): a record with one presence byte per
  validation pass and a completion flag, its codec, its merge operator, and the
  operations that initialise and update it.
\<close>

unbundle bit_operations_syntax

section \<open>Records\<close>

record op_meta =
  validation_passes :: byte
  is_validation_pass_present :: bytes
  om_is_complete :: bool

definition new_op_meta :: "byte \<Rightarrow> op_meta" where
  "new_op_meta vp = \<lparr>
     validation_passes = vp,
     is_validation_pass_present = replicate (unat vp) 0,
     om_is_complete = (vp = 0)\<rparr>"

definition genesis_op_meta :: op_meta where
  "genesis_op_meta = \<lparr>validation_passes = 0, is_validation_pass_present = [], om_is_complete = True\<rparr>"

text \<open>The indices of the passes whose byte is zero, as 8-bit numbers; nothing once complete.\<close>

definition get_missing_validation_passes :: "op_meta \<Rightarrow> byte set option" where
  "get_missing_validation_passes m =
     (if om_is_complete m then None
      else Some (set (map (\<lambda>(idx, _). word_of_nat idx)
             (filter (\<lambda>(_, is_present). is_present = 0)
               (enumerate 0 (is_validation_pass_present m))))))"

section \<open>Codec\<close>

definition expected_data_length :: "byte \<Rightarrow> nat" where
  "expected_data_length vp = 1 + 1 + unat vp * 1"

definition op_meta_bytes :: "op_meta \<Rightarrow> bytes" where
  "op_meta_bytes m = [validation_passes m] @ is_validation_pass_present m @
     [if om_is_complete m then 1 else 0]"

definition op_meta_encode :: "op_meta \<Rightarrow> schema_error + bytes" where
  "op_meta_encode m =
     (if unat (validation_passes m) = length (is_validation_pass_present m)
      then Inr (op_meta_bytes m) else Inl EncodeError)"

definition op_meta_decode :: "bytes \<Rightarrow> schema_error failure + op_meta" where
  "op_meta_decode bs =
     (if bs \<noteq> [] then
        let vp = bs ! 0 in
        if expected_data_length vp \<noteq> length bs
        then Inl (Err (DecodeValidationError ''Meta: data length mismatches for validation pass count''))
        else
          let is_complete_pos = unat vp + 1 in
          Inr \<lparr>validation_passes = vp,
               is_validation_pass_present = subslice 1 is_complete_pos bs,
               om_is_complete = (bs ! is_complete_pos \<noteq> 0)\<rparr>
      else Inl (Err (DecodeValidationError ''Meta: non-empty input expected'')))"

definition op_meta_codec :: "op_meta codec" where
  "op_meta_codec = \<lparr>encode = op_meta_encode, decode = op_meta_decode\<rparr>"

definition operations_meta_schema :: "(block_hash, op_meta) schema" where
  "operations_meta_schema = \<lparr>cf_name = ''operations_meta_storage'',
     key_codec = hash_codec LEN_BLOCK_HASH, value_codec = op_meta_codec\<rparr>"

section \<open>The merge operator\<close>

text \<open>The bytes \<open>i\<close> up to \<open>n\<close> are combined; indexing past the end panics.\<close>

fun or_bytes :: "nat \<Rightarrow> nat \<Rightarrow> bytes \<Rightarrow> bytes \<Rightarrow> unit failure + bytes" where
  "or_bytes i 0 val op = Inr val"
| "or_bytes i (Suc n) val op =
     (if i < length val \<and> i < length op
      then or_bytes (i + 1) n (val[i := val ! i OR op ! i]) op
      else Inl Panic)"

definition merge_op_meta_step :: "bytes \<Rightarrow> bytes \<Rightarrow> unit failure + bytes" where
  "merge_op_meta_step val op =
     (if val = [] \<or> length val \<noteq> length op \<or> val ! 0 \<noteq> op ! 0 then Inl (Err ())
      else
        let vp = unat (val ! 0) in
        and_then (or_bytes 1 vp val op) (\<lambda>val'.
        or_bytes (vp + 1) 1 val' op))"

fun merge_op_meta_loop :: "bytes option \<Rightarrow> bytes list \<Rightarrow> unit failure + bytes option" where
  "merge_op_meta_loop result [] = Inr result"
| "merge_op_meta_loop (Some val) (op # ops) =
     and_then (merge_op_meta_step val op) (\<lambda>val'. merge_op_meta_loop (Some val') ops)"
| "merge_op_meta_loop None (op # ops) = merge_op_meta_loop (Some op) ops"

definition merge_op_meta_value :: merge_operator where
  "merge_op_meta_value existing_val operands =
     and_then (merge_op_meta_loop existing_val operands) (\<lambda>r. ok_or (Err ()) r)"

section \<open>Operations\<close>

type_synonym 's ops_kv = "('s, block_hash, op_meta) kv_store"

definition oms_put :: "'s ops_kv \<Rightarrow> block_hash \<Rightarrow> op_meta \<Rightarrow> ('s, unit) storage_act" where
  "oms_put kv bh m = storageA (kv_merge kv bh m)"

definition oms_get :: "'s ops_kv \<Rightarrow> block_hash \<Rightarrow> ('s, op_meta option) storage_act" where
  "oms_get kv bh = storageA (kv_get kv bh)"

definition oms_contains :: "'s ops_kv \<Rightarrow> block_hash \<Rightarrow> ('s, bool) storage_act" where
  "oms_contains kv bh = storageA (kv_contains kv bh)"

definition oms_put_block_header ::
  "'s ops_kv \<Rightarrow> block_header_with_hash \<Rightarrow> ('s, bool \<times> byte set option) storage_act" where
  "oms_put_block_header kv bh =
     (let m = new_op_meta (h_validation_pass (bh_header bh)) in
      bindA (oms_put kv (bh_hash bh) m) (\<lambda>_.
      ret (om_is_complete m, get_missing_validation_passes m)))"

text \<open>The record after one pass has arrived.\<close>

definition mark_present :: "op_meta \<Rightarrow> nat \<Rightarrow> op_meta" where
  "mark_present m vp =
     (let present = (is_validation_pass_present m)[vp := 1] in
      m\<lparr>is_validation_pass_present := present,
        om_is_complete := list_all (\<lambda>v. v = 1) present\<rparr>)"

definition oms_put_operations ::
  "'s ops_kv \<Rightarrow> operations_for_blocks_message \<Rightarrow> ('s, bool \<times> byte set option) storage_act" where
  "oms_put_operations kv message =
     (let bh = ofb_hash (operations_for_block message) in
      bindA (oms_get kv bh) (\<lambda>r.
      case r of
        Some m \<Rightarrow>
          let vp = unat (ofb_validation_pass (operations_for_block message)) in
          if vp < length (is_validation_pass_present m) then
            let m' = mark_present m vp in
            bindA (oms_put kv bh m') (\<lambda>_.
            ret (om_is_complete m', get_missing_validation_passes m'))
          else fail Panic
      | None \<Rightarrow> fail (Err MissingKey)))"

definition oms_is_complete :: "'s ops_kv \<Rightarrow> block_hash \<Rightarrow> ('s, bool) storage_act" where
  "oms_is_complete kv bh =
     bindA (oms_get kv bh) (\<lambda>r.
     ret (case r of Some m \<Rightarrow> om_is_complete m | None \<Rightarrow> False))"

section \<open>Codec and merge lemmas\<close>

text \<open>
  Records as the code keeps them: one presence byte per pass, each 0 or 1, and complete
  only if every pass is present.
\<close>

definition op_meta_ok :: "op_meta \<Rightarrow> bool" where
  "op_meta_ok m \<longleftrightarrow> length (is_validation_pass_present m) = unat (validation_passes m) \<and>
     set (is_validation_pass_present m) \<subseteq> {0, 1} \<and>
     (om_is_complete m \<longrightarrow> list_all (\<lambda>v. v = 1) (is_validation_pass_present m))"

lemma op_meta_roundtrip:
  assumes "length (is_validation_pass_present m) = unat (validation_passes m)"
  shows "op_meta_decode (op_meta_bytes m) = Inr m"
  using assms
  by (cases m) (auto simp: op_meta_decode_def op_meta_bytes_def expected_data_length_def subslice_def
      nth_append Let_def)

lemma op_meta_decode_bytes:
  assumes "op_meta_decode bs = Inr m"
  obtains c where "bs = validation_passes m # is_validation_pass_present m @ [c]"
    "length (is_validation_pass_present m) = unat (validation_passes m)"
    "om_is_complete m \<longleftrightarrow> c \<noteq> 0"
proof -
  let ?n = "unat (validation_passes m)"
  have bs: "bs \<noteq> []" "length bs = ?n + 2" "validation_passes m = bs ! 0"
    "is_validation_pass_present m = subslice 1 (?n + 1) bs" "om_is_complete m \<longleftrightarrow> bs ! (?n + 1) \<noteq> 0"
    using assms by (auto simp: op_meta_decode_def expected_data_length_def Let_def split: if_splits)
  then obtain x xs where xs: "bs = x # xs" "length xs = ?n + 1"
    by (cases bs) auto
  have "xs = take ?n xs @ [xs ! ?n]"
    using xs(2) take_Suc_conv_app_nth [of ?n xs] by simp
  then show ?thesis
    using that [of "xs ! ?n"] bs xs by (simp add: subslice_def)
qed

lemma or_bytes_eq:
  assumes "i + n \<le> length v" "i + n \<le> length w"
  shows "or_bytes i n v w =
    Inr (take i v @ map2 (OR) (take n (drop i v)) (take n (drop i w)) @ drop (i + n) v)"
  using assms
proof (induction n arbitrary: i v)
  case (Suc n)
  let ?v = "v[i := v ! i OR w ! i]"
  have v: "v = take i v @ v ! i # drop (Suc i) v"
    using Suc.prems id_take_nth_drop [of i v] by simp
  have w: "drop i w = w ! i # drop (Suc i) w" "drop i v = v ! i # drop (Suc i) v"
    using Suc.prems by (simp_all add: Cons_nth_drop_Suc)
  have "take (Suc i) ?v = take i v @ [v ! i OR w ! i]" "drop (Suc i) ?v = drop (Suc i) v"
    "drop (Suc i + n) ?v = drop (Suc i + n) v"
    using Suc.prems by (simp_all add: take_Suc_conv_app_nth)
  then show ?case
    using Suc.prems Suc.IH [of "Suc i" ?v] by (simp add: w)
qed simp

text \<open>The abstract merge; records for a different number of passes are refused.\<close>

definition op_meta_merge :: "op_meta \<Rightarrow> op_meta \<Rightarrow> op_meta option" where
  "op_meta_merge v w =
     (if validation_passes v = validation_passes w
      then Some (v\<lparr>is_validation_pass_present := map2 (OR) (is_validation_pass_present v) (is_validation_pass_present w),
                   om_is_complete := om_is_complete v \<or> om_is_complete w\<rparr>)
      else None)"

lemma map2_or_01:
  assumes "set xs \<subseteq> {0, 1}" "set ys \<subseteq> {0, 1}" "length xs = length ys"
  shows "set (map2 (OR) xs ys) \<subseteq> {0, 1 :: byte}"
    "list_all (\<lambda>v. v = 1) xs \<or> list_all (\<lambda>v. v = 1) ys \<Longrightarrow> list_all (\<lambda>v. v = 1) (map2 (OR) xs ys)"
  using assms(3,1,2) by (induction xs ys rule: list_induct2) auto

lemma op_meta_merge_ok:
  assumes "op_meta_ok v" "op_meta_ok w" "op_meta_merge v w = Some u"
  shows "op_meta_ok u"
proof -
  have eq: "validation_passes v = validation_passes w"
    and u: "u = v\<lparr>is_validation_pass_present := map2 (OR) (is_validation_pass_present v) (is_validation_pass_present w),
                   om_is_complete := om_is_complete v \<or> om_is_complete w\<rparr>"
    using assms(3) by (auto simp: op_meta_merge_def split: if_splits)
  show ?thesis
    using assms(1,2) eq map2_or_01 [of "is_validation_pass_present v" "is_validation_pass_present w"]
    unfolding u by (simp add: op_meta_ok_def del: set_map)
qed

lemma merge_op_meta_refines:
  assumes v: "op_meta_decode vb = Inr v" and w: "op_meta_ok w"
  shows "merge_op_meta_value (Some vb) [op_meta_bytes w] =
      (case op_meta_merge v w of
         None \<Rightarrow> Inl (Err ())
       | Some u \<Rightarrow> Inr (validation_passes u # is_validation_pass_present u @
           [last vb OR (if om_is_complete w then 1 else 0)]))"
proof -
  obtain c where c: "vb = validation_passes v # is_validation_pass_present v @ [c]"
    "length (is_validation_pass_present v) = unat (validation_passes v)"
    using v by (rule op_meta_decode_bytes)
  have lw: "length (is_validation_pass_present w) = unat (validation_passes w)"
    using w by (simp add: op_meta_ok_def)
  show ?thesis
    using c lw by (auto simp: merge_op_meta_value_def merge_op_meta_step_def op_meta_merge_def
        op_meta_bytes_def or_bytes_eq Let_def nth_append list_update_append)
qed

text \<open>The node's column family keeps the merge contract.\<close>

interpretation om: schema_merge_store "map_rocks (\<lambda>_. merge_op_meta_value)" operations_meta_schema
  "\<lambda>r. r (cf_name operations_meta_schema)" "\<lambda>h. length h = LEN_BLOCK_HASH" op_meta_ok id op_meta_bytes
  merge_op_meta_value op_meta_merge
proof unfold_locales
  fix vb v w u
  assume v: "decode (value_codec operations_meta_schema) vb = Inr v" and ok: "op_meta_ok v" "op_meta_ok w"
    and u: "op_meta_merge v w = Some u"
  have d: "op_meta_decode vb = Inr v"
    using v by (simp add: operations_meta_schema_def op_meta_codec_def)
  obtain c where c: "vb = validation_passes v # is_validation_pass_present v @ [c]" "om_is_complete v \<longleftrightarrow> c \<noteq> 0"
    using d by (rule op_meta_decode_bytes)
  let ?e = "c OR (if om_is_complete w then 1 else 0)"
  let ?mb = "validation_passes u # is_validation_pass_present u @ [?e]"
  have "om_is_complete u \<longleftrightarrow> ?e \<noteq> 0"
    using u c(2) by (auto simp: op_meta_merge_def or_eq_0_iff split: if_splits)
  moreover have uok: "op_meta_ok u"
    using op_meta_merge_ok [OF ok u] .
  ultimately have "op_meta_decode ?mb = Inr u"
    by (cases u) (auto simp: op_meta_decode_def expected_data_length_def subslice_def nth_append Let_def
        op_meta_ok_def)
  with uok show "\<exists>mb. merge_op_meta_value (Some vb) [op_meta_bytes w] = Inr mb \<and>
      decode (value_codec operations_meta_schema) mb = Inr u \<and> op_meta_ok u"
    using merge_op_meta_refines [OF d ok(2)] u c(1)
    by (simp add: operations_meta_schema_def op_meta_codec_def)
qed (simp_all add: map_rocks_def operations_meta_schema_def op_meta_codec_def op_meta_encode_def
    op_meta_roundtrip hash_codec_def hash_from_bytes_def merge_op_meta_value_def op_meta_ok_def)

section \<open>Specification of the operations\<close>

definition present :: "op_meta \<Rightarrow> nat set" where
  "present m = {i. i < length (is_validation_pass_present m) \<and> is_validation_pass_present m ! i = 1}"

lemma absent_iff:
  assumes "op_meta_ok m" "i < length (is_validation_pass_present m)"
  shows "i \<notin> present m \<longleftrightarrow> is_validation_pass_present m ! i = 0"
proof -
  have "is_validation_pass_present m ! i \<in> {0, 1}"
    using assms nth_mem [OF assms(2)] unfolding op_meta_ok_def by blast
  then show ?thesis
    using assms(2) by (auto simp: present_def)
qed

lemma new_op_meta_ok: "op_meta_ok (new_op_meta vp)"
  by (auto simp: new_op_meta_def op_meta_ok_def)

lemma mark_present_ok:
  assumes "op_meta_ok m" "vp < length (is_validation_pass_present m)"
  shows "op_meta_ok (mark_present m vp)"
  using assms set_update_subset_insert [of "is_validation_pass_present m" vp 1]
  by (auto simp: op_meta_ok_def mark_present_def Let_def)

lemma present_mark:
  "vp < length (is_validation_pass_present m) \<Longrightarrow> present (mark_present m vp) = insert vp (present m)"
  by (auto simp: present_def mark_present_def Let_def nth_list_update split: if_splits)

lemma complete_mark:
  "om_is_complete (mark_present m vp) \<longleftrightarrow>
     present (mark_present m vp) = {..<length (is_validation_pass_present m)}"
  by (auto simp: mark_present_def Let_def present_def list_all_length)

lemma map2_or_mark:
  assumes "set xs \<subseteq> {0, 1 :: byte}"
  shows "map2 (OR) xs (xs[i := 1]) = xs[i := 1]"
  using assms
proof (induction xs arbitrary: i)
  case (Cons x xs)
  have "map2 (OR) xs xs = xs"
    by (induction xs) simp_all
  with Cons show ?case
    by (cases i) auto
qed simp

lemma op_meta_merge_mark:
  assumes "op_meta_ok m"
  shows "op_meta_merge m (mark_present m vp) = Some (mark_present m vp)"
proof -
  let ?p = "is_validation_pass_present m"
  have "list_all (\<lambda>v. v = 1) (?p[vp := 1])" if "om_is_complete m"
    using assms that set_update_subset_insert [of ?p vp 1] by (auto simp: op_meta_ok_def list_all_iff)
  then show ?thesis
    using assms map2_or_mark [of ?p vp]
    by (cases m) (auto simp: op_meta_merge_def mark_present_def Let_def op_meta_ok_def)
qed

locale ops_meta_kv =
  kv_merge_contract kv view inv "\<lambda>h. length h = LEN_BLOCK_HASH" op_meta_ok op_meta_merge
  for kv :: "'s ops_kv"
    and view :: "'s \<Rightarrow> block_hash \<rightharpoonup> op_meta"
    and inv :: "'s \<Rightarrow> bool"
begin

lemma oms_get_spec: "inv s \<Longrightarrow> length h = LEN_BLOCK_HASH \<Longrightarrow> oms_get kv h s = (Inr (view s h), s)"
  by (simp add: oms_get_def act_simps get_law)

lemma oms_put_spec:
  assumes "inv s" "length h = LEN_BLOCK_HASH" "op_meta_ok m" "merged op_meta_merge (view s h) m = Some u"
  shows "\<exists>s'. oms_put kv h m s = (Inr (), s') \<and> inv s' \<and> view s' = (view s)(h \<mapsto> u)"
proof -
  obtain s' where s': "kv_merge kv h m s = (Inr (), s')" "inv s'" "view s' = (view s)(h \<mapsto> u)"
    using merge_law [OF assms] by blast
  have "oms_put kv h m s = (Inr (), s')"
    using s'(1) by (simp add: oms_put_def act_simps)
  with s' show ?thesis
    by blast
qed

lemma put_operations_spec:
  assumes "inv s" "length h = LEN_BLOCK_HASH" "view s h = Some m"
    and "ofb_hash (operations_for_block msg) = h"
    and "unat (ofb_validation_pass (operations_for_block msg)) < length (is_validation_pass_present m)"
  defines "m' \<equiv> mark_present m (unat (ofb_validation_pass (operations_for_block msg)))"
  shows "\<exists>s'. oms_put_operations kv msg s = (Inr (om_is_complete m', get_missing_validation_passes m'), s') \<and>
    inv s' \<and> view s' = (view s)(h \<mapsto> m')"
proof -
  have ok: "op_meta_ok m"
    using view_ok [OF assms(1,3)] by simp
  then have "op_meta_ok m'" "merged op_meta_merge (view s h) m' = Some m'"
    using mark_present_ok [OF ok assms(5)] op_meta_merge_mark [OF ok] assms(3) by (simp_all add: m'_def merged_def)
  then obtain s' where "oms_put kv h m' s = (Inr (), s')" "inv s'" "view s' = (view s)(h \<mapsto> m')"
    using oms_put_spec [OF assms(1,2)] by blast
  then show ?thesis
    using assms oms_get_spec [OF assms(1,2)]
    by (simp add: oms_put_operations_def bindA_def Let_def ret_def)
qed

lemma put_operations_missing:
  assumes "inv s" "length h = LEN_BLOCK_HASH" "view s h = None" "ofb_hash (operations_for_block msg) = h"
  shows "oms_put_operations kv msg s = (Inl (Err MissingKey), s)"
  using assms oms_get_spec [OF assms(1,2)]
  by (simp add: oms_put_operations_def bindA_def Let_def fail_def)

lemma put_operations_panics:
  assumes "inv s" "length h = LEN_BLOCK_HASH" "view s h = Some m" "ofb_hash (operations_for_block msg) = h"
    "length (is_validation_pass_present m) \<le> unat (ofb_validation_pass (operations_for_block msg))"
  shows "oms_put_operations kv msg s = (Inl Panic, s)"
  using assms oms_get_spec [OF assms(1,2)]
  by (simp add: oms_put_operations_def bindA_def Let_def fail_def)

end

abbreviation ops_kv :: "cfs ops_kv" where
  "ops_kv \<equiv> db_kv (map_rocks (\<lambda>_. merge_op_meta_value)) operations_meta_schema"

interpretation oms: ops_meta_kv ops_kv om.tview om.tinv
  by unfold_locales

section \<open>Missing passes\<close>

lemma missing_passes_eq:
  "get_missing_validation_passes m =
     (if om_is_complete m then None
      else Some {word_of_nat i | i. i < length (is_validation_pass_present m) \<and> is_validation_pass_present m ! i = 0})"
  by (force simp: get_missing_validation_passes_def in_set_enumerate_eq)

section \<open>Properties\<close>

text \<open>
  Storing the operations of a pass of a known block records exactly that pass as
  present; the block is complete afterwards, and is reported complete, exactly when
  every pass is present, and otherwise the passes reported missing are exactly the absent ones.
\<close>

theorem put_operations_correct:
  assumes "ops_meta_kv kv view good" "good s" "length h = LEN_BLOCK_HASH" "view s h = Some m"
    and "ofb_hash (operations_for_block msg) = h"
    and "unat (ofb_validation_pass (operations_for_block msg)) < length (is_validation_pass_present m)"
  shows "\<exists>s' m' res. oms_put_operations kv msg s = (Inr res, s') \<and> good s' \<and> view s' = (view s)(h \<mapsto> m') \<and>
    present m' = insert (unat (ofb_validation_pass (operations_for_block msg))) (present m) \<and>
    (om_is_complete m' \<longleftrightarrow> present m' = {..<length (is_validation_pass_present m)}) \<and>
    res = (om_is_complete m', if om_is_complete m' then None
       else Some {word_of_nat i | i. i < length (is_validation_pass_present m) \<and> i \<notin> present m'})"
proof -
  let ?m = "mark_present m (unat (ofb_validation_pass (operations_for_block msg)))"
  have ok: "op_meta_ok m"
    using kv_contract.view_ok [of kv view good] assms(1,2,4)
    by (meson kv_merge_contract.axioms(1) ops_meta_kv.axioms)
  have mok: "op_meta_ok ?m"
    using mark_present_ok [OF ok assms(6)] .
  note absent = absent_iff [OF mok]
  have len: "length (is_validation_pass_present ?m) = length (is_validation_pass_present m)"
    by (simp add: mark_present_def Let_def)
  have missing: "get_missing_validation_passes ?m = (if om_is_complete ?m then None
       else Some {word_of_nat i | i. i < length (is_validation_pass_present m) \<and> i \<notin> present ?m})"
    using absent len by (auto simp: missing_passes_eq)
  obtain s' where s': "oms_put_operations kv msg s = (Inr (om_is_complete ?m, get_missing_validation_passes ?m), s')"
    "good s'" "view s' = (view s)(h \<mapsto> ?m)"
    using ops_meta_kv.put_operations_spec [OF assms] by blast
  show ?thesis
    by (rule exI [of _ s'], rule exI [of _ ?m], rule exI [of _ "(om_is_complete ?m, get_missing_validation_passes ?m)"])
      (use s' missing present_mark [OF assms(6)] complete_mark [of m] in simp)
qed

text \<open>A block with one validation pass whose operations arrive.\<close>

definition sample_ops :: operations_for_blocks_message where
  "sample_ops = \<lparr>operations_for_block = \<lparr>ofb_hash = replicate 32 7, ofb_validation_pass = 0\<rparr>,
     operation_hashes_path = [], operations = []\<rparr>"

definition one_pass_cfs :: cfs where
  "one_pass_cfs = (\<lambda>_. [replicate 32 7 \<mapsto> op_meta_bytes (new_op_meta 1)])"

lemma one_pass:
  "om.tinv one_pass_cfs" "om.tview one_pass_cfs (replicate 32 7) = Some (new_op_meta 1)"
proof -
  have "op_meta_ok (new_op_meta 1)"
    by (rule new_op_meta_ok)
  moreover from this have "decode (value_codec operations_meta_schema) (op_meta_bytes (new_op_meta 1)) = Inr (new_op_meta 1)"
    by (simp add: operations_meta_schema_def op_meta_codec_def op_meta_roundtrip op_meta_ok_def)
  ultimately show "om.tinv one_pass_cfs" "om.tview one_pass_cfs (replicate 32 7) = Some (new_op_meta 1)"
    by (auto simp: om.tinv_def om.tview_def one_pass_cfs_def)
qed

theorem put_operations_correct_witness:
  "\<exists>s' m' res. oms_put_operations ops_kv sample_ops one_pass_cfs = (Inr res, s') \<and>
     om.tview s' = (om.tview one_pass_cfs)(replicate 32 7 \<mapsto> m') \<and> om_is_complete m' \<and> res = (True, None)"
proof -
  have 1: "present (new_op_meta 1) = {}"
    by (auto simp: present_def new_op_meta_def)
  have 2: "length (is_validation_pass_present (new_op_meta 1)) = 1"
    by (simp add: new_op_meta_def)
  have "insert (0::nat) {} = {..<1}"
    by auto
  then show ?thesis
    using put_operations_correct [of ops_kv om.tview om.tinv one_pass_cfs "replicate 32 7" "new_op_meta 1" sample_ops]
      oms.ops_meta_kv_axioms one_pass 1 2
    by (auto simp: sample_ops_def) blast
qed

text \<open>
  The byte-level merge of operation metadata implements the abstract merge: presence
  bytes and completion are combined, records for another number of passes are refused, and the
  operator never panics on a stored record.
\<close>

theorem merge_op_meta_correct:
  assumes "op_meta_decode vb = Inr v" "op_meta_ok w"
  shows "merge_op_meta_value (Some vb) [op_meta_bytes w] =
      (case op_meta_merge v w of
         None \<Rightarrow> Inl (Err ())
       | Some u \<Rightarrow> Inr (validation_passes u # is_validation_pass_present u @
           [last vb OR (if om_is_complete w then 1 else 0)]))"
  using assms by (rule merge_op_meta_refines)

theorem merge_op_meta_correct_witness:
  "merge_op_meta_value (Some [2, 1, 0, 0]) [op_meta_bytes (new_op_meta 2)] = Inr [2, 1, 0, 0]"
proof -
  have "op_meta_decode [2, 1, 0, 0] =
      Inr \<lparr>validation_passes = 2, is_validation_pass_present = [1, 0], om_is_complete = False\<rparr>"
    by (simp add: op_meta_decode_def expected_data_length_def subslice_def)
  moreover have "new_op_meta 2 = \<lparr>validation_passes = 2, is_validation_pass_present = [0, 0], om_is_complete = False\<rparr>"
    by code_simp
  ultimately show ?thesis
    using merge_op_meta_correct [of "[2, 1, 0, 0]" _ "new_op_meta 2"] new_op_meta_ok [of 2]
    by (simp add: op_meta_merge_def)
qed

end
