(* ===== verification/DataRequester.thy ===== *)
theory DataRequester
  imports BranchInterval PeerState OperationsMeta Validation
begin

text \<open>
  Requests for block data and their responses (\<^verbatim>\<open>shell/src/state/data_requester.rs\<close>): every
  peer has a bounded queue of requested headers and operations; a response is accepted
  only for a queued request and releases its place when it has been handled; blocks are
  handed to the chain feeder when they can be applied.
\<close>

section \<open>Requests\<close>

definition header_downloaded :: "reader \<Rightarrow> block_hash \<Rightarrow> bool" where
  "header_downloaded rd b = (case rd_meta rd b of Inr (Some m) \<Rightarrow> is_downloaded m | _ \<Rightarrow> False)"

definition header_messages :: "block_hash list \<Rightarrow> peer_message list" where
  "header_messages blocks =
     (if GET_BLOCK_HEADERS_MAX_LENGTH > 0 then map GetBlockHeaders (chunks GET_BLOCK_HEADERS_MAX_LENGTH blocks)
      else [GetBlockHeaders blocks])"

text \<open>The outcome, the queues afterwards, and the messages sent to the peer.\<close>

definition fetch_block_headers :: "reader \<Rightarrow> nat \<Rightarrow> block_hash list \<Rightarrow> data_queues \<Rightarrow>
    (state_error + bool) \<times> data_queues \<times> peer_message list" where
  "fetch_block_headers rd now blocks_to_download q =
     (if blocks_to_download = [] then (Inr False, q, [])
      else (case lock_headers q of
        Inl e \<Rightarrow> (Inl e, q, [])
      | Inr queue \<Rightarrow>
          let limit = unat (max_queued_block_headers_count (dq_limits q)) in
          if \<not> length queue < limit then (Inr False, q, [])
          else
            let available_capacity = limit - length queue;
                blocks = take available_capacity
                  (filter (\<lambda>b. if map_of queue b \<noteq> None then False else \<not> header_downloaded rd b) blocks_to_download) in
            if blocks = [] then (Inr False, q, [])
            else (Inr True,
              q\<lparr>queued_block_headers := fold (\<lambda>b. AList.update b now) blocks queue\<rparr>,
              header_messages blocks)))"

text \<open>
  The passes are a hash set that is iterated; the order does not matter below and is
  ascending here.
\<close>

definition missing_passes :: "op_meta \<Rightarrow> byte list" where
  "missing_passes m = (case get_missing_validation_passes m of None \<Rightarrow> [] | Some vps \<Rightarrow> sorted_list_of_set vps)"

text \<open>Which of the blocks need operations, and which turn out to have them all.\<close>

fun missing_of_blocks :: "(block_hash \<Rightarrow> storage_error + op_meta option) \<Rightarrow> block_hash list \<Rightarrow>
    (block_hash \<times> byte list) list \<times> block_hash list" where
  "missing_of_blocks ops_meta [] = ([], [])"
| "missing_of_blocks ops_meta (b # bs) =
     (case missing_of_blocks ops_meta bs of (todo, already) \<Rightarrow>
       (case ops_meta b of
          Inr (Some metadata) \<Rightarrow>
            if missing_passes metadata \<noteq> [] then ((b, missing_passes metadata) # todo, already)
            else (todo, b # already)
        | _ \<Rightarrow> (todo, already)))"

definition operation_requests :: "(block_hash \<times> byte list) list \<Rightarrow> operations_for_block list" where
  "operation_requests blocks =
     concat (map (\<lambda>(b, vps). map (\<lambda>vp. \<lparr>ofb_hash = b, ofb_validation_pass = vp\<rparr>) vps) blocks)"

definition operation_messages :: "(block_hash \<times> byte list) list \<Rightarrow> peer_message list" where
  "operation_messages blocks =
     (if GET_OPERATIONS_FOR_BLOCKS_MAX_LENGTH > 0
      then map GetOperationsForBlocks (chunks GET_OPERATIONS_FOR_BLOCKS_MAX_LENGTH (operation_requests blocks))
      else [GetOperationsForBlocks (operation_requests blocks)])"

text \<open>The last part of the result is the blocks reported as complete.\<close>

definition fetch_block_operations :: "(block_hash \<Rightarrow> storage_error + op_meta option) \<Rightarrow> nat \<Rightarrow> block_hash list \<Rightarrow>
    data_queues \<Rightarrow> (state_error + bool) \<times> data_queues \<times> peer_message list \<times> block_hash list" where
  "fetch_block_operations ops_meta now blocks_to_download q =
     (if blocks_to_download = [] then (Inr False, q, [], [])
      else (case lock_operations q of
        Inl e \<Rightarrow> (Inl e, q, [], [])
      | Inr queue \<Rightarrow>
          let limit = unat (max_queued_block_operations_count (dq_limits q)) in
          if \<not> length queue < limit then (Inr False, q, [], [])
          else
            let available_capacity = limit - length queue;
                candidates = take available_capacity (filter (\<lambda>b. map_of queue b = None) blocks_to_download) in
            (case missing_of_blocks ops_meta candidates of
               (blocks, already_downloaded) \<Rightarrow>
                 if blocks = [] then (Inr False, q, [], already_downloaded)
                 else (Inr True,
                   q\<lparr>queued_block_operations := fold (\<lambda>(b, vps). AList.update b (vps, now)) blocks queue\<rparr>,
                   operation_messages blocks, already_downloaded))))"

section \<open>Responses\<close>

text \<open>An accepted response holds its place in the queue until the lock is dropped.\<close>

definition block_header_received :: "block_hash \<Rightarrow> peer_state \<Rightarrow> (state_error + block_hash option) \<times> peer_state" where
  "block_header_received bh p =
     (case lock_headers (ps_queues p) of
        Inl e \<Rightarrow> (Inl e, p)
      | Inr queue \<Rightarrow>
          if map_of queue bh = None
          then (Inr None, p\<lparr>ps_message_stats := increment_unexpected_response_block (ps_message_stats p)\<rparr>)
          else (Inr (Some bh), p))"

definition drop_block_data_lock :: "block_hash \<Rightarrow> data_queues \<Rightarrow> data_queues" where
  "drop_block_data_lock bh q =
     (case lock_headers q of
        Inl _ \<Rightarrow> q
      | Inr queue \<Rightarrow> q\<lparr>queued_block_headers := AList.delete bh queue\<rparr>)"

definition block_operations_received :: "operations_for_block \<Rightarrow> peer_state \<Rightarrow>
    (state_error + (block_hash \<times> byte) option) \<times> peer_state" where
  "block_operations_received ofb p =
     (let bh = ofb_hash ofb; vp = ofb_validation_pass ofb;
          unexpected = (Inr None, p\<lparr>ps_message_stats := increment_unexpected_response_operations (ps_message_stats p)\<rparr>) in
      (case lock_operations (ps_queues p) of
         Inl e \<Rightarrow> (Inl e, p)
       | Inr queue \<Rightarrow>
           (case map_of queue bh of
              Some (missing, _) \<Rightarrow> if vp \<notin> set missing then unexpected else (Inr (Some (bh, vp)), p)
            | None \<Rightarrow> unexpected)))"

definition drop_operation_data_lock :: "block_hash \<times> byte \<Rightarrow> data_queues \<Rightarrow> data_queues" where
  "drop_operation_data_lock lck q =
     (case lck of (bh, vp) \<Rightarrow>
       (case lock_operations q of
          Inl _ \<Rightarrow> q
        | Inr queue \<Rightarrow>
            (case map_of queue bh of
               None \<Rightarrow> q
             | Some (missing, t) \<Rightarrow>
                 let missing' = removeAll vp missing in
                 if missing' = [] then q\<lparr>queued_block_operations := AList.delete bh queue\<rparr>
                 else q\<lparr>queued_block_operations := AList.update bh (missing', t) queue\<rparr>)))"

section \<open>Application\<close>

definition rd_is_applied :: "reader \<Rightarrow> block_hash \<Rightarrow> storage_error + bool" where
  "rd_is_applied rd b = and_then (rd_meta rd b) (\<lambda>r. Inr (case r of Some m \<Rightarrow> m_is_applied m | None \<Rightarrow> False))"

text \<open>Leading blocks that are applied already are skipped; the rest of the batch is sent to the chain feeder.\<close>

function call_apply_block :: "reader \<Rightarrow> apply_block_batch \<Rightarrow> state_error + apply_block_batch" where
  "call_apply_block rd batch_to_use =
     (case rd_meta rd (block_to_apply batch_to_use) of
        Inl e \<Rightarrow> Inl (StStorageError e)
      | Inr None \<Rightarrow> Inl (ProcessingError ''No metadata found for block_hash'')
      | Inr (Some block_metadata) \<Rightarrow>
          (case can_apply_block (block_to_apply batch_to_use) block_metadata (rd_complete rd) (rd_is_applied rd) of
             Inl e \<Rightarrow> Inl (StStorageError e)
           | Inr Ready \<Rightarrow> Inr batch_to_use
           | Inr AlreadyApplied \<Rightarrow>
               (case shift batch_to_use of
                  Some shifted_batch \<Rightarrow> call_apply_block rd shifted_batch
                | None \<Rightarrow> Inl (ProcessingError ''Block cannot be applied, because the whole batch is already applied''))
           | Inr MissingPredecessor \<Rightarrow> Inl (ProcessingError ''Block cannot be applied because missing predecessor block'')
           | Inr PredecessorNotApplied \<Rightarrow>
               Inl (ProcessingError ''Block cannot be applied because predecessor block is not applied yet'')
           | Inr MissingOperations \<Rightarrow> Inl (ProcessingError ''Block cannot be applied because missing operations'')))"
  by pat_completeness auto
termination
  by (relation "measure (\<lambda>(_, b). length (batch_successors b))") (auto simp: shift_def batch_def split: list.splits)

definition try_apply_block :: "reader \<Rightarrow> block_hash \<Rightarrow> state_error + apply_block_batch" where
  "try_apply_block rd bh = call_apply_block rd (batch_one bh)"

section \<open>Queue lemmas\<close>

definition headers_queue_ok :: "data_queues \<Rightarrow> bool" where
  "headers_queue_ok q \<longleftrightarrow> distinct (map fst (queued_block_headers q)) \<and>
     length (queued_block_headers q) \<le> unat (max_queued_block_headers_count (dq_limits q))"

definition operations_queue_ok :: "data_queues \<Rightarrow> bool" where
  "operations_queue_ok q \<longleftrightarrow> distinct (map fst (queued_block_operations q)) \<and>
     length (queued_block_operations q) \<le> unat (max_queued_block_operations_count (dq_limits q)) \<and>
     (\<forall>(b, vps, t)\<in>set (queued_block_operations q). vps \<noteq> [])"

text \<open>What the messages ask for.\<close>

fun asked_headers :: "peer_message \<Rightarrow> block_hash list" where
  "asked_headers (GetBlockHeaders bs) = bs"
| "asked_headers _ = []"

fun asked_operations :: "peer_message \<Rightarrow> operations_for_block list" where
  "asked_operations (GetOperationsForBlocks rs) = rs"
| "asked_operations _ = []"

lemma fold_update_new:
  "distinct blocks \<Longrightarrow> set blocks \<inter> set (map fst q) = {} \<Longrightarrow>
   fold (\<lambda>b. AList.update b (f b)) blocks q = q @ map (\<lambda>b. (b, f b)) blocks"
  by (induction blocks arbitrary: q) (auto simp: update_fresh)

lemma header_messages_asked: "concat (map asked_headers (header_messages bs)) = bs"
  by (simp add: header_messages_def GET_BLOCK_HEADERS_MAX_LENGTH_def comp_def concat_chunks)

lemma header_messages_size: "m \<in> set (header_messages bs) \<Longrightarrow> \<exists>cs. m = GetBlockHeaders cs \<and> cs \<noteq> [] \<and> length cs \<le> 10"
  by (auto simp: header_messages_def GET_BLOCK_HEADERS_MAX_LENGTH_def dest: chunks_size)

lemma operation_messages_asked: "concat (map asked_operations (operation_messages bs)) = operation_requests bs"
  by (simp add: operation_messages_def GET_OPERATIONS_FOR_BLOCKS_MAX_LENGTH_def comp_def concat_chunks)

lemma operation_messages_size:
  "m \<in> set (operation_messages bs) \<Longrightarrow> \<exists>cs. m = GetOperationsForBlocks cs \<and> cs \<noteq> [] \<and> length cs \<le> 10"
  by (auto simp: operation_messages_def GET_OPERATIONS_FOR_BLOCKS_MAX_LENGTH_def dest: chunks_size)

text \<open>The headers a round may request: not queued, not known, as many as fit.\<close>

definition wanted_headers :: "reader \<Rightarrow> block_hash list \<Rightarrow> data_queues \<Rightarrow> block_hash list" where
  "wanted_headers rd blocks q =
     take (unat (max_queued_block_headers_count (dq_limits q)) - length (queued_block_headers q))
       (filter (\<lambda>b. b \<notin> set (map fst (queued_block_headers q)) \<and> \<not> header_downloaded rd b) blocks)"

lemma fetch_block_headers_unfold:
  assumes "\<not> headers_poisoned q" "distinct blocks"
  shows "fetch_block_headers rd now blocks q =
    (if wanted_headers rd blocks q = [] then (Inr False, q, [])
     else (Inr True, q\<lparr>queued_block_headers := queued_block_headers q @ map (\<lambda>b. (b, now)) (wanted_headers rd blocks q)\<rparr>,
       header_messages (wanted_headers rd blocks q)))"
proof -
  have w: "take (unat (max_queued_block_headers_count (dq_limits q)) - length (queued_block_headers q))
      (filter (\<lambda>b. if map_of (queued_block_headers q) b \<noteq> None then False else \<not> header_downloaded rd b) blocks) =
    wanted_headers rd blocks q"
    by (auto simp: wanted_headers_def map_of_eq_None_iff intro!: arg_cong [where f = "take _"] filter_cong)
  have fresh: "distinct (wanted_headers rd blocks q)"
    "set (wanted_headers rd blocks q) \<inter> set (map fst (queued_block_headers q)) = {}"
    using assms(2) by (force simp: wanted_headers_def dest: in_set_takeD)+
  show ?thesis
    unfolding fetch_block_headers_def lock_headers_def Let_def
    using assms(1) w fold_update_new [OF fresh, of "\<lambda>_. now"]
    by (auto simp: wanted_headers_def)
qed

lemma length_wanted_headers:
  "length (wanted_headers rd blocks q) \<le> unat (max_queued_block_headers_count (dq_limits q)) - length (queued_block_headers q)"
  by (simp add: wanted_headers_def)

lemma wanted_headers_fit:
  assumes "headers_queue_ok q" "distinct blocks"
  shows "headers_queue_ok (q\<lparr>queued_block_headers := queued_block_headers q @ map (\<lambda>b. (b, now)) (wanted_headers rd blocks q)\<rparr>)"
proof -
  have "length (queued_block_headers q @ map (\<lambda>b. (b, now)) (wanted_headers rd blocks q)) \<le>
      unat (max_queued_block_headers_count (dq_limits q))"
    using assms(1) length_wanted_headers [of rd blocks q] unfolding headers_queue_ok_def by (elim conjE) simp
  moreover have "distinct (map fst (queued_block_headers q @ map (\<lambda>b. (b, now)) (wanted_headers rd blocks q)))"
    using assms by (force simp: headers_queue_ok_def wanted_headers_def comp_def dest: in_set_takeD)
  ultimately show ?thesis
    by (simp add: headers_queue_ok_def)
qed

lemma missing_of_blocks_spec:
  "missing_of_blocks om bs = (todo, already) \<Longrightarrow>
   set (map fst todo) \<subseteq> set bs \<and> (distinct bs \<longrightarrow> distinct (map fst todo)) \<and> length todo \<le> length bs \<and>
   (\<forall>(b, vps)\<in>set todo. vps \<noteq> [] \<and> (\<exists>m. om b = Inr (Some m) \<and> vps = missing_passes m))"
proof (induction bs arbitrary: todo already)
  case (Cons b bs)
  obtain t a where r: "missing_of_blocks om bs = (t, a)"
    by (cases "missing_of_blocks om bs")
  show ?case
    using Cons.IH [OF r] Cons.prems r
    by (auto simp: image_subset_iff split: sum.splits option.splits if_splits)
qed simp

text \<open>The blocks a round looks at for operations, and the requests it makes.\<close>

definition operation_candidates :: "block_hash list \<Rightarrow> data_queues \<Rightarrow> block_hash list" where
  "operation_candidates blocks q =
     take (unat (max_queued_block_operations_count (dq_limits q)) - length (queued_block_operations q))
       (filter (\<lambda>b. b \<notin> set (map fst (queued_block_operations q))) blocks)"

lemma fetch_block_operations_unfold:
  assumes "\<not> operations_poisoned q" "distinct blocks" "missing_of_blocks om (operation_candidates blocks q) = (todo, already)"
  shows "fetch_block_operations om now blocks q =
    (if todo = [] then (Inr False, q, [], already)
     else (Inr True, q\<lparr>queued_block_operations := queued_block_operations q @ map (\<lambda>(b, vps). (b, vps, now)) todo\<rparr>,
       operation_messages todo, already))"
proof -
  have c: "take (unat (max_queued_block_operations_count (dq_limits q)) - length (queued_block_operations q))
      (filter (\<lambda>b. map_of (queued_block_operations q) b = None) blocks) = operation_candidates blocks q"
    by (simp add: operation_candidates_def map_of_eq_None_iff)
  note m = missing_of_blocks_spec [OF assms(3)]
  have "distinct (operation_candidates blocks q)"
    using assms(2) by (simp add: operation_candidates_def)
  moreover have "set (operation_candidates blocks q) \<inter> set (map fst (queued_block_operations q)) = {}"
    by (force simp: operation_candidates_def dest: in_set_takeD)
  ultimately have "distinct (map fst todo)" "set (map fst todo) \<inter> set (map fst (queued_block_operations q)) = {}"
    using m by blast+
  then have u: "fold (\<lambda>(b, vps). AList.update b (vps, now)) todo (queued_block_operations q) =
      queued_block_operations q @ map (\<lambda>(b, vps). (b, vps, now)) todo"
    using fold_update_fresh [of "map (\<lambda>(b, vps). (b, vps, now)) todo" "queued_block_operations q"]
    by (simp add: fold_map comp_def split_def)
  show ?thesis
  proof (cases "operation_candidates blocks q = []")
    case True
    then have "todo = []" "already = []"
      using assms(3) by simp_all
    then show ?thesis
      unfolding fetch_block_operations_def lock_operations_def Let_def
      using assms(1) True c by auto
  next
    case False
    then have "blocks \<noteq> []" "length (queued_block_operations q) < unat (max_queued_block_operations_count (dq_limits q))"
      by (auto simp: operation_candidates_def)
    then show ?thesis
      unfolding fetch_block_operations_def lock_operations_def Let_def
      using assms(1,3) c u by simp
  qed
qed

lemma missing_of_blocks_fit:
  assumes "operations_queue_ok q" "distinct blocks"
    and m: "missing_of_blocks om (operation_candidates blocks q) = (todo, already)"
  shows "operations_queue_ok (q\<lparr>queued_block_operations :=
      queued_block_operations q @ map (\<lambda>(b, vps). (b, vps, now)) todo\<rparr>)"
proof -
  note spec = missing_of_blocks_spec [OF m]
  have c: "distinct (operation_candidates blocks q)" "length (operation_candidates blocks q) \<le>
      unat (max_queued_block_operations_count (dq_limits q)) - length (queued_block_operations q)"
    using assms(2) by (simp_all add: operation_candidates_def)
  have disj: "set (operation_candidates blocks q) \<inter> set (map fst (queued_block_operations q)) = {}"
    by (force simp: operation_candidates_def dest: in_set_takeD)
  have keys: "map fst (map (\<lambda>(b, vps). (b, vps, now)) todo) = map fst todo"
    by (simp add: split_def comp_def)
  have "distinct (map fst (queued_block_operations q @ map (\<lambda>(b, vps). (b, vps, now)) todo))"
    using assms(1) spec c(1) disj unfolding map_append keys by (auto simp: operations_queue_ok_def)
  moreover have "length (queued_block_operations q @ map (\<lambda>(b, vps). (b, vps, now)) todo) \<le>
      unat (max_queued_block_operations_count (dq_limits q))"
    using assms(1) spec c(2) unfolding operations_queue_ok_def by (elim conjE) simp
  ultimately show ?thesis
    using assms(1) spec unfolding operations_queue_ok_def by fastforce
qed

text \<open>The requests that wait for an answer.\<close>

definition pending_operations :: "data_queues \<Rightarrow> (block_hash \<times> byte) set" where
  "pending_operations q = {(b, vp). \<exists>vps t. map_of (queued_block_operations q) b = Some (vps, t) \<and> vp \<in> set vps}"

lemma drop_operation_data_lock_pending:
  assumes "\<not> operations_poisoned q"
  shows "pending_operations (drop_operation_data_lock (b, vp) q) = pending_operations q - {(b, vp)}"
proof (cases "map_of (queued_block_operations q) b")
  case None
  then show ?thesis
    using assms by (auto simp: drop_operation_data_lock_def lock_operations_def pending_operations_def)
next
  case (Some e)
  obtain vps t where e: "e = (vps, t)"
    by (cases e)
  show ?thesis
  proof (cases "removeAll vp vps = []")
    case True
    then have "set vps \<subseteq> {vp}"
      by (metis Diff_eq_empty_iff list.set(1) set_removeAll)
    then show ?thesis
      using assms True Some e
      by (auto simp: drop_operation_data_lock_def lock_operations_def pending_operations_def delete_conv' split: if_splits)
  next
    case False
    then show ?thesis
      using assms Some e
      by (auto simp: drop_operation_data_lock_def lock_operations_def pending_operations_def update_conv' Let_def split: if_splits)
  qed
qed

lemma set_update_subset: "set (AList.update k v xs) \<subseteq> insert (k, v) (set xs)"
  by (induction xs) auto

lemma length_update_known: "map_of xs k = Some w \<Longrightarrow> length (AList.update k v xs) = length xs"
  by (induction xs) (auto split: if_splits)

lemma operations_queue_delete:
  "operations_queue_ok q \<Longrightarrow> operations_queue_ok (q\<lparr>queued_block_operations := AList.delete b (queued_block_operations q)\<rparr>)"
  unfolding operations_queue_ok_def
  by (auto intro: le_trans [OF length_delete_le] simp: distinct_delete) (auto simp: AList.delete_eq)

lemma operations_queue_update:
  "operations_queue_ok q \<Longrightarrow> map_of (queued_block_operations q) b = Some w \<Longrightarrow> vps \<noteq> [] \<Longrightarrow>
   operations_queue_ok (q\<lparr>queued_block_operations := AList.update b (vps, t) (queued_block_operations q)\<rparr>)"
  using set_update_subset [of b "(vps, t)" "queued_block_operations q"]
  by (auto simp: operations_queue_ok_def distinct_update length_update_known)

lemma drop_operation_data_lock_ok:
  assumes "operations_queue_ok q"
  shows "operations_queue_ok (drop_operation_data_lock l q)"
proof -
  obtain b vp where l: "l = (b, vp)"
    by (cases l)
  show ?thesis
  proof (cases "operations_poisoned q \<or> map_of (queued_block_operations q) b = None")
    case True
    then show ?thesis
      using assms by (auto simp: l drop_operation_data_lock_def lock_operations_def)
  next
    case False
    then obtain vps t where e: "map_of (queued_block_operations q) b = Some (vps, t)"
      by auto
    then show ?thesis
      using False operations_queue_delete [OF assms] operations_queue_update [OF assms e]
      by (simp add: l drop_operation_data_lock_def lock_operations_def Let_def)
  qed
qed

section \<open>Application of a batch\<close>

text \<open>A block whose application may start: not applied, operations complete, predecessor applied.\<close>

definition may_apply :: "reader \<Rightarrow> block_hash \<Rightarrow> bool" where
  "may_apply rd b \<longleftrightarrow> (\<exists>m p. rd_meta rd b = Inr (Some m) \<and> \<not> m_is_applied m \<and> m_predecessor m = Some p \<and>
     rd_complete rd b = Inr True \<and> rd_is_applied rd p = Inr True)"

declare call_apply_block.simps [simp del]

lemma call_apply_block_applied:
  "applied_in rd (block_to_apply b) \<Longrightarrow> call_apply_block rd b =
    (case shift b of Some b' \<Rightarrow> call_apply_block rd b'
     | None \<Rightarrow> Inl (ProcessingError ''Block cannot be applied, because the whole batch is already applied''))"
  by (subst call_apply_block.simps) (auto simp: applied_in_def can_apply_block_def)

lemma call_apply_block_not_applied:
  "\<not> applied_in rd (block_to_apply b) \<Longrightarrow> may_apply rd (block_to_apply b) \<and> call_apply_block rd b = Inr b \<or>
    \<not> may_apply rd (block_to_apply b) \<and> (\<exists>e. call_apply_block rd b = Inl e)"
  by (subst (1 2) call_apply_block.simps)
    (auto simp: may_apply_def applied_in_def can_apply_block_def and_then_def
      split: sum.splits option.splits)

lemma call_apply_block_spec:
  "call_apply_block rd b = Inr b' \<longleftrightarrow>
    (\<exists>skipped. take_all_blocks_to_apply b = skipped @ take_all_blocks_to_apply b' \<and>
       (\<forall>a\<in>set skipped. applied_in rd a) \<and> may_apply rd (block_to_apply b'))"
proof (induction "batch_successors b" arbitrary: b)
  case Nil
  have "b' = b" if "take_all_blocks_to_apply b = skipped @ take_all_blocks_to_apply b'" for skipped
    using that Nil by (cases skipped; cases b; cases b') (auto simp: take_all_blocks_to_apply_def)
  moreover have "shift b = None"
    using Nil by (simp add: shift_def)
  ultimately show ?case
    using call_apply_block_applied [of rd b] call_apply_block_not_applied [of rd b]
    by (cases "applied_in rd (block_to_apply b)") (fastforce simp: may_apply_def applied_in_def)+
next
  case (Cons s ss)
  define c where "c = batch s ss"
  have sh: "shift b = Some c" "batch_successors c = ss"
    using Cons.hyps(2) [symmetric] by (simp_all add: shift_def c_def batch_def)
  have all: "take_all_blocks_to_apply b = block_to_apply b # take_all_blocks_to_apply c"
    using take_all_shift sh(1) by blast
  have ih: "call_apply_block rd c = Inr b' \<longleftrightarrow>
    (\<exists>skipped. take_all_blocks_to_apply c = skipped @ take_all_blocks_to_apply b' \<and>
       (\<forall>a\<in>set skipped. applied_in rd a) \<and> may_apply rd (block_to_apply b'))"
    using Cons.hyps(1) sh(2) by simp
  show ?case
  proof (cases "applied_in rd (block_to_apply b)")
    case True
    have "\<exists>ys. skipped = block_to_apply b # ys" if "may_apply rd (block_to_apply b')"
      "block_to_apply b # take_all_blocks_to_apply c = skipped @ take_all_blocks_to_apply b'" for skipped
      using that True by (cases skipped) (auto simp: may_apply_def applied_in_def take_all_blocks_to_apply_def)
    then have "(\<exists>skipped. block_to_apply b # take_all_blocks_to_apply c = skipped @ take_all_blocks_to_apply b' \<and>
        (\<forall>a\<in>set skipped. applied_in rd a) \<and> may_apply rd (block_to_apply b')) \<longleftrightarrow>
      (\<exists>skipped. block_to_apply b # take_all_blocks_to_apply c = (block_to_apply b # skipped) @ take_all_blocks_to_apply b' \<and>
        (\<forall>a\<in>set (block_to_apply b # skipped). applied_in rd a) \<and> may_apply rd (block_to_apply b'))"
      by blast
    also have "\<dots> \<longleftrightarrow> (\<exists>skipped. take_all_blocks_to_apply c = skipped @ take_all_blocks_to_apply b' \<and>
        (\<forall>a\<in>set skipped. applied_in rd a) \<and> may_apply rd (block_to_apply b'))"
      using True by simp
    finally show ?thesis
      unfolding all using call_apply_block_applied [OF True] sh(1) ih by simp
  next
    case False
    then have "skipped = [] \<and> b' = b" if "take_all_blocks_to_apply b = skipped @ take_all_blocks_to_apply b'"
      "\<forall>a\<in>set skipped. applied_in rd a" for skipped
      using that all by (cases skipped; cases b; cases b') (auto simp: take_all_blocks_to_apply_def)
    then show ?thesis
      using call_apply_block_not_applied [OF False] by (metis append_Nil empty_iff empty_set old.sum.distinct(2) sum.inject(2))
  qed
qed

section \<open>Properties\<close>

text \<open>
  Property C32. A request round for headers never overfills the queue of the peer. It asks
  for exactly the given blocks that are neither queued nor known, in order, as many as
  there is room for, in messages of one to ten hashes; exactly these are added to the
  queue, and the round reports whether it asked for anything. A poisoned lock is an error
  and changes nothing.
\<close>

theorem fetch_block_headers_correct:
  assumes "headers_queue_ok q" "distinct blocks" "fetch_block_headers rd now blocks q = (r, q', msgs)"
  shows "headers_queue_ok q' \<and>
    (if headers_poisoned q \<and> blocks \<noteq> [] then (\<exists>e. r = Inl (StLockError e)) \<and> q' = q \<and> msgs = []
     else if headers_poisoned q then r = Inr False \<and> q' = q \<and> msgs = []
     else r = Inr (wanted_headers rd blocks q \<noteq> []) \<and>
       concat (map asked_headers msgs) = wanted_headers rd blocks q \<and>
       map fst (queued_block_headers q') = map fst (queued_block_headers q) @ wanted_headers rd blocks q \<and>
       (\<forall>m\<in>set msgs. \<exists>bs. m = GetBlockHeaders bs \<and> bs \<noteq> [] \<and> length bs \<le> 10))"
proof (cases "headers_poisoned q")
  case True
  then show ?thesis
    using assms by (auto simp: fetch_block_headers_def lock_headers_def split: if_splits)
next
  case False
  have "headers_queue_ok (q\<lparr>queued_block_headers := queued_block_headers q @ map (\<lambda>b. (b, now)) (wanted_headers rd blocks q)\<rparr>)"
    by (rule wanted_headers_fit [OF assms(1,2)])
  then show ?thesis
    using assms fetch_block_headers_unfold [OF False assms(2), of rd now] False header_messages_asked header_messages_size
    by (auto simp: comp_def split: if_splits)
qed

theorem fetch_block_headers_correct_witness:
  "concat (map asked_headers (snd (snd (fetch_block_headers chain_reader 0 [[9], [3], [8]] (ps_queues sample_peer))))) = [[9], [8]]"
proof -
  define q where "q = ps_queues sample_peer"
  define w where "w = fetch_block_headers chain_reader 0 [[9], [3], [8]] q"
  have q: "queued_block_headers q = []" "\<not> headers_poisoned q" "max_queued_block_headers_count (dq_limits q) = 5"
    by (simp_all add: q_def sample_peer_def new_peer_state_def new_data_queues_def add_missing_mempool_operations_def)
  then have "headers_queue_ok q"
    by (simp add: headers_queue_ok_def)
  moreover have "fetch_block_headers chain_reader 0 [[9], [3], [8]] q = (fst w, fst (snd w), snd (snd w))"
    by (simp add: w_def)
  moreover have "wanted_headers chain_reader [[9], [3], [8]] q = [[9], [8]]"
    using q by (simp add: wanted_headers_def header_downloaded_def chain_reader_simps is_downloaded_def)
  ultimately show ?thesis
    using fetch_block_headers_correct [of q "[[9], [3], [8]]" chain_reader 0 "fst w" "fst (snd w)" "snd (snd w)"] q
    by (simp add: w_def q_def)
qed

text \<open>
  A request round for operations never overfills the queue of the peer and
  never queues a block without a missing pass. Of the blocks that are not queued, as many
  as there is room for, it asks for exactly the passes whose operations are missing and
  queues exactly these; every request message has one to ten entries.
\<close>

theorem fetch_block_operations_correct:
  assumes "operations_queue_ok q" "distinct blocks" "\<not> operations_poisoned q"
    and "fetch_block_operations om now blocks q = (r, q', msgs, already)"
  shows "operations_queue_ok q' \<and>
    (\<exists>todo. missing_of_blocks om (operation_candidates blocks q) = (todo, already) \<and> r = Inr (todo \<noteq> []) \<and>
       concat (map asked_operations msgs) = operation_requests todo \<and>
       queued_block_operations q' = queued_block_operations q @ map (\<lambda>(b, vps). (b, vps, now)) todo) \<and>
    (\<forall>m\<in>set msgs. \<exists>rs. m = GetOperationsForBlocks rs \<and> rs \<noteq> [] \<and> length rs \<le> 10)"
proof -
  obtain todo al where m: "missing_of_blocks om (operation_candidates blocks q) = (todo, al)"
    by (cases "missing_of_blocks om (operation_candidates blocks q)")
  note f = fetch_block_operations_unfold [OF assms(3,2) m, of now]
  have "operations_queue_ok (q\<lparr>queued_block_operations :=
      queued_block_operations q @ map (\<lambda>(b, vps). (b, vps, now)) todo\<rparr>)"
    by (rule missing_of_blocks_fit [OF assms(1,2) m])
  then show ?thesis
    using assms(1,4) m f operation_messages_asked operation_messages_size
    by (cases "todo = []") (auto simp: operation_requests_def)
qed

theorem fetch_block_operations_correct_witness:
  "\<exists>q' msgs. fetch_block_operations (\<lambda>b. Inr (Some (new_op_meta 2))) 0 [[9]] (ps_queues sample_peer) = (Inr True, q', msgs, []) \<and>
     concat (map asked_operations msgs) = [\<lparr>ofb_hash = [9], ofb_validation_pass = 0\<rparr>, \<lparr>ofb_hash = [9], ofb_validation_pass = 1\<rparr>] \<and>
     operations_queue_ok q'"
proof -
  define q where "q = ps_queues sample_peer"
  define w where "w = fetch_block_operations (\<lambda>b. Inr (Some (new_op_meta 2))) 0 [[9]] q"
  have q: "queued_block_operations q = []" "\<not> operations_poisoned q" "max_queued_block_operations_count (dq_limits q) = 5"
    by (simp_all add: q_def sample_peer_def new_peer_state_def new_data_queues_def add_missing_mempool_operations_def)
  then have ok: "operations_queue_ok q"
    by (simp add: operations_queue_ok_def)
  have w: "fetch_block_operations (\<lambda>b. Inr (Some (new_op_meta 2))) 0 [[9]] q = (fst w, fst (snd w), fst (snd (snd w)), snd (snd (snd w)))"
    by (simp add: w_def)
  have "missing_passes (new_op_meta 2) = [0, 1]"
    by code_simp
  then have "missing_of_blocks (\<lambda>b. Inr (Some (new_op_meta 2))) (operation_candidates [[9]] q) = ([([9], [0, 1])], [])"
    using q by (simp add: operation_candidates_def)
  with fetch_block_operations_correct [OF ok _ q(2) w] show ?thesis
    unfolding q_def [symmetric] using w by (auto simp: operation_requests_def)
qed

text \<open>
  An answer with operations is accepted exactly when that pass of that block is
  waited for, and it changes no queue; once it is handled, exactly that request stops
  waiting. An unexpected answer is counted. The queue stays bounded and free of blocks
  without a waiting pass.
\<close>

theorem block_operations_received_correct:
  assumes "\<not> operations_poisoned (ps_queues p)" "operations_queue_ok (ps_queues p)"
    and "block_operations_received ofb p = (r, p')"
  shows "(if (ofb_hash ofb, ofb_validation_pass ofb) \<in> pending_operations (ps_queues p)
     then r = Inr (Some (ofb_hash ofb, ofb_validation_pass ofb)) \<and> p' = p \<and>
       pending_operations (drop_operation_data_lock (ofb_hash ofb, ofb_validation_pass ofb) (ps_queues p)) =
         pending_operations (ps_queues p) - {(ofb_hash ofb, ofb_validation_pass ofb)} \<and>
       operations_queue_ok (drop_operation_data_lock (ofb_hash ofb, ofb_validation_pass ofb) (ps_queues p))
     else r = Inr None \<and> ps_queues p' = ps_queues p \<and>
       unexpected_response_operations (ps_message_stats p') = unexpected_response_operations (ps_message_stats p) + 1)"
  using assms(1,3) drop_operation_data_lock_pending [OF assms(1)] drop_operation_data_lock_ok [OF assms(2)]
  by (auto simp: block_operations_received_def lock_operations_def pending_operations_def Let_def
      increment_unexpected_response_operations_def split: option.splits if_splits)

theorem block_operations_received_correct_witness:
  "fst (block_operations_received \<lparr>ofb_hash = [9], ofb_validation_pass = 0\<rparr> sample_peer) = Inr None"
proof -
  define ofb :: operations_for_block where "ofb = \<lparr>ofb_hash = [9], ofb_validation_pass = 0\<rparr>"
  define w where "w = block_operations_received ofb sample_peer"
  have q: "queued_block_operations (ps_queues sample_peer) = []" "\<not> operations_poisoned (ps_queues sample_peer)"
    by (simp_all add: sample_peer_def new_peer_state_def new_data_queues_def add_missing_mempool_operations_def)
  then have "operations_queue_ok (ps_queues sample_peer)" "pending_operations (ps_queues sample_peer) = {}"
    by (simp_all add: operations_queue_ok_def pending_operations_def)
  with block_operations_received_correct [OF q(2), of ofb "fst w" "snd w"] show ?thesis
    by (simp add: w_def ofb_def)
qed

text \<open>
  Handing a batch to the chain feeder succeeds exactly when, after leading blocks
  that are applied already, a block follows that is not applied, has all operations and
  has an applied predecessor; the batch sent starts with that block and contains all that
  follow it. Otherwise nothing is sent and an error is returned.
\<close>

theorem call_apply_block_correct:
  "call_apply_block rd b = Inr b' \<longleftrightarrow>
    (\<exists>skipped. take_all_blocks_to_apply b = skipped @ take_all_blocks_to_apply b' \<and>
       list_all (applied_in rd) skipped \<and> may_apply rd (block_to_apply b'))"
  unfolding list_all_iff by (rule call_apply_block_spec)

end
