(* ===== verification/Bootstrap.thy ===== *)
theory Bootstrap
  imports BranchState DataRequester
begin

text \<open>
  The bootstrap state over all peers (\<^verbatim>\<open>BootstrapState\<close> of
  \<^verbatim>\<open>shell/src/state/bootstrap_state.rs\<close>): every peer has branches that are downloaded and
  applied, all share the scheduled blocks. The queues of a peer are shared with its peer
  state; here they are the current content. Hash maps that are iterated are association
  lists. Batches, requests and notifications sent are results.
\<close>

section \<open>State\<close>

record peer_bootstrap_state =
  pb_peer_id :: peer_id
  pb_queues :: data_queues
  pb_branches :: "branch_state list"
  pb_is_bootstrapped :: bool
  pb_empty :: "nat option"
  pb_ping_scheduled :: bool

record bootstrap_state =
  bt_peers :: "(actor_uri \<times> peer_bootstrap_state) list"
  bt_db :: block_state_db

record bootstrapper_configuration =
  block_header_timeout :: nat
  block_operations_timeout :: nat
  missing_new_branch_bootstrap_timeout :: nat
  max_bootstrap_branches_per_peer :: nat
  max_block_apply_batch :: nat

definition new_bootstrap :: bootstrap_state where
  "new_bootstrap = \<lparr>bt_peers = [], bt_db = []\<rparr>"

definition peers_count :: "bootstrap_state \<Rightarrow> nat" where
  "peers_count st = length (bt_peers st)"

definition blocks_scheduled_count :: "bootstrap_state \<Rightarrow> nat" where
  "blocks_scheduled_count st = length (bt_db st)"

definition clean_peer_data :: "actor_uri \<Rightarrow> bootstrap_state \<Rightarrow> bootstrap_state" where
  "clean_peer_data uri st = st\<lparr>bt_peers := AList.delete uri (bt_peers st)\<rparr>"

section \<open>Stalled peers\<close>

datatype stall_reason =
    NoNewBranch
  | HeaderPending block_hash nat
  | OperationsPending block_hash nat

definition stalled :: "bootstrapper_configuration \<Rightarrow> nat \<Rightarrow> peer_bootstrap_state \<Rightarrow> stall_reason option" where
  "stalled cfg now p =
     (let s1 = (case pb_empty p of
                  Some since \<Rightarrow> if now - since > missing_new_branch_bootstrap_timeout cfg then Some NoNewBranch else None
                | None \<Rightarrow> None);
          s2 = (if s1 = None
                then (case find_any_block_header_response_pending now (block_header_timeout cfg) (pb_queues p) of
                        Inr (Some (b, elapsed)) \<Rightarrow> Some (HeaderPending b elapsed)
                      | _ \<Rightarrow> s1)
                else s1) in
      if s2 = None
      then (case find_any_block_operations_response_pending now (block_operations_timeout cfg) (pb_queues p) of
              Inr (Some (b, elapsed)) \<Rightarrow> Some (OperationsPending b elapsed)
            | _ \<Rightarrow> s2)
      else s2)"

text \<open>The peers to disconnect, each with the reason.\<close>

definition check_stalled_peers :: "bootstrapper_configuration \<Rightarrow> nat \<Rightarrow> bootstrap_state \<Rightarrow>
    (peer_id \<times> stall_reason) list \<times> bootstrap_state" where
  "check_stalled_peers cfg now st =
     (let stalled_peers = List.map_filter (\<lambda>(_, p). map_option (Pair (pb_peer_id p)) (stalled cfg now p)) (bt_peers st) in
      (stalled_peers, fold (\<lambda>(peer, _). clean_peer_data (peer_uri peer)) stalled_peers st))"

section \<open>Branches\<close>

definition mark_empty :: "nat \<Rightarrow> peer_bootstrap_state \<Rightarrow> peer_bootstrap_state" where
  "mark_empty now p = (if pb_branches p = [] \<and> pb_empty p = None then p\<lparr>pb_empty := Some now\<rparr> else p)"

definition update_peers :: "(peer_bootstrap_state \<Rightarrow> peer_bootstrap_state) \<Rightarrow> bootstrap_state \<Rightarrow> bootstrap_state" where
  "update_peers f st = st\<lparr>bt_peers := map (apsnd f) (bt_peers st)\<rparr>"

definition block_apply_failed :: "nat \<Rightarrow> block_hash \<Rightarrow> bootstrap_state \<Rightarrow> bootstrap_state" where
  "block_apply_failed now failed_block st =
     (let st1 = update_peers (\<lambda>p. mark_empty now
                  (p\<lparr>pb_branches := filter (\<lambda>br. \<not> contains_block_to_apply br failed_block) (pb_branches p)\<rparr>)) st in
      st1\<lparr>bt_db := snd (remove_with_all_predecessors failed_block (bt_db st1))\<rparr>)"

text \<open>The first branch that can be extended is; nothing else changes.\<close>

fun merge_first :: "i32 \<Rightarrow> block_hash list \<Rightarrow> block_state_db \<Rightarrow> branch_state list \<Rightarrow> bool \<times> branch_state list" where
  "merge_first to_level missing_history db [] = (False, [])"
| "merge_first to_level missing_history db (br # brs) =
     (case br_merge to_level missing_history db br of
        (True, br') \<Rightarrow> (True, br' # brs)
      | (False, br') \<Rightarrow> apsnd ((#) br') (merge_first to_level missing_history db brs))"

definition add_new_branch :: "peer_id \<Rightarrow> data_queues \<Rightarrow> block_hash \<Rightarrow> block_hash list \<Rightarrow> i32 \<Rightarrow> nat \<Rightarrow>
    bootstrap_state \<Rightarrow> bool option \<times> bootstrap_state" where
  "add_new_branch peer queues last_applied_block missing_history to_level max_branches st =
     (let uri = peer_uri peer;
          new = new_branch last_applied_block missing_history to_level (bt_db st) in
      (case map_of (bt_peers st) uri of
         Some p \<Rightarrow>
           (case merge_first to_level missing_history (bt_db st) (pb_branches p) of
              (True, brs) \<Rightarrow>
                (Some True, st\<lparr>bt_peers := AList.update uri (p\<lparr>pb_branches := brs, pb_empty := None\<rparr>) (bt_peers st)\<rparr>)
            | (False, brs) \<Rightarrow>
                if length (pb_branches p) \<ge> max_branches then (None, st)
                else (Some False,
                  st\<lparr>bt_peers := AList.update uri (p\<lparr>pb_branches := pb_branches p @ [new], pb_empty := None\<rparr>) (bt_peers st)\<rparr>))
       | None \<Rightarrow>
           (Some False,
            st\<lparr>bt_peers := AList.update uri
              \<lparr>pb_peer_id = peer, pb_queues = queues, pb_branches = [new], pb_is_bootstrapped = False,
               pb_empty = None, pb_ping_scheduled = False\<rparr> (bt_peers st)\<rparr>)))"

definition try_update_branch :: "peer_id \<Rightarrow> block_header_with_hash \<Rightarrow> bootstrap_state \<Rightarrow> bool \<times> bootstrap_state" where
  "try_update_branch peer block st =
     (case map_of (bt_peers st) (peer_uri peer) of
        Some p \<Rightarrow>
          let to_level = h_level (bh_header block);
              missing_history = [h_predecessor (bh_header block), bh_hash block] in
          (case merge_first to_level missing_history (bt_db st) (pb_branches p) of
             (True, brs) \<Rightarrow>
               (True, st\<lparr>bt_peers := AList.update (peer_uri peer) (p\<lparr>pb_branches := brs, pb_empty := None\<rparr>) (bt_peers st)\<rparr>)
           | (False, _) \<Rightarrow> (False, st))
      | None \<Rightarrow> (False, st))"

section \<open>Downloads\<close>

text \<open>
  After each branch the remaining capacity is reduced by everything collected so far, as
  the code does; a capacity of zero ends the pass.
\<close>

fun collect_headers :: "reader \<Rightarrow> nat \<Rightarrow> block_hash list \<Rightarrow> block_hash list \<Rightarrow> block_state_db \<Rightarrow> branch_state list \<Rightarrow>
    (block_hash list \<times> block_state_db \<times> branch_state list) option" where
  "collect_headers rd capacity queued missing db [] = Some (missing, db, [])"
| "collect_headers rd capacity queued missing db (br # brs) =
     (if capacity = 0 then Some (missing, db, br # brs)
      else (case collect_next_block_headers_to_download rd capacity queued missing db br of
        None \<Rightarrow> None
      | Some (missing', db', br') \<Rightarrow>
          map_option (apsnd (apsnd ((#) br')))
            (collect_headers rd (capacity - length missing') queued missing' db' brs)))"

definition schedule_blocks_to_download :: "reader \<Rightarrow> nat \<Rightarrow> actor_uri \<Rightarrow> bootstrap_state \<Rightarrow>
    (peer_message list \<times> bootstrap_state) option" where
  "schedule_blocks_to_download rd now uri st =
     (case map_of (bt_peers st) uri of
        None \<Rightarrow> Some ([], st)
      | Some p \<Rightarrow>
          (case get_already_queued_block_headers_and_max_capacity (pb_queues p) of
             Inl _ \<Rightarrow> Some ([], st)
           | Inr (already_queued, capacity) \<Rightarrow>
               (case collect_headers rd capacity already_queued [] (bt_db st) (pb_branches p) of
                  None \<Rightarrow> None
                | Some (missing_blocks, db', brs) \<Rightarrow>
                    (case fetch_block_headers rd now missing_blocks (pb_queues p) of
                       (_, queues', msgs) \<Rightarrow>
                         Some (msgs, st\<lparr>bt_db := db',
                           bt_peers := AList.update uri (p\<lparr>pb_branches := brs, pb_queues := queues'\<rparr>) (bt_peers st)\<rparr>)))))"

fun collect_operations :: "nat \<Rightarrow> block_hash list \<Rightarrow> block_hash list \<Rightarrow> branch_state list \<Rightarrow> block_hash list" where
  "collect_operations capacity queued missing [] = missing"
| "collect_operations capacity queued missing (br # brs) =
     (if capacity = 0 then missing
      else
        let missing' = collect_next_block_operations_to_download capacity queued missing br in
        collect_operations (capacity - length missing') queued missing' brs)"

definition block_operations_downloaded :: "block_hash \<Rightarrow> bootstrap_state \<Rightarrow> bootstrap_state" where
  "block_operations_downloaded b =
     update_peers (\<lambda>p. p\<lparr>pb_branches := map (br_block_operations_downloaded b) (pb_branches p)\<rparr>)"

definition schedule_operations_to_download :: "(block_hash \<Rightarrow> storage_error + op_meta option) \<Rightarrow> nat \<Rightarrow> actor_uri \<Rightarrow>
    bootstrap_state \<Rightarrow> peer_message list \<times> bootstrap_state" where
  "schedule_operations_to_download ops_meta now uri st =
     (case map_of (bt_peers st) uri of
        None \<Rightarrow> ([], st)
      | Some p \<Rightarrow>
          (case get_already_queued_block_operations_and_max_capacity (pb_queues p) of
             Inl _ \<Rightarrow> ([], st)
           | Inr (already_queued, capacity) \<Rightarrow>
               (case fetch_block_operations ops_meta now
                       (collect_operations capacity already_queued [] (pb_branches p)) (pb_queues p) of
                  (_, queues', msgs, already_downloaded) \<Rightarrow>
                    (msgs, fold block_operations_downloaded already_downloaded
                      (st\<lparr>bt_peers := AList.update uri (p\<lparr>pb_queues := queues'\<rparr>) (bt_peers st)\<rparr>)))))"

section \<open>Application\<close>

fun schedule_branches :: "reader \<Rightarrow> nat \<Rightarrow> block_state_db \<Rightarrow> branch_state list \<Rightarrow>
    (i32 set \<times> apply_block_batch list \<times> block_state_db \<times> branch_state list) option" where
  "schedule_branches rd n db [] = Some ({}, [], db, [])"
| "schedule_branches rd n db (br # brs) =
     (case schedule_next_block_to_apply rd n db br of
        None \<Rightarrow> None
      | Some (r, sent, db', br') \<Rightarrow>
          (case schedule_branches rd n db' brs of
             None \<Rightarrow> None
           | Some (failed, sents, db'', brs') \<Rightarrow>
               Some ((case r of Inl _ \<Rightarrow> insert (br_to_level br') failed | Inr _ \<Rightarrow> failed),
                 sent @ sents, db'', br' # brs')))"

definition schedule_blocks_for_apply :: "reader \<Rightarrow> nat \<Rightarrow> actor_uri \<Rightarrow> bootstrap_state \<Rightarrow>
    (apply_block_batch list \<times> bootstrap_state) option" where
  "schedule_blocks_for_apply rd n uri st =
     (case map_of (bt_peers st) uri of
        None \<Rightarrow> Some ([], st)
      | Some p \<Rightarrow>
          (case schedule_branches rd n (bt_db st) (pb_branches p) of
             None \<Rightarrow> None
           | Some (branches_to_remove, sent, db', brs) \<Rightarrow>
               Some (sent, st\<lparr>bt_db := db',
                 bt_peers := AList.update uri
                   (p\<lparr>pb_branches := filter (\<lambda>br. br_to_level br \<notin> branches_to_remove) brs\<rparr>) (bt_peers st)\<rparr>)))"

text \<open>Finished branches are dropped; a peer is announced as synchronized once, with the level of the branch.\<close>

definition finish_branches :: "nat \<Rightarrow> peer_bootstrap_state \<Rightarrow> (peer_id \<times> i32) list \<times> peer_bootstrap_state" where
  "finish_branches now p =
     (let done_branches = filter is_done (pb_branches p);
          announced = (if \<not> pb_is_bootstrapped p
                       then map (\<lambda>br. (pb_peer_id p, br_to_level br)) (take 1 done_branches) else []) in
      (announced, mark_empty now
        (p\<lparr>pb_branches := filter (\<lambda>br. \<not> is_done br) (pb_branches p),
           pb_is_bootstrapped := pb_is_bootstrapped p \<or> done_branches \<noteq> []\<rparr>)))"

definition check_bootstrapped_branches :: "nat \<Rightarrow> peer_id option \<Rightarrow> bootstrap_state \<Rightarrow>
    (peer_id \<times> i32) list \<times> bootstrap_state" where
  "check_bootstrapped_branches now filter_peer st =
     (let selected = (\<lambda>p. case filter_peer of None \<Rightarrow> True | Some f \<Rightarrow> peer_uri f = peer_uri (pb_peer_id p)) in
      (concat (map (\<lambda>(_, p). if selected p then fst (finish_branches now p) else []) (bt_peers st)),
       update_peers (\<lambda>p. if selected p then snd (finish_branches now p) else p) st))"

fun apply_to_branches :: "block_hash set \<Rightarrow> block_state_db \<Rightarrow> branch_state list \<Rightarrow>
    block_hash set \<times> block_state_db \<times> branch_state list" where
  "apply_to_branches applied db [] = (applied, db, [])"
| "apply_to_branches applied db (br # brs) =
     (case br_block_applied applied db br of
        (applied', db', br') \<Rightarrow>
          (case apply_to_branches applied' db' brs of
             (applied'', db'', brs') \<Rightarrow> (applied'', db'', br' # brs')))"

fun apply_to_peers :: "block_hash set \<Rightarrow> block_state_db \<Rightarrow> (actor_uri \<times> peer_bootstrap_state) list \<Rightarrow>
    block_state_db \<times> (actor_uri \<times> peer_bootstrap_state) list" where
  "apply_to_peers applied db [] = (db, [])"
| "apply_to_peers applied db ((uri, p) # ps) =
     (case apply_to_branches applied db (pb_branches p) of
        (applied', db', brs) \<Rightarrow>
          apsnd ((#) (uri, p\<lparr>pb_branches := brs\<rparr>)) (apply_to_peers applied' db' ps))"

definition block_applied :: "nat \<Rightarrow> block_hash \<Rightarrow> bootstrap_state \<Rightarrow> (peer_id \<times> i32) list \<times> bootstrap_state" where
  "block_applied now b st =
     (case remove_with_all_predecessors b (bt_db st) of
        (all_applied_predecessors, db1) \<Rightarrow>
          (case apply_to_peers (set all_applied_predecessors) db1 (bt_peers st) of
             (db2, ps) \<Rightarrow> check_bootstrapped_branches now None (st\<lparr>bt_db := db2, bt_peers := ps\<rparr>)))"

record inner_block_state =
  operations_downloaded :: bool
  inner_applied :: bool

definition block_downloaded :: "nat \<Rightarrow> block_hash \<Rightarrow> inner_block_state \<Rightarrow> bootstrap_state \<Rightarrow>
    (peer_id \<times> i32) list \<times> bootstrap_state" where
  "block_downloaded now b new_state st =
     (if inner_applied new_state then block_applied now b st
      else if operations_downloaded new_state then ([], block_operations_downloaded b st)
      else ([], st))"

section \<open>Reports\<close>

definition block_intervals_stats :: "bootstrap_state \<Rightarrow> nat \<times> nat \<times> nat \<times> nat" where
  "block_intervals_stats st =
     foldl (\<lambda>acc (_, p). foldl (\<lambda>(branches, intervals, opened, scheduled) br.
         (branches + 1,
          intervals + length (br_intervals br),
          opened + length (filter (\<lambda>iv. iv_state iv = Open) (br_intervals br)),
          scheduled + length (filter (\<lambda>iv. iv_state iv = ScheduledForApply) (br_intervals br)))) acc (pb_branches p))
       (0, 0, 0, 0) (bt_peers st)"

definition next_lowest_missing_blocks :: "bootstrap_state \<Rightarrow> (nat \<times> block_hash) list" where
  "next_lowest_missing_blocks st =
     concat (map (\<lambda>(_, p). List.map_filter (\<lambda>br.
         map_option (\<lambda>i. (i, iv_seek (br_intervals br ! i))) (position (\<lambda>iv. iv_state iv = Open) (br_intervals br)))
       (pb_branches p)) (bt_peers st))"

definition peers_branches_level :: "bootstrap_state \<Rightarrow> (i32 \<times> block_hash) list" where
  "peers_branches_level st =
     concat (map (\<lambda>(_, p). List.map_filter (\<lambda>br.
         if br_intervals br = [] then None else Some (br_to_level br, iv_end (last (br_intervals br))))
       (pb_branches p)) (bt_peers st))"

section \<open>The invariant\<close>

text \<open>Every branch is well formed, the branches of a peer are bounded, and so are its queues.\<close>

definition peer_ok :: "nat \<Rightarrow> reader \<Rightarrow> peer_bootstrap_state \<Rightarrow> bool" where
  "peer_ok n rd p \<longleftrightarrow> length (pb_branches p) \<le> max 1 n \<and> (\<forall>br\<in>set (pb_branches p). branch_ok rd br) \<and>
     headers_queue_ok (pb_queues p) \<and> operations_queue_ok (pb_queues p)"

definition bootstrap_ok :: "nat \<Rightarrow> reader \<Rightarrow> bootstrap_state \<Rightarrow> bool" where
  "bootstrap_ok n rd st \<longleftrightarrow> distinct (map fst (bt_peers st)) \<and> (\<forall>(u, p)\<in>set (bt_peers st). peer_ok n rd p)"

lemma bootstrap_ok_peer: "bootstrap_ok n rd st \<Longrightarrow> map_of (bt_peers st) u = Some p \<Longrightarrow> peer_ok n rd p"
  by (auto simp: bootstrap_ok_def dest: map_of_SomeD)

lemma bootstrap_ok_update:
  assumes "bootstrap_ok n rd st" "peer_ok n rd p"
  shows "bootstrap_ok n rd (st\<lparr>bt_peers := AList.update u p (bt_peers st)\<rparr>)"
    "bootstrap_ok n rd (st\<lparr>bt_db := db, bt_peers := AList.update u p (bt_peers st)\<rparr>)"
  using assms set_update_subset [of u p "bt_peers st"]
  by (auto simp: bootstrap_ok_def distinct_update)

lemma bootstrap_ok_update_peers:
  assumes "bootstrap_ok n rd st" "\<And>p. peer_ok n rd p \<Longrightarrow> peer_ok n rd (f p)"
  shows "bootstrap_ok n rd (update_peers f st)"
proof -
  have "map fst (map (apsnd f) (bt_peers st)) = map fst (bt_peers st)"
    by (simp add: comp_def)
  then show ?thesis
    using assms by (auto simp: bootstrap_ok_def update_peers_def)
qed

lemma bootstrap_ok_db [simp]: "bootstrap_ok n rd (st\<lparr>bt_db := db\<rparr>) = bootstrap_ok n rd st"
  by (simp add: bootstrap_ok_def)

lemma peer_ok_filter: "peer_ok n rd p \<Longrightarrow> peer_ok n rd (p\<lparr>pb_branches := filter P (pb_branches p)\<rparr>)"
  by (auto simp: peer_ok_def intro: le_trans [OF length_filter_le])

lemma peer_ok_branches:
  "peer_ok n rd p \<Longrightarrow> length brs = length (pb_branches p) \<Longrightarrow> \<forall>br\<in>set brs. branch_ok rd br \<Longrightarrow>
   peer_ok n rd (p\<lparr>pb_branches := brs\<rparr>)"
  by (simp add: peer_ok_def)

lemma peer_ok_fields [simp]:
  "peer_ok n rd (p\<lparr>pb_empty := e\<rparr>) = peer_ok n rd p"
  "peer_ok n rd (p\<lparr>pb_is_bootstrapped := b\<rparr>) = peer_ok n rd p"
  "peer_ok n rd (mark_empty now p) = peer_ok n rd p"
  by (simp_all add: peer_ok_def mark_empty_def)

subsection \<open>Each operation keeps it\<close>

lemma clean_peer_data_ok: "bootstrap_ok n rd st \<Longrightarrow> bootstrap_ok n rd (clean_peer_data u st)"
  by (auto simp: bootstrap_ok_def clean_peer_data_def distinct_delete) (auto simp: AList.delete_eq)

lemma check_stalled_peers_ok:
  assumes "bootstrap_ok n rd st" "check_stalled_peers cfg now st = (xs, st')"
  shows "bootstrap_ok n rd st'"
proof -
  have "bootstrap_ok n rd (fold (\<lambda>(peer, _). clean_peer_data (peer_uri peer)) ys st)" for ys :: "(peer_id \<times> stall_reason) list"
    using assms(1) by (induction ys arbitrary: st) (auto intro: clean_peer_data_ok)
  then show ?thesis
    using assms(2) by (auto simp: check_stalled_peers_def Let_def)
qed

lemma block_apply_failed_ok:
  assumes "bootstrap_ok n rd st"
  shows "bootstrap_ok n rd (block_apply_failed now b st)"
  unfolding block_apply_failed_def Let_def bootstrap_ok_db
  by (rule bootstrap_ok_update_peers [OF assms]) (simp add: peer_ok_filter)

lemma merge_first_ok:
  assumes "merge_first l hist db brs = (ok, brs')" "\<forall>br\<in>set brs. branch_ok rd br"
  shows "length brs' = length brs \<and> (\<forall>br\<in>set brs'. branch_ok rd br) \<and> (\<not> ok \<longrightarrow> brs' = brs)"
  using assms
proof (induction brs arbitrary: brs')
  case (Cons br brs)
  obtain b br' where m: "br_merge l hist db br = (b, br')"
    by (cases "br_merge l hist db br")
  note mo = br_merge_ok [OF m, of rd] and mc = br_merge_cases [OF m]
  show ?case
  proof (cases b)
    case True
    then show ?thesis
      using Cons.prems m mo by auto
  next
    case False
    obtain ok1 brs1 where r: "merge_first l hist db brs = (ok1, brs1)"
      by (cases "merge_first l hist db brs")
    with False Cons.prems m have "ok = ok1" "brs' = br' # brs1" "br' = br"
      using mc by simp_all
    then show ?thesis
      using Cons.IH [of brs1] r Cons.prems(2) by simp
  qed
qed simp

lemma peer_ok_snoc:
  "peer_ok n rd p \<Longrightarrow> length (pb_branches p) < n \<Longrightarrow> branch_ok rd br \<Longrightarrow>
   peer_ok n rd (p\<lparr>pb_branches := pb_branches p @ [br]\<rparr>)"
  by (auto simp: peer_ok_def)

lemma add_new_branch_ok:
  assumes "bootstrap_ok n rd st" "headers_queue_ok queues" "operations_queue_ok queues"
    and "add_new_branch peer queues b hist l n st = (r, st')"
  shows "bootstrap_ok n rd st'"
proof (cases "map_of (bt_peers st) (peer_uri peer)")
  case None
  have "peer_ok n rd \<lparr>pb_peer_id = peer, pb_queues = queues, pb_branches = [new_branch b hist l (bt_db st)],
      pb_is_bootstrapped = False, pb_empty = None, pb_ping_scheduled = False\<rparr>"
    using assms(2,3) new_branch_ok by (simp add: peer_ok_def)
  then show ?thesis
    using assms(1,4) None bootstrap_ok_update(1) by (auto simp: add_new_branch_def)
next
  case (Some p)
  note po = bootstrap_ok_peer [OF assms(1) Some]
  obtain ok brs where m: "merge_first l hist (bt_db st) (pb_branches p) = (ok, brs)"
    by (cases "merge_first l hist (bt_db st) (pb_branches p)")
  have "\<forall>br\<in>set (pb_branches p). branch_ok rd br"
    using po by (simp add: peer_ok_def)
  note mo = merge_first_ok [OF m this]
  have 1: "peer_ok n rd (p\<lparr>pb_branches := brs, pb_empty := None\<rparr>)"
    using peer_ok_branches [OF po] mo by simp
  have 2: "length (pb_branches p) < n \<Longrightarrow>
      peer_ok n rd (p\<lparr>pb_branches := pb_branches p @ [new_branch b hist l (bt_db st)], pb_empty := None\<rparr>)"
    using peer_ok_snoc [OF po _ new_branch_ok] by simp
  show ?thesis
    using assms(1,4) Some m bootstrap_ok_update(1) [OF assms(1) 1] bootstrap_ok_update(1) [OF assms(1) 2]
    by (cases ok) (auto simp: add_new_branch_def split: if_splits)
qed

lemma try_update_branch_ok:
  assumes "bootstrap_ok n rd st" "try_update_branch peer block st = (r, st')"
  shows "bootstrap_ok n rd st'"
proof (cases "map_of (bt_peers st) (peer_uri peer)")
  case None
  then show ?thesis
    using assms by (simp add: try_update_branch_def)
next
  case (Some p)
  note po = bootstrap_ok_peer [OF assms(1) Some]
  obtain ok brs where m: "merge_first (h_level (bh_header block)) [h_predecessor (bh_header block), bh_hash block]
      (bt_db st) (pb_branches p) = (ok, brs)"
    by fastforce
  have "\<forall>br\<in>set (pb_branches p). branch_ok rd br"
    using po by (simp add: peer_ok_def)
  note mo = merge_first_ok [OF m this]
  have "peer_ok n rd (p\<lparr>pb_branches := brs, pb_empty := None\<rparr>)"
    using peer_ok_branches [OF po] mo by simp
  from bootstrap_ok_update(1) [OF assms(1) this] show ?thesis
    using assms Some m by (cases ok) (auto simp: try_update_branch_def)
qed

subsection \<open>Downloads keep it\<close>

lemma one_more_distinct: "one_more rd ign todo todo' \<Longrightarrow> distinct todo \<Longrightarrow> distinct todo'"
  by (auto simp: one_more_def)

lemma collect_headers_ok:
  assumes "collect_headers rd c queued missing db brs = Some (missing', db', brs')"
    and "\<forall>br\<in>set brs. branch_ok rd br" "distinct missing"
  shows "length brs' = length brs \<and> (\<forall>br\<in>set brs'. branch_ok rd br) \<and> distinct missing' \<and>
    length missing' \<le> length missing + length brs"
  using assms
proof (induction brs arbitrary: c missing db brs')
  case (Cons br brs)
  show ?case
  proof (cases "c = 0")
    case True
    then show ?thesis
      using Cons.prems by auto
  next
    case False
    obtain m1 db1 br1 brs1 where c: "collect_next_block_headers_to_download rd c queued missing db br = Some (m1, db1, br1)"
      and r: "collect_headers rd (c - length m1) queued m1 db1 brs = Some (missing', db', brs1)" "brs' = br1 # brs1"
      using Cons.prems(1) False by (auto split: option.splits)
    have br: "branch_ok rd br" "\<forall>br\<in>set brs. branch_ok rd br"
      using Cons.prems(2) by simp_all
    note s = collect_headers_sound [OF c br(1)]
    then have m1: "distinct m1" "length m1 \<le> length missing + 1"
      using one_more_distinct Cons.prems(3) by (auto simp: one_more_def)
    show ?thesis
      using Cons.IH [OF r(1) br(2) m1(1)] r(2) s m1(2) by simp
  qed
qed auto

lemma collect_headers_terminates_all:
  assumes "descending rd f"
  shows "collect_headers rd c queued missing db brs \<noteq> None"
proof (induction brs arbitrary: c missing db)
  case (Cons br brs)
  obtain m1 db1 br1 where "collect_next_block_headers_to_download rd c queued missing db br = Some (m1, db1, br1)"
    using collect_headers_terminates [OF assms, of c queued missing db br] by auto
  then show ?case
    using Cons.IH by simp
qed simp

lemma fetch_block_headers_queue_ok:
  assumes "headers_queue_ok q" "distinct blocks" "fetch_block_headers rd now blocks q = (r, q', msgs)"
  shows "headers_queue_ok q' \<and> queued_block_operations q' = queued_block_operations q \<and> dq_limits q' = dq_limits q"
proof (cases "headers_poisoned q")
  case True
  then show ?thesis
    using assms by (auto simp: fetch_block_headers_def lock_headers_def split: if_splits)
next
  case False
  then show ?thesis
    using assms wanted_headers_fit [OF assms(1,2)] fetch_block_headers_unfold [OF False assms(2), of rd now]
    by (auto split: if_splits)
qed

lemma schedule_blocks_to_download_ok:
  assumes "bootstrap_ok n rd st" "schedule_blocks_to_download rd now u st = Some (msgs, st')"
  shows "bootstrap_ok n rd st'"
proof (cases "\<exists>p queued c. map_of (bt_peers st) u = Some p \<and>
    get_already_queued_block_headers_and_max_capacity (pb_queues p) = Inr (queued, c)")
  case False
  then show ?thesis
    using assms by (fastforce simp: schedule_blocks_to_download_def split: option.splits sum.splits)
next
  case True
  then obtain p queued c where p: "map_of (bt_peers st) u = Some p"
    "get_already_queued_block_headers_and_max_capacity (pb_queues p) = Inr (queued, c)"
    by blast
  obtain m db' brs where c: "collect_headers rd c queued [] (bt_db st) (pb_branches p) = Some (m, db', brs)"
    using assms(2) p by (auto simp: schedule_blocks_to_download_def split: option.splits)
  obtain r q' where f: "fetch_block_headers rd now m (pb_queues p) = (r, q', msgs)"
    and st': "st' = st\<lparr>bt_db := db', bt_peers := AList.update u (p\<lparr>pb_branches := brs, pb_queues := q'\<rparr>) (bt_peers st)\<rparr>"
    using assms(2) p c by (auto simp: schedule_blocks_to_download_def split: prod.splits)
  note po = bootstrap_ok_peer [OF assms(1) p(1)]
  then have co: "length brs = length (pb_branches p)" "\<forall>br\<in>set brs. branch_ok rd br" "distinct m"
    using collect_headers_ok [OF c] by (simp_all add: peer_ok_def)
  have "headers_queue_ok q' \<and> operations_queue_ok q'"
    using fetch_block_headers_queue_ok [OF _ co(3) f] po by (simp add: peer_ok_def operations_queue_ok_def)
  then have "peer_ok n rd (p\<lparr>pb_branches := brs, pb_queues := q'\<rparr>)"
    using po co by (simp add: peer_ok_def)
  then show ?thesis
    unfolding st' by (rule bootstrap_ok_update(2) [OF assms(1)])
qed

lemma collect_operations_distinct:
  "distinct missing \<Longrightarrow> distinct (collect_operations c queued missing brs)"
proof (induction brs arbitrary: c missing)
  case (Cons br brs)
  have "distinct (collect_next_block_operations_to_download c queued missing br)"
    using operations_loop_spec [of c queued "br_missing_operations br" missing] Cons.prems
    by (auto simp: collect_next_block_operations_to_download_def)
  then show ?case
    using Cons by (simp add: Let_def)
qed simp

lemma fetch_block_operations_queue_ok:
  assumes "operations_queue_ok q" "distinct blocks" "fetch_block_operations om now blocks q = (r, q', msgs, already)"
  shows "operations_queue_ok q' \<and> queued_block_headers q' = queued_block_headers q \<and> dq_limits q' = dq_limits q"
proof (cases "operations_poisoned q")
  case True
  then show ?thesis
    using assms by (auto simp: fetch_block_operations_def lock_operations_def split: if_splits)
next
  case False
  obtain todo al where m: "missing_of_blocks om (operation_candidates blocks q) = (todo, al)"
    by (cases "missing_of_blocks om (operation_candidates blocks q)")
  show ?thesis
    using assms missing_of_blocks_fit [OF assms(1,2) m] fetch_block_operations_unfold [OF False assms(2) m, of now]
    by (auto split: if_splits)
qed

lemma block_operations_downloaded_ok:
  assumes "bootstrap_ok n rd st"
  shows "bootstrap_ok n rd (block_operations_downloaded b st)"
  unfolding block_operations_downloaded_def
  by (rule bootstrap_ok_update_peers [OF assms])
    (auto simp: peer_ok_def branch_ok_def br_block_operations_downloaded_def)

lemma schedule_operations_to_download_ok:
  assumes "bootstrap_ok n rd st" "schedule_operations_to_download om now u st = (msgs, st')"
  shows "bootstrap_ok n rd st'"
proof (cases "\<exists>p queued c. map_of (bt_peers st) u = Some p \<and>
    get_already_queued_block_operations_and_max_capacity (pb_queues p) = Inr (queued, c)")
  case False
  then show ?thesis
    using assms by (fastforce simp: schedule_operations_to_download_def split: option.splits sum.splits)
next
  case True
  then obtain p queued c where p: "map_of (bt_peers st) u = Some p"
    "get_already_queued_block_operations_and_max_capacity (pb_queues p) = Inr (queued, c)"
    by blast
  obtain r q' al where f: "fetch_block_operations om now (collect_operations c queued [] (pb_branches p)) (pb_queues p) =
      (r, q', msgs, al)"
    and st': "st' = fold block_operations_downloaded al (st\<lparr>bt_peers := AList.update u (p\<lparr>pb_queues := q'\<rparr>) (bt_peers st)\<rparr>)"
    using assms(2) p by (auto simp: schedule_operations_to_download_def split: prod.splits)
  note po = bootstrap_ok_peer [OF assms(1) p(1)]
  have "operations_queue_ok q' \<and> headers_queue_ok q'"
    using fetch_block_operations_queue_ok [OF _ collect_operations_distinct f] po
    by (simp add: peer_ok_def headers_queue_ok_def)
  then have "peer_ok n rd (p\<lparr>pb_queues := q'\<rparr>)"
    using po by (simp add: peer_ok_def)
  from bootstrap_ok_update(1) [OF assms(1) this, of u]
  have "bootstrap_ok n rd (fold block_operations_downloaded bs (st\<lparr>bt_peers := AList.update u (p\<lparr>pb_queues := q'\<rparr>) (bt_peers st)\<rparr>))" for bs
    by (induction bs rule: rev_induct) (simp_all add: block_operations_downloaded_ok)
  then show ?thesis
    unfolding st' .
qed

subsection \<open>Application keeps it\<close>

lemma schedule_branches_ok:
  assumes "schedule_branches rd k db brs = Some (failed, sent, db', brs')" "\<forall>br\<in>set brs. branch_ok rd br"
  shows "length brs' = length brs \<and> (\<forall>br\<in>set brs'. branch_ok rd br)"
  using assms
proof (induction brs arbitrary: db failed sent brs')
  case (Cons br brs)
  obtain r s1 db1 br1 failed2 s2 brs2 where
    1: "schedule_next_block_to_apply rd k db br = Some (r, s1, db1, br1)" and
    2: "schedule_branches rd k db1 brs = Some (failed2, s2, db', brs2)" "brs' = br1 # brs2"
    using Cons.prems(1) by (auto split: option.splits)
  then show ?case
    using Cons.IH [OF 2(1)] schedule_next_sound [OF 1] Cons.prems(2) by simp
qed simp

lemma schedule_next_terminates:
  assumes "descending rd f"
  shows "schedule_next_block_to_apply rd k db br \<noteq> None"
proof -
  obtain r1 ivs blocks where "schedule_intervals rd db (br_intervals br) (br_blocks_to_apply br) = Some (r1, ivs, blocks)"
    using schedule_intervals_terminates [OF assms, of db "br_intervals br" "br_blocks_to_apply br"] by auto
  then show ?thesis
    unfolding schedule_next_block_to_apply_def Let_def by (simp split: sum.split prod.split)
qed

lemma schedule_branches_terminates:
  assumes "descending rd f"
  shows "schedule_branches rd k db brs \<noteq> None"
proof (induction brs arbitrary: db)
  case (Cons br brs)
  obtain r s1 db1 br1 where "schedule_next_block_to_apply rd k db br = Some (r, s1, db1, br1)"
    using schedule_next_terminates [OF assms, of k db br] by auto
  then show ?case
    using Cons.IH [of db1] by auto
qed simp

lemma schedule_blocks_for_apply_ok:
  assumes "bootstrap_ok n rd st" "schedule_blocks_for_apply rd k u st = Some (sent, st')"
  shows "bootstrap_ok n rd st'"
proof (cases "map_of (bt_peers st) u")
  case None
  then show ?thesis
    using assms by (simp add: schedule_blocks_for_apply_def)
next
  case (Some p)
  note po = bootstrap_ok_peer [OF assms(1) Some]
  obtain failed db' brs where s: "schedule_branches rd k (bt_db st) (pb_branches p) = Some (failed, sent, db', brs)"
    and st': "st' = st\<lparr>bt_db := db', bt_peers := AList.update u
      (p\<lparr>pb_branches := filter (\<lambda>br. br_to_level br \<notin> failed) brs\<rparr>) (bt_peers st)\<rparr>"
    using assms(2) Some by (auto simp: schedule_blocks_for_apply_def split: option.splits)
  have "peer_ok n rd (p\<lparr>pb_branches := brs\<rparr>)"
    using schedule_branches_ok [OF s] po by (simp add: peer_ok_def)
  from peer_ok_filter [OF this, of "\<lambda>br. br_to_level br \<notin> failed"] show ?thesis
    unfolding st' by (intro bootstrap_ok_update(2) [OF assms(1)]) simp
qed

lemma finish_branches_ok: "peer_ok n rd p \<Longrightarrow> peer_ok n rd (snd (finish_branches now p))"
  using peer_ok_filter [of n rd p "\<lambda>br. \<not> is_done br"] by (simp add: finish_branches_def Let_def)

lemma check_bootstrapped_branches_ok:
  assumes "bootstrap_ok n rd st" "check_bootstrapped_branches now fp st = (out, st')"
  shows "bootstrap_ok n rd st'"
proof -
  have "st' = update_peers (\<lambda>p. if (case fp of None \<Rightarrow> True | Some f \<Rightarrow> peer_uri f = peer_uri (pb_peer_id p))
      then snd (finish_branches now p) else p) st"
    using assms(2) by (simp add: check_bootstrapped_branches_def Let_def)
  then show ?thesis
    using bootstrap_ok_update_peers [OF assms(1)] finish_branches_ok by simp
qed

lemma apply_to_branches_ok:
  assumes "apply_to_branches A db brs = (A', db', brs')" "\<forall>br\<in>set brs. branch_ok rd br"
  shows "length brs' = length brs \<and> (\<forall>br\<in>set brs'. branch_ok rd br)"
  using assms
proof (induction brs arbitrary: A db brs')
  case (Cons br brs)
  obtain A1 db1 br1 where 1: "br_block_applied A db br = (A1, db1, br1)"
    by (cases "br_block_applied A db br")
  obtain A2 db2 brs2 where 2: "apply_to_branches A1 db1 brs = (A2, db2, brs2)"
    by (cases "apply_to_branches A1 db1 brs")
  have "A2 = A'" "db2 = db'" "brs' = br1 # brs2"
    using Cons.prems(1) 1 2 by simp_all
  then show ?case
    using Cons.IH [of A1 db1 brs2] 2 br_block_applied_ok [OF 1] Cons.prems(2) by simp
qed simp

lemma apply_to_peers_ok:
  assumes "apply_to_peers A db ps = (db', ps')" "\<forall>(u, p)\<in>set ps. peer_ok n rd p"
  shows "map fst ps' = map fst ps \<and> (\<forall>(u, p)\<in>set ps'. peer_ok n rd p)"
  using assms
proof (induction A db ps arbitrary: db' ps' rule: apply_to_peers.induct)
  case (2 A db u p ps)
  obtain A1 db1 brs where 1: "apply_to_branches A db (pb_branches p) = (A1, db1, brs)"
    by (cases "apply_to_branches A db (pb_branches p)")
  obtain db2 ps2 where r: "apply_to_peers A1 db1 ps = (db2, ps2)"
    by (cases "apply_to_peers A1 db1 ps")
  have ps': "ps' = (u, p\<lparr>pb_branches := brs\<rparr>) # ps2"
    using "2.prems"(1) 1 r by simp
  have "peer_ok n rd (p\<lparr>pb_branches := brs\<rparr>)"
    using apply_to_branches_ok [OF 1, of rd] "2.prems"(2) by (simp add: peer_ok_def)
  then show ?case
    using "2.IH" [OF 1 [symmetric] refl r] "2.prems"(2) ps' by simp
qed simp

lemma block_applied_ok:
  assumes "bootstrap_ok n rd st" "block_applied now b st = (out, st')"
  shows "bootstrap_ok n rd st'"
proof -
  obtain rs db1 where r: "remove_with_all_predecessors b (bt_db st) = (rs, db1)"
    by (cases "remove_with_all_predecessors b (bt_db st)")
  obtain db2 ps where a: "apply_to_peers (set rs) db1 (bt_peers st) = (db2, ps)"
    by (cases "apply_to_peers (set rs) db1 (bt_peers st)")
  have "bootstrap_ok n rd (st\<lparr>bt_db := db2, bt_peers := ps\<rparr>)"
    using apply_to_peers_ok [OF a, of n rd] assms(1) by (simp add: bootstrap_ok_def)
  then show ?thesis
    using assms(2) r a check_bootstrapped_branches_ok by (simp add: block_applied_def)
qed

lemma block_downloaded_ok:
  "bootstrap_ok n rd st \<Longrightarrow> block_downloaded now b i st = (out, st') \<Longrightarrow> bootstrap_ok n rd st'"
  by (auto simp: block_downloaded_def block_operations_downloaded_ok block_applied_ok split: if_splits)

section \<open>Reachable states\<close>

text \<open>Stored predecessors never change; more blocks become known.\<close>

definition grows :: "reader \<Rightarrow> reader \<Rightarrow> bool" where
  "grows rd rd' \<longleftrightarrow> pred_of rd \<subseteq>\<^sub>m pred_of rd'"

lemma branch_ok_grows: "grows rd rd' \<Longrightarrow> branch_ok rd br \<Longrightarrow> branch_ok rd' br"
  unfolding branch_ok_def seek_ok_def grows_def by (meson iter_opt_mono)

lemma bootstrap_ok_grows: "grows rd rd' \<Longrightarrow> bootstrap_ok n rd st \<Longrightarrow> bootstrap_ok n rd' st"
  by (fastforce simp: bootstrap_ok_def peer_ok_def dest: branch_ok_grows)

text \<open>
  The events the bootstrapper reacts to, the answers of peers that release their place in a
  queue, and the growth of the store in between.
\<close>

inductive bootstrap_step :: "bootstrapper_configuration \<Rightarrow> reader \<times> bootstrap_state \<Rightarrow>
    reader \<times> bootstrap_state \<Rightarrow> bool" for cfg where
  store: "grows rd rd' \<Longrightarrow> bootstrap_step cfg (rd, st) (rd', st)"
| clean: "bootstrap_step cfg (rd, st) (rd, clean_peer_data u st)"
| stalled: "check_stalled_peers cfg now st = (xs, st') \<Longrightarrow> bootstrap_step cfg (rd, st) (rd, st')"
| failed: "bootstrap_step cfg (rd, st) (rd, block_apply_failed now b st)"
| new_branch: "headers_queue_ok q \<Longrightarrow> operations_queue_ok q \<Longrightarrow>
    add_new_branch peer q b hist l (max_bootstrap_branches_per_peer cfg) st = (r, st') \<Longrightarrow>
    bootstrap_step cfg (rd, st) (rd, st')"
| new_head: "try_update_branch peer block st = (r, st') \<Longrightarrow> bootstrap_step cfg (rd, st) (rd, st')"
| headers: "schedule_blocks_to_download rd now u st = Some (msgs, st') \<Longrightarrow> bootstrap_step cfg (rd, st) (rd, st')"
| operations: "schedule_operations_to_download om now u st = (msgs, st') \<Longrightarrow> bootstrap_step cfg (rd, st) (rd, st')"
| apply_blocks: "schedule_blocks_for_apply rd (max_block_apply_batch cfg) u st = Some (sent, st') \<Longrightarrow>
    bootstrap_step cfg (rd, st) (rd, st')"
| downloaded: "block_downloaded now b i st = (out, st') \<Longrightarrow> bootstrap_step cfg (rd, st) (rd, st')"
| finished: "check_bootstrapped_branches now fp st = (out, st') \<Longrightarrow> bootstrap_step cfg (rd, st) (rd, st')"
| header_answer: "map_of (bt_peers st) u = Some p \<Longrightarrow>
    bootstrap_step cfg (rd, st) (rd, st\<lparr>bt_peers := AList.update u
      (p\<lparr>pb_queues := drop_block_data_lock b (pb_queues p)\<rparr>) (bt_peers st)\<rparr>)"
| operations_answer: "map_of (bt_peers st) u = Some p \<Longrightarrow>
    bootstrap_step cfg (rd, st) (rd, st\<lparr>bt_peers := AList.update u
      (p\<lparr>pb_queues := drop_operation_data_lock l (pb_queues p)\<rparr>) (bt_peers st)\<rparr>)"

lemma drop_block_data_lock_ok:
  "headers_queue_ok q \<Longrightarrow> headers_queue_ok (drop_block_data_lock b q)"
  "operations_queue_ok q \<Longrightarrow> operations_queue_ok (drop_block_data_lock b q)"
  by (auto simp: headers_queue_ok_def operations_queue_ok_def drop_block_data_lock_def lock_headers_def distinct_delete
      intro: le_trans [OF length_delete_le])

lemma drop_operation_data_lock_headers: "headers_queue_ok q \<Longrightarrow> headers_queue_ok (drop_operation_data_lock l q)"
  by (auto simp: headers_queue_ok_def drop_operation_data_lock_def lock_operations_def Let_def split: option.split prod.split)

lemma bootstrap_ok_queues:
  assumes "bootstrap_ok n rd st" "map_of (bt_peers st) u = Some p" "headers_queue_ok q" "operations_queue_ok q"
  shows "bootstrap_ok n rd (st\<lparr>bt_peers := AList.update u (p\<lparr>pb_queues := q\<rparr>) (bt_peers st)\<rparr>)"
  using bootstrap_ok_peer [OF assms(1,2)] assms(3,4)
  by (intro bootstrap_ok_update(1) [OF assms(1)]) (simp add: peer_ok_def)

lemma peer_ok_queues: "peer_ok n rd p \<Longrightarrow> headers_queue_ok (pb_queues p) \<and> operations_queue_ok (pb_queues p)"
  by (simp add: peer_ok_def)

lemma bootstrap_step_ok:
  assumes "bootstrap_step cfg s s'" "bootstrap_ok (max_bootstrap_branches_per_peer cfg) (fst s) (snd s)"
  shows "bootstrap_ok (max_bootstrap_branches_per_peer cfg) (fst s') (snd s')"
  using assms
proof (induction rule: bootstrap_step.induct)
  case (header_answer st u p rd b)
  then have "headers_queue_ok (pb_queues p) \<and> operations_queue_ok (pb_queues p)"
    using bootstrap_ok_peer peer_ok_queues by fastforce
  then show ?case
    using header_answer drop_block_data_lock_ok by (simp add: bootstrap_ok_queues)
next
  case (operations_answer st u p rd l)
  then have "headers_queue_ok (pb_queues p) \<and> operations_queue_ok (pb_queues p)"
    using bootstrap_ok_peer peer_ok_queues by fastforce
  then show ?case
    using operations_answer drop_operation_data_lock_ok drop_operation_data_lock_headers by (simp add: bootstrap_ok_queues)
qed (auto intro: bootstrap_ok_grows clean_peer_data_ok check_stalled_peers_ok block_apply_failed_ok add_new_branch_ok
    try_update_branch_ok schedule_blocks_to_download_ok schedule_operations_to_download_ok
    schedule_blocks_for_apply_ok block_downloaded_ok check_bootstrapped_branches_ok)

lemma new_bootstrap_ok: "bootstrap_ok n rd new_bootstrap"
  by (simp add: bootstrap_ok_def new_bootstrap_def)

lemma bootstrap_steps_ok:
  assumes "(bootstrap_step cfg)\<^sup>*\<^sup>* (rd0, new_bootstrap) (rd, st)"
  shows "bootstrap_ok (max_bootstrap_branches_per_peer cfg) rd st"
proof -
  have "bootstrap_ok (max_bootstrap_branches_per_peer cfg) (fst s) (snd s)"
    if "(bootstrap_step cfg)\<^sup>*\<^sup>* (rd0, new_bootstrap) s" for s
    using that by (induction rule: rtranclp_induct) (simp_all add: new_bootstrap_ok bootstrap_step_ok)
  then show ?thesis
    using assms by fastforce
qed

section \<open>Properties\<close>

text \<open>
  Property C13. In every state the bootstrapper can reach, however events, answers and growth
  of the store interleave: no peer has more branches than configured (at least one), the
  intervals of every branch are chained and known between seek and end, and the queues of
  every peer respect their limits.
\<close>

theorem bootstrap_reachable_ok:
  assumes "(bootstrap_step cfg)\<^sup>*\<^sup>* (rd0, new_bootstrap) (rd, st)" "map_of (bt_peers st) u = Some p"
  shows "length (pb_branches p) \<le> max 1 (max_bootstrap_branches_per_peer cfg) \<and>
    (\<forall>br\<in>set (pb_branches p). linked_intervals (br_intervals br) \<and> (\<forall>iv\<in>set (br_intervals br). seek_ok rd iv)) \<and>
    length (queued_block_headers (pb_queues p)) \<le> unat (max_queued_block_headers_count (dq_limits (pb_queues p))) \<and>
    length (queued_block_operations (pb_queues p)) \<le> unat (max_queued_block_operations_count (dq_limits (pb_queues p)))"
  using bootstrap_ok_peer [OF bootstrap_steps_ok [OF assms(1)] assms(2)]
  by (simp add: peer_ok_def branch_ok_def headers_queue_ok_def operations_queue_ok_def)

theorem bootstrap_reachable_ok_witness:
  "\<exists>p. map_of (bt_peers (snd (add_new_branch (ps_peer_id sample_peer) (ps_queues sample_peer) [0] [[3], [9]] 9 2 new_bootstrap))) ''peer'' = Some p \<and>
     length (pb_branches p) \<le> 2"
proof -
  define cfg where "cfg = \<lparr>block_header_timeout = 0, block_operations_timeout = 0,
    missing_new_branch_bootstrap_timeout = 0, max_bootstrap_branches_per_peer = 2, max_block_apply_batch = 5\<rparr>"
  define a where "a = add_new_branch (ps_peer_id sample_peer) (ps_queues sample_peer) [0] [[3], [9]] 9
    (max_bootstrap_branches_per_peer cfg) new_bootstrap"
  have q: "ps_queues sample_peer = new_data_queues \<lparr>max_queued_block_headers_count = 5, max_queued_block_operations_count = 5\<rparr>"
    "peer_uri (ps_peer_id sample_peer) = ''peer''"
    by (simp_all add: sample_peer_def new_peer_state_def add_missing_mempool_operations_def)
  have "headers_queue_ok (ps_queues sample_peer)" "operations_queue_ok (ps_queues sample_peer)"
    by (simp_all add: q new_data_queues_def headers_queue_ok_def operations_queue_ok_def)
  then have "bootstrap_step cfg (chain_reader, new_bootstrap) (chain_reader, snd a)"
    by (rule bootstrap_step.new_branch [where r = "fst a"]) (simp add: a_def)
  then have r: "(bootstrap_step cfg)\<^sup>*\<^sup>* (chain_reader, new_bootstrap) (chain_reader, snd a)"
    by blast
  have "\<exists>p. map_of (bt_peers (snd a)) ''peer'' = Some p"
    unfolding a_def add_new_branch_def new_bootstrap_def Let_def q by simp
  then obtain p where p: "map_of (bt_peers (snd a)) ''peer'' = Some p"
    by blast
  from bootstrap_reachable_ok [OF r p] p show ?thesis
    by (simp add: a_def cfg_def)
qed

text \<open>
  Property C26. The rounds that walk along stored predecessors return for every state of the
  bootstrapper: requesting headers and scheduling blocks for application end, whatever
  the branches are (stored levels fall along predecessors).
\<close>

theorem bootstrap_rounds_return:
  assumes "descending rd f"
  shows "(\<exists>msgs st'. schedule_blocks_to_download rd now u st = Some (msgs, st')) \<and>
    (\<exists>sent st''. schedule_blocks_for_apply rd k u st = Some (sent, st''))"
proof
  show "\<exists>msgs st'. schedule_blocks_to_download rd now u st = Some (msgs, st')"
  proof -
    have "schedule_blocks_to_download rd now u st \<noteq> None"
      using collect_headers_terminates_all [OF assms]
      by (simp add: schedule_blocks_to_download_def del: not_None_eq split: option.split sum.split prod.split)
    then show ?thesis
      by auto
  qed
  show "\<exists>sent st''. schedule_blocks_for_apply rd k u st = Some (sent, st'')"
  proof -
    have "schedule_blocks_for_apply rd k u st \<noteq> None"
      using schedule_branches_terminates [OF assms] by (simp add: schedule_blocks_for_apply_def del: not_None_eq split: option.split prod.split)
    then show ?thesis
      by auto
  qed
qed

theorem bootstrap_rounds_return_witness:
  "\<exists>sent st''. schedule_blocks_for_apply chain_reader 5 ''peer''
     (snd (add_new_branch (ps_peer_id sample_peer) (ps_queues sample_peer) [0] [[3]] 3 2 new_bootstrap)) = Some (sent, st'')"
  using bootstrap_rounds_return [OF chain_reader_descending] by blast

lemma fst_finish_branches:
  "map fst (fst (finish_branches now p)) =
     (if \<not> pb_is_bootstrapped p \<and> (\<exists>br\<in>set (pb_branches p). is_done br) then [pb_peer_id p] else [])"
proof (cases "filter is_done (pb_branches p)")
  case Nil
  then show ?thesis
    by (auto simp: finish_branches_def Let_def filter_empty_conv)
next
  case (Cons br brs)
  then have "set (filter is_done (pb_branches p)) = set (br # brs)"
    by simp
  then have "br \<in> set (pb_branches p)" "is_done br"
    by auto
  then show ?thesis
    using Cons by (auto simp: finish_branches_def Let_def)
qed

lemma snd_finish_branches:
  "pb_branches (snd (finish_branches now p)) = filter (\<lambda>br. \<not> is_done br) (pb_branches p)"
  by (simp add: finish_branches_def Let_def mark_empty_def)

lemma announced_peers:
  "map fst (concat (map (\<lambda>(_, p). fst (finish_branches now p)) ps)) = map (pb_peer_id \<circ> snd)
     (filter (\<lambda>(u, p). \<not> pb_is_bootstrapped p \<and> list_ex is_done (pb_branches p)) ps)"
  by (induction ps) (simp_all add: fst_finish_branches list_ex_iff split_def)

text \<open>
  A check for finished branches over all peers announces exactly the peers that
  are not yet marked as synchronized and have a finished branch, each once; afterwards no
  finished branch is left, and a second check announces nobody.
\<close>

theorem check_bootstrapped_branches_correct:
  assumes "check_bootstrapped_branches now None st = (announced, st')"
  shows "map fst announced = map (pb_peer_id \<circ> snd)
      (filter (\<lambda>(u, p). \<not> pb_is_bootstrapped p \<and> list_ex is_done (pb_branches p)) (bt_peers st)) \<and>
    (\<forall>(u, p)\<in>set (bt_peers st'). \<not> list_ex is_done (pb_branches p)) \<and>
    fst (check_bootstrapped_branches now' None st') = []"
proof -
  have out: "announced = concat (map (\<lambda>(_, p). fst (finish_branches now p)) (bt_peers st))"
    and peers: "bt_peers st' = map (apsnd (\<lambda>p. snd (finish_branches now p))) (bt_peers st)"
    using assms by (auto simp: check_bootstrapped_branches_def update_peers_def Let_def)
  have 1: "map fst announced = map (pb_peer_id \<circ> snd)
      (filter (\<lambda>(u, p). \<not> pb_is_bootstrapped p \<and> list_ex is_done (pb_branches p)) (bt_peers st))"
    unfolding out by (rule announced_peers)
  have 2: "\<forall>(u, p)\<in>set (bt_peers st'). \<not> list_ex is_done (pb_branches p)"
    unfolding peers by (auto simp: list_ex_iff snd_finish_branches)
  then have "fst (finish_branches now' p) = []" if "(u, p) \<in> set (bt_peers st')" for u p
    using that fst_finish_branches [of now' p] by (auto simp: list_ex_iff split: if_splits)
  then have "fst (check_bootstrapped_branches now' None st') = []"
    by (auto simp: check_bootstrapped_branches_def Let_def)
  with 1 2 show ?thesis
    by blast
qed

theorem check_bootstrapped_branches_correct_witness:
  "fst (check_bootstrapped_branches 8 None (snd (check_bootstrapped_branches 7 None new_bootstrap))) = []"
  using check_bootstrapped_branches_correct [of 7 new_bootstrap "fst (check_bootstrapped_branches 7 None new_bootstrap)"
      "snd (check_bootstrapped_branches 7 None new_bootstrap)" 8] by simp

end
