(* ===== verification/Synchronization.thy ===== *)
theory Synchronization
  imports PeerState "HOL-Library.Signed_Division"
begin

text \<open>
  When the node counts as bootstrapped (\<^verbatim>\<open>shell/src/state/synchronization_state.rs\<close>):
  enough peers have sent a branch close to the best known level and the local head is
  close to it as well. Levels are 32-bit signed integers with checked arithmetic.
\<close>

section \<open>Checked 32-bit arithmetic\<close>

definition i32_of :: "int \<Rightarrow> i32 option" where
  "i32_of x = (if - (2 ^ 31) \<le> x \<and> x < 2 ^ 31 then Some (word_of_int x) else None)"

definition checked_mul :: "i32 \<Rightarrow> i32 \<Rightarrow> i32 option" where
  "checked_mul a b = i32_of (sint a * sint b)"

definition checked_div :: "i32 \<Rightarrow> i32 \<Rightarrow> i32 option" where
  "checked_div a b = (if b = 0 then None else i32_of (sint a sdiv sint b))"

section \<open>State\<close>

record synchronization_bootstrap_state =
  num_of_peers_for_bootstrap_threshold :: nat
  current_bootstrapped_status :: bool
  sync_state :: "(bytes \<times> i32) list"

record peer_branch_synchronization_done =
  sd_peer :: peer_id
  sd_to_level :: i32

definition HIGH_LEVEL_MARGIN_PERCENTAGE :: i32 where
  "HIGH_LEVEL_MARGIN_PERCENTAGE = 99"

definition new_synchronization :: "nat \<Rightarrow> bool \<Rightarrow> synchronization_bootstrap_state" where
  "new_synchronization threshold status =
     \<lparr>num_of_peers_for_bootstrap_threshold = threshold,
      current_bootstrapped_status = (if threshold = 0 then True else status), sync_state = []\<rparr>"

definition consider_as_bootstrapped :: "i32 \<Rightarrow> i32 \<Rightarrow> i32 \<Rightarrow> bool" where
  "consider_as_bootstrapped tested_level target_level percentage_margin =
     (case checked_mul tested_level 100 of
        Some p \<Rightarrow>
          let calculated_percentage = (case checked_div p target_level of Some q \<Rightarrow> q | None \<Rightarrow> 0) in
          if sint calculated_percentage \<ge> sint percentage_margin then True else False
      | None \<Rightarrow> False)"

definition num_of_bootstrapped_peers :: "i32 \<Rightarrow> synchronization_bootstrap_state \<Rightarrow> nat" where
  "num_of_bootstrapped_peers best_known_level st =
     length (filter (\<lambda>l. consider_as_bootstrapped l best_known_level HIGH_LEVEL_MARGIN_PERCENTAGE)
       (map snd (sync_state st)))"

definition update_by_new_local_head :: "i32 \<Rightarrow> i32 \<Rightarrow> synchronization_bootstrap_state \<Rightarrow>
    bool \<times> synchronization_bootstrap_state" where
  "update_by_new_local_head remote_best_known_level local_best_known_level st =
     (let st' = (if num_of_peers_for_bootstrap_threshold st \<le> num_of_bootstrapped_peers remote_best_known_level st
                 then (if consider_as_bootstrapped local_best_known_level remote_best_known_level HIGH_LEVEL_MARGIN_PERCENTAGE
                       then st\<lparr>current_bootstrapped_status := True, sync_state := []\<rparr> else st)
                 else st) in
      (current_bootstrapped_status st', st'))"

text \<open>The target is the peer whose flag is updated.\<close>

definition update_by_peer_state :: "peer_branch_synchronization_done \<Rightarrow> i32 \<Rightarrow> i32 \<Rightarrow>
    peer_state \<times> synchronization_bootstrap_state \<Rightarrow> peer_state \<times> synchronization_bootstrap_state" where
  "update_by_peer_state new_update remote_best_known_level local_best_known_level s =
     (case s of (target, st) \<Rightarrow>
       if current_bootstrapped_status st then (target, st)
       else
         let peer_key = peer_public_key_hash (sd_peer new_update);
             level = (case map_of (sync_state st) peer_key of
                        Some peer_to_level \<Rightarrow>
                          if sint peer_to_level < sint (sd_to_level new_update) then sd_to_level new_update else peer_to_level
                      | None \<Rightarrow> sd_to_level new_update);
             target' = set_is_bootstrapped
               (consider_as_bootstrapped level remote_best_known_level HIGH_LEVEL_MARGIN_PERCENTAGE) target;
             st' = st\<lparr>sync_state := AList.update peer_key level (sync_state st)\<rparr> in
         (target', snd (update_by_new_local_head remote_best_known_level local_best_known_level st')))"

section \<open>Lemmas\<close>

lemma sint_i32_of: "i32_of x = Some w \<Longrightarrow> sint w = x"
  by (auto simp: i32_of_def sint_sbintrunc' signed_take_bit_int_eq_self split: if_splits)

lemma sdiv_nonneg: "0 \<le> a \<Longrightarrow> 0 < b \<Longrightarrow> (a::int) sdiv b = a div b"
  by (simp add: signed_divide_int_def sgn_if)

lemma div_margin:
  assumes "0 < (b::int)"
  shows "99 \<le> a div b \<longleftrightarrow> 99 * b \<le> a"
proof
  assume "99 \<le> a div b"
  then have "99 * b \<le> (a div b) * b"
    using assms by simp
  also have "\<dots> \<le> a"
    using assms by (metis add.commute le_add_same_cancel1 mod_mult_div_eq mult.commute pos_mod_sign)
  finally show "99 * b \<le> a" .
next
  assume "99 * b \<le> a"
  then show "99 \<le> a div b"
    using zdiv_mono1 [of "99 * b" a b] assms by simp
qed

lemma consider_as_bootstrapped_iff:
  assumes "0 \<le> sint t" "0 < sint T"
  shows "consider_as_bootstrapped t T HIGH_LEVEL_MARGIN_PERCENTAGE \<longleftrightarrow>
    sint t * 100 < 2 ^ 31 \<and> 99 * sint T \<le> 100 * sint t"
proof (cases "sint t * 100 < 2 ^ 31")
  case True
  then obtain p where p: "checked_mul t 100 = Some p" "sint p = sint t * 100"
    using assms(1) sint_i32_of by (force simp: checked_mul_def i32_of_def)
  have "T \<noteq> 0"
    using assms(2) by auto
  have bound: "sint p div sint T \<le> sint p" "0 \<le> sint p div sint T"
    using p(2) assms zdiv_mono2 [of "sint p" 1 "sint T"] by (simp_all add: pos_imp_zdiv_nonneg_iff)
  have "checked_div p T = i32_of (sint p div sint T)"
    using \<open>T \<noteq> 0\<close> p(2) assms by (simp add: checked_div_def sdiv_nonneg)
  moreover have "i32_of (sint p div sint T) \<noteq> None"
    using bound True p(2) by (simp add: i32_of_def)
  ultimately obtain q where q: "checked_div p T = Some q" "sint q = sint p div sint T"
    using sint_i32_of by auto
  then show ?thesis
    using p True div_margin [OF assms(2), of "sint p"]
    by (simp add: consider_as_bootstrapped_def HIGH_LEVEL_MARGIN_PERCENTAGE_def mult.commute)
next
  case False
  then show ?thesis
    using assms(1) by (simp add: consider_as_bootstrapped_def checked_mul_def i32_of_def)
qed

lemma count_values:
  "distinct (map fst kvs) \<Longrightarrow> length (filter P (map snd kvs)) = card {k. \<exists>v. map_of kvs k = Some v \<and> P v}"
proof (induction kvs)
  case (Cons kv kvs)
  obtain k v where kv: "kv = (k, v)"
    by (cases kv)
  let ?S = "{k. \<exists>v. map_of kvs k = Some v \<and> P v}"
  have fin: "finite ?S"
    by (rule finite_subset [OF _ finite_dom_map_of [of kvs]]) auto
  have k: "map_of kvs k = None"
    using Cons.prems kv by (simp add: map_of_eq_None_iff)
  then have "{j. \<exists>w. map_of (kv # kvs) j = Some w \<and> P w} = (if P v then insert k ?S else ?S)"
    using kv by (auto split: if_splits)
  moreover have "k \<notin> ?S"
    using k by simp
  ultimately show ?case
    using Cons kv fin by simp
qed simp

section \<open>Properties\<close>

text \<open>
  Property C35. For levels as they occur (not negative, best known level positive), a level
  counts as synchronized exactly when it is at least 99 percent of the best known level
  and its hundredfold still fits into 32 signed bits; a level above 21474836 never counts.
\<close>

theorem consider_as_bootstrapped_correct:
  assumes "0 \<le> sint t" "0 < sint T"
  shows "consider_as_bootstrapped t T HIGH_LEVEL_MARGIN_PERCENTAGE \<longleftrightarrow>
    sint t \<le> 21474836 \<and> 99 * sint T \<le> 100 * sint t"
  using consider_as_bootstrapped_iff [OF assms] by auto

theorem consider_as_bootstrapped_correct_witness:
  "consider_as_bootstrapped 99 100 HIGH_LEVEL_MARGIN_PERCENTAGE \<and>
   \<not> consider_as_bootstrapped 21474837 21474837 HIGH_LEVEL_MARGIN_PERCENTAGE"
  using consider_as_bootstrapped_correct [of 99 100] consider_as_bootstrapped_correct [of 21474837 21474837] by simp

text \<open>
  A report of a synchronized peer records the highest level the peer has
  reported and marks the peer by it; the node becomes bootstrapped exactly when, with this
  report, at least as many peers as required are synchronized and the local level is too.
  A bootstrapped node stays bootstrapped and ignores reports.
\<close>

theorem update_by_peer_state_correct:
  fixes st :: synchronization_bootstrap_state
  assumes "distinct (map fst (sync_state st))" "update_by_peer_state upd remote loc (target, st) = (target', st')"
  defines "key \<equiv> peer_public_key_hash (sd_peer upd)"
    and "synced \<equiv> \<lambda>l. consider_as_bootstrapped l remote HIGH_LEVEL_MARGIN_PERCENTAGE"
  shows "if current_bootstrapped_status st then st' = st \<and> target' = target
    else \<exists>l. sint l = (case map_of (sync_state st) key of None \<Rightarrow> sint (sd_to_level upd)
                | Some old \<Rightarrow> max (sint old) (sint (sd_to_level upd))) \<and>
      target' = target\<lparr>is_bootstrapped := synced l\<rparr> \<and>
      (current_bootstrapped_status st' \<longleftrightarrow>
         num_of_peers_for_bootstrap_threshold st \<le>
           card {k. \<exists>v. ((map_of (sync_state st))(key \<mapsto> l)) k = Some v \<and> synced v} \<and> synced loc) \<and>
      (\<not> current_bootstrapped_status st' \<longrightarrow> map_of (sync_state st') = (map_of (sync_state st))(key \<mapsto> l))"
proof (cases "current_bootstrapped_status st")
  case True
  then show ?thesis
    using assms(2) by (simp add: update_by_peer_state_def)
next
  case False
  define l where "l = (case map_of (sync_state st) key of
      Some old \<Rightarrow> if sint old < sint (sd_to_level upd) then sd_to_level upd else old | None \<Rightarrow> sd_to_level upd)"
  define st1 where "st1 = st\<lparr>sync_state := AList.update key l (sync_state st)\<rparr>"
  have t: "target' = target\<lparr>is_bootstrapped := synced l\<rparr>" "st' = snd (update_by_new_local_head remote loc st1)"
    using assms(2) False unfolding update_by_peer_state_def l_def st1_def key_def synced_def
    by (auto simp: Let_def set_is_bootstrapped_def)
  have l: "sint l = (case map_of (sync_state st) key of None \<Rightarrow> sint (sd_to_level upd)
                | Some old \<Rightarrow> max (sint old) (sint (sd_to_level upd)))"
    by (auto simp: l_def split: option.split)
  have m: "map_of (sync_state st1) = (map_of (sync_state st))(key \<mapsto> l)" "\<not> current_bootstrapped_status st1"
    "num_of_peers_for_bootstrap_threshold st1 = num_of_peers_for_bootstrap_threshold st"
    using False by (simp_all add: st1_def update_conv')
  have "num_of_bootstrapped_peers remote st1 = card {k. \<exists>v. map_of (sync_state st1) k = Some v \<and> synced v}"
    using count_values [of "sync_state st1" synced] assms(1)
    by (simp add: num_of_bootstrapped_peers_def synced_def st1_def distinct_update)
  then have "current_bootstrapped_status st' \<longleftrightarrow>
         num_of_peers_for_bootstrap_threshold st \<le>
           card {k. \<exists>v. ((map_of (sync_state st))(key \<mapsto> l)) k = Some v \<and> synced v} \<and> synced loc"
    using t(2) m by (simp add: update_by_new_local_head_def synced_def Let_def)
  moreover have "\<not> current_bootstrapped_status st' \<Longrightarrow> map_of (sync_state st') = (map_of (sync_state st))(key \<mapsto> l)"
    using t(2) m by (auto simp: update_by_new_local_head_def Let_def split: if_splits)
  ultimately show ?thesis
    using False l t(1) by auto
qed

theorem update_by_peer_state_correct_witness:
  "current_bootstrapped_status (snd (update_by_peer_state \<lparr>sd_peer = ps_peer_id sample_peer, sd_to_level = 100\<rparr> 100 100
     (sample_peer, new_synchronization 1 False)))"
proof -
  define upd where "upd = \<lparr>sd_peer = ps_peer_id sample_peer, sd_to_level = 100\<rparr>"
  define w where "w = update_by_peer_state upd 100 100 (sample_peer, new_synchronization 1 False)"
  have s: "sync_state (new_synchronization 1 False) = []" "\<not> current_bootstrapped_status (new_synchronization 1 False)"
    "num_of_peers_for_bootstrap_threshold (new_synchronization 1 False) = 1"
    by (simp_all add: new_synchronization_def)
  have synced: "consider_as_bootstrapped 100 100 HIGH_LEVEL_MARGIN_PERCENTAGE"
    using consider_as_bootstrapped_iff [of 100 100] by simp
  have lev: "sint l = 100 \<Longrightarrow> l = (100 :: i32)" for l
    by (metis scast_eq scast_id word_of_int_numeral)
  have eq: "{k. \<exists>v. ([peer_public_key_hash (sd_peer upd) \<mapsto> (100 :: i32)]) k = Some v \<and>
      consider_as_bootstrapped v 100 HIGH_LEVEL_MARGIN_PERCENTAGE} = {peer_public_key_hash (sd_peer upd)}"
    using synced by (auto split: if_splits)
  have "update_by_peer_state upd 100 100 (sample_peer, new_synchronization 1 False) = (fst w, snd w)"
    by (simp add: w_def)
  from update_by_peer_state_correct [OF _ this] s obtain l where l: "sint l = sint (sd_to_level upd)"
    "current_bootstrapped_status (snd w) \<longleftrightarrow> 1 \<le> card {k. \<exists>v. ([peer_public_key_hash (sd_peer upd) \<mapsto> l]) k = Some v \<and>
      consider_as_bootstrapped v 100 HIGH_LEVEL_MARGIN_PERCENTAGE} \<and> consider_as_bootstrapped 100 100 HIGH_LEVEL_MARGIN_PERCENTAGE"
    by auto
  have "l = 100"
    using l(1) lev by (simp add: upd_def)
  then have "current_bootstrapped_status (snd w)"
    using l(2) synced unfolding eq [symmetric] by (simp only: eq) simp
  then show ?thesis
    by (simp add: w_def upd_def)
qed

end
