(* ===== verification/SeededStep.thy ===== *)
theory SeededStep
  imports Prelude "HOL-Library.Signed_Division"
begin

text \<open>
  The pseudo-random steps of a block locator (\<^verbatim>\<open>crypto/src/seeded_step.rs\<close>). SHA-256 is
  third-party code and a parameter; the code relies on a digest of at least four bytes.
  The 32-bit arithmetic wraps as in a release build.
\<close>

record seed =
  sender_id :: bytes
  receiver_id :: bytes

record step =
  st_step :: i32
  st_counter :: i32
  st_seed :: bytes

definition step_init :: "(bytes \<Rightarrow> bytes) \<Rightarrow> seed \<Rightarrow> block_hash \<Rightarrow> step" where
  "step_init sha256 sd bh = \<lparr>st_step = 1, st_counter = 9, st_seed = sha256 (sender_id sd @ receiver_id sd @ bh)\<rparr>"

definition i32_from_be_bytes :: "bytes \<Rightarrow> i32" where
  "i32_from_be_bytes bs = word_of_nat (from_be_bytes bs)"

definition i32_div :: "i32 \<Rightarrow> i32 \<Rightarrow> i32" where
  "i32_div a b = word_of_int (sint a sdiv sint b)"

definition i32_rem :: "i32 \<Rightarrow> i32 \<Rightarrow> i32" where
  "i32_rem a b = word_of_int (sint a smod sint b)"

text \<open>The gap is taken from the seed and the seed is hashed, unless the step is still one.\<close>

definition random_gap :: "(bytes \<Rightarrow> bytes) \<Rightarrow> step \<Rightarrow> i32 \<times> step" where
  "random_gap sha256 st =
     (if sint (st_step st) \<le> 1 then (0, st)
      else
        let n = i32_div (st_step st) 2 + 1;
            gap = i32_rem (i32_from_be_bytes (take 4 (st_seed st))) n in
        (gap, st\<lparr>st_seed := sha256 (st_seed st)\<rparr>))"

definition step_next :: "(bytes \<Rightarrow> bytes) \<Rightarrow> step \<Rightarrow> i32 \<times> step" where
  "step_next sha256 st =
     (case random_gap sha256 st of
        (gap, st1) \<Rightarrow>
          (case (if st_counter st1 = 0
                 then (st_step st1, st1\<lparr>st_counter := 9, st_step := st_step st1 * 2\<rparr>)
                 else (st_step st1, st1\<lparr>st_counter := st_counter st1 - 1\<rparr>)) of
             (old_step, st2) \<Rightarrow> (old_step - gap, st2)))"

text \<open>The first steps, and the generator after them.\<close>

fun steps :: "(bytes \<Rightarrow> bytes) \<Rightarrow> nat \<Rightarrow> step \<Rightarrow> i32 list \<times> step" where
  "steps sha256 0 st = ([], st)"
| "steps sha256 (Suc n) st =
     (case step_next sha256 st of (v, st') \<Rightarrow> apfst ((#) v) (steps sha256 n st'))"

section \<open>Bounds\<close>

text \<open>After \<open>k\<close> calls: the step has doubled every ten calls and the counter runs down.\<close>

definition step_at :: "nat \<Rightarrow> step \<Rightarrow> bool" where
  "step_at k st \<longleftrightarrow> st_step st = 2 ^ (k div 10) \<and> st_counter st = word_of_nat (9 - k mod 10)"

lemma sint_small: "- 2147483648 \<le> x \<Longrightarrow> x < 2147483648 \<Longrightarrow> sint (word_of_int x :: i32) = x"
  by (simp only: sint_sbintrunc') (simp add: signed_take_bit_int_eq_self)

lemma pow2_bound:
  assumes "q < 31"
  shows "0 < (2 :: int) ^ q" "(2 :: int) ^ q \<le> 1073741824"
  using power_increasing [of q 30 "2 :: int"] assms by simp_all

lemma sint_pow2: "q < 31 \<Longrightarrow> sint (2 ^ q :: i32) = 2 ^ q"
  using sint_small [of "2 ^ q"] pow2_bound [of q] by (simp add: order_trans [of _ 0])

lemma word_of_int_sint: "(word_of_int (sint w) :: i32) = w"
  by (simp add: scast_eq [symmetric])

lemma abs_smod_less:
  assumes "0 < (n :: int)"
  shows "\<bar>a smod n\<bar> < n"
proof -
  have "a smod n = sgn a * (\<bar>a\<bar> mod n)"
    using assms by (simp add: signed_modulo_int_def signed_divide_int_def sgn_if minus_mult_div_eq_mod [symmetric]
        zmod_zminus1_eq_if algebra_simps)
  then show ?thesis
    using assms by (auto simp: abs_mult sgn_if)
qed

lemma random_gap_bound:
  assumes "st_step st = 2 ^ q" "q < 31"
  shows "\<bar>sint (fst (random_gap sha256 st))\<bar> \<le> 2 ^ q div 2"
    "st_step (snd (random_gap sha256 st)) = st_step st" "st_counter (snd (random_gap sha256 st)) = st_counter st"
proof -
  have s: "sint (st_step st) = 2 ^ q"
    using assms by (simp add: sint_pow2)
  show "\<bar>sint (fst (random_gap sha256 st))\<bar> \<le> 2 ^ q div 2"
  proof (cases q)
    case 0
    then show ?thesis
      using s by (simp add: random_gap_def)
  next
    case (Suc r)
    note r = pow2_bound [of r]
    then have n: "sint (i32_div (st_step st) 2 + 1) = 2 ^ r + 1"
      using sint_small [of "2 ^ r + 1"] Suc assms(2) by (simp add: i32_div_def s Suc signed_divide_int_def)
    define gap where "gap = sint (i32_from_be_bytes (take 4 (st_seed st))) smod (2 ^ r + 1)"
    have g: "\<bar>gap\<bar> \<le> 2 ^ r"
      using abs_smod_less [of "2 ^ r + 1" "sint (i32_from_be_bytes (take 4 (st_seed st)))"] by (simp add: gap_def)
    then have "sint (word_of_int gap :: i32) = gap"
      using r Suc assms(2) by (intro sint_small) simp_all
    moreover have "\<not> sint (st_step st) \<le> 1"
    proof -
      have "(1 :: int) \<le> 2 ^ r"
        by simp
      then show ?thesis
        unfolding s Suc power_Suc by linarith
    qed
    ultimately show ?thesis
      using g n by (simp add: random_gap_def Let_def i32_rem_def gap_def Suc)
  qed
qed (simp_all add: random_gap_def Let_def)

lemma step_next_spec:
  assumes "step_at k st" "k < 310" "step_next sha256 st = (v, st')"
  shows "step_at (Suc k) st'" "2 ^ (k div 10) - 2 ^ (k div 10) div 2 \<le> sint v"
    "sint v \<le> 2 ^ (k div 10) + 2 ^ (k div 10) div 2"
proof -
  define q where "q = k div 10"
  obtain gap st1 where g: "random_gap sha256 st = (gap, st1)"
    by (cases "random_gap sha256 st")
  have q: "q < 31" "st_step st = 2 ^ q"
    using assms(1,2) by (simp_all add: q_def step_at_def)
  note gb = random_gap_bound [OF q(2,1), of sha256, unfolded g]
  have v: "v = 2 ^ q - gap"
    using assms(3) g gb q(2) by (auto simp: step_next_def split: if_splits)
  have "v = word_of_int (2 ^ q - sint gap)"
    by (simp add: v word_of_int_sint)
  then have sv: "sint v = 2 ^ q - sint gap"
    using gb(1) pow2_bound [OF q(1)] by (simp only:) (rule sint_small, auto simp: abs_le_iff)
  then show "2 ^ (k div 10) - 2 ^ (k div 10) div 2 \<le> sint v" "sint v \<le> 2 ^ (k div 10) + 2 ^ (k div 10) div 2"
    using gb(1) by (simp_all add: q_def)
  show "step_at (Suc k) st'"
  proof (cases "k mod 10 = 9")
    case True
    then have "Suc k mod 10 = 0" "Suc k div 10 = Suc (k div 10)"
      by (simp_all add: mod_Suc div_Suc)
    then show ?thesis
      using assms(1,3) g gb True by (auto simp: step_at_def step_next_def split: if_splits)
  next
    case False
    then have m: "Suc k mod 10 = Suc (k mod 10)" "Suc k div 10 = k div 10" "k mod 10 < 9"
      using mod_less_divisor [of 10 k] by (simp_all add: mod_Suc div_Suc)
    have "unat (word_of_nat (9 - k mod 10) :: i32) = 9 - k mod 10"
      by (simp add: unsigned_of_nat take_bit_nat_eq_self del: of_nat_diff)
    then have "word_of_nat (9 - k mod 10) \<noteq> (0 :: i32)"
      using m(3) by (metis less_not_refl unat_0 zero_less_diff)
    moreover have "word_of_nat (9 - k mod 10) - 1 = (word_of_nat (9 - Suc (k mod 10)) :: i32)"
      using m(3) by (metis Suc_diff_Suc add_diff_cancel_left' of_nat_Suc)
    ultimately show ?thesis
      using assms(1,3) g gb m by (auto simp: step_at_def step_next_def split: if_splits)
  qed
qed

lemma step_init_at: "step_at 0 (step_init sha256 sd bh)"
  by (simp add: step_at_def step_init_def)

lemma steps_spec:
  assumes "step_at k st" "k + n \<le> 310" "steps sha256 n st = (vs, st')"
  shows "length vs = n \<and> step_at (k + n) st' \<and>
    (\<forall>i<n. 2 ^ ((k + i) div 10) - 2 ^ ((k + i) div 10) div 2 \<le> sint (vs ! i) \<and>
       sint (vs ! i) \<le> 2 ^ ((k + i) div 10) + 2 ^ ((k + i) div 10) div 2)"
  using assms
proof (induction n arbitrary: k st vs)
  case (Suc n)
  obtain v st1 where v: "step_next sha256 st = (v, st1)"
    by (cases "step_next sha256 st")
  obtain ws st2 where r: "steps sha256 n st1 = (ws, st2)"
    by (cases "steps sha256 n st1")
  have e: "vs = v # ws" "st2 = st'"
    using Suc.prems(3) v r by simp_all
  have "k < 310"
    using Suc.prems(2) by simp
  note sp = step_next_spec [OF Suc.prems(1) this v]
  have ih: "length ws = n \<and> step_at (Suc k + n) st' \<and>
    (\<forall>i<n. 2 ^ ((Suc k + i) div 10) - 2 ^ ((Suc k + i) div 10) div 2 \<le> sint (ws ! i) \<and>
       sint (ws ! i) \<le> 2 ^ ((Suc k + i) div 10) + 2 ^ ((Suc k + i) div 10) div 2)"
    using Suc.IH [OF sp(1), of ws] Suc.prems(2) r e(2) by simp
  show ?case
    unfolding e(1) using ih sp(2,3) by (auto simp: less_Suc_eq_0_disj)
qed simp

text \<open>
  For the first 310 calls, more than any locator uses, the step is never below
  half and never above one and a half times the power of two of its decade, hence always
  at least one: every call moves on, and the 32-bit arithmetic does not wrap.
\<close>

theorem steps_bounded:
  assumes "n \<le> 310" "steps sha256 n (step_init sha256 sd bh) = (vs, st')"
  shows "length vs = n \<and> (\<forall>i<n. 1 \<le> sint (vs ! i) \<and>
    2 ^ (i div 10) \<le> 2 * sint (vs ! i) \<and> 2 * sint (vs ! i) \<le> 3 * 2 ^ (i div 10))"
proof -
  have *: "1 \<le> v \<and> x \<le> 2 * v \<and> 2 * v \<le> 3 * x" if "x - x div 2 \<le> v" "v \<le> x + x div 2" "1 \<le> x" for x v :: int
    using that by linarith
  have sp: "length vs = n" "\<And>i. i < n \<Longrightarrow> 2 ^ (i div 10) - 2 ^ (i div 10) div 2 \<le> sint (vs ! i)"
    "\<And>i. i < n \<Longrightarrow> sint (vs ! i) \<le> 2 ^ (i div 10) + 2 ^ (i div 10) div 2"
    using steps_spec [OF step_init_at _ assms(2)] assms(1) by simp_all
  have "(1 :: int) \<le> 2 ^ (i div 10)" for i :: nat
    by simp
  then have "1 \<le> sint (vs ! i) \<and> 2 ^ (i div 10) \<le> 2 * sint (vs ! i) \<and> 2 * sint (vs ! i) \<le> 3 * 2 ^ (i div 10)" if "i < n" for i
    using *[OF sp(2,3)] that by blast
  then show ?thesis
    using sp(1) by blast
qed

theorem steps_bounded_witness:
  "1 \<le> sint (fst (steps (\<lambda>_. replicate 32 7) 20 (step_init (\<lambda>_. replicate 32 7) \<lparr>sender_id = [], receiver_id = []\<rparr> [])) ! 19)"
proof -
  define w where "w = steps (\<lambda>_. replicate 32 7) 20 (step_init (\<lambda>_. replicate 32 7) \<lparr>sender_id = [], receiver_id = []\<rparr> [])"
  have "steps (\<lambda>_. replicate 32 7) 20 (step_init (\<lambda>_. replicate 32 7) \<lparr>sender_id = [], receiver_id = []\<rparr> []) = (fst w, snd w)"
    by (simp add: w_def)
  from steps_bounded [OF _ this] show ?thesis
    by (simp add: w_def)
qed

end
