(* ===== verification/MerkleHash.thy ===== *)
theory MerkleHash
  imports Prelude "HOL-Library.Char_ord" "HOL-Library.List_Lexorder"
begin

unbundle bit_operations_syntax

text \<open>
  Entries of the context tree and their Irmin-compatible hashes
  (\<^verbatim>\<open>storage/src/context/merkle/mod.rs\<close>, \<^verbatim>\<open>merkle/hash/mod.rs\<close>,
  \<^verbatim>\<open>merkle/hash/ocaml.rs\<close>). BLAKE2b and the LEB128 writer are third-party and are the
  fields of \<open>hash_lib\<close>; its last field bounds the nesting of inodes that the stack allows.

  The cells \<^verbatim>\<open>entry\<close> and \<^verbatim>\<open>entry_hash\<close> of a node are caches. A node is a value here and no
  operation fills its caches. The theory \<^verbatim>\<open>MerkleCaching\<close> shows that filling them changes neither
  the values nor the hashes that are read; only the serializer can tell, and it is given the cells that
  hashing has filled (\<open>stored_form\<close> below).
\<close>

section \<open>Entries\<close>

type_synonym entry_hash = bytes

datatype node_kind = NonLeaf | Leaf

record commit =
  parent_commit_hash :: "entry_hash option"
  root_hash :: entry_hash
  c_time :: "64 word"
  author :: string
  c_message :: string

text \<open>A tree is an ordered map; its association list is sorted by name (\<open>sorted_tree\<close> below).\<close>

datatype entry =
    Tree "(string \<times> node) list"
  | Blob bytes
  | Commit commit
and node = Node (n_kind: node_kind) (n_hash: "entry_hash option") (n_entry: "entry option")

type_synonym tree = "(string \<times> node) list"

definition ENTRY_HASH_LEN :: nat where
  "ENTRY_HASH_LEN = 32"

datatype hashing_error =
    Leb128EncodeFailure
  | InvalidOutputSize
  | ConversionError
  | HashValueExpected string
  | UnexpectedEmptyInode
  | InvalidHash string
  | MissingEntry
  | EntryBorrow

type_synonym 'a hashing = "hashing_error failure + 'a"

record hash_lib =
  blake2b :: "bytes \<Rightarrow> bytes"
  leb128 :: "nat \<Rightarrow> bytes"
  inode_nesting :: nat

section \<open>The string hash of OCaml\<close>

definition mix :: "32 word \<Rightarrow> 32 word \<Rightarrow> 32 word" where
  "mix h w =
     (let w = w * 0xcc9e2d51;
          w = push_bit 15 w OR drop_bit 17 w;
          w = w * 0x1b873593;
          h = h XOR w;
          h = push_bit 13 h OR drop_bit 19 h in
      h * 5 + 0xe6546b64)"

definition u32_from_le_bytes :: "byte \<Rightarrow> byte \<Rightarrow> byte \<Rightarrow> byte \<Rightarrow> 32 word" where
  "u32_from_le_bytes a b c d =
     push_bit 24 (ucast d) OR push_bit 16 (ucast c) OR push_bit 8 (ucast b) OR ucast a"

text \<open>The loop over whole 32-bit blocks; it returns the bytes that are left.\<close>

fun mix_blocks :: "32 word \<Rightarrow> bytes \<Rightarrow> 32 word \<times> bytes" where
  "mix_blocks h (a # b # c # d # rest) = mix_blocks (mix h (u32_from_le_bytes a b c d)) rest"
| "mix_blocks h rest = (h, rest)"

definition mix_rest :: "32 word \<Rightarrow> bytes \<Rightarrow> 32 word" where
  "mix_rest h rest =
     (case rest of
        [a, b, c] \<Rightarrow> mix h (push_bit 16 (ucast c) OR push_bit 8 (ucast b) OR ucast a)
      | [a, b] \<Rightarrow> mix h (push_bit 8 (ucast b) OR ucast a)
      | [a] \<Rightarrow> mix h (ucast a)
      | _ \<Rightarrow> h)"

definition final_mix :: "32 word \<Rightarrow> 32 word" where
  "final_mix h =
     (let h = h XOR drop_bit 16 h;
          h = h * 0x85ebca6b;
          h = h XOR drop_bit 13 h;
          h = h * 0xc2b2ae35 in
      h XOR drop_bit 16 h)"

text \<open>For strings shorter than four gigabytes, whose length fits the 32-bit counter.\<close>

definition ocaml_hash_string :: "32 word \<Rightarrow> bytes \<Rightarrow> 32 word" where
  "ocaml_hash_string seed s =
     (let (h, rest) = mix_blocks seed s in
      final_mix (mix_rest h rest XOR word_of_nat (length s)) AND 0x3FFFFFFF)"

definition as_bytes :: "string \<Rightarrow> bytes" where
  "as_bytes s = map of_char s"

definition index :: "32 word \<Rightarrow> string \<Rightarrow> 32 word" where
  "index depth name = ocaml_hash_string depth (as_bytes name) mod 32"

section \<open>Inodes\<close>

text \<open>
  The hashing functions below see a child as its name, its kind and the outcome of hashing it.
\<close>

type_synonym hashed = "string \<times> node_kind \<times> entry_hash hashing"

datatype inode =
    InodeEmpty
  | InodeValue "hashed list"
  | InodeTree (inode_depth: "32 word") (inode_children: nat) (inode_pointers: "(byte \<times> entry_hash) list")

definition encode_irmin_node_kind :: "node_kind \<Rightarrow> bytes" where
  "encode_irmin_node_kind k = (case k of NonLeaf \<Rightarrow> [0, 0, 0, 0, 0, 0, 0, 0] | Leaf \<Rightarrow> [255, 0, 0, 0, 0, 0, 0, 0])"

text \<open>A loop whose body may fail.\<close>

fun for_each :: "('a \<Rightarrow> 'e + 'b) \<Rightarrow> 'a list \<Rightarrow> 'e + 'b list" where
  "for_each f [] = Inr []"
| "for_each f (x # xs) = and_then (f x) (\<lambda>y. and_then (for_each f xs) (\<lambda>ys. Inr (y # ys)))"

definition long_entry :: "hash_lib \<Rightarrow> hashed \<Rightarrow> bytes hashing" where
  "long_entry H e =
     (case e of (name, kind, r) \<Rightarrow> and_then r (\<lambda>h.
        Inr (leb128 H (length (as_bytes name)) @ as_bytes name @
             [case kind of Leaf \<Rightarrow> 1 | NonLeaf \<Rightarrow> 0] @ h)))"

definition hash_long_inode :: "hash_lib \<Rightarrow> inode \<Rightarrow> entry_hash hashing" where
  "hash_long_inode H inode =
     (case inode of
        InodeEmpty \<Rightarrow> Inl (Err UnexpectedEmptyInode)
      | InodeValue entries \<Rightarrow> and_then (for_each (long_entry H) entries) (\<lambda>es.
          Inr (blake2b H ([0, word_of_nat (length entries)] @ concat es)))
      | InodeTree depth children pointers \<Rightarrow>
          Inr (blake2b H ([1] @ leb128 H (unat depth) @ leb128 H children @
            [word_of_nat (length pointers)] @ concat (map (\<lambda>(i, h). i # h) pointers))))"

text \<open>The loop over the 32 buckets: empty ones are left out.\<close>

fun bucket_pointers :: "hash_lib \<Rightarrow> (nat \<Rightarrow> inode hashing) \<Rightarrow> nat list \<Rightarrow> (byte \<times> entry_hash) list hashing" where
  "bucket_pointers H bucket [] = Inr []"
| "bucket_pointers H bucket (i # is) = and_then (bucket i) (\<lambda>ti.
     if ti = InodeEmpty then bucket_pointers H bucket is
     else and_then (hash_long_inode H ti) (\<lambda>h.
          and_then (bucket_pointers H bucket is) (\<lambda>ps. Inr ((word_of_nat i, h) # ps))))"

primrec partition_entries :: "nat \<Rightarrow> hash_lib \<Rightarrow> 32 word \<Rightarrow> hashed list \<Rightarrow> inode hashing" where
  "partition_entries 0 H depth entries = Inl Panic"
| "partition_entries (Suc stack) H depth entries =
     (if entries = [] then Inr InodeEmpty
      else if length entries \<le> 32 then Inr (InodeValue entries)
      else and_then
        (bucket_pointers H (\<lambda>i. partition_entries stack H (depth + 1)
            (filter (\<lambda>e. index depth (fst e) = word_of_nat i) entries)) [0..<32])
        (\<lambda>pointers. Inr (InodeTree depth (length entries) pointers)))"

definition short_entry :: "hash_lib \<Rightarrow> hashed \<Rightarrow> bytes hashing" where
  "short_entry H e =
     (case e of (k, kind, r) \<Rightarrow> and_then r (\<lambda>h.
        Inr (encode_irmin_node_kind kind @ leb128 H (length (as_bytes k)) @ as_bytes k @
             to_be_bytes 8 ENTRY_HASH_LEN @ h)))"

definition hash_short_inode :: "hash_lib \<Rightarrow> hashed list \<Rightarrow> entry_hash hashing" where
  "hash_short_inode H entries =
     and_then (for_each (short_entry H) entries) (\<lambda>es.
     Inr (blake2b H (to_be_bytes 8 (length entries) @ concat es)))"

definition hash_children :: "hash_lib \<Rightarrow> hashed list \<Rightarrow> entry_hash hashing" where
  "hash_children H entries =
     (if length entries > 256
      then and_then (partition_entries (inode_nesting H) H 0 entries) (hash_long_inode H)
      else hash_short_inode H entries)"

definition hash_blob :: "hash_lib \<Rightarrow> bytes \<Rightarrow> entry_hash hashing" where
  "hash_blob H blob = Inr (blake2b H (to_be_bytes 8 (length blob) @ blob))"

definition commit_bytes :: "commit \<Rightarrow> bytes" where
  "commit_bytes c =
     to_be_bytes 8 ENTRY_HASH_LEN @ root_hash c @
     (case parent_commit_hash c of
        None \<Rightarrow> to_be_bytes 8 0
      | Some p \<Rightarrow> to_be_bytes 8 1 @ to_be_bytes 8 (length p) @ p) @
     to_be_bytes 8 (unat (c_time c)) @
     to_be_bytes 8 (length (as_bytes (author c))) @ as_bytes (author c) @
     to_be_bytes 8 (length (as_bytes (c_message c))) @ as_bytes (c_message c)"

definition hash_commit :: "hash_lib \<Rightarrow> commit \<Rightarrow> entry_hash hashing" where
  "hash_commit H c = Inr (blake2b H (commit_bytes c))"

fun hash_entry :: "hash_lib \<Rightarrow> entry \<Rightarrow> entry_hash hashing"
  and node_entry_hash :: "hash_lib \<Rightarrow> node \<Rightarrow> entry_hash hashing" where
  "hash_entry H (Commit c) = hash_commit H c"
| "hash_entry H (Tree t) = hash_children H (map (\<lambda>p. (fst p, n_kind (snd p), node_entry_hash H (snd p))) t)"
| "hash_entry H (Blob b) = hash_blob H b"
| "node_entry_hash H (Node k (Some h) e) = Inr h"
| "node_entry_hash H (Node k None (Some e)) = hash_entry H e"
| "node_entry_hash H (Node k None None) = Inl (Err MissingEntry)"

definition hash_tree :: "hash_lib \<Rightarrow> tree \<Rightarrow> entry_hash hashing" where
  "hash_tree H t = hash_children H (map (\<lambda>p. (fst p, n_kind (snd p), node_entry_hash H (snd p))) t)"


text \<open>
  What is written for an entry: the cached subtrees are skipped and every child appears with
  the hash in its cell. An entry is hashed right before it is written. That fills the cells of its
  children when there are at most 256 of them; a larger directory is hashed through copies of its
  nodes (\<^verbatim>\<open>partition_entries\<close> clones them), so only the cells filled earlier can be written and
  an empty one is an error of the serializer.
\<close>

definition ensure_non_null_entry_hash :: "node \<Rightarrow> entry_hash hashing" where
  "ensure_non_null_entry_hash n =
     (case n_hash n of Some h \<Rightarrow> Inr h | None \<Rightarrow> Inl (Err (HashValueExpected ''entry_hash missing in Node'')))"

definition stored_node :: "hash_lib \<Rightarrow> bool \<Rightarrow> string \<times> node \<Rightarrow> (string \<times> node) hashing" where
  "stored_node H filled p =
     and_then (if filled then node_entry_hash H (snd p) else ensure_non_null_entry_hash (snd p)) (\<lambda>h.
     Inr (fst p, Node (n_kind (snd p)) (Some h) None))"

definition stored_form :: "hash_lib \<Rightarrow> entry \<Rightarrow> entry hashing" where
  "stored_form H e =
     (case e of
        Tree t \<Rightarrow> and_then (for_each (stored_node H (length t \<le> 256)) t) (\<lambda>t'. Inr (Tree t'))
      | _ \<Rightarrow> Inr e)"

section \<open>Lemmas\<close>

lemma hash_entry_Tree: "hash_entry H (Tree t) = hash_tree H t"
  by (simp add: hash_tree_def)

lemma for_each_Inr_iff: "for_each f xs = Inr ys \<longleftrightarrow> list_all2 (\<lambda>x y. f x = Inr y) xs ys"
  by (induction xs arbitrary: ys) (auto simp: and_then_Inr_iff list_all2_Cons1)

lemma for_each_cong [fundef_cong]:
  "xs = ys \<Longrightarrow> (\<And>x. x \<in> set ys \<Longrightarrow> f x = g x) \<Longrightarrow> for_each f xs = for_each g ys"
  by (induction ys arbitrary: xs) (auto intro!: and_then_cong)

lemma length_as_bytes [simp]: "length (as_bytes s) = length s"
  by (simp add: as_bytes_def)

lemma as_bytes_inject [simp]: "as_bytes s = as_bytes t \<longleftrightarrow> s = t"
proof -
  have "inj (of_char :: char \<Rightarrow> byte)"
  proof (rule injI)
    fix a b :: char
    assume "(of_char a :: byte) = of_char b"
    moreover have "unat (of_char c :: byte) = of_char c" for c :: char
    proof -
      have "(of_char c :: byte) = word_of_nat (of_char c)"
        by (simp add: of_nat_of_char)
      moreover have "(of_char c :: nat) < 256"
        using range_nat_of_char by auto
      ultimately show ?thesis
        by (simp add: unat_of_nat)
    qed
    ultimately have "(of_char a :: nat) = of_char b"
      by metis
    then show "a = b"
      by simp
  qed
  then show ?thesis
    by (simp add: as_bytes_def inj_map_eq_map)
qed

text \<open>The values that the tests of the source take from OCaml.\<close>

lemma ocaml_hash_string_vectors:
  "ocaml_hash_string 0 [] = 0"
  "ocaml_hash_string 0 (as_bytes ''abc'') = 767105082"
  "ocaml_hash_string 0 (as_bytes ''abcde'') = 335633756"
  by code_simp+


text \<open>Hashing a directory succeeds only when every child was hashed, on either side of the 256 entries.\<close>

lemma for_each_Inr_all: "for_each f xs = Inr ys \<Longrightarrow> x \<in> set xs \<Longrightarrow> \<exists>y. f x = Inr y"
  by (induction xs arbitrary: ys) (auto simp: and_then_Inr_iff)

lemma long_entry_Inr: "long_entry H e = Inr y \<Longrightarrow> \<exists>x. snd (snd e) = Inr x"
  by (auto simp: long_entry_def and_then_Inr_iff split: prod.splits)

lemma bucket_pointers_all:
  "bucket_pointers H bucket is = Inr ps \<Longrightarrow> i \<in> set is \<Longrightarrow>
    \<exists>ti. bucket i = Inr ti \<and> (ti = InodeEmpty \<or> (\<exists>h. hash_long_inode H ti = Inr h))"
  by (induction "is" arbitrary: ps) (auto simp: and_then_Inr_iff split: if_splits)

lemma index_less: "\<exists>i < 32. index depth name = word_of_nat i"
proof -
  have "unat (index depth name) < 32"
    by (simp add: index_def unat_mod)
  then show ?thesis
    by (intro exI [of _ "unat (index depth name)"]) simp
qed

lemma partition_entries_all:
  "partition_entries n H depth es = Inr ti \<Longrightarrow> ti = InodeEmpty \<or> (\<exists>h. hash_long_inode H ti = Inr h) \<Longrightarrow>
    e \<in> set es \<Longrightarrow> \<exists>x. snd (snd e) = Inr x"
proof (induction n arbitrary: depth es ti)
  case (Suc n)
  consider "length es \<le> 32" "ti = InodeValue es"
    | ps where "bucket_pointers H (\<lambda>i. partition_entries n H (depth + 1)
          (filter (\<lambda>e. index depth (fst e) = word_of_nat i) es)) [0..<32] = Inr ps"
    using Suc.prems(1,3) by (auto simp: and_then_Inr_iff split: if_splits)
  then show ?case
  proof cases
    case 1
    then obtain ys where "for_each (long_entry H) es = Inr ys"
      using Suc.prems(2) by (auto simp: hash_long_inode_def and_then_Inr_iff)
    then show ?thesis
      using for_each_Inr_all [OF _ Suc.prems(3)] long_entry_Inr by metis
  next
    case 2
    obtain i where i: "i < 32" "index depth (fst e) = word_of_nat i"
      using index_less by blast
    then have "e \<in> set (filter (\<lambda>e. index depth (fst e) = word_of_nat i) es)"
      using Suc.prems(3) by simp
    then show ?thesis
      using bucket_pointers_all [OF 2, of i] i(1) Suc.IH by fastforce
  qed
qed simp

lemma hash_children_all:
  assumes "hash_children H es = Inr h" "e \<in> set es"
  shows "\<exists>x. snd (snd e) = Inr x"
proof (cases "256 < length es")
  case True
  then show ?thesis
    using assms(1) partition_entries_all [OF _ _ assms(2)] by (auto simp: hash_children_def and_then_Inr_iff)
next
  case False
  then obtain ys where "for_each (short_entry H) es = Inr ys"
    using assms(1) by (auto simp: hash_children_def hash_short_inode_def and_then_Inr_iff)
  then obtain y where "short_entry H e = Inr y"
    using assms(2) for_each_Inr_all by metis
  then show ?thesis
    by (auto simp: short_entry_def and_then_Inr_iff split: prod.splits)
qed

lemma hash_tree_all:
  "hash_tree H t = Inr h \<Longrightarrow> p \<in> set t \<Longrightarrow> \<exists>x. node_entry_hash H (snd p) = Inr x"
  unfolding hash_tree_def by (drule hash_children_all [where e = "(fst p, n_kind (snd p), node_entry_hash H (snd p))"]) auto

section \<open>What a hash commits to\<close>

text \<open>The bytes that are hashed for an entry that is not a directory of more than 256 entries.\<close>

definition short_bytes :: "hash_lib \<Rightarrow> tree \<Rightarrow> bytes" where
  "short_bytes H t = to_be_bytes 8 (length t) @
     concat (map (\<lambda>p. encode_irmin_node_kind (n_kind (snd p)) @ leb128 H (length (fst p)) @ as_bytes (fst p) @
       to_be_bytes 8 ENTRY_HASH_LEN @ the (n_hash (snd p))) t)"

definition entry_bytes :: "hash_lib \<Rightarrow> entry \<Rightarrow> bytes" where
  "entry_bytes H e =
     (case e of
        Tree t \<Rightarrow> short_bytes H t
      | Blob b \<Rightarrow> to_be_bytes 8 (length b) @ b
      | Commit c \<Rightarrow> commit_bytes c)"

text \<open>Entries within the sizes of their length fields.\<close>

definition stored_ok :: "entry \<Rightarrow> bool" where
  "stored_ok e =
     (case e of
        Tree t \<Rightarrow> length t \<le> 256 \<and>
          list_all (\<lambda>p. n_entry (snd p) = None \<and> (\<exists>h. n_hash (snd p) = Some h \<and> length h = ENTRY_HASH_LEN)) t
      | Blob b \<Rightarrow> length b < 2 ^ 64
      | Commit c \<Rightarrow> length (root_hash c) = ENTRY_HASH_LEN \<and>
          (\<forall>p. parent_commit_hash c = Some p \<longrightarrow> length p = ENTRY_HASH_LEN) \<and>
          length (author c) < 2 ^ 64 \<and> length (c_message c) < 2 ^ 64)"

definition prefix_free :: "(nat \<Rightarrow> bytes) \<Rightarrow> bool" where
  "prefix_free enc \<longleftrightarrow> (\<forall>m n x y. enc m @ x = enc n @ y \<longrightarrow> m = n)"

lemma to_be_bytes_inject:
  assumes "m < 256 ^ n" "k < 256 ^ n"
  shows "to_be_bytes n m = to_be_bytes n k \<longleftrightarrow> m = k"
  using assms from_to_be_bytes mod_less by metis

lemma u64_inject: "to_be_bytes 8 m = to_be_bytes 8 k \<Longrightarrow> m < 2 ^ 64 \<Longrightarrow> k < 2 ^ 64 \<Longrightarrow> m = k"
  using to_be_bytes_inject [of m 8 k] by simp

lemma length_irmin_kind [simp]: "length (encode_irmin_node_kind k) = 8"
  by (simp add: encode_irmin_node_kind_def split: node_kind.split)

lemma irmin_kind_inject: "encode_irmin_node_kind k = encode_irmin_node_kind l \<longleftrightarrow> k = l"
  by (cases k; cases l) (simp_all add: encode_irmin_node_kind_def)

lemma short_entries_inject:
  assumes "prefix_free (leb128 H)" "length t = length u"
    "stored_ok (Tree t)" "stored_ok (Tree u)"
    "concat (map (\<lambda>p. encode_irmin_node_kind (n_kind (snd p)) @ leb128 H (length (fst p)) @ as_bytes (fst p) @
       to_be_bytes 8 ENTRY_HASH_LEN @ the (n_hash (snd p))) t) =
     concat (map (\<lambda>p. encode_irmin_node_kind (n_kind (snd p)) @ leb128 H (length (fst p)) @ as_bytes (fst p) @
       to_be_bytes 8 ENTRY_HASH_LEN @ the (n_hash (snd p))) u)"
  shows "t = u"
  using assms(2-)
proof (induction t u rule: list_induct2)
  case (Cons p t q u)
  obtain a k h where p: "p = (a, Node k (Some h) None)" "length h = 32"
    using Cons.prems(1) by (cases p; cases "snd p") (auto simp: stored_ok_def ENTRY_HASH_LEN_def)
  obtain b l g where q: "q = (b, Node l (Some g) None)" "length g = 32"
    using Cons.prems(2) by (cases q; cases "snd q") (auto simp: stored_ok_def ENTRY_HASH_LEN_def)
  let ?enc = "\<lambda>p. encode_irmin_node_kind (n_kind (snd p)) @ leb128 H (length (fst p)) @ as_bytes (fst p) @
       to_be_bytes 8 ENTRY_HASH_LEN @ the (n_hash (snd p))"
  have eq: "encode_irmin_node_kind k @ leb128 H (length a) @ as_bytes a @ to_be_bytes 8 ENTRY_HASH_LEN @ h @ concat (map ?enc t) =
    encode_irmin_node_kind l @ leb128 H (length b) @ as_bytes b @ to_be_bytes 8 ENTRY_HASH_LEN @ g @ concat (map ?enc u)"
    using Cons.prems(3) p(1) q(1) by simp
  then have leb: "k = l" "leb128 H (length a) @ as_bytes a @ to_be_bytes 8 ENTRY_HASH_LEN @ h @ concat (map ?enc t) =
    leb128 H (length b) @ as_bytes b @ to_be_bytes 8 ENTRY_HASH_LEN @ g @ concat (map ?enc u)"
    by (simp_all add: irmin_kind_inject)
  then have "length a = length b"
    using assms(1) unfolding prefix_free_def by blast
  with leb have "a = b" "h @ concat (map ?enc t) = g @ concat (map ?enc u)"
    by simp_all
  moreover from this p(2) q(2) have "h = g" "concat (map ?enc t) = concat (map ?enc u)"
    by simp_all
  moreover have "stored_ok (Tree t)" "stored_ok (Tree u)"
    using Cons.prems(1,2) by (simp_all add: stored_ok_def)
  ultimately show ?case
    using Cons.IH leb(1) p(1) q(1) by simp
qed simp

lemma commit_bytes_inject:
  assumes "stored_ok (Commit c)" "stored_ok (Commit d)" "commit_bytes c = commit_bytes d"
  shows "c = d"
proof -
  have one: "to_be_bytes 8 (Suc 0) \<noteq> to_be_bytes 8 0"
    by (simp add: to_be_bytes_inject)
  have r: "root_hash c = root_hash d"
    using assms by (auto simp: commit_bytes_def stored_ok_def)
  have p: "parent_commit_hash c = parent_commit_hash d \<and>
      to_be_bytes 8 (unat (c_time c)) @ to_be_bytes 8 (length (author c)) @ as_bytes (author c) @
        to_be_bytes 8 (length (c_message c)) @ as_bytes (c_message c) =
      to_be_bytes 8 (unat (c_time d)) @ to_be_bytes 8 (length (author d)) @ as_bytes (author d) @
        to_be_bytes 8 (length (c_message d)) @ as_bytes (c_message d)"
    using assms one one [symmetric] r
    by (auto simp: commit_bytes_def stored_ok_def split: option.splits simp del: to_be_bytes.simps)
  then have t8: "to_be_bytes 8 (unat (c_time c)) = to_be_bytes 8 (unat (c_time d))"
    and a8: "to_be_bytes 8 (length (author c)) = to_be_bytes 8 (length (author d))"
    and am: "as_bytes (author c) @ to_be_bytes 8 (length (c_message c)) @ as_bytes (c_message c) =
      as_bytes (author d) @ to_be_bytes 8 (length (c_message d)) @ as_bytes (c_message d)"
    by simp_all
  have "unat (c_time c) < 2 ^ 64" "unat (c_time d) < 2 ^ 64"
    using unsigned_less [of "c_time c"] unsigned_less [of "c_time d"] by simp_all
  then have t: "c_time c = c_time d"
    using u64_inject t8 unsigned_word_eqI by blast
  have "length (author c) = length (author d)"
    using u64_inject [OF a8] assms(1,2) by (simp add: stored_ok_def)
  then have a: "author c = author d" and m: "to_be_bytes 8 (length (c_message c)) @ as_bytes (c_message c) =
      to_be_bytes 8 (length (c_message d)) @ as_bytes (c_message d)"
    using am by simp_all
  from m have "c_message c = c_message d"
    by simp
  with r p t a show ?thesis
    by (cases c; cases d) simp
qed


definition same_kind :: "entry \<Rightarrow> entry \<Rightarrow> bool" where
  "same_kind e f =
     (case e of
        Tree _ \<Rightarrow> (case f of Tree _ \<Rightarrow> True | _ \<Rightarrow> False)
      | Blob _ \<Rightarrow> (case f of Blob _ \<Rightarrow> True | _ \<Rightarrow> False)
      | Commit _ \<Rightarrow> (case f of Commit _ \<Rightarrow> True | _ \<Rightarrow> False))"

lemma entry_bytes_inject:
  assumes "prefix_free (leb128 H)" "stored_ok e" "stored_ok f" "same_kind e f" "entry_bytes H e = entry_bytes H f"
  shows "e = f"
proof (cases e)
  case (Tree t)
  then obtain u where f: "f = Tree u"
    using assms(4) by (auto simp: same_kind_def split: entry.splits)
  have "to_be_bytes 8 (length t) = to_be_bytes 8 (length u)"
    using assms(5) Tree f by (simp add: entry_bytes_def short_bytes_def)
  moreover have "length t < 2 ^ 64" "length u < 2 ^ 64"
    using assms(2,3) Tree f by (simp_all add: stored_ok_def)
  ultimately have len: "length t = length u"
    by (rule u64_inject)
  then show ?thesis
    using short_entries_inject [OF assms(1) len] assms Tree f by (simp add: entry_bytes_def short_bytes_def)
next
  case (Blob b)
  then show ?thesis
    using assms(4,5) by (auto simp: same_kind_def entry_bytes_def split: entry.splits)
next
  case (Commit c)
  then obtain d where "f = Commit d"
    using assms(4) by (auto simp: same_kind_def split: entry.splits)
  then show ?thesis
    using commit_bytes_inject assms Commit by (simp add: entry_bytes_def)
qed

lemma for_each_short_entry:
  assumes "for_each (stored_node H True) t = Inr u"
  shows "for_each (short_entry H) (map (\<lambda>p. (fst p, n_kind (snd p), node_entry_hash H (snd p))) t) =
    Inr (map (\<lambda>p. encode_irmin_node_kind (n_kind (snd p)) @ leb128 H (length (fst p)) @ as_bytes (fst p) @
      to_be_bytes 8 ENTRY_HASH_LEN @ the (n_hash (snd p))) u)"
  using assms
  by (induction t arbitrary: u) (auto simp: and_then_Inr_iff stored_node_def short_entry_def)

lemma length_for_each: "for_each f xs = Inr ys \<Longrightarrow> length ys = length xs"
  by (simp add: for_each_Inr_iff list_all2_lengthD)

lemma hash_of_stored_form:
  assumes "stored_form H e = Inr s" "stored_ok s"
  shows "hash_entry H e = Inr (blake2b H (entry_bytes H s))"
proof (cases e)
  case (Tree t)
  then obtain u where u: "for_each (stored_node H (length t \<le> 256)) t = Inr u" "s = Tree u"
    using assms(1) by (auto simp: stored_form_def and_then_Inr_iff)
  then have len: "length u = length t" "length t \<le> 256"
    using length_for_each [OF u(1)] u(2) assms(2) by (auto simp: stored_ok_def)
  then show ?thesis
    using Tree u assms(2) for_each_short_entry
    by (simp add: hash_children_def hash_short_inode_def entry_bytes_def short_bytes_def stored_ok_def)
next
  case (Blob b)
  then show ?thesis
    using assms(1) by (auto simp: stored_form_def hash_blob_def entry_bytes_def)
next
  case (Commit c)
  then show ?thesis
    using assms(1) by (auto simp: stored_form_def hash_commit_def entry_bytes_def)
qed

text \<open>
  Property C28. The hash of an entry is the BLAKE2b digest of a byte string that determines
  everything that is stored for the entry: two entries of one kind with the same bytes are
  stored identically, names, kinds and child hashes included.
\<close>

theorem hash_commits_to_entry:
  assumes "prefix_free (leb128 H)"
    and "stored_form H e = Inr s" "stored_form H f = Inr u"
    and "stored_ok s" "stored_ok u" "same_kind s u"
  shows "hash_entry H e = Inr (blake2b H (entry_bytes H s)) \<and>
    hash_entry H f = Inr (blake2b H (entry_bytes H u)) \<and>
    (entry_bytes H s = entry_bytes H u \<longleftrightarrow> s = u)"
  using hash_of_stored_form entry_bytes_inject assms by blast

definition unary_lib :: hash_lib where
  "unary_lib = \<lparr>blake2b = take 32, leb128 = (\<lambda>n. replicate n 1 @ [0]), inode_nesting = 4\<rparr>"

lemma prefix_free_unary: "prefix_free (leb128 unary_lib)"
  unfolding prefix_free_def
proof (intro allI impI)
  fix m n :: nat and x y :: bytes
  assume "leb128 unary_lib m @ x = leb128 unary_lib n @ y"
  then show "m = n"
  proof (induction m arbitrary: n)
    case 0
    then show ?case
      by (cases n) (simp_all add: unary_lib_def)
  next
    case (Suc m)
    then show ?case
      by (cases n) (simp_all add: unary_lib_def)
  qed
qed

theorem hash_commits_to_entry_witness:
  "entry_bytes unary_lib (Tree [(''a'', Node Leaf (Some (replicate 32 3)) None)]) \<noteq>
   entry_bytes unary_lib (Tree [(''b'', Node Leaf (Some (replicate 32 3)) None)])"
  using hash_commits_to_entry [OF prefix_free_unary,
      of "Tree [(''a'', Node Leaf (Some (replicate 32 3)) None)]" "Tree [(''a'', Node Leaf (Some (replicate 32 3)) None)]"
         "Tree [(''b'', Node Leaf (Some (replicate 32 3)) None)]" "Tree [(''b'', Node Leaf (Some (replicate 32 3)) None)]"]
  by (simp add: stored_form_def stored_node_def stored_ok_def same_kind_def ENTRY_HASH_LEN_def)

text \<open>
  The hash does not separate the kinds of entries: an empty directory and an
  empty value have the same hash, so they are stored under the same key.
\<close>

theorem empty_tree_and_empty_blob_share_hash:
  "hash_entry H (Tree []) = hash_entry H (Blob [])"
  by (simp add: hash_children_def hash_short_inode_def hash_blob_def)

end
