(* ===== verification/ContextStore.thy ===== *)
theory ContextStore
  imports Persistent MerkleHash "HOL-Library.AList"
begin

text \<open>
  The stores a context can be kept in (\<^verbatim>\<open>storage/src/context/kv_store\<close>): the trait with its
  garbage collection hooks, and the in-memory backend with its memory statistics. A
  \<^verbatim>\<open>RwLock\<close> is a flag that says whether it is poisoned; a vector that was cloned has the
  capacity of its length.
\<close>

section \<open>The trait of context stores\<close>

datatype gc_error =
    GcRocksDBError string
  | GcMissingColumnFamily string
  | BackendError
  | GcSledDBError string
  | GcGuardPoison string
  | GcSerializationError string
  | GcDBError db_error
  | HashConversionError
  | GarbageCollectorError string
  | GcLockError string
  | GcEntryNotFound entry_hash
  | GcHashToStringError
  | GcHashingError hashing_error
  | GcInvalidOutputSize
  | GcValueExpected string

record 's context_store =
  cs_kv :: "('s, entry_hash, bytes) kv_store"
  cs_new_cycle_started :: "('s, gc_error failure, unit) act"
  cs_block_applied :: "entry_hash \<Rightarrow> ('s, gc_error failure, unit) act"
  cs_total_get_mem_usage :: "('s, nat) db_act"

section \<open>Memory statistics\<close>

record storage_backend_stats =
  key_bytes :: nat
  value_bytes :: nat
  reused_keys_bytes :: nat

definition default_stats :: storage_backend_stats where
  "default_stats = \<lparr>key_bytes = 0, value_bytes = 0, reused_keys_bytes = 0\<rparr>"

definition size_of_vec :: "bytes \<Rightarrow> nat" where
  "size_of_vec v = 24 + length v"

definition stats_of :: "entry_hash \<times> bytes \<Rightarrow> storage_backend_stats" where
  "stats_of kv = \<lparr>key_bytes = ENTRY_HASH_LEN, value_bytes = size_of_vec (snd kv), reused_keys_bytes = 0\<rparr>"

definition total_as_bytes :: "storage_backend_stats \<Rightarrow> nat" where
  "total_as_bytes s = key_bytes s + value_bytes s + reused_keys_bytes s"

definition stats_add :: "storage_backend_stats \<Rightarrow> storage_backend_stats \<Rightarrow> storage_backend_stats" where
  "stats_add a b = \<lparr>key_bytes = key_bytes a + key_bytes b, value_bytes = value_bytes a + value_bytes b,
     reused_keys_bytes = reused_keys_bytes a + reused_keys_bytes b\<rparr>"

text \<open>Subtraction of unsigned counters panics when it underflows.\<close>

definition stats_sub :: "storage_backend_stats \<Rightarrow> storage_backend_stats \<Rightarrow> 'e failure + storage_backend_stats" where
  "stats_sub a b =
     (if key_bytes b \<le> key_bytes a \<and> value_bytes b \<le> value_bytes a \<and> reused_keys_bytes b \<le> reused_keys_bytes a
      then Inr \<lparr>key_bytes = key_bytes a - key_bytes b, value_bytes = value_bytes a - value_bytes b,
                reused_keys_bytes = reused_keys_bytes a - reused_keys_bytes b\<rparr>
      else Inl Panic)"

section \<open>The in-memory backend\<close>

record hash_map_with_stats =
  hm_inner :: "(entry_hash \<times> bytes) list"
  hm_stats :: storage_backend_stats

definition hm_insert :: "entry_hash \<Rightarrow> bytes \<Rightarrow> hash_map_with_stats \<Rightarrow> 'e failure + hash_map_with_stats" where
  "hm_insert key value m =
     (let inner = AList.update key value (hm_inner m) in
      case map_of (hm_inner m) key of
        Some prev \<Rightarrow> and_then (stats_sub (hm_stats m) (stats_of (key, prev))) (\<lambda>st.
          Inr \<lparr>hm_inner = inner, hm_stats = stats_add st (stats_of (key, value))\<rparr>)
      | None \<Rightarrow> Inr \<lparr>hm_inner = inner, hm_stats = stats_add (hm_stats m) (stats_of (key, value))\<rparr>)"

definition hm_remove :: "entry_hash \<Rightarrow> hash_map_with_stats \<Rightarrow> 'e failure + hash_map_with_stats" where
  "hm_remove key m =
     (case map_of (hm_inner m) key of
        Some prev \<Rightarrow> and_then (stats_sub (hm_stats m) (stats_of (key, prev))) (\<lambda>st.
          Inr \<lparr>hm_inner = AList.delete key (hm_inner m), hm_stats = st\<rparr>)
      | None \<Rightarrow> Inr m)"

record in_memory_backend =
  im_map :: hash_map_with_stats
  im_poisoned :: bool

definition new_in_memory :: in_memory_backend where
  "new_in_memory = \<lparr>im_map = \<lparr>hm_inner = [], hm_stats = default_stats\<rparr>, im_poisoned = False\<rparr>"

definition im_read :: "(hash_map_with_stats \<Rightarrow> 'a) \<Rightarrow> (in_memory_backend, 'a) db_act" where
  "im_read f s = (if im_poisoned s then (Inl (Err (GuardPoison ''poisoned'')), s) else (Inr (f (im_map s)), s))"

text \<open>A panic while the write guard is held poisons the lock.\<close>

definition im_write :: "(hash_map_with_stats \<Rightarrow> db_error failure + hash_map_with_stats) \<Rightarrow> (in_memory_backend, unit) db_act" where
  "im_write f s =
     (if im_poisoned s then (Inl (Err (GuardPoison ''poisoned'')), s)
      else (case f (im_map s) of
        Inr m \<Rightarrow> (Inr (), s\<lparr>im_map := m\<rparr>)
      | Inl e \<Rightarrow> (Inl e, s\<lparr>im_poisoned := True\<rparr>)))"

definition im_put :: "entry_hash \<Rightarrow> bytes \<Rightarrow> (in_memory_backend, unit) db_act" where
  "im_put key value = im_write (hm_insert key value)"

definition im_delete :: "entry_hash \<Rightarrow> (in_memory_backend, unit) db_act" where
  "im_delete key = im_write (hm_remove key)"

definition im_merge :: "entry_hash \<Rightarrow> bytes \<Rightarrow> (in_memory_backend, unit) db_act" where
  "im_merge key value = im_write (hm_insert key value)"

definition im_get :: "entry_hash \<Rightarrow> (in_memory_backend, bytes option) db_act" where
  "im_get key = im_read (\<lambda>m. map_of (hm_inner m) key)"

definition im_contains :: "entry_hash \<Rightarrow> (in_memory_backend, bool) db_act" where
  "im_contains key = im_read (\<lambda>m. map_of (hm_inner m) key \<noteq> None)"

definition im_retain :: "(entry_hash \<Rightarrow> bool) \<Rightarrow> (in_memory_backend, unit) db_act" where
  "im_retain predicate =
     bindA (im_read (\<lambda>m. filter (\<lambda>k. \<not> predicate k) (map fst (hm_inner m)))) (\<lambda>garbage_keys.
     delete_all im_delete garbage_keys)"

fun im_write_batch :: "(entry_hash \<times> bytes) list \<Rightarrow> (in_memory_backend, unit) db_act" where
  "im_write_batch [] = ret ()"
| "im_write_batch ((k, v) # batch) = bindA (im_merge k v) (\<lambda>_. im_write_batch batch)"

definition im_total_get_mem_usage :: "(in_memory_backend, nat) db_act" where
  "im_total_get_mem_usage = im_read (\<lambda>m. total_as_bytes (hm_stats m))"

text \<open>\<^verbatim>\<open>NotGarbageCollected\<close>: the hooks of the collector do nothing.\<close>

definition not_gc_new_cycle :: "('s, gc_error failure, unit) act" where
  "not_gc_new_cycle = ret ()"

definition not_gc_block_applied :: "entry_hash \<Rightarrow> ('s, gc_error failure, unit) act" where
  "not_gc_block_applied commit = ret ()"

definition in_memory_store :: "in_memory_backend context_store" where
  "in_memory_store = \<lparr>
     cs_kv = \<lparr>kv_put = im_put, kv_delete = im_delete, kv_merge = im_merge, kv_get = im_get,
       kv_contains = im_contains, kv_retain = im_retain, kv_write_batch = im_write_batch\<rparr>,
     cs_new_cycle_started = not_gc_new_cycle, cs_block_applied = not_gc_block_applied,
     cs_total_get_mem_usage = im_total_get_mem_usage\<rparr>"


section \<open>The contract of a context store\<close>

text \<open>Besides the operations on single keys: batches are written in order, retaining filters the keys.\<close>

locale context_contract = kv_contract kv view inv "\<lambda>_. True" "\<lambda>_. True"
  for kv :: "('s, entry_hash, bytes) kv_store" and view inv +
  assumes batch_law: "inv s \<Longrightarrow>
      \<exists>s'. kv_write_batch kv batch s = (Inr (), s') \<and> inv s' \<and> view s' = view s ++ map_of (rev batch)"
    and retain_law: "inv s \<Longrightarrow>
      \<exists>s'. kv_retain kv P s = (Inr (), s') \<and> inv s' \<and> view s' = (\<lambda>k. if P k then view s k else None)"

section \<open>The in-memory backend implements the contract\<close>

definition accounted :: "(entry_hash \<times> bytes) list \<Rightarrow> storage_backend_stats" where
  "accounted kvs = \<lparr>key_bytes = sum_list (map (\<lambda>_. ENTRY_HASH_LEN) kvs),
     value_bytes = sum_list (map (\<lambda>kv. size_of_vec (snd kv)) kvs), reused_keys_bytes = 0\<rparr>"

definition im_ok :: "in_memory_backend \<Rightarrow> bool" where
  "im_ok s \<longleftrightarrow> \<not> im_poisoned s \<and> distinct (map fst (hm_inner (im_map s))) \<and>
     hm_stats (im_map s) = accounted (hm_inner (im_map s))"

definition im_view :: "in_memory_backend \<Rightarrow> entry_hash \<rightharpoonup> bytes" where
  "im_view s = map_of (hm_inner (im_map s))"

lemmas stats_defs = stats_add_def stats_sub_def stats_of_def accounted_def default_stats_def

lemma sum_list_update:
  assumes "distinct (map fst xs)"
  shows "sum_list (map f (AList.update k v xs)) + (case map_of xs k of Some p \<Rightarrow> f (k, p) | None \<Rightarrow> 0) =
    sum_list (map f xs) + (f (k, v) :: nat)"
  using assms by (induction xs) (auto split: option.splits)

lemma sum_list_delete:
  assumes "distinct (map fst xs)"
  shows "sum_list (map f (AList.delete k xs)) + (case map_of xs k of Some p \<Rightarrow> f (k, p) | None \<Rightarrow> 0) =
    (sum_list (map f xs) :: nat)"
proof (use assms in \<open>induction xs\<close>)
  case (Cons x xs)
  moreover have "AList.delete (fst x) xs = xs" if "fst x \<notin> set (map fst xs)"
    using that by (simp add: AList.delete_idem)
  ultimately show ?case
    by (cases x) (auto split: option.splits)
qed simp

lemma member_le_accounted:
  assumes "map_of xs k = Some p"
  shows "ENTRY_HASH_LEN \<le> sum_list (map (\<lambda>_. ENTRY_HASH_LEN) xs)"
    "size_of_vec p \<le> sum_list (map (\<lambda>kv. size_of_vec (snd kv)) xs)"
  using assms by (induction xs) (auto split: if_splits)

lemma hm_insert_ok:
  assumes "distinct (map fst (hm_inner m))" "hm_stats m = accounted (hm_inner m)"
  shows "hm_insert k v m = Inr \<lparr>hm_inner = AList.update k v (hm_inner m),
    hm_stats = accounted (AList.update k v (hm_inner m))\<rparr>"
proof (cases "map_of (hm_inner m) k")
  case None
  then show ?thesis
    using assms sum_list_update [OF assms(1), of "\<lambda>_. ENTRY_HASH_LEN" k v]
      sum_list_update [OF assms(1), of "\<lambda>kv. size_of_vec (snd kv)" k v]
    by (simp add: hm_insert_def stats_defs)
next
  case (Some p)
  then show ?thesis
    using assms sum_list_update [OF assms(1), of "\<lambda>_. ENTRY_HASH_LEN" k v] member_le_accounted [OF Some]
      sum_list_update [OF assms(1), of "\<lambda>kv. size_of_vec (snd kv)" k v]
    by (simp add: hm_insert_def stats_defs)
qed

lemma hm_remove_ok:
  assumes "distinct (map fst (hm_inner m))" "hm_stats m = accounted (hm_inner m)"
  shows "hm_remove k m = Inr \<lparr>hm_inner = AList.delete k (hm_inner m),
    hm_stats = accounted (AList.delete k (hm_inner m))\<rparr>"
proof (cases "map_of (hm_inner m) k")
  case None
  then have "AList.delete k (hm_inner m) = hm_inner m"
    by (simp add: AList.delete_idem map_of_eq_None_iff)
  then show ?thesis
    using None assms(2) by (cases m) (simp add: hm_remove_def)
next
  case (Some p)
  then show ?thesis
    using assms sum_list_delete [OF assms(1), of "\<lambda>_. ENTRY_HASH_LEN" k] member_le_accounted [OF Some]
      sum_list_delete [OF assms(1), of "\<lambda>kv. size_of_vec (snd kv)" k]
    by (simp add: hm_remove_def stats_defs) arith
qed

lemma im_put_ok:
  assumes "im_ok s"
  shows "\<exists>s'. im_merge k v s = (Inr (), s') \<and> im_ok s' \<and> im_view s' = (im_view s)(k \<mapsto> v)"
  using assms by (simp add: im_merge_def im_write_def im_ok_def im_view_def hm_insert_ok update_conv' distinct_update)

lemma im_delete_ok:
  assumes "im_ok s"
  shows "\<exists>s'. im_delete k s = (Inr (), s') \<and> im_ok s' \<and> im_view s' = (im_view s)(k := None)"
  using assms by (simp add: im_delete_def im_write_def im_ok_def im_view_def hm_remove_ok delete_conv' distinct_delete)

lemma im_write_batch_ok:
  "im_ok s \<Longrightarrow> \<exists>s'. im_write_batch batch s = (Inr (), s') \<and> im_ok s' \<and> im_view s' = im_view s ++ map_of (rev batch)"
proof (induction batch arbitrary: s)
  case (Cons kv batch)
  obtain k v where kv: "kv = (k, v)"
    by fastforce
  obtain s1 where s1: "im_merge k v s = (Inr (), s1)" "im_ok s1" "im_view s1 = (im_view s)(k \<mapsto> v)"
    using im_put_ok [OF Cons.prems] by blast
  obtain s2 where "im_write_batch batch s1 = (Inr (), s2)" "im_ok s2" "im_view s2 = im_view s1 ++ map_of (rev batch)"
    using Cons.IH [OF s1(2)] by blast
  then show ?case
    using s1 by (auto simp: kv act_simps map_add_def fun_eq_iff split: option.splits)
qed (simp add: act_simps)

lemma delete_all_ok:
  "im_ok s \<Longrightarrow> \<exists>s'. delete_all im_delete ks s = (Inr (), s') \<and> im_ok s' \<and>
    im_view s' = (\<lambda>k. if k \<in> set ks then None else im_view s k)"
proof (induction ks arbitrary: s)
  case (Cons k ks)
  obtain s1 where s1: "im_delete k s = (Inr (), s1)" "im_ok s1" "im_view s1 = (im_view s)(k := None)"
    using im_delete_ok [OF Cons.prems] by blast
  obtain s2 where "delete_all im_delete ks s1 = (Inr (), s2)" "im_ok s2"
    "im_view s2 = (\<lambda>k. if k \<in> set ks then None else im_view s1 k)"
    using Cons.IH [OF s1(2)] by blast
  then show ?case
    using s1 by (auto simp: act_simps fun_eq_iff)
qed (simp add: act_simps)

lemma im_retain_ok:
  assumes "im_ok s"
  shows "\<exists>s'. im_retain P s = (Inr (), s') \<and> im_ok s' \<and> im_view s' = (\<lambda>k. if P k then im_view s k else None)"
proof -
  define ks where "ks = filter (\<lambda>k. \<not> P k) (map fst (hm_inner (im_map s)))"
  have "(\<lambda>k. if k \<in> set ks then None else im_view s k) = (\<lambda>k. if P k then im_view s k else None)"
    by (auto simp: ks_def im_view_def fun_eq_iff map_of_eq_None_iff)
  then show ?thesis
    using delete_all_ok [OF assms, of ks] assms
    by (simp add: im_retain_def im_read_def im_ok_def bindA_def ks_def)
qed

interpretation im: context_contract "cs_kv in_memory_store" im_view im_ok
proof (unfold_locales, goal_cases)
  case (3 s k v)
  then show ?case
    using im_put_ok [of s k v] by (simp add: in_memory_store_def im_put_def im_merge_def)
qed (use im_write_batch_ok im_retain_ok im_delete_ok in
  \<open>simp_all add: in_memory_store_def im_get_def im_contains_def im_read_def im_ok_def im_view_def\<close>)

lemma new_in_memory_ok [simp]: "im_ok new_in_memory" "im_view new_in_memory = Map.empty"
  by (simp_all add: im_ok_def im_view_def new_in_memory_def stats_defs)

end
