(* ===== verification/MerkleStorage.thy ===== *)
theory MerkleStorage
  imports ContextStore
begin

text \<open>
  The versioned context tree (\<^verbatim>\<open>storage/src/context/merkle/merkle_storage.rs\<close>). A working tree
  is changed by \<open>ms_set\<close>, \<open>ms_delete\<close> and \<open>ms_copy\<close>, written to the store by
  \<open>ms_commit\<close> and replaced by \<open>ms_checkout\<close>. The serializer \<^verbatim>\<open>bincode\<close> and the hexadecimal
  encoder are third-party and fields of \<open>merkle_env\<close>; \<open>recursion_depth\<close> bounds the
  recursions that follow hashes through the store, which exhaust the stack on a cyclic store.
  Latency statistics are left out.
\<close>

section \<open>State\<close>

type_synonym context_key = "string list"
type_synonym context_value = bytes
type_synonym tree_id = i32

datatype merkle_error =
    DBError db_error
  | KVBackendError gc_error
  | SerializationError string
  | GarbageCollectionError gc_error
  | CommitRootNotFound
  | MissingAncestorCommit
  | ValueIsNotABlob string
  | ValueIsNotATree string
  | FoundUnexpectedStructure (sought: string) (found: string)
  | EntryNotFound entry_hash
  | TreeNotFoundInWorkingTree tree_id
  | ValueNotFound string
  | KeyEmpty
  | HashToArrayError
  | HashToStringError
  | HashingError hashing_error
  | ValueExpected string
  | InvalidState string
  | GCTriggeredBeforeFirstCommit

type_synonym 'a merkle_result = "merkle_error failure + 'a"

record merkle_env =
  hashes :: hash_lib
  bincode_ser :: "entry \<Rightarrow> bytes"
  bincode_de :: "bytes \<Rightarrow> string + entry"
  hex_encode :: "bytes \<Rightarrow> string"
  recursion_depth :: nat

record 's merkle_storage =
  working_tree :: "tree \<times> tree_id"
  ms_db :: 's
  trees :: "tree_id \<rightharpoonup> tree"
  last_commit_hash :: "entry_hash option"

definition new_merkle :: "'s \<Rightarrow> 's merkle_storage" where
  "new_merkle db = \<lparr>working_tree = ([], 0), ms_db = db, trees = [0 \<mapsto> []], last_commit_hash = None\<rparr>"

section \<open>Ordered maps\<close>

fun tree_insert :: "string \<Rightarrow> node \<Rightarrow> tree \<Rightarrow> tree" where
  "tree_insert k n [] = [(k, n)]"
| "tree_insert k n ((k', n') # t) =
     (if k < k' then (k, n) # (k', n') # t
      else if k = k' then (k, n) # t
      else (k', n') # tree_insert k n t)"

definition tree_remove :: "string \<Rightarrow> tree \<Rightarrow> tree" where
  "tree_remove k t = filter (\<lambda>p. fst p \<noteq> k) t"

section \<open>Reading entries\<close>

text \<open>A read of the store through \<^verbatim>\<open>&self\<close>.\<close>

type_synonym db_reader = "entry_hash \<Rightarrow> db_error failure + bytes option"

definition db_reader_of :: "('s, entry_hash, bytes) kv_store \<Rightarrow> 's \<Rightarrow> db_reader" where
  "db_reader_of kv s h = fst (kv_get kv h s)"

definition get_entry_from_hash :: "merkle_env \<Rightarrow> db_reader \<Rightarrow> entry_hash \<Rightarrow> entry merkle_result" where
  "get_entry_from_hash E rd h =
     (case rd h of
        Inl e \<Rightarrow> Inl (map_failure DBError e)
      | Inr None \<Rightarrow> Inl (Err (EntryNotFound h))
      | Inr (Some bs) \<Rightarrow> map_err (\<lambda>m. Err (SerializationError m)) (bincode_de E bs))"

definition get_entry :: "merkle_env \<Rightarrow> db_reader \<Rightarrow> node \<Rightarrow> entry merkle_result" where
  "get_entry E rd n =
     (case n_entry n of
        Some e \<Rightarrow> Inr e
      | None \<Rightarrow> (case n_hash n of
          None \<Rightarrow> Inl (Err (InvalidState ''Missing entry hash''))
        | Some h \<Rightarrow> get_entry_from_hash E rd h))"

definition get_tree :: "entry \<Rightarrow> tree merkle_result" where
  "get_tree e =
     (case e of
        Tree t \<Rightarrow> Inr t
      | Blob _ \<Rightarrow> Inl (Err (FoundUnexpectedStructure ''tree'' ''blob''))
      | Commit _ \<Rightarrow> Inl (Err (FoundUnexpectedStructure ''tree'' ''commit'')))"

definition get_commit :: "merkle_env \<Rightarrow> db_reader \<Rightarrow> entry_hash \<Rightarrow> commit merkle_result" where
  "get_commit E rd h =
     and_then (get_entry_from_hash E rd h) (\<lambda>e.
       case e of
         Commit c \<Rightarrow> Inr c
       | Tree _ \<Rightarrow> Inl (Err (FoundUnexpectedStructure ''commit'' ''tree''))
       | Blob _ \<Rightarrow> Inl (Err (FoundUnexpectedStructure ''commit'' ''blob'')))"

fun find_tree :: "merkle_env \<Rightarrow> db_reader \<Rightarrow> tree \<Rightarrow> context_key \<Rightarrow> tree merkle_result" where
  "find_tree E rd root [] = Inr root"
| "find_tree E rd root (first # rest) =
     (case map_of root first of
        None \<Rightarrow> Inr []
      | Some child_node \<Rightarrow>
          and_then (get_entry E rd child_node) (\<lambda>e.
            case e of
              Tree t \<Rightarrow> find_tree E rd t rest
            | Blob _ \<Rightarrow> Inr []
            | Commit _ \<Rightarrow> Inl (Err (FoundUnexpectedStructure ''Tree/Blob'' ''commit''))))"

fun key_to_string :: "context_key \<Rightarrow> string" where
  "key_to_string [] = []"
| "key_to_string [k] = k"
| "key_to_string (k # ks) = k @ ''/'' @ key_to_string ks"

fun string_to_key :: "string \<Rightarrow> context_key" where
  "string_to_key [] = [[]]"
| "string_to_key (c # s) =
     (if c = CHR ''/'' then [] # string_to_key s
      else (case string_to_key s of k # ks \<Rightarrow> (c # k) # ks | [] \<Rightarrow> [[c]]))"

definition value_exists :: "merkle_env \<Rightarrow> db_reader \<Rightarrow> tree \<Rightarrow> context_key \<Rightarrow> bool merkle_result" where
  "value_exists E rd t key =
     (if key = [] then Inl (Err KeyEmpty)
      else (case find_tree E rd t (butlast key) of
        Inr node \<Rightarrow> Inr (map_of node (last key) \<noteq> None)
      | Inl (Err _) \<Rightarrow> Inr False
      | Inl Panic \<Rightarrow> Inl Panic))"

definition directory_exists :: "merkle_env \<Rightarrow> db_reader \<Rightarrow> tree \<Rightarrow> context_key \<Rightarrow> bool merkle_result" where
  "directory_exists E rd root key =
     (case find_tree E rd root key of
        Inr node \<Rightarrow> Inr (node \<noteq> [])
      | Inl (Err _) \<Rightarrow> Inr False
      | Inl Panic \<Rightarrow> Inl Panic)"

definition get_from_tree :: "merkle_env \<Rightarrow> db_reader \<Rightarrow> tree \<Rightarrow> context_key \<Rightarrow> context_value merkle_result" where
  "get_from_tree E rd root key =
     (if key = [] then Inl (Err KeyEmpty)
      else and_then (find_tree E rd root (butlast key)) (\<lambda>node.
        case map_of node (last key) of
          None \<Rightarrow> Inl (Err (ValueNotFound (key_to_string key)))
        | Some n \<Rightarrow> and_then (get_entry E rd n) (\<lambda>e.
            case e of
              Blob blob \<Rightarrow> Inr blob
            | _ \<Rightarrow> Inl (Err (ValueIsNotABlob (key_to_string key))))))"

section \<open>Listings\<close>

text \<open>Entries below a child that cannot be read are skipped.\<close>

fun each_child :: "(string \<times> node \<Rightarrow> 'e failure + 'a list) \<Rightarrow> tree \<Rightarrow> 'e failure + 'a list" where
  "each_child f [] = Inr []"
| "each_child f (p # t) = and_then (f p) (\<lambda>xs. and_then (each_child f t) (\<lambda>ys. Inr (xs @ ys)))"

primrec get_key_values_from_tree_recursively ::
  "nat \<Rightarrow> merkle_env \<Rightarrow> db_reader \<Rightarrow> string \<Rightarrow> entry \<Rightarrow> (context_key \<times> context_value) list merkle_result" where
  "get_key_values_from_tree_recursively 0 E rd path e = Inl Panic"
| "get_key_values_from_tree_recursively (Suc depth) E rd path e =
     (case e of
        Blob blob \<Rightarrow> Inr [(string_to_key path, blob)]
      | Tree t \<Rightarrow> each_child (\<lambda>(key, child_node).
          let fullpath = path @ ''/'' @ key in
          case get_entry E rd child_node of
            Inl (Err _) \<Rightarrow> Inr []
          | Inl Panic \<Rightarrow> Inl Panic
          | Inr child \<Rightarrow> get_key_values_from_tree_recursively depth E rd fullpath child) t
      | Commit c \<Rightarrow> and_then (get_entry_from_hash E rd (root_hash c))
          (get_key_values_from_tree_recursively depth E rd path))"

definition key_values_by_prefix ::
  "merkle_env \<Rightarrow> db_reader \<Rightarrow> tree \<Rightarrow> context_key \<Rightarrow> (context_key \<times> context_value) list option merkle_result" where
  "key_values_by_prefix E rd root_tree pfx =
     and_then (find_tree E rd root_tree pfx) (\<lambda>prefixed_tree.
     and_then (each_child (\<lambda>(key, child_node).
         and_then (get_entry E rd child_node) (\<lambda>e.
           let delimiter = (if pfx = [] then [] else ''/'');
               fullpath = key_to_string pfx @ delimiter @ key in
           get_key_values_from_tree_recursively (recursion_depth E) E rd fullpath e)) prefixed_tree) (\<lambda>keyvalues.
     Inr (if keyvalues = [] then None else Some keyvalues)))"

datatype string_tree_entry =
    STree "(string \<times> string_tree_entry) list"
  | SBlob string
  | SNull

primrec get_context_recursive ::
  "nat \<Rightarrow> merkle_env \<Rightarrow> db_reader \<Rightarrow> entry \<Rightarrow> nat option \<Rightarrow> string_tree_entry merkle_result" where
  "get_context_recursive 0 E rd e depth = Inl Panic"
| "get_context_recursive (Suc n) E rd e depth =
     (if depth = Some 0 then Inr SNull
      else (case e of
        Blob blob \<Rightarrow> Inr (SBlob (hex_encode E blob))
      | Tree t \<Rightarrow> and_then (for_each (\<lambda>(key, child_node).
          and_then (get_entry E rd child_node) (\<lambda>child.
          and_then (get_context_recursive n E rd child (map_option (\<lambda>d. d - 1) depth)) (\<lambda>s.
          Inr (key, s)))) t) (\<lambda>new_tree. Inr (STree new_tree))
      | Commit _ \<Rightarrow> Inl (Err (FoundUnexpectedStructure ''Tree/Blob'' ''Commit''))))"

section \<open>Changing the tree\<close>

definition get_non_leaf :: "entry \<Rightarrow> node" where
  "get_non_leaf e = Node NonLeaf None (Some e)"

text \<open>From the changed directory up to the root: a directory that became empty is removed from its parent.\<close>

function compute_new_root_with_change ::
  "merkle_env \<Rightarrow> db_reader \<Rightarrow> tree \<Rightarrow> context_key \<Rightarrow> node option \<Rightarrow> entry merkle_result" where
  "compute_new_root_with_change E rd root key new_node =
     (if key = [] then
        (case new_node of
           Some n \<Rightarrow> ok_or (Err (InvalidState ''Missing entry value'')) (n_entry n)
         | None \<Rightarrow> Inr (Tree []))
      else
        let path = butlast key in
        and_then (find_tree E rd root path) (\<lambda>tree.
          let tree' = (case new_node of
                 None \<Rightarrow> tree_remove (last key) tree
               | Some n \<Rightarrow> tree_insert (last key) n tree) in
          if tree' = [] then compute_new_root_with_change E rd root path None
          else compute_new_root_with_change E rd root path (Some (get_non_leaf (Tree tree')))))"
  by pat_completeness auto
termination
  by (relation "measure (\<lambda>(E, rd, root, key, new_node). length key)") auto

declare compute_new_root_with_change.simps [simp del]

section \<open>Operations of the storage\<close>

definition ms_reader :: "'s context_store \<Rightarrow> 's merkle_storage \<Rightarrow> db_reader" where
  "ms_reader cs ms = db_reader_of (cs_kv cs) (ms_db ms)"

definition set_working_tree_root :: "tree \<Rightarrow> tree_id \<Rightarrow> 's merkle_storage \<Rightarrow> 's merkle_storage" where
  "set_working_tree_root t tid ms = ms\<lparr>working_tree := (t, tid), trees := (trees ms)(tid \<mapsto> t)\<rparr>"

definition ms_get :: "merkle_env \<Rightarrow> 's context_store \<Rightarrow> context_key \<Rightarrow> 's merkle_storage \<Rightarrow> context_value merkle_result" where
  "ms_get E cs key ms =
     (case get_from_tree E (ms_reader cs ms) (fst (working_tree ms)) key of
        Inr v \<Rightarrow> Inr v
      | Inl (Err _) \<Rightarrow> Inr []
      | Inl Panic \<Rightarrow> Inl Panic)"

definition ms_mem :: "merkle_env \<Rightarrow> 's context_store \<Rightarrow> context_key \<Rightarrow> 's merkle_storage \<Rightarrow> bool merkle_result" where
  "ms_mem E cs key ms = value_exists E (ms_reader cs ms) (fst (working_tree ms)) key"

definition ms_dirmem :: "merkle_env \<Rightarrow> 's context_store \<Rightarrow> context_key \<Rightarrow> 's merkle_storage \<Rightarrow> bool merkle_result" where
  "ms_dirmem E cs key ms = directory_exists E (ms_reader cs ms) (fst (working_tree ms)) key"

definition get_by_prefix :: "merkle_env \<Rightarrow> 's context_store \<Rightarrow> context_key \<Rightarrow> 's merkle_storage \<Rightarrow>
    (context_key \<times> context_value) list option merkle_result" where
  "get_by_prefix E cs pfx ms = key_values_by_prefix E (ms_reader cs ms) (fst (working_tree ms)) pfx"

definition commit_tree :: "merkle_env \<Rightarrow> db_reader \<Rightarrow> entry_hash \<Rightarrow> tree merkle_result" where
  "commit_tree E rd commit_hash =
     and_then (get_commit E rd commit_hash) (\<lambda>c.
     and_then (get_entry_from_hash E rd (root_hash c)) get_tree)"

definition get_history :: "merkle_env \<Rightarrow> 's context_store \<Rightarrow> entry_hash \<Rightarrow> context_key \<Rightarrow> 's merkle_storage \<Rightarrow>
    context_value merkle_result" where
  "get_history E cs commit_hash key ms =
     and_then (commit_tree E (ms_reader cs ms) commit_hash) (\<lambda>t.
     get_from_tree E (ms_reader cs ms) t key)"

definition get_key_values_by_prefix :: "merkle_env \<Rightarrow> 's context_store \<Rightarrow> entry_hash \<Rightarrow> context_key \<Rightarrow> 's merkle_storage \<Rightarrow>
    (context_key \<times> context_value) list option merkle_result" where
  "get_key_values_by_prefix E cs ctxt_hash pfx ms =
     and_then (commit_tree E (ms_reader cs ms) ctxt_hash) (\<lambda>root_tree.
     key_values_by_prefix E (ms_reader cs ms) root_tree pfx)"

definition get_context_tree_by_prefix :: "merkle_env \<Rightarrow> 's context_store \<Rightarrow> entry_hash \<Rightarrow> context_key \<Rightarrow> nat option \<Rightarrow>
    's merkle_storage \<Rightarrow> string_tree_entry merkle_result" where
  "get_context_tree_by_prefix E cs ctxt_hash pfx depth ms =
     (if depth = Some 0 then Inr SNull
      else
        let rd = ms_reader cs ms in
        and_then (commit_tree E rd ctxt_hash) (\<lambda>root_tree.
        and_then (find_tree E rd root_tree pfx) (\<lambda>prefixed_tree.
        and_then (for_each (\<lambda>(key, child_node).
            and_then (get_entry E rd child_node) (\<lambda>e.
            and_then (get_context_recursive (recursion_depth E) E rd e (map_option (\<lambda>d. d - 1) depth)) (\<lambda>s.
            Inr (key, s)))) prefixed_tree) (\<lambda>out.
        Inr (STree out)))))"

definition ms_checkout :: "merkle_env \<Rightarrow> 's context_store \<Rightarrow> entry_hash \<Rightarrow> ('s merkle_storage, merkle_error failure, unit) act" where
  "ms_checkout E cs ctxt_hash ms =
     (case commit_tree E (ms_reader cs ms) ctxt_hash of
        Inl e \<Rightarrow> (Inl e, ms)
      | Inr t \<Rightarrow> (Inr (), (set_working_tree_root t 0 (ms\<lparr>trees := Map.empty\<rparr>))\<lparr>last_commit_hash := Some ctxt_hash\<rparr>))"

text \<open>A changed root replaces the working tree.\<close>

definition install :: "entry merkle_result \<Rightarrow> tree_id \<Rightarrow> ('s merkle_storage, merkle_error failure, unit) act" where
  "install r new_tree_id ms =
     (case and_then r get_tree of
        Inl e \<Rightarrow> (Inl e, ms)
      | Inr new_root \<Rightarrow> (Inr (), set_working_tree_root new_root new_tree_id ms))"

definition ms_set :: "merkle_env \<Rightarrow> 's context_store \<Rightarrow> tree_id \<Rightarrow> context_key \<Rightarrow> context_value \<Rightarrow>
    ('s merkle_storage, merkle_error failure, unit) act" where
  "ms_set E cs new_tree_id key val ms =
     install (compute_new_root_with_change E (ms_reader cs ms) (fst (working_tree ms)) key
       (Some (Node Leaf None (Some (Blob val))))) new_tree_id ms"

definition ms_delete :: "merkle_env \<Rightarrow> 's context_store \<Rightarrow> tree_id \<Rightarrow> context_key \<Rightarrow>
    ('s merkle_storage, merkle_error failure, unit) act" where
  "ms_delete E cs new_tree_id key ms =
     install (if key = [] then Inr (Tree (fst (working_tree ms)))
              else compute_new_root_with_change E (ms_reader cs ms) (fst (working_tree ms)) key None) new_tree_id ms"

definition ms_copy :: "merkle_env \<Rightarrow> 's context_store \<Rightarrow> tree_id \<Rightarrow> context_key \<Rightarrow> context_key \<Rightarrow>
    ('s merkle_storage, merkle_error failure, unit) act" where
  "ms_copy E cs new_tree_id from_key to_key ms =
     (let rd = ms_reader cs ms; root = fst (working_tree ms) in
      install (and_then (find_tree E rd root from_key) (\<lambda>source_tree.
        compute_new_root_with_change E rd root to_key (Some (get_non_leaf (Tree source_tree))))) new_tree_id ms)"

definition hashingA :: "'a hashing \<Rightarrow> 'a merkle_result" where
  "hashingA r = map_err (map_failure HashingError) r"

definition get_working_tree_root_hash :: "merkle_env \<Rightarrow> 's merkle_storage \<Rightarrow> entry_hash merkle_result" where
  "get_working_tree_root_hash E ms = hashingA (hash_tree (hashes E) (fst (working_tree ms)))"

definition working_tree_checkout :: "tree_id \<Rightarrow> ('s merkle_storage, merkle_error failure, unit) act" where
  "working_tree_checkout tid ms =
     (if tid = snd (working_tree ms) then (Inr (), ms)
      else (case trees ms tid of
        None \<Rightarrow> (Inl (Err (TreeNotFoundInWorkingTree tid)), ms)
      | Some t \<Rightarrow> (Inr (), set_working_tree_root t tid ms)))"

section \<open>Committing\<close>

text \<open>An entry is hashed, which fills cells, and then serialized; only an empty hash cell stops the serializer.\<close>

definition batch_entry :: "merkle_env \<Rightarrow> entry \<Rightarrow> (entry_hash \<times> bytes) merkle_result" where
  "batch_entry E e =
     and_then (hashingA (hash_entry (hashes E) e)) (\<lambda>h.
     and_then (map_err (\<lambda>_. Err (SerializationError ''entry_hash missing in Node'')) (stored_form (hashes E) e)) (\<lambda>s.
     Inr (h, bincode_ser E s)))"

text \<open>
  The batch of an entry: the entry itself and what is loaded below it. Only the root of a commit
  that is not given is read from the store.
\<close>

lemma size_child_entry:
  assumes "p \<in> set t" "n_entry (snd p) = Some e"
  shows "size e < size (Tree t)"
proof -
  have "size e < size (snd p)"
    using assms(2) by (cases "snd p") auto
  also have "size (snd p) < size (Tree t)"
    using size_list_estimation [OF assms(1), of "size (snd p)" "\<lambda>x. Suc (size (snd x))"]
    by (simp add: size_prod_simp)
  finally show ?thesis .
qed

function get_entries_recursively ::
  "merkle_env \<Rightarrow> db_reader \<Rightarrow> nat \<Rightarrow> entry \<Rightarrow> tree option \<Rightarrow> (entry_hash \<times> bytes) list merkle_result" where
  "get_entries_recursively E rd depth e root =
     and_then (batch_entry E e) (\<lambda>x.
     and_then
       (case e of
          Blob _ \<Rightarrow> Inr []
        | Tree t \<Rightarrow> and_then (for_each (\<lambda>p.
            case n_entry (snd p) of
              None \<Rightarrow> Inr []
            | Some child \<Rightarrow> get_entries_recursively E rd depth child None) t) (\<lambda>xs. Inr (concat xs))
        | Commit c \<Rightarrow>
            (case root of
               Some r \<Rightarrow> get_entries_recursively E rd depth (Tree r) None
             | None \<Rightarrow> (case depth of
                 0 \<Rightarrow> Inl Panic
               | Suc d \<Rightarrow> and_then (get_entry_from_hash E rd (root_hash c)) (\<lambda>re.
                   get_entries_recursively E rd d re None))))
       (\<lambda>xs. Inr (x # xs)))"
  by pat_completeness auto
termination
  by (relation "measures [\<lambda>(E, rd, depth, e, root). depth,
      \<lambda>(E, rd, depth, e, root). size e + (case root of None \<Rightarrow> 0 | Some r \<Rightarrow> Suc (size (Tree r)))]")
    (auto dest: size_child_entry)

declare get_entries_recursively.simps [simp del]

definition ms_commit :: "merkle_env \<Rightarrow> 's context_store \<Rightarrow> 64 word \<Rightarrow> string \<Rightarrow> string \<Rightarrow>
    ('s merkle_storage, merkle_error failure, entry_hash) act" where
  "ms_commit E cs time auth msg ms =
     (case and_then (get_working_tree_root_hash E ms) (\<lambda>rh.
        let new_commit = \<lparr>parent_commit_hash = last_commit_hash ms, root_hash = rh, c_time = time,
              author = auth, c_message = msg\<rparr> in
        and_then (hashingA (hash_commit (hashes E) new_commit)) (\<lambda>new_commit_hash.
        and_then (get_entries_recursively E (ms_reader cs ms) (recursion_depth E) (Commit new_commit)
            (Some (fst (working_tree ms)))) (\<lambda>batch.
        Inr (new_commit_hash, batch)))) of
        Inl e \<Rightarrow> (Inl e, ms)
      | Inr (new_commit_hash, batch) \<Rightarrow>
          (case kv_write_batch (cs_kv cs) batch (ms_db ms) of
             (Inl e, db) \<Rightarrow> (Inl (map_failure DBError e), ms\<lparr>ms_db := db\<rparr>)
           | (Inr _, db) \<Rightarrow> (Inr new_commit_hash, ms\<lparr>ms_db := db, last_commit_hash := Some new_commit_hash\<rparr>)))"

definition dbA :: "('s, gc_error failure, 'a) act \<Rightarrow> ('s merkle_storage, merkle_error failure, 'a) act" where
  "dbA m ms = (case m (ms_db ms) of (r, db) \<Rightarrow> (map_err (map_failure GarbageCollectionError) r, ms\<lparr>ms_db := db\<rparr>))"

definition ms_block_applied :: "'s context_store \<Rightarrow> ('s merkle_storage, merkle_error failure, unit) act" where
  "ms_block_applied cs ms =
     (case last_commit_hash ms of
        Some h \<Rightarrow> dbA (cs_block_applied cs h) ms
      | None \<Rightarrow> (Inl (Err GCTriggeredBeforeFirstCommit), ms))"

definition start_new_cycle :: "'s context_store \<Rightarrow> ('s merkle_storage, merkle_error failure, unit) act" where
  "start_new_cycle cs = dbA (cs_new_cycle_started cs)"

end
