(* ===== verification/MerkleContents.thy ===== *)
theory MerkleContents
  imports MerkleStorage
begin

text \<open>
  What the context tree promises. \<open>contents\<close> reads a tree as a partial map from keys to values;
  \<open>spec_set\<close>, \<open>spec_delete\<close> and \<open>spec_copy\<close> say what the changes do to that map, and the
  operations of the storage refine them. Committing and checking out gives the same map back.
\<close>

section \<open>Trees as maps\<close>

definition sorted_tree :: "tree \<Rightarrow> bool" where
  "sorted_tree t = sorted_wrt (<) (map fst t)"

fun contents :: "merkle_env \<Rightarrow> db_reader \<Rightarrow> tree \<Rightarrow> context_key \<Rightarrow> context_value option" where
  "contents E rd t [] = None"
| "contents E rd t (k # ks) =
     (case map_of t k of
        None \<Rightarrow> None
      | Some n \<Rightarrow> (case get_entry E rd n of
          Inl _ \<Rightarrow> None
        | Inr (Tree t') \<Rightarrow> contents E rd t' ks
        | Inr (Blob b) \<Rightarrow> if ks = [] then Some b else None
        | Inr (Commit _) \<Rightarrow> None))"

definition entry_contents :: "merkle_env \<Rightarrow> db_reader \<Rightarrow> entry \<Rightarrow> context_key \<Rightarrow> context_value option" where
  "entry_contents E rd e ks =
     (case e of
        Tree t \<Rightarrow> contents E rd t ks
      | Blob b \<Rightarrow> if ks = [] then Some b else None
      | Commit _ \<Rightarrow> None)"

lemma contents_Cons:
  "contents E rd t (k # ks) =
     (case map_of t k of None \<Rightarrow> None
      | Some n \<Rightarrow> (case get_entry E rd n of Inl _ \<Rightarrow> None | Inr e \<Rightarrow> entry_contents E rd e ks))"
  by (auto simp: entry_contents_def split: option.split sum.split entry.split)

lemma contents_empty [simp]: "contents E rd [] ks = None"
  by (cases ks) simp_all

text \<open>
  A tree that can be read: every reference resolves, down to the values, names are in order
  and cached hashes are right.
\<close>

inductive readable :: "merkle_env \<Rightarrow> db_reader \<Rightarrow> tree \<Rightarrow> bool" for E rd where
  readableI: "sorted_tree t \<Longrightarrow>
    (\<forall>p \<in> set t. (\<exists>b. get_entry E rd (snd p) = Inr (Blob b)) \<or>
       (\<exists>t'. get_entry E rd (snd p) = Inr (Tree t') \<and> readable E rd t')) \<Longrightarrow>
    (\<forall>p \<in> set t. \<forall>h e. n_hash (snd p) = Some h \<and> n_entry (snd p) = Some e \<longrightarrow>
       hash_entry (hashes E) e = Inr h) \<Longrightarrow>
    readable E rd t"

definition readable_entry :: "merkle_env \<Rightarrow> db_reader \<Rightarrow> entry \<Rightarrow> bool" where
  "readable_entry E rd e \<longleftrightarrow> (case e of Tree t \<Rightarrow> readable E rd t | Blob _ \<Rightarrow> True | Commit _ \<Rightarrow> False)"

definition readable_node :: "merkle_env \<Rightarrow> db_reader \<Rightarrow> node \<Rightarrow> bool" where
  "readable_node E rd n \<longleftrightarrow>
     (\<exists>e. get_entry E rd n = Inr e \<and> readable_entry E rd e) \<and>
     (\<forall>h e. n_hash n = Some h \<and> n_entry n = Some e \<longrightarrow> hash_entry (hashes E) e = Inr h)"

lemma readable_iff: "readable E rd t \<longleftrightarrow> sorted_tree t \<and> (\<forall>p \<in> set t. readable_node E rd (snd p))"
proof
  assume "readable E rd t"
  then show "sorted_tree t \<and> (\<forall>p \<in> set t. readable_node E rd (snd p))"
    by (cases rule: readable.cases) (fastforce simp: readable_node_def readable_entry_def)
next
  assume a: "sorted_tree t \<and> (\<forall>p \<in> set t. readable_node E rd (snd p))"
  then have n: "readable_node E rd (snd p)" if "p \<in> set t" for p
    using that by blast
  show "readable E rd t"
  proof (rule readableI)
    show "\<forall>p \<in> set t. (\<exists>b. get_entry E rd (snd p) = Inr (Blob b)) \<or>
       (\<exists>t'. get_entry E rd (snd p) = Inr (Tree t') \<and> readable E rd t')"
    proof
      fix p
      assume "p \<in> set t"
      then obtain e where "get_entry E rd (snd p) = Inr e" "readable_entry E rd e"
        using n unfolding readable_node_def by blast
      then show "(\<exists>b. get_entry E rd (snd p) = Inr (Blob b)) \<or>
         (\<exists>t'. get_entry E rd (snd p) = Inr (Tree t') \<and> readable E rd t')"
        by (cases e) (simp_all add: readable_entry_def)
    qed
  qed (use a n in \<open>auto simp: readable_node_def\<close>)
qed

lemma readable_empty [simp]: "readable E rd []"
  by (simp add: readable_iff sorted_tree_def)

lemma readable_lookup:
  assumes "readable E rd t" "map_of t k = Some n"
  obtains e where "get_entry E rd n = Inr e" "readable_entry E rd e"
proof -
  have "(k, n) \<in> set t"
    using assms(2) by (rule map_of_SomeD)
  then have "readable_node E rd n"
    using assms(1) by (force simp: readable_iff)
  then show thesis
    using that unfolding readable_node_def by blast
qed

section \<open>Ordered maps\<close>

lemma map_of_tree_insert [simp]: "map_of (tree_insert k n t) = (map_of t)(k \<mapsto> n)"
  by (induction k n t rule: tree_insert.induct) (auto simp: fun_eq_iff)

lemma map_of_tree_remove [simp]: "map_of (tree_remove k t) = (map_of t)(k := None)"
  by (induction t) (auto simp: tree_remove_def fun_eq_iff)

lemma set_tree_insert: "set (tree_insert k n t) \<subseteq> insert (k, n) (set t)"
  by (induction k n t rule: tree_insert.induct) auto

lemma sorted_tree_insert: "sorted_tree t \<Longrightarrow> sorted_tree (tree_insert k n t)"
proof (induction k n t rule: tree_insert.induct)
  case (2 k n k' n' t)
  have "fst p = k \<or> fst p \<in> fst ` set t" if "p \<in> set (tree_insert k n t)" for p
    using that set_tree_insert [of k n t] by (cases p) (auto simp: image_iff)
  with 2 show ?case
    by (fastforce simp: sorted_tree_def)
qed (simp add: sorted_tree_def)

lemma sorted_tree_remove: "sorted_tree t \<Longrightarrow> sorted_tree (tree_remove k t)"
  unfolding sorted_tree_def tree_remove_def by (induction t) auto

lemma readable_insert:
  assumes "readable E rd t" "n_entry n = Some e" "n_hash n = None" "readable_entry E rd e"
  shows "readable E rd (tree_insert k n t)"
proof -
  have "readable_node E rd n"
    using assms(2-4) by (simp add: readable_node_def get_entry_def)
  then show ?thesis
    using assms(1) set_tree_insert [of k n t] by (auto simp: readable_iff sorted_tree_insert)
qed

lemma readable_remove: "readable E rd t \<Longrightarrow> readable E rd (tree_remove k t)"
  by (auto simp: readable_iff sorted_tree_remove) (auto simp: tree_remove_def)

section \<open>Reading\<close>

lemma find_tree_readable:
  "readable E rd t \<Longrightarrow> \<exists>u. find_tree E rd t key = Inr u \<and> readable E rd u"
proof (induction key arbitrary: t)
  case (Cons k ks)
  show ?case
  proof (cases "map_of t k")
    case (Some n)
    then obtain e where "get_entry E rd n = Inr e" "readable_entry E rd e"
      using Cons.prems readable_lookup by metis
    then show ?thesis
      using Some Cons.IH by (cases e) (auto simp: readable_entry_def)
  qed simp
qed simp

lemma find_tree_contents:
  "find_tree E rd t key = Inr u \<Longrightarrow> ks \<noteq> [] \<Longrightarrow> contents E rd u ks = contents E rd t (key @ ks)"
proof (induction key arbitrary: t)
  case (Cons k key)
  then show ?case
    by (auto simp: and_then_def split: option.splits sum.splits entry.splits)
qed simp

lemma get_from_tree_iff:
  "get_from_tree E rd t key = Inr v \<longleftrightarrow> contents E rd t key = Some v"
proof (induction key arbitrary: t)
  case (Cons k ks)
  show ?case
  proof (cases "ks = []")
    case True
    then show ?thesis
      by (auto simp: get_from_tree_def and_then_def split: option.splits entry.splits sum.splits)
  next
    case False
    have "get_from_tree E rd t (k # ks) = Inr v \<longleftrightarrow>
      (\<exists>n t'. map_of t k = Some n \<and> get_entry E rd n = Inr (Tree t') \<and> get_from_tree E rd t' ks = Inr v)"
      using False by (auto simp: get_from_tree_def and_then_def split: option.splits entry.splits sum.splits)
    then show ?thesis
      using False Cons.IH by (auto split: option.splits entry.splits sum.splits)
  qed
qed (simp add: get_from_tree_def)

section \<open>Changes\<close>

text \<open>
  The map after \<open>new\<close> was put at a key: it holds everything below the key, and what was
  a value on the way to the key is gone.
\<close>

definition grafted :: "(context_key \<rightharpoonup> context_value) \<Rightarrow> context_key \<Rightarrow> (context_key \<rightharpoonup> context_value) \<Rightarrow>
    context_key \<rightharpoonup> context_value" where
  "grafted old key new k =
     (if prefix key k then new (drop (length key) k)
      else if strict_prefix k key then None
      else old k)"

definition spec_set :: "context_key \<Rightarrow> context_value \<Rightarrow> (context_key \<rightharpoonup> context_value) \<Rightarrow> context_key \<rightharpoonup> context_value" where
  "spec_set key v m = grafted m key [[] \<mapsto> v]"

definition spec_delete :: "context_key \<Rightarrow> (context_key \<rightharpoonup> context_value) \<Rightarrow> context_key \<rightharpoonup> context_value" where
  "spec_delete key m = (if key = [] then m else grafted m key Map.empty)"

definition spec_copy :: "context_key \<Rightarrow> context_key \<Rightarrow> (context_key \<rightharpoonup> context_value) \<Rightarrow> context_key \<rightharpoonup> context_value" where
  "spec_copy from_key to_key m = grafted m to_key (\<lambda>k. if k = [] then None else m (from_key @ k))"

definition node_contents :: "merkle_env \<Rightarrow> db_reader \<Rightarrow> entry option \<Rightarrow> context_key \<rightharpoonup> context_value" where
  "node_contents E rd e ks = (case e of None \<Rightarrow> None | Some e \<Rightarrow> entry_contents E rd e ks)"

text \<open>Replacing one name in a directory, seen from the key of the directory.\<close>

lemma grafted_step:
  assumes "\<And>ks. ks \<noteq> [] \<Longrightarrow> dir ks = old (path @ ks)"
  shows "grafted old path (\<lambda>ks. case ks of [] \<Rightarrow> None | x # xs \<Rightarrow> if x = l then new xs else dir ks) =
    grafted old (path @ [l]) new"
proof
  fix k
  show "grafted old path (\<lambda>ks. case ks of [] \<Rightarrow> None | x # xs \<Rightarrow> if x = l then new xs else dir ks) k =
    grafted old (path @ [l]) new k"
  proof (cases "prefix path k")
    case True
    then obtain ks where k: "k = path @ ks"
      by (auto simp: prefix_def)
    then show ?thesis
      using assms by (cases ks) (auto simp: grafted_def strict_prefix_def)
  next
    case False
    then have "\<not> prefix (path @ [l]) k" "strict_prefix k (path @ [l]) \<longleftrightarrow> strict_prefix k path"
      by (auto simp: append_prefixD) (auto simp: strict_prefix_def prefix_snoc)
    then show ?thesis
      using False by (simp add: grafted_def)
  qed
qed

lemma compute_new_root_step:
  assumes "find_tree E rd root path = Inr t"
  shows "compute_new_root_with_change E rd root (path @ [l]) nn =
    (let t' = (case nn of None \<Rightarrow> tree_remove l t | Some n \<Rightarrow> tree_insert l n t) in
     compute_new_root_with_change E rd root path (if t' = [] then None else Some (get_non_leaf (Tree t'))))"
  using assms by (subst compute_new_root_with_change.simps) (cases nn; simp add: Let_def)

lemma contents_updated:
  assumes "\<And>n. nn = Some n \<Longrightarrow> n_entry n \<noteq> None"
    and t'_def: "t' = (case nn of None \<Rightarrow> tree_remove l t | Some n \<Rightarrow> tree_insert l n t)"
  shows "node_contents E rd (if t' = [] then None else Some (Tree t')) =
    (\<lambda>ks. case ks of [] \<Rightarrow> None
      | x # xs \<Rightarrow> if x = l then node_contents E rd (Option.bind nn n_entry) xs else contents E rd t ks)"
proof
  fix ks
  have "node_contents E rd (if t' = [] then None else Some (Tree t')) ks = contents E rd t' ks"
    by (simp add: node_contents_def entry_contents_def)
  also have "\<dots> = (case ks of [] \<Rightarrow> None
      | x # xs \<Rightarrow> if x = l then node_contents E rd (Option.bind nn n_entry) xs else contents E rd t ks)"
    using assms(1) unfolding t'_def
    by (cases ks; cases nn) (auto simp: contents_Cons node_contents_def get_entry_def simp del: contents.simps(2))
  finally show "node_contents E rd (if t' = [] then None else Some (Tree t')) ks = \<dots>" .
qed

lemma compute_new_root_correct:
  assumes "readable E rd root"
    and "\<And>n. nn = Some n \<Longrightarrow> n_hash n = None \<and> (\<exists>e. n_entry n = Some e \<and> readable_entry E rd e \<and>
      (key = [] \<longrightarrow> (\<exists>t. e = Tree t)))"
  shows "\<exists>t'. compute_new_root_with_change E rd root key nn = Inr (Tree t') \<and> readable E rd t' \<and>
    contents E rd t' = grafted (contents E rd root) key (node_contents E rd (Option.bind nn n_entry))"
  using assms(2)
proof (induction key arbitrary: nn rule: rev_induct)
  case Nil
  show ?case
  proof (cases nn)
    case None
    then show ?thesis
      by (subst compute_new_root_with_change.simps) (simp add: grafted_def node_contents_def fun_eq_iff)
  next
    case (Some n)
    then obtain t where "n_entry n = Some (Tree t)" "readable E rd t"
      using Nil [OF Some] by (auto simp: readable_entry_def)
    then show ?thesis
      using Some by (subst compute_new_root_with_change.simps)
        (simp add: grafted_def node_contents_def entry_contents_def fun_eq_iff)
  qed
next
  case (snoc l path)
  obtain t where t: "find_tree E rd root path = Inr t" "readable E rd t"
    using find_tree_readable [OF assms(1)] by blast
  define t' where "t' = (case nn of None \<Rightarrow> tree_remove l t | Some n \<Rightarrow> tree_insert l n t)"
  define nn' where "nn' = (if t' = [] then None else Some (get_non_leaf (Tree t')))"
  have "readable E rd t'"
    using t(2) readable_insert [OF t(2)] snoc.prems
    by (cases nn) (force simp: t'_def readable_remove)+
  then have nn': "n_hash n = None \<and> (\<exists>e. n_entry n = Some e \<and> readable_entry E rd e \<and> (path = [] \<longrightarrow> (\<exists>t. e = Tree t)))"
    if "nn' = Some n" for n
    using that by (auto simp: nn'_def get_non_leaf_def readable_entry_def split: if_splits)
  have ne: "n_entry n \<noteq> None" if "nn = Some n" for n
    using snoc.prems [OF that] by auto
  have b: "Option.bind nn' n_entry = (if t' = [] then None else Some (Tree t'))"
    by (simp add: nn'_def get_non_leaf_def)
  have cu: "node_contents E rd (if t' = [] then None else Some (Tree t')) =
    (\<lambda>ks. case ks of [] \<Rightarrow> None
      | x # xs \<Rightarrow> if x = l then node_contents E rd (Option.bind nn n_entry) xs else contents E rd t ks)"
    by (rule contents_updated [OF _ t'_def]) (rule ne)
  obtain r where r: "compute_new_root_with_change E rd root path nn' = Inr (Tree r)" "readable E rd r"
    "contents E rd r = grafted (contents E rd root) path (node_contents E rd (Option.bind nn' n_entry))"
    using snoc.IH [of nn'] nn' by blast
  have "contents E rd r = grafted (contents E rd root) (path @ [l]) (node_contents E rd (Option.bind nn n_entry))"
    unfolding r(3) b cu by (rule grafted_step) (rule find_tree_contents [OF t(1)])
  then show ?case
    using r(1,2) compute_new_root_step [OF t(1), of l nn] by (auto simp: nn'_def t'_def Let_def)
qed

section \<open>The operations refine the specification\<close>

definition context_map :: "merkle_env \<Rightarrow> 's context_store \<Rightarrow> 's merkle_storage \<Rightarrow> context_key \<rightharpoonup> context_value" where
  "context_map E cs ms = contents E (ms_reader cs ms) (fst (working_tree ms))"

definition context_ok :: "merkle_env \<Rightarrow> 's context_store \<Rightarrow> 's merkle_storage \<Rightarrow> bool" where
  "context_ok E cs ms \<longleftrightarrow> readable E (ms_reader cs ms) (fst (working_tree ms))"

text \<open>Only the working tree changed: it now holds the map \<open>m\<close> and is kept under its identifier.\<close>

definition changed_to :: "merkle_env \<Rightarrow> 's context_store \<Rightarrow> 's merkle_storage \<Rightarrow> tree_id \<Rightarrow>
    (context_key \<rightharpoonup> context_value) \<Rightarrow> 's merkle_storage \<Rightarrow> bool" where
  "changed_to E cs ms tid m ms' \<longleftrightarrow>
     context_ok E cs ms' \<and> context_map E cs ms' = m \<and>
     snd (working_tree ms') = tid \<and> trees ms' = (trees ms)(tid \<mapsto> fst (working_tree ms')) \<and>
     ms_db ms' = ms_db ms \<and> last_commit_hash ms' = last_commit_hash ms"

lemma install_changed:
  assumes "r = Inr (Tree t)" "readable E (ms_reader cs ms) t" "contents E (ms_reader cs ms) t = m"
  shows "\<exists>ms'. install r tid ms = (Inr (), ms') \<and> changed_to E cs ms tid m ms'"
  using assms by (simp add: install_def get_tree_def changed_to_def context_ok_def context_map_def
      set_working_tree_root_def ms_reader_def)

lemma ms_set_changed:
  assumes "context_ok E cs ms" "key \<noteq> []"
  shows "\<exists>ms'. ms_set E cs tid key v ms = (Inr (), ms') \<and> changed_to E cs ms tid (spec_set key v (context_map E cs ms)) ms'"
proof -
  let ?n = "Node Leaf None (Some (Blob v))"
  obtain t where t: "compute_new_root_with_change E (ms_reader cs ms) (fst (working_tree ms)) key (Some ?n) = Inr (Tree t)"
    "readable E (ms_reader cs ms) t"
    "contents E (ms_reader cs ms) t = grafted (context_map E cs ms) key
       (node_contents E (ms_reader cs ms) (Some (Blob v)))"
    using compute_new_root_correct [of E "ms_reader cs ms" "fst (working_tree ms)" "Some ?n" key] assms
    by (auto simp: context_ok_def readable_entry_def context_map_def)
  have "node_contents E (ms_reader cs ms) (Some (Blob v)) = [[] \<mapsto> v]"
    by (auto simp: node_contents_def entry_contents_def)
  then show ?thesis
    unfolding ms_set_def using t by (intro install_changed) (simp_all add: spec_set_def)
qed

lemma ms_delete_changed:
  assumes "context_ok E cs ms"
  shows "\<exists>ms'. ms_delete E cs tid key ms = (Inr (), ms') \<and> changed_to E cs ms tid (spec_delete key (context_map E cs ms)) ms'"
proof (cases "key = []")
  case True
  then show ?thesis
    unfolding ms_delete_def using assms
    by (intro install_changed) (simp_all add: spec_delete_def context_ok_def context_map_def)
next
  case False
  obtain t where t: "compute_new_root_with_change E (ms_reader cs ms) (fst (working_tree ms)) key None = Inr (Tree t)"
    "readable E (ms_reader cs ms) t"
    "contents E (ms_reader cs ms) t = grafted (context_map E cs ms) key (node_contents E (ms_reader cs ms) None)"
    using compute_new_root_correct [of E "ms_reader cs ms" "fst (working_tree ms)" None key] assms
    by (auto simp: context_ok_def context_map_def)
  have "node_contents E (ms_reader cs ms) None = Map.empty"
    by (simp add: node_contents_def fun_eq_iff)
  then show ?thesis
    unfolding ms_delete_def using t False by (intro install_changed) (simp_all add: spec_delete_def)
qed

lemma ms_copy_changed:
  assumes "context_ok E cs ms"
  shows "\<exists>ms'. ms_copy E cs tid from_key to_key ms = (Inr (), ms') \<and>
    changed_to E cs ms tid (spec_copy from_key to_key (context_map E cs ms)) ms'"
proof -
  let ?rd = "ms_reader cs ms" and ?root = "fst (working_tree ms)"
  obtain src where src: "find_tree E ?rd ?root from_key = Inr src" "readable E ?rd src"
    using assms find_tree_readable unfolding context_ok_def by blast
  let ?n = "get_non_leaf (Tree src)"
  obtain t where t: "compute_new_root_with_change E ?rd ?root to_key (Some ?n) = Inr (Tree t)"
    "readable E ?rd t"
    "contents E ?rd t = grafted (context_map E cs ms) to_key (node_contents E ?rd (Some (Tree src)))"
    using compute_new_root_correct [of E ?rd ?root "Some ?n" to_key] assms src(2)
    by (auto simp: context_ok_def readable_entry_def context_map_def get_non_leaf_def)
  have "node_contents E ?rd (Some (Tree src)) = (\<lambda>k. if k = [] then None else context_map E cs ms (from_key @ k))"
    using find_tree_contents [OF src(1)] by (auto simp: node_contents_def entry_contents_def context_map_def fun_eq_iff)
  then show ?thesis
    unfolding ms_copy_def using t src(1) by (simp add: Let_def) (intro install_changed, simp_all add: spec_copy_def)
qed

text \<open>
  Property C2. Every change of a readable context succeeds and does to the map from keys to
  values what the specification says: setting puts the value and drops what was below the key,
  deleting drops everything below the key, copying makes the target hold what the source
  holds; values on the way to the changed key disappear, all other keys keep their values.
  Nothing is written to the store, and the new tree is kept under its identifier.
\<close>

theorem context_changes_refine:
  assumes "context_ok E cs ms"
  defines "m \<equiv> context_map E cs ms"
  shows "(key \<noteq> [] \<longrightarrow> (\<exists>ms'. ms_set E cs tid key v ms = (Inr (), ms') \<and> changed_to E cs ms tid (spec_set key v m) ms')) \<and>
    (\<exists>ms'. ms_delete E cs tid key ms = (Inr (), ms') \<and> changed_to E cs ms tid (spec_delete key m) ms') \<and>
    (\<exists>ms'. ms_copy E cs tid from_key key ms = (Inr (), ms') \<and> changed_to E cs ms tid (spec_copy from_key key m) ms')"
  unfolding m_def using assms(1)
  by (intro conjI impI ms_set_changed ms_delete_changed ms_copy_changed)

definition sample_env :: merkle_env where
  "sample_env = \<lparr>hashes = unary_lib, bincode_ser = (\<lambda>_. []), bincode_de = (\<lambda>_. Inl []),
     hex_encode = (\<lambda>_. []), recursion_depth = 10\<rparr>"

lemma new_merkle_ok: "context_ok E cs (new_merkle db)"
  by (simp add: context_ok_def new_merkle_def)

theorem context_changes_refine_witness:
  "\<exists>ms'. ms_set sample_env in_memory_store 1 [''a'', ''b''] [7] (new_merkle new_in_memory) = (Inr (), ms') \<and>
     context_map sample_env in_memory_store ms' [''a'', ''b''] = Some [7]"
  using context_changes_refine [OF new_merkle_ok [of sample_env in_memory_store new_in_memory],
      of "[''a'', ''b'']" 1 "[7]" "[]"]
  by (auto simp: changed_to_def spec_set_def grafted_def)

text \<open>
  Deleting a key below a stored value removes the value: after \<^verbatim>\<open>a\<close> was set,
  deleting \<^verbatim>\<open>a/b\<close>, which does not exist, makes \<^verbatim>\<open>a\<close> disappear.
\<close>

theorem delete_below_value_removes_it:
  assumes "context_ok E cs ms" "context_map E cs ms [x] = Some v" "ms_delete E cs tid [x, y] ms = (r, ms')"
  shows "r = Inr () \<and> context_map E cs ms' [x] = None"
  using ms_delete_changed [OF assms(1), of tid "[x, y]"] assms(3)
  by (auto simp: changed_to_def spec_delete_def grafted_def strict_prefix_def)

definition sample_storage :: "in_memory_backend merkle_storage" where
  "sample_storage = set_working_tree_root [(''a'', Node Leaf None (Some (Blob [7])))] 1 (new_merkle new_in_memory)"

theorem delete_below_value_removes_it_witness:
  "context_map sample_env in_memory_store
     (snd (ms_delete sample_env in_memory_store 2 [''a'', ''b''] sample_storage)) [''a''] = None"
proof -
  obtain r ms' where d: "ms_delete sample_env in_memory_store 2 [''a'', ''b''] sample_storage = (r, ms')"
    by fastforce
  have "context_ok sample_env in_memory_store sample_storage"
    by (simp add: context_ok_def readable_iff sorted_tree_def sample_storage_def set_working_tree_root_def
      readable_node_def get_entry_def readable_entry_def)
  moreover have "context_map sample_env in_memory_store sample_storage [''a''] = Some [7]"
    by (simp add: context_map_def sample_storage_def set_working_tree_root_def get_entry_def)
  ultimately show ?thesis
    using delete_below_value_removes_it [OF _ _ d] d by simp
qed

end
