(* ===== verification/MerkleCommit.thy ===== *)
theory MerkleCommit
  imports MerkleContents
begin

text \<open>
  Committing and checking out: everything a commit writes can be read back, from the commit
  down to the values, and what was stored before stays readable.
\<close>

section \<open>Growing stores\<close>

definition extends :: "db_reader \<Rightarrow> db_reader \<Rightarrow> bool" where
  "extends rd rd' \<longleftrightarrow> (\<forall>h bs. rd h = Inr (Some bs) \<longrightarrow> rd' h = Inr (Some bs))"

definition holds_batch :: "db_reader \<Rightarrow> (entry_hash \<times> bytes) list \<Rightarrow> bool" where
  "holds_batch rd batch \<longleftrightarrow> (\<forall>(h, b) \<in> set batch. rd h = Inr (Some b))"

definition node_view :: "merkle_env \<Rightarrow> db_reader \<Rightarrow> node \<Rightarrow> context_key \<rightharpoonup> context_value" where
  "node_view E rd n ks = (case get_entry E rd n of Inl _ \<Rightarrow> None | Inr e \<Rightarrow> entry_contents E rd e ks)"

lemma contents_node_view:
  "contents E rd t (k # ks) = (case map_of t k of None \<Rightarrow> None | Some n \<Rightarrow> node_view E rd n ks)"
  by (simp add: contents_Cons node_view_def del: contents.simps split: option.split)

lemma get_entry_extends: "get_entry E rd n = Inr e \<Longrightarrow> extends rd rd' \<Longrightarrow> get_entry E rd' n = Inr e"
  by (auto simp: get_entry_def get_entry_from_hash_def extends_def split: option.splits sum.splits)

lemma readable_extends:
  assumes "extends rd rd'"
  shows "readable E rd t \<Longrightarrow> readable E rd' t \<and> contents E rd' t = contents E rd t"
proof (induction rule: readable.induct)
  case (readableI t)
  have node: "readable_node E rd' (snd p) \<and> node_view E rd' (snd p) = node_view E rd (snd p)" if p: "p \<in> set t" for p
  proof -
    obtain e where e: "get_entry E rd (snd p) = Inr e" "readable_entry E rd' e" "entry_contents E rd' e = entry_contents E rd e"
      using readableI.IH p by (fastforce simp: readable_entry_def entry_contents_def fun_eq_iff)
    then show ?thesis
      using get_entry_extends [OF e(1) assms] readableI.hyps p
      by (auto simp: readable_node_def node_view_def fun_eq_iff)
  qed
  have "contents E rd' t ks = contents E rd t ks" for ks
    using node by (cases ks) (auto simp: contents_node_view dest: map_of_SomeD simp del: contents.simps(2) split: option.split)
  then show ?case
    using node readableI.hyps by (auto simp: readable_iff)
qed

lemma contents_extends:
  "contents E rd t ks = Some v \<Longrightarrow> extends rd rd' \<Longrightarrow> contents E rd' t ks = Some v"
proof (induction ks arbitrary: t)
  case (Cons k ks)
  then obtain n e where e: "map_of t k = Some n" "get_entry E rd n = Inr e" "entry_contents E rd e ks = Some v"
    by (auto simp: contents_Cons simp del: contents.simps(2) split: option.splits sum.splits)
  then show ?case
    using Cons.IH Cons.prems(2) get_entry_extends [OF e(2) Cons.prems(2)]
    by (cases e) (auto simp: contents_Cons entry_contents_def simp del: contents.simps(2))
qed simp

lemma readable_entry_extends:
  assumes "extends rd rd'" "readable_entry E rd e"
  shows "readable_entry E rd' e \<and> entry_contents E rd' e = entry_contents E rd e"
  using readable_extends [OF assms(1)] assms(2)
  by (cases e) (auto simp: readable_entry_def entry_contents_def fun_eq_iff)

section \<open>What a commit writes\<close>

text \<open>The serializer reads back what it wrote, for entries in their stored form.\<close>

definition stripped :: "entry \<Rightarrow> bool" where
  "stripped e = (case e of Tree t \<Rightarrow> list_all (\<lambda>p. n_entry (snd p) = None \<and> n_hash (snd p) \<noteq> None) t | _ \<Rightarrow> True)"

definition codec_ok :: "merkle_env \<Rightarrow> bool" where
  "codec_ok E \<longleftrightarrow> (\<forall>e. stripped e \<longrightarrow> bincode_de E (bincode_ser E e) = Inr e)"

lemma stored_form_stripped: "stored_form H e = Inr s \<Longrightarrow> stripped s"
proof (cases e)
  case (Tree t)
  have "for_each (stored_node H b) t = Inr u \<Longrightarrow> stripped (Tree u)" for b u
    by (induction t arbitrary: u) (auto simp: stripped_def and_then_Inr_iff stored_node_def)
  then show "stored_form H e = Inr s \<Longrightarrow> stripped s"
    using Tree by (auto simp: stored_form_def and_then_Inr_iff)
qed (auto simp: stored_form_def stripped_def)

lemma for_each_map: "(\<And>x. x \<in> set xs \<Longrightarrow> f x = Inr (g x)) \<Longrightarrow> for_each f xs = Inr (map g xs)"
  by (induction xs) auto

lemma map_of_renamed:
  assumes "\<And>p. p \<in> set t \<Longrightarrow> fst (g p) = fst p"
  shows "map_of (map g t) k = map_option (\<lambda>n. snd (g (k, n))) (map_of t k)"
  using assms by (induction t) (auto simp: prod_eq_iff)

lemma batch_entry_Inr:
  assumes "hash_entry (hashes E) e = Inr h" "stored_form (hashes E) e = Inr s"
  shows "batch_entry E e = Inr (h, bincode_ser E s)"
  using assms by (simp add: batch_entry_def hashingA_def)

text \<open>
  A directory of more than 256 entries can be written only when the hash cells of all its
  children have been filled before; this is asked of every loaded directory.
\<close>

function hash_cells_filled :: "entry \<Rightarrow> bool" where
  "hash_cells_filled e =
     (case e of
        Tree t \<Rightarrow> (length t \<le> 256 \<or> list_all (\<lambda>p. n_hash (snd p) \<noteq> None) t) \<and>
          list_all (\<lambda>p. case n_entry (snd p) of None \<Rightarrow> True | Some child \<Rightarrow> hash_cells_filled child) t
      | _ \<Rightarrow> True)"
  by pat_completeness auto
termination
  by (relation "measure size") (auto dest: size_child_entry)

declare hash_cells_filled.simps [simp del]

lemma hash_cells_filled_Tree:
  "hash_cells_filled (Tree t) \<longleftrightarrow> (length t \<le> 256 \<or> (\<forall>p \<in> set t. n_hash (snd p) \<noteq> None)) \<and>
     (\<forall>p \<in> set t. \<forall>child. n_entry (snd p) = Some child \<longrightarrow> hash_cells_filled child)"
  by (subst hash_cells_filled.simps) (auto simp: list_all_iff split: option.splits)

lemma stored_node_Inr:
  assumes "filled \<or> n_hash (snd p) \<noteq> None" "node_entry_hash H (snd p) = Inr x"
  shows "stored_node H filled p = Inr (fst p, Node (n_kind (snd p)) (Some x) None)"
  using assms by (cases "snd p"; cases "n_hash (snd p)") (auto simp: stored_node_def ensure_non_null_entry_hash_def)

text \<open>
  A child: its part of the batch, its stored form, and that a store which holds the batch
  shows the same contents under the stored form.
\<close>

definition saved_node :: "merkle_env \<Rightarrow> db_reader \<Rightarrow> bool \<Rightarrow> string \<times> node \<Rightarrow> (entry_hash \<times> bytes) list \<Rightarrow> string \<times> node \<Rightarrow> bool" where
  "saved_node E rd filled p xs p' \<longleftrightarrow>
     stored_node (hashes E) filled p = Inr p' \<and> fst p' = fst p \<and>
     (\<forall>rd'. extends rd rd' \<and> holds_batch rd' xs \<longrightarrow>
        readable_node E rd' (snd p') \<and> node_view E rd' (snd p') = node_view E rd (snd p))"

definition saved_tree :: "merkle_env \<Rightarrow> db_reader \<Rightarrow> tree \<Rightarrow> entry_hash \<Rightarrow> (entry_hash \<times> bytes) list \<Rightarrow> tree \<Rightarrow> bool" where
  "saved_tree E rd t h batch t' \<longleftrightarrow>
     for_each (stored_node (hashes E) (length t \<le> 256)) t = Inr t' \<and> (h, bincode_ser E (Tree t')) \<in> set batch \<and>
     (\<forall>rd'. extends rd rd' \<and> holds_batch rd' batch \<longrightarrow>
        readable E rd' t' \<and> contents E rd' t' = contents E rd t)"

lemma get_entry_stored:
  assumes "codec_ok E" "stripped s" "rd h = Inr (Some (bincode_ser E s))"
  shows "get_entry E rd (Node k (Some h) None) = Inr s"
  using assms by (simp add: get_entry_def get_entry_from_hash_def codec_ok_def)

lemma saved_unloaded:
  assumes "readable_node E rd (snd p)" "n_entry (snd p) = None" "node_entry_hash (hashes E) (snd p) = Inr x"
    and "filled \<or> n_hash (snd p) \<noteq> None"
  shows "saved_node E rd filled p [] (fst p, Node (n_kind (snd p)) (Some x) None)"
proof -
  obtain k hh where n: "snd p = Node k hh None"
    using assms(2) by (cases "snd p") auto
  then have hh: "hh = Some x"
    using assms(3) by (cases hh) auto
  obtain e where e: "get_entry E rd (snd p) = Inr e" "readable_entry E rd e"
    using assms(1) unfolding readable_node_def by blast
  have "readable_node E rd' (snd p) \<and> node_view E rd' (snd p) = node_view E rd (snd p)" if x: "extends rd rd'" for rd'
    using get_entry_extends [OF e(1) x] readable_entry_extends [OF x e(2)] e assms(2)
    by (auto simp: readable_node_def node_view_def fun_eq_iff)
  then show ?thesis
    using stored_node_Inr [OF assms(4,3)] n hh by (simp add: saved_node_def)
qed

lemma loaded_hash:
  assumes "readable_node E rd n" "n_entry n = Some e" "node_entry_hash (hashes E) n = Inr x"
  shows "get_entry E rd n = Inr e" "hash_entry (hashes E) e = Inr x"
proof -
  show "get_entry E rd n = Inr e"
    using assms(2) by (simp add: get_entry_def)
  show "hash_entry (hashes E) e = Inr x"
    using assms by (cases n; cases "n_hash n") (auto simp: readable_node_def)
qed

lemma saved_loaded:
  assumes "codec_ok E" "node_entry_hash (hashes E) (snd p) = Inr x" "get_entry E rd (snd p) = Inr e"
    and "stripped s" "(x, bincode_ser E s) \<in> set xs"
    and "\<And>rd'. extends rd rd' \<Longrightarrow> holds_batch rd' xs \<Longrightarrow>
      readable_entry E rd' s \<and> entry_contents E rd' s = entry_contents E rd e"
    and "filled \<or> n_hash (snd p) \<noteq> None"
  shows "saved_node E rd filled p xs (fst p, Node (n_kind (snd p)) (Some x) None)"
proof -
  have "readable_node E rd' (Node k (Some x) None) \<and> node_view E rd' (Node k (Some x) None) = node_view E rd (snd p)"
    if x: "extends rd rd'" "holds_batch rd' xs" for rd' k
  proof -
    have "get_entry E rd' (Node k (Some x) None) = Inr s"
      using get_entry_stored [OF assms(1,4)] x(2) assms(5) by (auto simp: holds_batch_def)
    then show ?thesis
      using assms(3) assms(6) [OF x] by (simp add: readable_node_def node_view_def fun_eq_iff)
  qed
  then show ?thesis
    using stored_node_Inr [OF assms(7,2)] by (simp add: saved_node_def)
qed

text \<open>The children together make the tree.\<close>

lemma saved_children:
  assumes "sorted_tree t" "\<And>p. p \<in> set t \<Longrightarrow> saved_node E rd (length t \<le> 256) p (fx p) (gp p)"
    and "hash_tree (hashes E) t = Inr h"
  shows "saved_tree E rd t h ((h, bincode_ser E (Tree (map gp t))) # concat (map fx t)) (map gp t)"
proof -
  have fst: "fst (gp p) = fst p" if "p \<in> set t" for p
    using assms(2) [OF that] by (simp add: saved_node_def)
  have stored: "for_each (stored_node (hashes E) (length t \<le> 256)) t = Inr (map gp t)"
    using assms(2) by (intro for_each_map) (simp add: saved_node_def)
  have "readable E rd' (map gp t) \<and> contents E rd' (map gp t) = contents E rd t"
    if x: "extends rd rd'" "holds_batch rd' (concat (map fx t))" for rd'
  proof -
    have n: "readable_node E rd' (snd (gp p)) \<and> node_view E rd' (snd (gp p)) = node_view E rd (snd p)" if "p \<in> set t" for p
    proof -
      have "holds_batch rd' (fx p)"
        using x(2) that by (auto simp: holds_batch_def)
      then show ?thesis
        using assms(2) [OF that] x(1) by (simp add: saved_node_def)
    qed
    have "map fst (map gp t) = map fst t"
      using fst by simp
    then have "sorted_tree (map gp t)"
      using assms(1) unfolding sorted_tree_def by metis
    moreover have "contents E rd' (map gp t) ks = contents E rd t ks" for ks
    proof (cases ks)
      case (Cons k ks')
      have "node_view E rd' (snd (gp (k, n))) ks' = node_view E rd n ks'" if "map_of t k = Some n" for n
        using n [OF map_of_SomeD [OF that]] by simp
      then show ?thesis
        using Cons map_of_renamed [of t gp, OF fst]
        by (simp add: contents_node_view del: contents.simps(2) split: option.split)
    qed simp
    ultimately show ?thesis
      using n by (auto simp: readable_iff)
  qed
  then show ?thesis
    using stored by (auto simp: saved_tree_def holds_batch_def)
qed

lemma batch_tree:
  assumes "hash_tree (hashes E) t = Inr h" "for_each (stored_node (hashes E) (length t \<le> 256)) t = Inr t'"
    and "for_each (\<lambda>p. case n_entry (snd p) of None \<Rightarrow> Inr []
      | Some child \<Rightarrow> get_entries_recursively E rd0 d child None) t = Inr xs"
  shows "get_entries_recursively E rd0 d (Tree t) None = Inr ((h, bincode_ser E (Tree t')) # concat xs)"
proof -
  have "batch_entry E (Tree t) = Inr (h, bincode_ser E (Tree t'))"
    using assms(1,2) by (intro batch_entry_Inr) (simp_all add: hash_tree_def stored_form_def)
  then show ?thesis
    using assms(3) by (subst get_entries_recursively.simps) simp
qed

lemma batch_blob:
  "hash_entry (hashes E) (Blob b) = Inr x \<Longrightarrow>
    get_entries_recursively E rd0 d (Blob b) None = Inr [(x, bincode_ser E (Blob b))]"
  by (subst get_entries_recursively.simps) (simp add: batch_entry_Inr stored_form_def)

lemma saved_node_exists:
  assumes "codec_ok E" "readable_node E rd (snd p)" "node_entry_hash (hashes E) (snd p) = Inr x"
    and "filled \<or> n_hash (snd p) \<noteq> None" "\<And>child. n_entry (snd p) = Some child \<Longrightarrow> hash_cells_filled child"
    and IH: "\<And>u. get_entry E rd (snd p) = Inr (Tree u) \<Longrightarrow> hash_tree (hashes E) u = Inr x \<Longrightarrow> hash_cells_filled (Tree u) \<Longrightarrow>
      \<exists>batch u'. get_entries_recursively E rd0 d (Tree u) None = Inr batch \<and> saved_tree E rd u x batch u'"
  shows "\<exists>xs p'. (case n_entry (snd p) of None \<Rightarrow> Inr [] | Some child \<Rightarrow> get_entries_recursively E rd0 d child None) = Inr xs \<and>
    saved_node E rd filled p xs p'"
proof (cases "n_entry (snd p)")
  case None
  then show ?thesis
    using saved_unloaded [OF assms(2) None assms(3,4)] by auto
next
  case (Some e)
  note ld = loaded_hash [OF assms(2) Some assms(3)]
  have "readable_entry E rd e"
    using assms(2) ld(1) by (auto simp: readable_node_def)
  then consider b where "e = Blob b" | u where "e = Tree u"
    by (cases e) (auto simp: readable_entry_def)
  then show ?thesis
  proof cases
    case 1
    then have "saved_node E rd filled p [(x, bincode_ser E (Blob b))] (fst p, Node (n_kind (snd p)) (Some x) None)"
      using assms(1,3,4) ld(1)
      by (intro saved_loaded) (auto simp: stripped_def readable_entry_def entry_contents_def fun_eq_iff)
    then show ?thesis
      using Some 1 batch_blob ld(2) by fastforce
  next
    case 2
    then obtain batch u' where b: "get_entries_recursively E rd0 d (Tree u) None = Inr batch" "saved_tree E rd u x batch u'"
      using IH ld assms(5) [OF Some] by (auto simp: hash_tree_def)
    have "stripped (Tree u')"
      using b(2) stored_form_stripped [of "hashes E" "Tree u"] by (simp add: saved_tree_def stored_form_def)
    then have "saved_node E rd filled p batch (fst p, Node (n_kind (snd p)) (Some x) None)"
      using assms(1,3,4) ld(1) 2 b(2)
      by (intro saved_loaded [where s = "Tree u'"])
        (auto simp: saved_tree_def readable_entry_def entry_contents_def fun_eq_iff)
    then show ?thesis
      using Some 2 b(1) by auto
  qed
qed

lemma saved_tree_exists:
  assumes "codec_ok E"
  shows "readable E rd t \<Longrightarrow> hash_tree (hashes E) t = Inr h \<Longrightarrow> hash_cells_filled (Tree t) \<Longrightarrow>
    \<exists>batch t'. get_entries_recursively E rd0 d (Tree t) None = Inr batch \<and> saved_tree E rd t h batch t'"
proof (induction arbitrary: h rule: readable.induct)
  case (readableI t)
  let ?f = "\<lambda>p. case n_entry (snd p) of None \<Rightarrow> Inr [] | Some child \<Rightarrow> get_entries_recursively E rd0 d child None"
  have rd: "readable E rd t"
    using readableI.hyps readableI.IH by (intro readable.intros) blast+
  have "\<forall>p \<in> set t. \<exists>z. ?f p = Inr (fst z) \<and> saved_node E rd (length t \<le> 256) p (fst z) (snd z)"
  proof
    fix p
    assume p: "p \<in> set t"
    obtain x where x: "node_entry_hash (hashes E) (snd p) = Inr x"
      using hash_tree_all [OF readableI.prems(1) p] by blast
    note cells = readableI.prems(2) [unfolded hash_cells_filled_Tree]
    have "\<exists>xs p'. ?f p = Inr xs \<and> saved_node E rd (length t \<le> 256) p xs p'"
    proof (rule saved_node_exists [OF assms _ x])
      show "readable_node E rd (snd p)"
        using rd p by (simp add: readable_iff)
      show "length t \<le> 256 \<or> n_hash (snd p) \<noteq> None" "\<And>child. n_entry (snd p) = Some child \<Longrightarrow> hash_cells_filled child"
        using cells p by blast+
    qed (use readableI.IH p in fastforce)
    then show "\<exists>z. ?f p = Inr (fst z) \<and> saved_node E rd (length t \<le> 256) p (fst z) (snd z)"
      by auto
  qed
  then obtain z where z: "\<And>p. p \<in> set t \<Longrightarrow> ?f p = Inr (fst (z p))" "\<And>p. p \<in> set t \<Longrightarrow> saved_node E rd (length t \<le> 256) p (fst (z p)) (snd (z p))"
    by metis
  have "saved_tree E rd t h ((h, bincode_ser E (Tree (map (\<lambda>p. snd (z p)) t))) # concat (map (\<lambda>p. fst (z p)) t)) (map (\<lambda>p. snd (z p)) t)"
    by (rule saved_children [OF readableI.hyps(1) z(2) readableI.prems(1)])
  moreover have "get_entries_recursively E rd0 d (Tree t) None =
      Inr ((h, bincode_ser E (Tree (map (\<lambda>p. snd (z p)) t))) # concat (map (\<lambda>p. fst (z p)) t))"
    using calculation z(1) by (intro batch_tree readableI.prems(1) for_each_map) (simp_all add: saved_tree_def [of E rd t] saved_node_def z(2) [unfolded saved_node_def])
  ultimately show ?case
    by blast
qed

section \<open>Committing\<close>

text \<open>
  Two different serialized entries never meet under one hash, in the batch or in the store.
\<close>

definition no_clash :: "(entry_hash \<rightharpoonup> bytes) \<Rightarrow> (entry_hash \<times> bytes) list \<Rightarrow> bool" where
  "no_clash stored batch \<longleftrightarrow>
     (\<forall>(h, b) \<in> set batch. (\<forall>(h', b') \<in> set batch. h' = h \<longrightarrow> b' = b) \<and> (stored h = None \<or> stored h = Some b))"

definition new_commit :: "'s merkle_storage \<Rightarrow> entry_hash \<Rightarrow> 64 word \<Rightarrow> string \<Rightarrow> string \<Rightarrow> commit" where
  "new_commit ms rh time auth msg = \<lparr>parent_commit_hash = last_commit_hash ms, root_hash = rh, c_time = time,
     author = auth, c_message = msg\<rparr>"

lemma no_clash_written:
  assumes "no_clash v batch"
  shows "(h, b) \<in> set batch \<Longrightarrow> (v ++ map_of (rev batch)) h = Some b"
    and "v h = Some bs \<Longrightarrow> (v ++ map_of (rev batch)) h = Some bs"
proof -
  have same: "b' = b" if "(h, b) \<in> set batch" "(h, b') \<in> set batch" for b b'
    using assms that unfolding no_clash_def by fastforce
  show "(h, b) \<in> set batch \<Longrightarrow> (v ++ map_of (rev batch)) h = Some b"
  proof (cases "map_of (rev batch) h")
    case None
    then show "(h, b) \<in> set batch \<Longrightarrow> (v ++ map_of (rev batch)) h = Some b"
      by (auto simp: map_of_eq_None_iff image_iff)
  next
    case (Some b')
    then show "(h, b) \<in> set batch \<Longrightarrow> (v ++ map_of (rev batch)) h = Some b"
      using same map_of_SomeD [OF Some] by auto
  qed
  have "v h = None \<or> v h = Some b" if "map_of (rev batch) h = Some b" for b
    using assms map_of_SomeD [OF that] by (auto simp: no_clash_def)
  then show "v h = Some bs \<Longrightarrow> (v ++ map_of (rev batch)) h = Some bs"
    by (cases "map_of (rev batch) h") (auto simp: map_add_def)
qed

context context_contract
begin

lemma reader_view: "inv s \<Longrightarrow> db_reader_of kv s h = Inr (view s h)"
  using get_law by (simp add: db_reader_of_def)

lemma written_batch:
  assumes "inv s" "no_clash (view s) batch"
  shows "\<exists>s'. kv_write_batch kv batch s = (Inr (), s') \<and> inv s' \<and>
    extends (db_reader_of kv s) (db_reader_of kv s') \<and> holds_batch (db_reader_of kv s') batch"
proof -
  obtain s' where s': "kv_write_batch kv batch s = (Inr (), s')" "inv s'" "view s' = view s ++ map_of (rev batch)"
    using batch_law [OF assms(1)] by blast
  have "extends (db_reader_of kv s) (db_reader_of kv s')"
    using no_clash_written(2) [OF assms(2)] assms(1) s'(2,3) by (auto simp: extends_def reader_view)
  moreover have "holds_batch (db_reader_of kv s') batch"
    using no_clash_written(1) [OF assms(2)] s'(2,3) by (auto simp: holds_batch_def reader_view)
  ultimately show ?thesis
    using s' by blast
qed

end

text \<open>The tree of a commit, once the store holds the commit and its root.\<close>

lemma commit_tree_stored:
  assumes "codec_ok E" "rd h = Inr (Some (bincode_ser E (Commit c)))"
    and "rd (root_hash c) = Inr (Some (bincode_ser E (Tree t)))" "stripped (Tree t)"
  shows "commit_tree E rd h = Inr t"
  using assms by (simp add: commit_tree_def get_commit_def get_entry_from_hash_def codec_ok_def stripped_def get_tree_def)

lemma get_commit_iff: "get_commit E rd h = Inr c \<longleftrightarrow> get_entry_from_hash E rd h = Inr (Commit c)"
  by (auto simp: get_commit_def and_then_def split: sum.splits entry.splits)

lemma commit_tree_extends:
  assumes "commit_tree E rd h = Inr t" "extends rd rd'"
  shows "commit_tree E rd' h = Inr t"
proof -
  have x: "get_entry_from_hash E rd g = Inr e \<Longrightarrow> get_entry_from_hash E rd' g = Inr e" for g e
    using assms(2) by (auto simp: get_entry_from_hash_def extends_def split: option.splits sum.splits)
  then show ?thesis
    using assms(1) unfolding commit_tree_def and_then_Inr_iff get_commit_iff by blast
qed

lemma commit_batch:
  assumes "codec_ok E" "readable E rd t" "hash_tree (hashes E) t = Inr rh" "hash_cells_filled (Tree t)"
    and "root_hash c = rh" "hash_commit (hashes E) c = Inr h"
  shows "\<exists>batch t'. get_entries_recursively E rd0 d (Commit c) (Some t) = Inr ((h, bincode_ser E (Commit c)) # batch) \<and>
    saved_tree E rd t rh batch t'"
proof -
  obtain batch t' where b: "get_entries_recursively E rd0 d (Tree t) None = Inr batch" "saved_tree E rd t rh batch t'"
    using saved_tree_exists [OF assms(1-4)] by blast
  have "batch_entry E (Commit c) = Inr (h, bincode_ser E (Commit c))"
    using assms(6) by (intro batch_entry_Inr) (simp_all add: stored_form_def)
  then show ?thesis
    using b by (subst get_entries_recursively.simps) auto
qed

lemma ms_commit_written:
  assumes "context_contract (cs_kv cs) view inv_ok" "inv_ok (ms_db ms)" "codec_ok E" "context_ok E cs ms"
    and "get_working_tree_root_hash E ms = Inr rh" "hash_cells_filled (Tree (fst (working_tree ms)))"
    and clash: "\<And>batch. get_entries_recursively E (ms_reader cs ms) (recursion_depth E)
        (Commit (new_commit ms rh time auth msg)) (Some (fst (working_tree ms))) = Inr batch \<Longrightarrow>
      no_clash (view (ms_db ms)) batch"
  shows "\<exists>h s' t'. ms_commit E cs time auth msg ms = (Inr h, ms\<lparr>ms_db := s', last_commit_hash := Some h\<rparr>) \<and>
    inv_ok s' \<and> extends (ms_reader cs ms) (db_reader_of (cs_kv cs) s') \<and>
    commit_tree E (db_reader_of (cs_kv cs) s') h = Inr t' \<and> readable E (db_reader_of (cs_kv cs) s') t' \<and>
    contents E (db_reader_of (cs_kv cs) s') t' = context_map E cs ms"
proof -
  let ?t = "fst (working_tree ms)" and ?rd = "ms_reader cs ms" and ?c = "new_commit ms rh time auth msg"
  have rh: "hash_tree (hashes E) ?t = Inr rh" "root_hash ?c = rh" and rd: "readable E ?rd ?t"
    using assms(4,5) by (auto simp: get_working_tree_root_hash_def hashingA_def context_ok_def new_commit_def)
  obtain h where h: "hash_commit (hashes E) ?c = Inr h"
    by (simp add: hash_commit_def)
  obtain batch t' where b: "get_entries_recursively E ?rd (recursion_depth E) (Commit ?c) (Some ?t) =
      Inr ((h, bincode_ser E (Commit ?c)) # batch)" "saved_tree E ?rd ?t rh batch t'"
    using commit_batch [OF assms(3) rd rh(1) assms(6) rh(2) h] by blast
  let ?batch = "(h, bincode_ser E (Commit ?c)) # batch"
  obtain s' where s': "kv_write_batch (cs_kv cs) ?batch (ms_db ms) = (Inr (), s')" "inv_ok s'"
    "extends ?rd (db_reader_of (cs_kv cs) s')" "holds_batch (db_reader_of (cs_kv cs) s') ?batch"
    using context_contract.written_batch [OF assms(1,2) clash [OF b(1)]] by (auto simp: ms_reader_def)
  have "ms_commit E cs time auth msg ms = (Inr h, ms\<lparr>ms_db := s', last_commit_hash := Some h\<rparr>)"
    using assms(5) h b(1) s'(1) by (simp add: ms_commit_def new_commit_def Let_def hashingA_def)
  moreover have "readable E (db_reader_of (cs_kv cs) s') t'"
    "contents E (db_reader_of (cs_kv cs) s') t' = context_map E cs ms"
    using b(2) s'(3,4) unfolding saved_tree_def holds_batch_def context_map_def by auto
  moreover have "commit_tree E (db_reader_of (cs_kv cs) s') h = Inr t'"
  proof (rule commit_tree_stored [OF assms(3)])
    show "stripped (Tree t')"
      using b(2) stored_form_stripped [of "hashes E" "Tree ?t"] by (simp add: saved_tree_def stored_form_def)
    show "db_reader_of (cs_kv cs) s' h = Inr (Some (bincode_ser E (Commit ?c)))"
      "db_reader_of (cs_kv cs) s' (root_hash ?c) = Inr (Some (bincode_ser E (Tree t')))"
      using s'(4) b(2) rh(2) by (auto simp: saved_tree_def holds_batch_def)
  qed
  ultimately show ?thesis
    using s'(2,3) by blast
qed

lemma get_history_extends:
  assumes "get_history E cs g key ms = Inr v" "extends (ms_reader cs ms) (ms_reader cs ms')"
  shows "get_history E cs g key ms' = Inr v"
proof -
  obtain u where u: "commit_tree E (ms_reader cs ms) g = Inr u" "contents E (ms_reader cs ms) u key = Some v"
    using assms(1) by (auto simp: get_history_def and_then_Inr_iff get_from_tree_iff)
  show ?thesis
    using commit_tree_extends [OF u(1) assms(2)] contents_extends [OF u(2) assms(2)]
    by (simp add: get_history_def get_from_tree_iff)
qed

section \<open>A serializer\<close>

text \<open>
  A simple serializer that reads back every stored entry, to run the storage on examples:
  fields carry their length in unary.
\<close>

definition field :: "bytes \<Rightarrow> bytes" where
  "field bs = replicate (length bs) 1 @ 0 # bs"

definition get_field :: "bytes \<Rightarrow> bytes \<times> bytes" where
  "get_field bs =
     (let n = length (takeWhile (\<lambda>b. b = 1) bs); rest = drop (n + 1) bs in (take n rest, drop n rest))"

lemma get_field_field [simp]: "get_field (field bs @ rest) = (bs, rest)"
proof -
  have "takeWhile (\<lambda>b. b = (1 :: byte)) (replicate n 1 @ 0 # xs) = replicate n 1" for n xs
    by (induction n) simp_all
  then show ?thesis
    by (simp add: field_def get_field_def)
qed

definition of_bytes :: "bytes \<Rightarrow> string" where
  "of_bytes bs = map (\<lambda>b. char_of (unat b)) bs"

lemma of_bytes_as_bytes [simp]: "of_bytes (as_bytes s) = s"
proof -
  have "char_of (unat (of_char c :: byte)) = c" for c
  proof -
    have "(of_char c :: byte) = word_of_nat (of_char c)"
      by (simp add: of_nat_of_char)
    moreover have "(of_char c :: nat) < 256"
      using range_nat_of_char by auto
    ultimately show ?thesis
      by (simp add: unat_of_nat)
  qed
  then show ?thesis
    by (simp add: of_bytes_def as_bytes_def comp_def)
qed

fun put_nodes :: "tree \<Rightarrow> bytes" where
  "put_nodes [] = [0]"
| "put_nodes (p # t) = 1 # field (as_bytes (fst p)) @ (case n_kind (snd p) of Leaf \<Rightarrow> 1 | NonLeaf \<Rightarrow> 0) #
     field (the (n_hash (snd p))) @ put_nodes t"

fun get_nodes :: "nat \<Rightarrow> bytes \<Rightarrow> tree" where
  "get_nodes (Suc n) (b # bs) =
     (if b = 0 then []
      else let (name, r) = get_field bs; (h, r') = get_field (tl r) in
        (of_bytes name, Node (if hd r = 1 then Leaf else NonLeaf) (Some h) None) # get_nodes n r')"
| "get_nodes _ _ = []"

lemma get_put_nodes:
  "stripped (Tree t) \<Longrightarrow> length t < n \<Longrightarrow> get_nodes n (put_nodes t) = t"
proof (induction t arbitrary: n)
  case Nil
  then show ?case
    by (cases n) simp_all
next
  case (Cons p t)
  obtain m where "n = Suc m" "length t < m"
    using Cons.prems(2) by (cases n) auto
  moreover obtain a k h where "p = (a, Node k (Some h) None)"
    using Cons.prems(1) by (cases p; cases "snd p") (auto simp: stripped_def)
  ultimately show ?case
    using Cons.IH [of m] Cons.prems(1) by (cases k) (simp_all add: stripped_def)
qed

lemma length_put_nodes: "length t < length (put_nodes t)"
  by (induction t) (simp_all add: field_def)

definition put_entry :: "entry \<Rightarrow> bytes" where
  "put_entry e =
     (case e of
        Tree t \<Rightarrow> 0 # put_nodes t
      | Blob b \<Rightarrow> 1 # b
      | Commit c \<Rightarrow> 2 # (case parent_commit_hash c of None \<Rightarrow> [0] | Some p \<Rightarrow> 1 # field p) @ field (root_hash c) @
          field (to_be_bytes 8 (unat (c_time c))) @ field (as_bytes (author c)) @ field (as_bytes (c_message c)))"

definition get_commit_bytes :: "bytes \<Rightarrow> commit" where
  "get_commit_bytes bs =
     (let (p, r1) = (if hd bs = 0 then (None, tl bs) else map_prod Some (\<lambda>x. x) (get_field (tl bs)));
          (rh, r2) = get_field r1; (t, r3) = get_field r2; (a, r4) = get_field r3; (m, r5) = get_field r4 in
      \<lparr>parent_commit_hash = p, root_hash = rh, c_time = word_of_nat (from_be_bytes t), author = of_bytes a,
       c_message = of_bytes m\<rparr>)"

definition parse_entry :: "bytes \<Rightarrow> string + entry" where
  "parse_entry bs =
     (if bs = [] then Inl ''empty''
      else if hd bs = 0 then Inr (Tree (get_nodes (length bs) (tl bs)))
      else if hd bs = 1 then Inr (Blob (tl bs))
      else Inr (Commit (get_commit_bytes (tl bs))))"

lemma get_commit_bytes_put:
  "get_commit_bytes ((case parent_commit_hash c of None \<Rightarrow> [0] | Some p \<Rightarrow> 1 # field p) @ field (root_hash c) @
    field (to_be_bytes 8 (unat (c_time c))) @ field (as_bytes (author c)) @ field (as_bytes (c_message c))) = c"
proof -
  have "unat (c_time c) < 2 ^ 64"
    using unsigned_less [of "c_time c"] by simp
  then have t: "word_of_nat (from_be_bytes (to_be_bytes 8 (unat (c_time c)))) = c_time c"
    by (simp add: from_to_be_bytes_usize)
  have last: "get_field (field x) = (x, [])" for x
    using get_field_field [of x "[]"] by simp
  show ?thesis
    using t last by (cases c; cases "parent_commit_hash c") (simp_all add: get_commit_bytes_def)
qed

definition demo_env :: merkle_env where
  "demo_env = \<lparr>hashes = \<lparr>blake2b = (\<lambda>bs. bs), leb128 = (\<lambda>n. [word_of_nat n]), inode_nesting = 10\<rparr>,
     bincode_ser = put_entry, bincode_de = parse_entry, hex_encode = (\<lambda>_. []), recursion_depth = 10\<rparr>"

lemma demo_codec_ok: "codec_ok demo_env"
proof -
  have "parse_entry (put_entry e) = Inr e" if "stripped e" for e
  proof (cases e)
    case (Tree t)
    then show ?thesis
      using get_put_nodes [of t "Suc (length (put_nodes t))"] length_put_nodes [of t] that
      by (simp add: parse_entry_def put_entry_def)
  next
    case (Commit c)
    then show ?thesis
      using get_commit_bytes_put [of c] by (simp add: parse_entry_def put_entry_def)
  qed (simp add: parse_entry_def put_entry_def)
  then show ?thesis
    by (simp add: codec_ok_def demo_env_def)
qed

text \<open>
  Property C1. A commit of a readable context succeeds, and the tree that is read back
  under the returned hash, by a checkout or from history, holds exactly the values of the
  working tree. The working tree itself and every earlier commit keep their contents. Asked of the
  context: its root hash can be computed, no two different entries of the commit and the store have one
  hash, and the children of a loaded directory with more than 256 entries have their hashes cached.
\<close>

theorem commit_checkout_roundtrip:
  assumes "context_contract (cs_kv cs) view inv_ok" "inv_ok (ms_db ms)" "codec_ok E" "context_ok E cs ms"
    and "get_working_tree_root_hash E ms = Inr rh" "hash_cells_filled (Tree (fst (working_tree ms)))"
    and "\<And>batch. get_entries_recursively E (ms_reader cs ms) (recursion_depth E)
        (Commit (new_commit ms rh time auth msg)) (Some (fst (working_tree ms))) = Inr batch \<Longrightarrow>
      no_clash (view (ms_db ms)) batch"
  shows "\<exists>h ms' co. ms_commit E cs time auth msg ms = (Inr h, ms') \<and> last_commit_hash ms' = Some h \<and>
    inv_ok (ms_db ms') \<and> context_ok E cs ms' \<and> context_map E cs ms' = context_map E cs ms \<and>
    ms_checkout E cs h ms' = (Inr (), co) \<and> context_ok E cs co \<and> context_map E cs co = context_map E cs ms \<and>
    (\<forall>key v. get_history E cs h key ms' = Inr v \<longleftrightarrow> context_map E cs ms key = Some v) \<and>
    (\<forall>g key v. get_history E cs g key ms = Inr v \<longrightarrow> get_history E cs g key ms' = Inr v)"
proof -
  obtain h s' t' where w: "ms_commit E cs time auth msg ms = (Inr h, ms\<lparr>ms_db := s', last_commit_hash := Some h\<rparr>)"
    "inv_ok s'" "extends (ms_reader cs ms) (db_reader_of (cs_kv cs) s')"
    "commit_tree E (db_reader_of (cs_kv cs) s') h = Inr t'" "readable E (db_reader_of (cs_kv cs) s') t'"
    "contents E (db_reader_of (cs_kv cs) s') t' = context_map E cs ms"
    using ms_commit_written [OF assms] by blast
  define ms' where "ms' = ms\<lparr>ms_db := s', last_commit_hash := Some h\<rparr>"
  define co where "co = (set_working_tree_root t' 0 (ms'\<lparr>trees := Map.empty\<rparr>))\<lparr>last_commit_hash := Some h\<rparr>"
  have rd: "ms_reader cs ms' = db_reader_of (cs_kv cs) s'" "ms_reader cs co = db_reader_of (cs_kv cs) s'"
    "fst (working_tree co) = t'" "working_tree ms' = working_tree ms"
    by (simp_all add: ms'_def co_def ms_reader_def set_working_tree_root_def)
  have "context_ok E cs ms' \<and> context_map E cs ms' = context_map E cs ms"
    using readable_extends [OF w(3)] assms(4) rd by (simp add: context_ok_def context_map_def)
  moreover have "ms_checkout E cs h ms' = (Inr (), co)"
    using w(4) by (simp add: ms_checkout_def co_def rd)
  moreover have "context_ok E cs co" "context_map E cs co = context_map E cs ms"
    using w(5,6) rd by (simp_all add: context_ok_def context_map_def)
  moreover have "get_history E cs h key ms' = Inr v \<longleftrightarrow> context_map E cs ms key = Some v" for key v
    using w(4,6) rd by (simp add: get_history_def get_from_tree_iff)
  moreover have "get_history E cs g key ms' = Inr v" if "get_history E cs g key ms = Inr v" for g key v
    using get_history_extends [OF that] w(3) rd by simp
  ultimately show ?thesis
    using w(1,2) by (intro exI [of _ h] exI [of _ ms'] exI [of _ co]) (simp add: ms'_def)
qed

definition demo_storage :: "in_memory_backend merkle_storage" where
  "demo_storage = set_working_tree_root [(''a'', Node Leaf None (Some (Blob [7])))] 1 (new_merkle new_in_memory)"

lemma demo_ok: "context_ok demo_env in_memory_store demo_storage"
  by (simp add: context_ok_def readable_iff sorted_tree_def demo_storage_def set_working_tree_root_def
      readable_node_def get_entry_def readable_entry_def)

lemma demo_cells: "hash_cells_filled (Tree (fst (working_tree demo_storage)))"
  by (simp add: hash_cells_filled_Tree demo_storage_def set_working_tree_root_def) (simp add: hash_cells_filled.simps)

lemma demo_get_a: "context_map demo_env in_memory_store demo_storage [''a''] = Some [7]"
  by (simp add: context_map_def demo_storage_def set_working_tree_root_def get_entry_def)

lemma demo_no_clash:
  "case get_working_tree_root_hash demo_env demo_storage of Inl _ \<Rightarrow> False | Inr rh \<Rightarrow>
   (case get_entries_recursively demo_env (ms_reader in_memory_store demo_storage) (recursion_depth demo_env)
      (Commit (new_commit demo_storage rh 0 [] [])) (Some (fst (working_tree demo_storage))) of
      Inl _ \<Rightarrow> False | Inr batch \<Rightarrow> no_clash (im_view (ms_db demo_storage)) batch)"
  by code_simp

theorem commit_checkout_roundtrip_witness:
  "\<exists>h ms'. ms_commit demo_env in_memory_store 0 [] [] demo_storage = (Inr h, ms') \<and>
     get_history demo_env in_memory_store h [''a''] ms' = Inr [7]"
proof -
  obtain rh where rh: "get_working_tree_root_hash demo_env demo_storage = Inr rh"
    using demo_no_clash by (auto split: sum.splits)
  have "no_clash (im_view (ms_db demo_storage)) batch"
    if "get_entries_recursively demo_env (ms_reader in_memory_store demo_storage) (recursion_depth demo_env)
        (Commit (new_commit demo_storage rh 0 [] [])) (Some (fst (working_tree demo_storage))) = Inr batch" for batch
    using demo_no_clash rh that by simp
  then show ?thesis
    using commit_checkout_roundtrip [OF im.context_contract_axioms _ demo_codec_ok demo_ok rh demo_cells, of 0 "[]" "[]"] demo_get_a
    by (auto simp: demo_storage_def set_working_tree_root_def new_merkle_def)
qed

end
