(* ===== verification/MerkleLarge.thy ===== *)
theory MerkleLarge
  imports MerkleCommit
begin

text \<open>
  Directories of more than 256 entries. Hashing such a directory works on copies of its nodes
  (\<^verbatim>\<open>partition_entries\<close> in \<^verbatim>\<open>storage/src/context/merkle/hash/mod.rs\<close>) and leaves the hash
  cells of the nodes themselves empty; the serializer refuses a node without a hash
  (\<^verbatim>\<open>ensure_non_null_entry_hash\<close> in \<^verbatim>\<open>merkle/mod.rs\<close>). So a commit fails as soon as one
  child of a loaded large directory is new. A node that was just created by a change is in no other
  tree, so nothing but hashing this directory could have filled its cell.
\<close>

definition missing_hash :: "merkle_error failure" where
  "missing_hash = Err (SerializationError ''entry_hash missing in Node'')"

section \<open>What a commit can write\<close>

lemma for_each_fails:
  assumes "\<And>x. x \<in> set xs \<Longrightarrow> (\<exists>y. f x = Inr y) \<or> f x = Inl e" "\<exists>x \<in> set xs. f x = Inl e"
  shows "for_each f xs = Inl e"
  using assms
proof (induction xs)
  case (Cons x xs)
  then consider "f x = Inl e" | y where "f x = Inr y" "\<exists>x \<in> set xs. f x = Inl e"
    by fastforce
  then show ?case
    using Cons by cases auto
qed simp

lemma for_each_some: "(\<exists>ys. for_each f xs = Inr ys) \<longleftrightarrow> (\<forall>x \<in> set xs. \<exists>y. f x = Inr y)"
  by (induction xs) (auto simp: and_then_Inr_iff)

lemma stored_form_Tree:
  assumes "hash_tree H t = Inr h"
  shows "(\<exists>s. stored_form H (Tree t) = Inr s) \<longleftrightarrow> length t \<le> 256 \<or> (\<forall>p \<in> set t. n_hash (snd p) \<noteq> None)"
proof -
  have n: "(\<exists>y. stored_node H filled p = Inr y) \<longleftrightarrow> filled \<or> n_hash (snd p) \<noteq> None" if "p \<in> set t" for filled p
    using hash_tree_all [OF assms that] stored_node_Inr [of filled p H]
    by (auto simp: stored_node_def ensure_non_null_entry_hash_def and_then_Inr_iff split: option.splits)
  have "(\<exists>ys. for_each (stored_node H filled) t = Inr ys) \<longleftrightarrow> (\<forall>p \<in> set t. filled \<or> n_hash (snd p) \<noteq> None)" for filled
    unfolding for_each_some using n by blast
  then show ?thesis
    by (auto simp: stored_form_def and_then_Inr_iff)
qed

lemma batch_entry_Tree:
  assumes "hash_tree (hashes E) t = Inr h"
  shows "if length t \<le> 256 \<or> (\<forall>p \<in> set t. n_hash (snd p) \<noteq> None)
    then \<exists>x. batch_entry E (Tree t) = Inr x else batch_entry E (Tree t) = Inl missing_hash"
  using stored_form_Tree [OF assms] assms
  by (cases "stored_form (hashes E) (Tree t)")
    (auto simp: batch_entry_def hashingA_def missing_hash_def map_err_def hash_tree_def)

text \<open>
  Once the hash of a directory is known, collecting what a commit writes below it can only
  fail because a hash cell is empty.
\<close>

lemma batch_outcome:
  "readable E rd t \<Longrightarrow> hash_tree (hashes E) t = Inr h \<Longrightarrow>
    if hash_cells_filled (Tree t) then \<exists>batch. get_entries_recursively E rd0 d (Tree t) None = Inr batch
    else get_entries_recursively E rd0 d (Tree t) None = Inl missing_hash"
proof (induction arbitrary: h rule: readable.induct)
  case (readableI t)
  let ?f = "\<lambda>p. case n_entry (snd p) of None \<Rightarrow> Inr [] | Some child \<Rightarrow> get_entries_recursively E rd0 d child None"
  let ?sub = "\<lambda>p. \<forall>child. n_entry (snd p) = Some child \<longrightarrow> hash_cells_filled child"
  have rd: "readable E rd t"
    using readableI.hyps readableI.IH by (intro readable.intros) blast+
  have f: "if ?sub p then \<exists>xs. ?f p = Inr xs else ?f p = Inl missing_hash" if p: "p \<in> set t" for p
  proof (cases "n_entry (snd p)")
    case (Some e)
    obtain x where x: "node_entry_hash (hashes E) (snd p) = Inr x"
      using hash_tree_all [OF readableI.prems p] by blast
    have n: "readable_node E rd (snd p)"
      using rd p by (simp add: readable_iff)
    note ld = loaded_hash [OF n Some x]
    have "readable_entry E rd e"
      using n ld(1) by (auto simp: readable_node_def)
    then consider b where "e = Blob b" | u where "e = Tree u"
      by (cases e) (auto simp: readable_entry_def)
    then show ?thesis
    proof cases
      case 1
      then show ?thesis
        using Some batch_blob ld(2) by (auto simp: hash_cells_filled.simps)
    next
      case 2
      then show ?thesis
        using Some ld readableI.IH p by (fastforce simp: hash_tree_def)
    qed
  qed simp
  then have all: "if \<forall>p \<in> set t. ?sub p then \<exists>xs. for_each ?f t = Inr xs else for_each ?f t = Inl missing_hash"
  proof (cases "\<forall>p \<in> set t. ?sub p")
    case True
    then show ?thesis
      unfolding for_each_some using f by (simp del: split_paired_All)
  next
    case False
    have "for_each ?f t = Inl missing_hash"
    proof (rule for_each_fails)
      show "(\<exists>y. ?f p = Inr y) \<or> ?f p = Inl missing_hash" if "p \<in> set t" for p
        using f [OF that] by (meson)
      show "\<exists>p \<in> set t. ?f p = Inl missing_hash"
        using False f by (meson)
    qed
    then show ?thesis
      using False by (rule if_not_P [THEN iffD2, rotated])
  qed
  show ?case
    using all batch_entry_Tree [OF readableI.prems]
    by (subst (1 2) get_entries_recursively.simps) (auto simp: hash_cells_filled_Tree split: if_splits)
qed

text \<open>The outcome of a commit, up to writing the batch.\<close>

lemma ms_commit_refused:
  assumes "context_ok E cs ms" "\<not> hash_cells_filled (Tree (fst (working_tree ms)))"
  shows "ms_commit E cs time auth msg ms =
    (Inl (case get_working_tree_root_hash E ms of Inl e \<Rightarrow> e | Inr _ \<Rightarrow> missing_hash), ms)"
proof (cases "get_working_tree_root_hash E ms")
  case (Inl e)
  then show ?thesis
    by (simp add: ms_commit_def)
next
  case (Inr rh)
  then have rh: "hash_tree (hashes E) (fst (working_tree ms)) = Inr rh"
    by (auto simp: get_working_tree_root_hash_def hashingA_def)
  let ?c = "new_commit ms rh time auth msg"
  have "get_entries_recursively E (ms_reader cs ms) (recursion_depth E) (Tree (fst (working_tree ms))) None = Inl missing_hash"
    using batch_outcome [OF assms(1) [unfolded context_ok_def] rh] assms(2) by simp
  moreover have "batch_entry E (Commit ?c) = Inr (blake2b (hashes E) (commit_bytes ?c), bincode_ser E (Commit ?c))"
    by (rule batch_entry_Inr) (simp_all add: stored_form_def hash_commit_def)
  ultimately have "get_entries_recursively E (ms_reader cs ms) (recursion_depth E) (Commit ?c)
      (Some (fst (working_tree ms))) = Inl missing_hash"
    by (subst get_entries_recursively.simps) simp
  then show ?thesis
    using Inr by (simp add: ms_commit_def new_commit_def Let_def hashingA_def hash_commit_def)
qed

section \<open>A change leaves its trace up to the root\<close>

lemma in_tree_insert: "(k, n) \<in> set (tree_insert k n t)"
  by (induction k n t rule: tree_insert.induct) auto

lemma tree_insert_ne [simp]: "tree_insert k n t \<noteq> []"
  using in_tree_insert [of k n t] by auto

lemma length_sorted_tree: "sorted_tree t \<Longrightarrow> length t = card (fst ` set t)"
  unfolding sorted_tree_def by (metis distinct_card length_map list.set_map strict_sorted_iff)

lemma names_tree_insert: "fst ` set (tree_insert k n t) = insert k (fst ` set t)"
  by (simp add: dom_map_of_conv_image_fst [symmetric] insert_commute)

lemma unfilled_child:
  assumes "(k, n) \<in> set t" "n_entry n = Some e" "\<not> hash_cells_filled e"
  shows "\<not> hash_cells_filled (Tree t)"
  using assms unfolding hash_cells_filled_Tree by force

lemma unfilled_new_root:
  assumes "n_entry n = Some (Tree u)" "\<not> hash_cells_filled (Tree u)"
    and "compute_new_root_with_change E rd root path (Some n) = Inr e"
  shows "\<not> hash_cells_filled e"
  using assms
proof (induction path arbitrary: n u rule: rev_induct)
  case Nil
  then show ?case
    by (subst (asm) compute_new_root_with_change.simps) simp
next
  case (snoc l path)
  obtain t where t: "find_tree E rd root path = Inr t"
    using snoc.prems(3) by (subst (asm) compute_new_root_with_change.simps) (auto simp: and_then_Inr_iff Let_def)
  have "\<not> hash_cells_filled (Tree (tree_insert l n t))"
    using unfilled_child [OF in_tree_insert] snoc.prems(1,2) by simp
  then show ?case
    using snoc.IH [of "get_non_leaf (Tree (tree_insert l n t))" "tree_insert l n t"] snoc.prems(3)
    by (simp add: compute_new_root_step [OF t] get_non_leaf_def Let_def)
qed

lemma unfilled_after_change:
  assumes "readable E rd root" "find_tree E rd root path = Inr d" "n_hash n = None"
    and "256 < card (insert l (fst ` set d))"
    and "compute_new_root_with_change E rd root (path @ [l]) (Some n) = Inr e"
  shows "\<not> hash_cells_filled e"
proof (rule unfilled_new_root)
  show "n_entry (get_non_leaf (Tree (tree_insert l n d))) = Some (Tree (tree_insert l n d))"
    by (simp add: get_non_leaf_def)
  have "sorted_tree d"
    using find_tree_readable [OF assms(1), of path] assms(2) by (auto simp: readable_iff)
  then have "256 < length (tree_insert l n d)"
    using assms(4) by (simp add: length_sorted_tree sorted_tree_insert names_tree_insert)
  then show "\<not> hash_cells_filled (Tree (tree_insert l n d))"
    using in_tree_insert [of l n d] assms(3) unfolding hash_cells_filled_Tree by fastforce
  show "compute_new_root_with_change E rd root path (Some (get_non_leaf (Tree (tree_insert l n d)))) = Inr e"
    using assms(5) by (simp add: compute_new_root_step [OF assms(2)] Let_def)
qed

section \<open>Properties\<close>

text \<open>
  Property C34. A value that is set in a directory which then has more than 256 entries cannot be committed:
  setting it succeeds, but the commit of the resulting context is refused, with the error of the
  serializer if the root hash can be computed at all, and nothing is written.
\<close>

theorem large_directory_not_committed:
  assumes "context_ok E cs ms" "ms_set E cs tid key v ms = (Inr (), ms')"
    and "find_tree E (ms_reader cs ms) (fst (working_tree ms)) (butlast key) = Inr d"
    and "256 < card (insert (last key) (fst ` set d))"
  shows "ms_commit E cs time auth msg ms' =
    (Inl (case get_working_tree_root_hash E ms' of
        Inl e \<Rightarrow> e
      | Inr _ \<Rightarrow> Err (SerializationError ''entry_hash missing in Node'')), ms')"
proof -
  let ?n = "Node Leaf None (Some (Blob v))"
  have key: "key \<noteq> []"
    using assms(2) by (auto simp: ms_set_def install_def get_tree_def compute_new_root_with_change.simps)
  then have k: "butlast key @ [last key] = key"
    by simp
  obtain t where t: "compute_new_root_with_change E (ms_reader cs ms) (fst (working_tree ms)) key (Some ?n) = Inr (Tree t)"
    "fst (working_tree ms') = t"
    using assms(2) by (auto simp: ms_set_def install_def get_tree_def and_then_def set_working_tree_root_def
        split: sum.splits entry.splits)
  have "\<not> hash_cells_filled (Tree t)"
    using unfilled_after_change [OF assms(1) [unfolded context_ok_def] assms(3) _ assms(4), of ?n] t(1) k by simp
  moreover have "context_ok E cs ms'"
    using ms_set_changed [OF assms(1) key, of tid v] assms(2) by (auto simp: changed_to_def)
  ultimately show ?thesis
    unfolding t(2) [symmetric] missing_hash_def [symmetric] by (rule ms_commit_refused [rotated])
qed

text \<open>A directory of 256 values, named by strings of different lengths.\<close>

definition full_directory :: tree where
  "full_directory = map (\<lambda>i. (replicate i CHR ''a'', Node Leaf None (Some (Blob [])))) [0..<256]"

lemma replicate_less: "i < j \<Longrightarrow> replicate i x < replicate j (x :: char)"
  by (induction i arbitrary: j) (auto simp: gr0_conv_Suc less_Suc_eq_0_disj Suc_less_eq2)

lemma full_directory_readable: "readable E rd full_directory"
  by (auto simp: readable_iff full_directory_def sorted_tree_def sorted_wrt_map sorted_wrt_iff_nth_less
      replicate_less readable_node_def get_entry_def readable_entry_def)

lemma full_directory_names: "fst ` set full_directory = (\<lambda>i. replicate i CHR ''a'') ` {..<256}"
  by (auto simp: full_directory_def image_image atLeast0LessThan)

theorem large_directory_not_committed_witness:
  "\<exists>ms' e. ms_set demo_env in_memory_store 1 [''b''] [7]
       (set_working_tree_root full_directory 0 (new_merkle new_in_memory)) = (Inr (), ms') \<and>
     ms_commit demo_env in_memory_store 0 [] [] ms' = (Inl e, ms')"
proof -
  let ?ms = "set_working_tree_root full_directory 0 (new_merkle new_in_memory)"
  have ok: "context_ok demo_env in_memory_store ?ms"
    using full_directory_readable by (simp add: context_ok_def set_working_tree_root_def)
  obtain ms' where s: "ms_set demo_env in_memory_store 1 [''b''] [7] ?ms = (Inr (), ms')"
    using ms_set_changed [OF ok, of "[''b'']" 1 "[7]"] by auto
  have "set x \<subseteq> {CHR ''a''}" if "x \<in> fst ` set full_directory" for x
    using that by (auto simp: full_directory_names)
  from this [of "''b''"] have "''b'' \<notin> fst ` set full_directory"
    by auto
  moreover have "card (fst ` set full_directory) = 256"
    by (simp add: full_directory_names card_image inj_on_def replicate_eq_replicate)
  ultimately have "256 < card (insert (last [''b'']) (fst ` set full_directory))"
    by simp
  then show ?thesis
    using large_directory_not_committed [OF ok s, of full_directory 0 "[]" "[]"] s
    by (auto simp: set_working_tree_root_def)
qed

end
