(* ===== verification/MerkleCaching.thy ===== *)
theory MerkleCaching
  imports MerkleContents
begin

text \<open>
  The caches of the context tree. Reading an entry stores it in the cell of its node, hashing
  a node stores the hash; the cells are shared by all trees that contain the node. The
  model leaves these writes out. Here it is shown that no value and no hash depends on them: a tree
  whose cells were filled at any depth reads and hashes as before. The serializer of a commit does look
  at the hash cells; what it needs is the subject of \<^verbatim>\<open>MerkleCommit\<close> and \<^verbatim>\<open>MerkleLarge\<close>.
\<close>

inductive cached_tree :: "merkle_env \<Rightarrow> db_reader \<Rightarrow> tree \<Rightarrow> tree \<Rightarrow> bool"
  and cached_node :: "merkle_env \<Rightarrow> db_reader \<Rightarrow> node \<Rightarrow> node \<Rightarrow> bool" for E rd where
  same_names: "list_all2 (\<lambda>p p'. fst p' = fst p \<and> cached_node E rd (snd p) (snd p')) t t' \<Longrightarrow>
    cached_tree E rd t t'"
| filled: "n_kind n' = n_kind n \<Longrightarrow>
    n_hash n' = n_hash n \<or> (n_hash n = None \<and> (\<exists>h. n_hash n' = Some h \<and> node_entry_hash (hashes E) n = Inr h)) \<Longrightarrow>
    n_entry n' = n_entry n \<or>
      (\<exists>e. get_entry E rd n = Inr e \<and> n_entry n' = Some e) \<or>
      (\<exists>t t'. get_entry E rd n = Inr (Tree t) \<and> n_entry n' = Some (Tree t') \<and> cached_tree E rd t t') \<Longrightarrow>
    cached_node E rd n n'"

inductive_cases cached_treeE: "cached_tree E rd t t'"
inductive_cases cached_nodeE: "cached_node E rd n n'"

text \<open>The store is addressed by content.\<close>

definition content_addressed :: "merkle_env \<Rightarrow> db_reader \<Rightarrow> bool" where
  "content_addressed E rd \<longleftrightarrow>
     (\<forall>h e. get_entry_from_hash E rd h = Inr e \<longrightarrow> hash_entry (hashes E) e = Inr h)"

text \<open>What one cell of a node may hold after caching, given that the subtree is unaffected.\<close>

definition same_entry :: "merkle_env \<Rightarrow> db_reader \<Rightarrow> entry \<Rightarrow> entry \<Rightarrow> bool" where
  "same_entry E rd e e' \<longleftrightarrow> entry_contents E rd e' = entry_contents E rd e \<and>
     hash_entry (hashes E) e' = hash_entry (hashes E) e \<and> readable_entry E rd e'"

lemma readable_node_hash:
  assumes "readable_node E rd n" "content_addressed E rd" "get_entry E rd n = Inr e"
  shows "node_entry_hash (hashes E) n = hash_entry (hashes E) e"
  using assms
  by (cases n; cases "n_hash n"; cases "n_entry n") (auto simp: readable_node_def content_addressed_def get_entry_def)

lemma cached_node_entry:
  assumes "cached_node E rd n n'" "readable_node E rd n" "get_entry E rd n = Inr e"
    and "\<And>t t'. e = Tree t \<Longrightarrow> cached_tree E rd t t' \<Longrightarrow> same_entry E rd (Tree t) (Tree t')"
  obtains e' where "get_entry E rd n' = Inr e'" "same_entry E rd e e'" "n_entry n' = None \<or> n_entry n' = Some e'"
proof -
  have rd: "readable_entry E rd e"
    using assms(2,3) by (auto simp: readable_node_def)
  have hash: "n_hash n' = n_hash n \<or> n_hash n = None"
    using assms(1) by (auto elim!: cached_nodeE)
  consider "n_entry n' = n_entry n" | "n_entry n' = Some e"
    | t t' where "e = Tree t" "n_entry n' = Some (Tree t')" "cached_tree E rd t t'"
    using assms(1,3) by (auto elim!: cached_nodeE)
  then show thesis
  proof cases
    case 1
    have "get_entry E rd n' = Inr e"
      using 1 hash assms(3) by (auto simp: get_entry_def split: option.splits)
    then show thesis
      using that [of e] rd 1 assms(3) by (auto simp: same_entry_def get_entry_def split: option.splits)
  next
    case 2
    then show thesis
      using that [of e] rd by (simp add: same_entry_def get_entry_def)
  next
    case 3
    then show thesis
      using that [of "Tree t'"] assms(4) by (simp add: get_entry_def)
  qed
qed

lemma cached_node_same:
  assumes "cached_node E rd n n'" "readable_node E rd n" "content_addressed E rd" "get_entry E rd n = Inr e"
    and "\<And>t t'. e = Tree t \<Longrightarrow> cached_tree E rd t t' \<Longrightarrow> same_entry E rd (Tree t) (Tree t')"
  shows "\<exists>e'. get_entry E rd n' = Inr e' \<and> entry_contents E rd e' = entry_contents E rd e \<and>
    readable_node E rd n' \<and> n_kind n' = n_kind n \<and> node_entry_hash (hashes E) n' = node_entry_hash (hashes E) n"
proof -
  obtain e' where e': "get_entry E rd n' = Inr e'" "same_entry E rd e e'" "n_entry n' = None \<or> n_entry n' = Some e'"
    using cached_node_entry [OF assms(1,2,4,5)] by blast
  note h = readable_node_hash [OF assms(2,3,4)]
  have k: "n_kind n' = n_kind n" "n_hash n' = n_hash n \<or> n_hash n' \<noteq> None \<and> node_entry_hash (hashes E) n = Inr (the (n_hash n'))"
    using assms(1) by (auto elim!: cached_nodeE)
  have hash: "node_entry_hash (hashes E) n = Inr x" if "n_hash n' = Some x" for x
    using that k(2) by (cases n) auto
  have r: "readable_node E rd n'"
    unfolding readable_node_def using e' h hash by (auto simp: same_entry_def)
  have "node_entry_hash (hashes E) n' = node_entry_hash (hashes E) n"
    using readable_node_hash [OF r assms(3) e'(1)] h e'(2) by (simp add: same_entry_def)
  then show ?thesis
    using e'(1,2) r k(1) by (auto simp: same_entry_def)
qed

lemma list_all2_hashed:
  assumes "list_all2 (\<lambda>p p'. fst p' = fst p \<and> n_kind (snd p') = n_kind (snd p) \<and>
      node_entry_hash H (snd p') = node_entry_hash H (snd p)) t t'"
  shows "hash_tree H t' = hash_tree H t"
proof -
  have "map (\<lambda>p. (fst p, n_kind (snd p), node_entry_hash H (snd p))) t' =
      map (\<lambda>p. (fst p, n_kind (snd p), node_entry_hash H (snd p))) t"
    using assms by (induction rule: list_all2_induct) simp_all
  then show ?thesis
    by (simp add: hash_tree_def)
qed

lemma list_all2_names:
  "list_all2 (\<lambda>p p'. fst p' = fst p \<and> P (snd p) (snd p')) t t' \<Longrightarrow> sorted_tree t' = sorted_tree t"
  unfolding sorted_tree_def by (rule arg_cong [of _ _ "sorted_wrt (<)"]) (induction rule: list_all2_induct, simp_all)

lemma list_all2_map_of:
  assumes "list_all2 (\<lambda>p p'. fst p' = fst p \<and> P (snd p) (snd p')) t t'"
  shows "(map_of t k = None \<and> map_of t' k = None) \<or> (\<exists>n n'. map_of t k = Some n \<and> map_of t' k = Some n' \<and> P n n')"
  using assms by (induction rule: list_all2_induct) (auto split: if_splits)

lemma cached_tree_same:
  assumes "content_addressed E rd"
  shows "readable E rd t \<Longrightarrow> cached_tree E rd t t' \<Longrightarrow> same_entry E rd (Tree t) (Tree t')"
proof (induction arbitrary: t' rule: readable.induct)
  case (readableI t)
  let ?P = "\<lambda>n n'. (\<exists>e e'. get_entry E rd n = Inr e \<and> get_entry E rd n' = Inr e' \<and>
      entry_contents E rd e' = entry_contents E rd e) \<and> readable_node E rd n' \<and> n_kind n' = n_kind n \<and>
      node_entry_hash (hashes E) n' = node_entry_hash (hashes E) n"
  have rd: "readable E rd t"
    using readableI.hyps readableI.IH by (intro readable.intros) blast+
  have "?P (snd p) n'" if p: "p \<in> set t" "cached_node E rd (snd p) n'" for p n'
  proof -
    have n: "readable_node E rd (snd p)"
      using rd p(1) by (simp add: readable_iff)
    then obtain e where e: "get_entry E rd (snd p) = Inr e"
      by (auto simp: readable_node_def)
    have "same_entry E rd (Tree u) (Tree u')" if "e = Tree u" "cached_tree E rd u u'" for u u'
      using readableI.IH p(1) that e by fastforce
    then show ?thesis
      using cached_node_same [OF p(2) n assms e] e by blast
  qed
  then have all: "list_all2 (\<lambda>p p'. fst p' = fst p \<and> ?P (snd p) (snd p')) t t'"
    using readableI.prems by (auto elim!: cached_treeE intro: list.rel_mono_strong)
  have "contents E rd t' ks = contents E rd t ks" for ks
  proof (cases ks)
    case (Cons k ks')
    then show ?thesis
      using list_all2_map_of [OF all, of k] by (auto simp: contents_Cons simp del: contents.simps(2))
  qed simp
  moreover have "hash_tree (hashes E) t' = hash_tree (hashes E) t"
    using all by (intro list_all2_hashed) (auto elim!: list.rel_mono_strong)
  moreover have "readable_node E rd (snd p')" if "p' \<in> set t'" for p'
    using all that by (induction rule: list_all2_induct) auto
  ultimately show ?case
    using list_all2_names [OF all] readableI.hyps(1)
    by (auto simp: same_entry_def entry_contents_def readable_entry_def readable_iff fun_eq_iff hash_tree_def)
qed

text \<open>
  Property C27. Filling the caches of a readable tree, at any depth, changes neither values nor
  hashes: every key reads the same value, and the hash of the tree is the same.
\<close>

theorem caches_are_transparent:
  assumes "content_addressed E rd" "readable E rd t" "cached_tree E rd t t'"
  shows "readable E rd t' \<and> hash_tree (hashes E) t' = hash_tree (hashes E) t \<and>
    (\<forall>key v. get_from_tree E rd t' key = Inr v \<longleftrightarrow> get_from_tree E rd t key = Inr v)"
  using cached_tree_same [OF assms] unfolding get_from_tree_iff same_entry_def hash_entry_Tree
  by (simp add: entry_contents_def readable_entry_def fun_eq_iff)

theorem caches_are_transparent_witness:
  "hash_tree (hashes sample_env) [(''a'', Node Leaf (Some (to_be_bytes 8 1 @ [7])) (Some (Blob [7])))] =
   hash_tree (hashes sample_env) [(''a'', Node Leaf None (Some (Blob [7])))]"
proof -
  let ?rd = "\<lambda>_. Inr None"
  have "content_addressed sample_env ?rd"
    by (simp add: content_addressed_def get_entry_from_hash_def)
  moreover have "readable sample_env ?rd [(''a'', Node Leaf None (Some (Blob [7])))]"
    by (simp add: readable_iff sorted_tree_def readable_node_def get_entry_def readable_entry_def)
  moreover have "cached_tree sample_env ?rd [(''a'', Node Leaf None (Some (Blob [7])))]
      [(''a'', Node Leaf (Some (to_be_bytes 8 1 @ [7])) (Some (Blob [7])))]"
    by (auto intro!: same_names filled simp: sample_env_def unary_lib_def hash_blob_def)
  ultimately show ?thesis
    using caches_are_transparent by blast
qed

end
