(* ===== verification/ContextGC.thy ===== *)
theory ContextGC
  imports MerkleCommit
begin

text \<open>
  The mark-and-sweep collector around a context store (\<^verbatim>\<open>storage/src/context/gc/mod.rs\<close> and
  \<^verbatim>\<open>gc/mark_sweep_gced.rs\<close>): after a block was applied the entries of its commit are marked
  as used in the current cycle; when a cycle starts, entries that no recent cycle used are removed.
\<close>

section \<open>Entries of a commit\<close>

definition fetch_entry_from_store :: "merkle_env \<Rightarrow> db_reader \<Rightarrow> entry_hash \<Rightarrow> gc_error failure + entry" where
  "fetch_entry_from_store E rd h =
     (case rd h of
        Inl e \<Rightarrow> Inl (map_failure GcDBError e)
      | Inr None \<Rightarrow> Inl (Err (GcEntryNotFound h))
      | Inr (Some bs) \<Rightarrow> map_err (\<lambda>m. Err (GcSerializationError m)) (bincode_de E bs))"

type_synonym gc_cache = "entry_hash \<rightharpoonup> entry_hash set"

text \<open>The batch and the cache are mutable arguments: they keep what was added before an error.\<close>

type_synonym collected = "(gc_error failure + unit) \<times> entry_hash set \<times> gc_cache"

function collect_hashes :: "merkle_env \<Rightarrow> db_reader \<Rightarrow> nat \<Rightarrow> entry \<Rightarrow> entry_hash set \<Rightarrow> gc_cache \<Rightarrow> collected"
  and collect_children :: "merkle_env \<Rightarrow> db_reader \<Rightarrow> nat \<Rightarrow> tree \<Rightarrow> entry_hash set \<Rightarrow> gc_cache \<Rightarrow> collected" where
  "collect_hashes E rd depth e batch cache =
     (case hash_entry (hashes E) e of
        Inl err \<Rightarrow> (Inl (map_failure GcHashingError err), batch, cache)
      | Inr h \<Rightarrow>
          (case cache h of
             Some v \<Rightarrow> (Inr (), insert h batch \<union> v, cache)
           | None \<Rightarrow>
               (case e of
                  Blob _ \<Rightarrow> (Inr (), insert h batch, cache)
                | Tree t \<Rightarrow>
                    (case collect_children E rd depth t {} cache of
                       (Inl err, b, cache') \<Rightarrow> (Inl err, insert h batch, cache')
                     | (Inr _, b, cache') \<Rightarrow> (Inr (), insert h batch \<union> b, cache'(h \<mapsto> b)))
                | Commit c \<Rightarrow>
                    (case fetch_entry_from_store E rd (root_hash c) of
                       Inl err \<Rightarrow> (Inl err, insert h batch, cache)
                     | Inr root \<Rightarrow>
                         (case depth of
                            0 \<Rightarrow> (Inl Panic, insert h batch, cache)
                          | Suc d \<Rightarrow> collect_hashes E rd d root (insert h batch) cache)))))"
| "collect_children E rd depth [] b cache = (Inr (), b, cache)"
| "collect_children E rd depth (p # t) b cache =
     (case n_entry (snd p) of
        None \<Rightarrow> (Inl (Err (GcHashingError MissingEntry)), b, cache)
      | Some e \<Rightarrow>
          (case collect_hashes E rd depth e b cache of
             (Inl err, b', cache') \<Rightarrow> (Inl err, b', cache')
           | (Inr _, b', cache') \<Rightarrow> collect_children E rd depth t b' cache'))"
  by pat_completeness auto
termination
proof (relation "measures [
      \<lambda>x. case x of Inl (E, rd, d, e, b, c) \<Rightarrow> d | Inr (E, rd, d, t, b, c) \<Rightarrow> d,
      \<lambda>x. case x of Inl (E, rd, d, e, b, c) \<Rightarrow> size e | Inr (E, rd, d, t, b, c) \<Rightarrow> size_list (\<lambda>p. Suc (size (snd p))) t]",
    goal_cases)
  case (4 E rd depth p t b cache e)
  then show ?case
    by (cases "snd p") auto
qed (auto simp: size_prod_simp)

declare collect_hashes.simps [simp del]

section \<open>The collector\<close>

record 's mark_sweep =
  gs_store :: 's
  cycles_limit :: nat
  cycles :: "entry_hash set list"
  gs_cache :: gc_cache

definition new_mark_sweep :: "'s \<Rightarrow> nat \<Rightarrow> 's mark_sweep" where
  "new_mark_sweep default_store cycle_count =
     \<lparr>gs_store = default_store, cycles_limit = cycle_count + 1, cycles = replicate (cycle_count + 1) {},
      gs_cache = Map.empty\<rparr>"

definition mark_reused :: "entry_hash set \<Rightarrow> 's mark_sweep \<Rightarrow> 's mark_sweep" where
  "mark_reused reused_keys g =
     (if cycles g = [] then g
      else g\<lparr>cycles := butlast (cycles g) @ [last (cycles g) \<union> reused_keys]\<rparr>)"

text \<open>Operations of the wrapped store.\<close>

definition gsA :: "('s, 'e, 'a) act \<Rightarrow> ('s mark_sweep, 'e, 'a) act" where
  "gsA m g = (case m (gs_store g) of (r, s) \<Rightarrow> (r, g\<lparr>gs_store := s\<rparr>))"

definition gc_kv :: "('s, entry_hash, bytes) kv_store \<Rightarrow> ('s mark_sweep, entry_hash, bytes) kv_store" where
  "gc_kv kv = \<lparr>kv_put = (\<lambda>k v. gsA (kv_put kv k v)), kv_delete = (\<lambda>k. gsA (kv_delete kv k)),
     kv_merge = (\<lambda>k v. gsA (kv_merge kv k v)), kv_get = (\<lambda>k. gsA (kv_get kv k)),
     kv_contains = (\<lambda>k. gsA (kv_contains kv k)), kv_retain = (\<lambda>P. gsA (kv_retain kv P)),
     kv_write_batch = (\<lambda>b. gsA (kv_write_batch kv b))\<rparr>"

definition sweep_entries :: "('s, entry_hash, bytes) kv_store \<Rightarrow> entry_hash set \<Rightarrow>
    ('s mark_sweep, gc_error failure, unit) act" where
  "sweep_entries kv todo = map_errA (map_failure GcDBError) (gsA (kv_retain kv (\<lambda>x. x \<in> todo)))"

definition gc_new_cycle_started :: "('s, entry_hash, bytes) kv_store \<Rightarrow> ('s mark_sweep, gc_error failure, unit) act" where
  "gc_new_cycle_started kv g =
     (let cs = cycles g @ [{}];
          cs = drop (length cs - cycles_limit g) cs in
      sweep_entries kv (\<Union> (set cs)) (g\<lparr>cycles := cs\<rparr>))"

definition store_entries_referenced_by_commit :: "merkle_env \<Rightarrow> ('s, entry_hash, bytes) kv_store \<Rightarrow> entry_hash \<Rightarrow>
    ('s mark_sweep, gc_error failure, unit) act" where
  "store_entries_referenced_by_commit E kv commit g =
     (let rd = db_reader_of kv (gs_store g) in
      case fetch_entry_from_store E rd commit of
        Inl err \<Rightarrow> (Inl err, g)
      | Inr commit_entry \<Rightarrow>
          (case commit_entry of
             Commit _ \<Rightarrow>
               (case collect_hashes E rd (recursion_depth E) commit_entry {} (gs_cache g) of
                  (Inl err, entries, cache) \<Rightarrow> (Inl err, g\<lparr>gs_cache := cache\<rparr>)
                | (Inr _, entries, cache) \<Rightarrow> (Inr (), mark_reused entries (g\<lparr>gs_cache := cache |` entries\<rparr>)))
           | _ \<Rightarrow> (Inl (Err (GarbageCollectorError ''not a commit'')), g)))"

definition gc_total_get_mem_usage :: "'s context_store \<Rightarrow> ('s mark_sweep, nat) db_act" where
  "gc_total_get_mem_usage cs =
     bindA (gsA (cs_total_get_mem_usage cs)) (\<lambda>store_usage g.
       (Inr (sum_list (map (\<lambda>keys. card keys * ENTRY_HASH_LEN) (cycles g)) + store_usage +
             (\<Sum>k \<in> dom (gs_cache g). ENTRY_HASH_LEN + card (the (gs_cache g k)) * ENTRY_HASH_LEN)), g))"

definition mark_sweep_store :: "merkle_env \<Rightarrow> 's context_store \<Rightarrow> 's mark_sweep context_store" where
  "mark_sweep_store E cs =
     \<lparr>cs_kv = gc_kv (cs_kv cs), cs_new_cycle_started = gc_new_cycle_started (cs_kv cs),
      cs_block_applied = store_entries_referenced_by_commit E (cs_kv cs),
      cs_total_get_mem_usage = gc_total_get_mem_usage cs\<rparr>"

section \<open>The wrapped store keeps the contract\<close>

text \<open>A store that is wrapped by the collector.\<close>

locale collected_store = context_contract kv view inv
  for kv :: "('s, entry_hash, bytes) kv_store" and view inv

sublocale collected_store \<subseteq> gc: context_contract "gc_kv kv" "\<lambda>g. view (gs_store g)" "\<lambda>g. inv (gs_store g)"
proof (unfold_locales, goal_cases)
  case (3 s k v)
  then show ?case
    using put_law [of "gs_store s" k v] by (auto simp: gc_kv_def gsA_def)
next
  case (4 s k)
  then show ?case
    using delete_law [of "gs_store s" k] by (auto simp: gc_kv_def gsA_def)
next
  case (6 s batch)
  then show ?case
    using batch_law [of "gs_store s" batch] by (auto simp: gc_kv_def gsA_def)
next
  case (7 s P)
  then show ?case
    using retain_law [of "gs_store s" P] by (auto simp: gc_kv_def gsA_def)
qed (use get_law contains_law in \<open>auto simp: gc_kv_def gsA_def\<close>)

context collected_store
begin

lemma new_cycle_run:
  assumes "inv (gs_store g)" "length (cycles g) = cycles_limit g"
  shows "\<exists>g'. gc_new_cycle_started kv g = (Inr (), g') \<and> inv (gs_store g') \<and>
    cycles g' = tl (cycles g @ [{}]) \<and> cycles_limit g' = cycles_limit g \<and>
    view (gs_store g') = (\<lambda>k. if k \<in> \<Union> (set (tl (cycles g @ [{}]))) then view (gs_store g) k else None)"
proof -
  have "drop (length (cycles g @ [{}]) - cycles_limit g) (cycles g @ [{}]) = tl (cycles g @ [{}])"
    using assms(2) by (cases "cycles g") auto
  then show ?thesis
    using retain_law [OF assms(1), of "\<lambda>x. x \<in> \<Union> (set (tl (cycles g @ [{}])))"]
    by (auto simp: gc_new_cycle_started_def sweep_entries_def map_errA_def gsA_def Let_def)
qed

lemma commit_of_directories_rejected:
  assumes "inv (gs_store g)"
    and "fetch_entry_from_store E (db_reader_of kv (gs_store g)) h = Inr (Commit c)"
    and "fetch_entry_from_store E (db_reader_of kv (gs_store g)) (root_hash c) = Inr (Tree t)"
    and "t \<noteq> []" "\<forall>p \<in> set t. n_entry (snd p) = None"
    and "hash_commit (hashes E) c = Inr ch" "hash_tree (hashes E) t = Inr rh"
    and "gs_cache g ch = None" "gs_cache g rh = None" "recursion_depth E = Suc d"
  shows "store_entries_referenced_by_commit E kv h g = (Inl (Err (GcHashingError MissingEntry)), g)"
proof -
  let ?rd = "db_reader_of kv (gs_store g)"
  have "collect_children E ?rd d t {} (gs_cache g) = (Inl (Err (GcHashingError MissingEntry)), {}, gs_cache g)"
    using assms(4,5) by (cases t) auto
  then have "collect_hashes E ?rd d (Tree t) {ch} (gs_cache g) =
      (Inl (Err (GcHashingError MissingEntry)), {rh, ch}, gs_cache g)"
    using assms(7,9) by (subst collect_hashes.simps) (simp add: hash_tree_def)
  then have "collect_hashes E ?rd (recursion_depth E) (Commit c) {} (gs_cache g) =
      (Inl (Err (GcHashingError MissingEntry)), {rh, ch}, gs_cache g)"
    using assms(3,6,8,10) by (subst collect_hashes.simps) simp
  then show ?thesis
    using assms(2) by (simp add: store_entries_referenced_by_commit_def)
qed

end

interpretation imgc: collected_store "cs_kv in_memory_store" im_view im_ok
  by unfold_locales

text \<open>
  Starting a cycle drops the oldest cycle and keeps of the store exactly the
  entries that one of the remaining cycles has marked.
\<close>

theorem new_cycle_sweeps_unmarked:
  assumes "im_ok (gs_store g)" "length (cycles g) = cycles_limit g"
  shows "\<exists>g'. cs_new_cycle_started (mark_sweep_store E in_memory_store) g = (Inr (), g') \<and> im_ok (gs_store g') \<and>
    cycles g' = tl (cycles g @ [{}]) \<and>
    im_view (gs_store g') = (\<lambda>k. if k \<in> \<Union> (set (tl (cycles g @ [{}]))) then im_view (gs_store g) k else None)"
  using imgc.new_cycle_run [OF assms] by (auto simp: mark_sweep_store_def)

theorem new_cycle_sweeps_unmarked_witness:
  "\<exists>g'. cs_new_cycle_started (mark_sweep_store E in_memory_store) (new_mark_sweep new_in_memory 2) = (Inr (), g') \<and>
     cycles g' = [{}, {}, {}]"
  using new_cycle_sweeps_unmarked [of "new_mark_sweep new_in_memory 2" E]
  by (auto simp: new_mark_sweep_def numeral_3_eq_3)

text \<open>
  Property C36. Applying a block whose context is not empty always fails, because the
  entries read from the store carry no loaded children; nothing is marked, so the next cycle
  removes the commit, its root and everything below.
\<close>

theorem collector_loses_committed_context:
  assumes "im_ok (gs_store g)" "length (cycles g) = cycles_limit g" "\<forall>keys \<in> set (cycles g). keys = {}"
    and "fetch_entry_from_store E (db_reader_of (cs_kv in_memory_store) (gs_store g)) h = Inr (Commit c)"
    and "fetch_entry_from_store E (db_reader_of (cs_kv in_memory_store) (gs_store g)) (root_hash c) = Inr (Tree t)"
    and "t \<noteq> []" "\<forall>p \<in> set t. n_entry (snd p) = None"
    and "hash_commit (hashes E) c = Inr ch" "hash_tree (hashes E) t = Inr rh"
    and "gs_cache g = Map.empty" "recursion_depth E = Suc d"
  defines "cs \<equiv> mark_sweep_store E in_memory_store"
  shows "cs_block_applied cs h g = (Inl (Err (GcHashingError MissingEntry)), g) \<and>
    (\<exists>g'. cs_new_cycle_started cs g = (Inr (), g') \<and> im_view (gs_store g') = Map.empty)"
proof
  show "cs_block_applied cs h g = (Inl (Err (GcHashingError MissingEntry)), g)"
    using imgc.commit_of_directories_rejected [OF assms(1,4-9) _ _ assms(11)] assms(10)
    by (simp add: cs_def mark_sweep_store_def)
  have "\<Union> (set (tl (cycles g @ [{}]))) = {}"
    using assms(3) by (cases "cycles g") auto
  then show "\<exists>g'. cs_new_cycle_started cs g = (Inr (), g') \<and> im_view (gs_store g') = Map.empty"
    using imgc.new_cycle_run [OF assms(1,2)] by (auto simp: cs_def mark_sweep_store_def fun_eq_iff)
qed

definition demo_commit :: commit where
  "demo_commit = \<lparr>parent_commit_hash = None, root_hash = [9], c_time = 0, author = [], c_message = []\<rparr>"

definition demo_tree :: tree where
  "demo_tree = [(''a'', Node Leaf (Some [3]) None)]"

definition demo_collected :: "in_memory_backend mark_sweep" where
  "demo_collected =
     (let kvs = [([1], put_entry (Commit demo_commit)), ([9], put_entry (Tree demo_tree))] in
      new_mark_sweep \<lparr>im_map = \<lparr>hm_inner = kvs, hm_stats = accounted kvs\<rparr>, im_poisoned = False\<rparr> 2)"

lemma demo_fetch:
  "fetch_entry_from_store demo_env (db_reader_of (cs_kv in_memory_store) (gs_store demo_collected)) [1] = Inr (Commit demo_commit)"
  "fetch_entry_from_store demo_env (db_reader_of (cs_kv in_memory_store) (gs_store demo_collected)) [9] = Inr (Tree demo_tree)"
proof -
  have "stripped (Commit demo_commit)" "stripped (Tree demo_tree)"
    by (simp_all add: stripped_def demo_tree_def)
  then have "parse_entry (put_entry (Commit demo_commit)) = Inr (Commit demo_commit)"
    "parse_entry (put_entry (Tree demo_tree)) = Inr (Tree demo_tree)"
    using demo_codec_ok by (auto simp: codec_ok_def demo_env_def)
  moreover have "db_reader_of (cs_kv in_memory_store) (gs_store demo_collected) [1] = Inr (Some (put_entry (Commit demo_commit)))"
    "db_reader_of (cs_kv in_memory_store) (gs_store demo_collected) [9] = Inr (Some (put_entry (Tree demo_tree)))"
    by (simp_all add: db_reader_of_def in_memory_store_def im_get_def im_read_def demo_collected_def new_mark_sweep_def Let_def)
  ultimately show
    "fetch_entry_from_store demo_env (db_reader_of (cs_kv in_memory_store) (gs_store demo_collected)) [1] = Inr (Commit demo_commit)"
    "fetch_entry_from_store demo_env (db_reader_of (cs_kv in_memory_store) (gs_store demo_collected)) [9] = Inr (Tree demo_tree)"
    by (simp_all add: fetch_entry_from_store_def demo_env_def)
qed

theorem collector_loses_committed_context_witness:
  "\<exists>g'. cs_new_cycle_started (mark_sweep_store demo_env in_memory_store)
      (snd (cs_block_applied (mark_sweep_store demo_env in_memory_store) [1] demo_collected)) = (Inr (), g') \<and>
    im_view (gs_store g') = Map.empty"
proof -
  have d: "recursion_depth demo_env = Suc 9" "root_hash demo_commit = [9]"
    by (simp_all add: demo_env_def demo_commit_def)
  obtain ch where ch: "hash_commit (hashes demo_env) demo_commit = Inr ch"
    by (simp add: hash_commit_def)
  obtain rh where rh: "hash_tree (hashes demo_env) demo_tree = Inr rh"
    by (simp add: hash_tree_def demo_tree_def hash_children_def hash_short_inode_def short_entry_def)
  have g: "im_ok (gs_store demo_collected)" "length (cycles demo_collected) = cycles_limit demo_collected"
    "\<forall>keys \<in> set (cycles demo_collected). keys = {}" "gs_cache demo_collected = Map.empty"
    by (simp_all add: im_ok_def demo_collected_def new_mark_sweep_def Let_def)
  show ?thesis
    using collector_loses_committed_context [OF g(1-3) demo_fetch(1) _ _ _ ch rh g(4) d(1)] demo_fetch(2) d(2)
    by (auto simp: demo_tree_def)
qed

end
