(* ===== verification/CommitLog.thy ===== *)
theory CommitLog
  imports Persistent
begin

text \<open>
  Commit logs (\<^verbatim>\<open>storage/src/persistent/commit_log.rs\<close>): values are encoded, appended to a
  log of messages and found again by their location. The log itself is third-party; the
  calls made on it are the record \<open>raw_log\<close>. Errors of the log are strings.
\<close>

record location =
  loc_offset :: nat
  loc_limit :: nat

record log_range =
  rg_offset :: nat
  rg_limit :: nat
  rg_items :: nat

definition is_consecutive :: "location \<Rightarrow> location \<Rightarrow> bool" where
  "is_consecutive l prev \<longleftrightarrow> loc_offset prev < loc_offset l \<and> loc_offset l - loc_offset prev = 1"

text \<open>\<^verbatim>\<open>cl_handle\<close> finds the log, whose lock may be poisoned; a read returns the messages
  from an offset on, as far as the byte limit allows. Sizes and counts are below the width of the source's counters.\<close>

record 'g raw_log =
  cl_handle :: "'g \<Rightarrow> bool"
  cl_poisoned :: "'g \<Rightarrow> bool"
  append_msg :: "bytes \<Rightarrow> ('g, string, nat) act"
  read_log :: "nat \<Rightarrow> nat \<Rightarrow> ('g, string, bytes list) act"

definition fit_read_limit :: "nat \<Rightarrow> nat" where
  "fit_read_limit limit = limit + 32"

definition fit_batch_read_limit :: "nat \<Rightarrow> nat \<Rightarrow> nat" where
  "fit_batch_read_limit limit items = limit + 32 * items"

type_synonym ('g, 'a) log_act = "('g, storage_error failure, 'a) act"

definition logA :: "('g, string, 'a) act \<Rightarrow> ('g, 'a) log_act" where
  "logA m = map_errA (\<lambda>e. Err (CommitLogErr e)) m"

text \<open>Finding and locking the log: a poisoned lock panics.\<close>

definition need_log :: "'g raw_log \<Rightarrow> ('g, unit) log_act" where
  "need_log lg g =
     (if \<not> cl_handle lg g then (Inl (Err (CommitLogErr ''commit log is missing'')), g)
      else if cl_poisoned lg g then (Inl Panic, g)
      else (Inr (), g))"

definition schema_err :: "schema_error \<Rightarrow> storage_error" where
  "schema_err _ = CommitLogErr ''schema error''"

definition clog_append :: "'v codec \<Rightarrow> 'g raw_log \<Rightarrow> 'v \<Rightarrow> ('g, location) log_act" where
  "clog_append c lg val =
     bindA (need_log lg) (\<lambda>_.
     bindA (liftR (map_err (\<lambda>e. Err (schema_err e)) (encode c val))) (\<lambda>bs.
     bindA (logA (append_msg lg bs)) (\<lambda>offset.
     ret \<lparr>loc_offset = offset, loc_limit = length bs\<rparr>)))"

definition clog_get :: "'v codec \<Rightarrow> 'g raw_log \<Rightarrow> location \<Rightarrow> ('g, 'v) log_act" where
  "clog_get c lg l =
     bindA (need_log lg) (\<lambda>_.
     bindA (logA (read_log lg (loc_offset l) (fit_read_limit (loc_limit l)))) (\<lambda>msg_buf.
     case msg_buf of
       [] \<Rightarrow> fail (Err (CommitLogErr ''corrupt log''))
     | bs # _ \<Rightarrow> liftR (map_err (map_failure schema_err) (decode c bs))))"

text \<open>A message that does not decode turns into a read error; a panicking decoder panics.\<close>

fun decode_all :: "'v codec \<Rightarrow> bytes list \<Rightarrow> storage_error failure + 'v list" where
  "decode_all c [] = Inr []"
| "decode_all c (bs # rest) =
     (case decode c bs of
        Inl Panic \<Rightarrow> Inl Panic
      | Inl (Err _) \<Rightarrow> Inl (Err (CommitLogErr ''corrupt log''))
      | Inr v \<Rightarrow> and_then (decode_all c rest) (\<lambda>vs. Inr (v # vs)))"

definition clog_get_range :: "'v codec \<Rightarrow> 'g raw_log \<Rightarrow> log_range \<Rightarrow> ('g, 'v list) log_act" where
  "clog_get_range c lg r =
     bindA (need_log lg) (\<lambda>_.
     bindA (logA (read_log lg (rg_offset r) (fit_batch_read_limit (rg_limit r) (rg_items r)))) (\<lambda>msg_buf.
     liftR (decode_all c (take (rg_items r) msg_buf))))"

text \<open>The loop keeps the previous location and the range that is being built.\<close>

fun fold_locations :: "location \<Rightarrow> log_range \<Rightarrow> location list \<Rightarrow> log_range list" where
  "fold_locations prev rng [] = [rng]"
| "fold_locations prev rng (cur # rest) =
     (if is_consecutive cur prev
      then fold_locations cur (rng\<lparr>rg_limit := rg_limit rng + loc_limit cur, rg_items := rg_items rng + 1\<rparr>) rest
      else rng # fold_locations cur \<lparr>rg_offset = loc_offset cur, rg_limit = loc_limit cur, rg_items = 1\<rparr> rest)"

definition fold_consecutive_locations :: "location list \<Rightarrow> log_range list" where
  "fold_consecutive_locations locations =
     (case locations of
        [] \<Rightarrow> []
      | prev # rest \<Rightarrow> fold_locations prev \<lparr>rg_offset = loc_offset prev, rg_limit = loc_limit prev, rg_items = 1\<rparr> rest)"

section \<open>Folding loses nothing\<close>

text \<open>The offsets a range covers; folding covers the offsets of the locations, in order, with the sum of their sizes.\<close>

definition range_offsets :: "log_range \<Rightarrow> nat list" where
  "range_offsets r = [rg_offset r..<rg_offset r + rg_items r]"

lemma fold_locations_offsets:
  assumes "0 < rg_items rng" "loc_offset prev = rg_offset rng + rg_items rng - 1"
  shows "concat (map range_offsets (fold_locations prev rng locs)) = range_offsets rng @ map loc_offset locs"
  using assms
proof (induction prev rng locs rule: fold_locations.induct)
  case (2 prev rng cur rest)
  show ?case
  proof (cases "is_consecutive cur prev")
    case True
    then have c: "loc_offset cur = rg_offset rng + rg_items rng"
      using "2.prems" by (auto simp: is_consecutive_def)
    then show ?thesis
      using True 2 by (simp add: range_offsets_def)
  next
    case False
    then show ?thesis
      using 2 by (simp add: range_offsets_def)
  qed
qed simp

lemma fold_locations_limits:
  "sum_list (map rg_limit (fold_locations prev rng locs)) = rg_limit rng + sum_list (map loc_limit locs)"
  by (induction prev rng locs rule: fold_locations.induct) simp_all

text \<open>
  Folding a list of locations into ranges reads exactly the same records in the same
  order: the offsets of the ranges are the offsets of the locations, and their byte limits add up.
\<close>

theorem fold_consecutive_locations_exact:
  "concat (map range_offsets (fold_consecutive_locations locs)) = map loc_offset locs \<and>
   sum_list (map rg_limit (fold_consecutive_locations locs)) = sum_list (map loc_limit locs)"
  by (cases locs) (simp_all add: fold_consecutive_locations_def fold_locations_offsets fold_locations_limits range_offsets_def)

text \<open>Every range of the fold stands for a group of neighbouring locations.\<close>

definition covers :: "location list \<Rightarrow> log_range \<Rightarrow> bool" where
  "covers ls r \<longleftrightarrow> map loc_offset ls = range_offsets r \<and> sum_list (map loc_limit ls) = rg_limit r"

lemma fold_locations_groups:
  assumes "covers (prior @ [prev]) rng"
  shows "\<exists>groups. concat groups = prior @ [prev] @ locs \<and>
    list_all2 (\<lambda>ls r. covers ls r \<and> ls \<noteq> []) groups (fold_locations prev rng locs)"
  using assms
proof (induction prev rng locs arbitrary: prior rule: fold_locations.induct)
  case (1 prev rng)
  then show ?case
    by (intro exI [of _ "[prior @ [prev]]"]) simp
next
  case (2 prev rng cur rest)
  show ?case
  proof (cases "is_consecutive cur prev")
    case True
    have n: "length prior + 1 = rg_items rng"
      using arg_cong [of _ _ length, OF conjunct1 [OF "2.prems" [unfolded covers_def]]] by (simp add: range_offsets_def)
    have "last (map loc_offset (prior @ [prev])) = last (range_offsets rng)"
      using "2.prems" by (simp add: covers_def)
    then have "loc_offset cur = rg_offset rng + rg_items rng"
      using True n by (auto simp: is_consecutive_def range_offsets_def)
    then have "covers ((prior @ [prev]) @ [cur])
        (rng\<lparr>rg_limit := rg_limit rng + loc_limit cur, rg_items := rg_items rng + 1\<rparr>)"
      using "2.prems" by (simp add: covers_def range_offsets_def)
    from "2.IH"(1) [OF True this] True show ?thesis
      by simp
  next
    case False
    have "covers ([] @ [cur]) \<lparr>rg_offset = loc_offset cur, rg_limit = loc_limit cur, rg_items = 1\<rparr>"
      by (simp add: covers_def range_offsets_def)
    from "2.IH"(2) [OF False this] obtain groups where
      "concat groups = cur # rest" "list_all2 (\<lambda>ls r. covers ls r \<and> ls \<noteq> []) groups (fold_locations cur \<lparr>rg_offset = loc_offset cur, rg_limit = loc_limit cur, rg_items = 1\<rparr> rest)"
      by auto
    with "2.prems" False show ?thesis
      by (intro exI [of _ "(prior @ [prev]) # groups"]) simp
  qed
qed

lemma fold_consecutive_groups:
  "\<exists>groups. concat groups = locs \<and> list_all2 (\<lambda>ls r. covers ls r \<and> ls \<noteq> []) groups (fold_consecutive_locations locs)"
proof (cases locs)
  case (Cons l rest)
  then show ?thesis
    using fold_locations_groups [of "[]" l "\<lparr>rg_offset = loc_offset l, rg_limit = loc_limit l, rg_items = 1\<rparr>" rest]
    by (simp add: fold_consecutive_locations_def covers_def range_offsets_def)
qed (simp add: fold_consecutive_locations_def)

section \<open>The contract of a log\<close>

locale clog_contract =
  fixes append :: "'v \<Rightarrow> ('g, location) log_act"
    and get :: "location \<Rightarrow> ('g, 'v) log_act"
    and lview :: "'g \<Rightarrow> location \<rightharpoonup> 'v"
  assumes append_law: "\<exists>l g'. append v g = (Inr l, g') \<and> lview g' l = Some v \<and> lview g \<subseteq>\<^sub>m lview g'"
    and log_get_law: "lview g l = Some v \<Longrightarrow> get l g = (Inr v, g)"

text \<open>
  What the library promises of its messages: appending adds a message at the end and returns its
  position; a read returns the messages from the offset on, one after the other, and it returns the next
  \<open>k\<close> of them if they lie in the segment of the first one and their sizes, with a header of \<open>hdr\<close>
  bytes each, stay within the byte limit. \<open>msgs\<close> is what the log holds, \<open>seg_end\<close> where the
  segment of an offset ends.
\<close>

locale log_laws =
  fixes lg :: "'g raw_log" and msgs :: "'g \<Rightarrow> bytes list" and seg_end :: "'g \<Rightarrow> nat \<Rightarrow> nat" and hdr :: nat
  assumes append_msg_law: "append_msg lg bs g = (Inr offset, g') \<Longrightarrow> offset = length (msgs g) \<and> msgs g' = msgs g @ [bs]"
    and read_law: "offset < length (msgs g) \<Longrightarrow> offset + k \<le> seg_end g offset \<Longrightarrow>
      sum_list (map (\<lambda>bs. hdr + length bs) (take k (drop offset (msgs g)))) \<le> limit \<Longrightarrow>
      \<exists>buf. read_log lg offset limit g = (Inr buf, g) \<and> take k buf = take k (drop offset (msgs g))"
    and segment_law: "offset < length (msgs g) \<Longrightarrow> offset < seg_end g offset"
    and header_law: "hdr \<le> 32"
begin

text \<open>A location of the log, as appending returns it.\<close>

definition located :: "'g \<Rightarrow> location \<Rightarrow> bool" where
  "located g l \<longleftrightarrow> loc_offset l < length (msgs g) \<and> loc_limit l = length (msgs g ! loc_offset l)"

lemma append_located:
  assumes "clog_append c lg v g = (Inr l, g')"
  shows "located g' l \<and> encode c v = Inr (msgs g' ! loc_offset l) \<and> (\<forall>k. located g k \<longrightarrow> located g' k)"
proof -
  obtain bs offset where "encode c v = Inr bs" "append_msg lg bs g = (Inr offset, g')" "l = \<lparr>loc_offset = offset, loc_limit = length bs\<rparr>"
    using assms by (auto simp: clog_append_def need_log_def logA_def map_errA_def bindA_def ret_def liftR_def map_err_def
        split: if_splits sum.splits prod.splits)
  then show ?thesis
    using append_msg_law by (auto simp: located_def nth_append)
qed

lemma read_one:
  assumes "located g l"
  shows "\<exists>rest. read_log lg (loc_offset l) (fit_read_limit (loc_limit l)) g = (Inr (msgs g ! loc_offset l # rest), g)"
proof -
  have one: "take 1 (drop (loc_offset l) (msgs g)) = [msgs g ! loc_offset l]"
    using assms by (simp add: located_def take_Suc_conv_app_nth)
  then obtain buf where "read_log lg (loc_offset l) (fit_read_limit (loc_limit l)) g = (Inr buf, g)" "take 1 buf = [msgs g ! loc_offset l]"
    using read_law [of "loc_offset l" g 1 "fit_read_limit (loc_limit l)"] segment_law [of "loc_offset l" g] header_law assms
    by (auto simp: located_def fit_read_limit_def)
  then show ?thesis
    by (cases buf) auto
qed

lemma get_decodes:
  assumes "located g l" "clog_get c lg l g = (Inr v, g)"
  shows "decode c (msgs g ! loc_offset l) = Inr v" "cl_handle lg g" "\<not> cl_poisoned lg g"
  using assms(2) read_one [OF assms(1)]
  by (auto simp: clog_get_def need_log_def logA_def map_errA_def bindA_def liftR_def map_err_def split: if_splits sum.splits)

lemma range_messages:
  assumes "covers ls r" "ls \<noteq> []" "\<And>l. l \<in> set ls \<Longrightarrow> located g l" "rg_offset r + rg_items r \<le> seg_end g (rg_offset r)"
  shows "\<exists>buf. read_log lg (rg_offset r) (fit_batch_read_limit (rg_limit r) (rg_items r)) g = (Inr buf, g) \<and>
    take (rg_items r) buf = map (\<lambda>l. msgs g ! loc_offset l) ls"
proof -
  have c: "map loc_offset ls = [rg_offset r..<rg_offset r + rg_items r]" "sum_list (map loc_limit ls) = rg_limit r"
    using assms(1) by (simp_all add: covers_def range_offsets_def)
  have n: "length ls = rg_items r"
    using arg_cong [OF c(1), of length] by simp
  have off: "loc_offset (ls ! i) = rg_offset r + i" if "i < length ls" for i
    using arg_cong [OF c(1), of "\<lambda>xs. xs ! i"] that n by simp
  have at: "rg_offset r + i < length (msgs g)" if "i < length ls" for i
    using assms(3) [of "ls ! i"] off that by (auto simp: located_def)
  have len: "rg_offset r + rg_items r \<le> length (msgs g)"
    using at [of "length ls - 1"] n assms(2) by (cases ls) auto
  have xs: "take (rg_items r) (drop (rg_offset r) (msgs g)) = map (\<lambda>l. msgs g ! loc_offset l) ls"
    using n off len by (intro nth_equalityI) auto
  have sizes: "map (\<lambda>l. length (msgs g ! loc_offset l)) ls = map loc_limit ls"
    using assms(3) by (simp add: located_def)
  have "(\<Sum>l\<leftarrow>ls. length (msgs g ! loc_offset l)) = rg_limit r"
    unfolding sizes by (rule c(2))
  then have "sum_list (map (\<lambda>bs. hdr + length bs) (map (\<lambda>l. msgs g ! loc_offset l) ls)) = hdr * rg_items r + rg_limit r"
    using n by (simp add: sum_list_addf sum_list_triv comp_def mult.commute)
  then have "sum_list (map (\<lambda>bs. hdr + length bs) (take (rg_items r) (drop (rg_offset r) (msgs g)))) \<le>
      fit_batch_read_limit (rg_limit r) (rg_items r)"
    using header_law unfolding xs by (simp add: fit_batch_read_limit_def)
  from read_law [OF _ assms(4) this] at [of 0] assms(2) xs show ?thesis
    by (auto simp: length_greater_0_conv)
qed

lemma get_range_values:
  assumes "covers ls r" "ls \<noteq> []" "\<And>l. l \<in> set ls \<Longrightarrow> located g l \<and> clog_get c lg l g = (Inr (val l), g)"
    and "rg_offset r + rg_items r \<le> seg_end g (rg_offset r)"
  shows "clog_get_range c lg r g = (Inr (map val ls), g)"
proof -
  have "decode c (msgs g ! loc_offset l) = Inr (val l)" if "l \<in> set ls" for l
    by (rule get_decodes) (use assms(3) [OF that] in simp_all)
  then have "decode_all c (map (\<lambda>l. msgs g ! loc_offset l) ls) = Inr (map val ls)"
    by (induction ls) simp_all
  moreover have "cl_handle lg g" "\<not> cl_poisoned lg g"
    using get_decodes(2,3) assms(2,3) by (metis list.set_intros(1) neq_Nil_conv)+
  ultimately show ?thesis
    using range_messages [OF assms(1,2) _ assms(4)] assms(3)
    by (auto simp: clog_get_range_def need_log_def logA_def map_errA_def bindA_def liftR_def)
qed

end

text \<open>
  An instance of these laws, to run the storages on examples. A log as a list of messages: appending returns the position of the new message, reading
  returns the messages from a position on whose sizes, a header of \<open>hdr\<close> bytes each included,
  fit the byte limit.
\<close>

fun fitting :: "nat \<Rightarrow> nat \<Rightarrow> bytes list \<Rightarrow> bytes list" where
  "fitting hdr limit [] = []"
| "fitting hdr limit (bs # rest) =
     (if hdr + length bs \<le> limit then bs # fitting hdr (limit - (hdr + length bs)) rest else [])"

definition list_log :: "nat \<Rightarrow> bytes list raw_log" where
  "list_log hdr = \<lparr>cl_handle = (\<lambda>_. True), cl_poisoned = (\<lambda>_. False), append_msg = (\<lambda>bs g. (Inr (length g), g @ [bs])),
     read_log = (\<lambda>offset limit g. (Inr (fitting hdr limit (drop offset g)), g))\<rparr>"

text \<open>A value codec that always encodes and reads back what it wrote; the header of a message fits the slack of the limits.\<close>

locale total_codec =
  fixes c :: "'v codec" and enc :: "'v \<Rightarrow> bytes" and hdr :: nat
  assumes encodes: "encode c v = Inr (enc v)"
    and decodes: "decode c (enc v) = Inr v"
    and header_fits: "hdr \<le> 32"
begin

definition list_view :: "bytes list \<Rightarrow> location \<rightharpoonup> 'v" where
  "list_view g l =
     (if loc_offset l < length g \<and> loc_limit l = length (g ! loc_offset l)
      then (case decode c (g ! loc_offset l) of Inr v \<Rightarrow> Some v | Inl _ \<Rightarrow> None) else None)"

lemma list_append:
  "\<exists>l g'. clog_append c (list_log hdr) v g = (Inr l, g') \<and> list_view g' l = Some v \<and> list_view g \<subseteq>\<^sub>m list_view g'"
  by (auto simp: clog_append_def need_log_def list_log_def logA_def map_errA_def bindA_def ret_def
      encodes decodes list_view_def map_le_def dom_def nth_append split: sum.splits)

lemma list_get:
  assumes "list_view g l = Some v"
  shows "clog_get c (list_log hdr) l g = (Inr v, g)"
proof -
  have "drop (loc_offset l) g = g ! loc_offset l # drop (Suc (loc_offset l)) g"
    "decode c (g ! loc_offset l) = Inr v" "loc_limit l = length (g ! loc_offset l)"
    using assms by (auto simp: list_view_def Cons_nth_drop_Suc split: if_splits sum.splits)
  then show ?thesis
    using header_fits
    by (simp add: clog_get_def need_log_def list_log_def logA_def map_errA_def bindA_def ret_def fit_read_limit_def)
qed

end

sublocale total_codec \<subseteq> lg: clog_contract "clog_append c (list_log hdr)" "clog_get c (list_log hdr)" list_view
  by unfold_locales (use list_append list_get in auto)

text \<open>Untyped hashes are stored as they are.\<close>

definition bytes_codec :: "bytes codec" where
  "bytes_codec = \<lparr>encode = (\<lambda>bs. Inr bs), decode = (\<lambda>bs. Inr bs)\<rparr>"

lemma take_fitting:
  "sum_list (map (\<lambda>bs. hdr + length bs) (take k xs)) \<le> limit \<Longrightarrow> take k (fitting hdr limit xs) = take k xs"
  by (induction hdr limit xs arbitrary: k rule: fitting.induct) (auto simp: take_Cons split: nat.splits)

interpretation lls: log_laws "list_log 32" "\<lambda>g. g" "\<lambda>g _. length g" 32
  by unfold_locales (auto simp: list_log_def take_fitting)

interpretation raw: total_codec bytes_codec "\<lambda>bs. bs" 32
  by unfold_locales (simp_all add: bytes_codec_def)

text \<open>
  Property C25. Reading the ranges that a list of locations folds into gives exactly the values found at
  the locations one by one, in their order: no record is cut off by the byte limit of a batch read and
  none is read twice. This holds of every log with the stated laws, for locations as appending returns them, as
  long as no range reaches beyond the segment it starts in.
\<close>

theorem get_range_folded:
  assumes "log_laws lg msgs seg_end hdr"
    and "\<And>l. l \<in> set locs \<Longrightarrow> clog_get c lg l g = (Inr (val l), g)"
    and "\<And>l. l \<in> set locs \<Longrightarrow> loc_offset l < length (msgs g) \<and> loc_limit l = length (msgs g ! loc_offset l)"
    and "\<And>r. r \<in> set (fold_consecutive_locations locs) \<Longrightarrow> rg_offset r + rg_items r \<le> seg_end g (rg_offset r)"
  shows "\<exists>vss. map (\<lambda>r. clog_get_range c lg r g) (fold_consecutive_locations locs) =
      map (\<lambda>vs. (Inr vs, g)) vss \<and> concat vss = map val locs"
proof -
  obtain groups where gr: "concat groups = locs"
    "list_all2 (\<lambda>ls r. covers ls r \<and> ls \<noteq> []) groups (fold_consecutive_locations locs)"
    using fold_consecutive_groups by blast
  have "clog_get_range c lg r g = (Inr (map val ls), g)"
    if "covers ls r \<and> ls \<noteq> []" "ls \<in> set groups" "r \<in> set (fold_consecutive_locations locs)" for ls r
  proof -
    have "set ls \<subseteq> set locs"
      using that(2) gr(1) by auto
    then show ?thesis
      using that assms(2-4) by (intro log_laws.get_range_values [OF assms(1)]) (auto simp: log_laws.located_def [OF assms(1)])
  qed
  then have "map (\<lambda>r. clog_get_range c lg r g) (fold_consecutive_locations locs) = map (\<lambda>vs. (Inr vs, g)) (map (map val) groups)"
    using gr(2) by (intro nth_equalityI) (auto simp: list_all2_conv_all_nth)
  with gr(1) show ?thesis
    by (intro exI [of _ "map (map val) groups"]) (auto simp: map_concat)
qed

theorem get_range_folded_witness:
  "\<exists>vss. map (\<lambda>r. clog_get_range bytes_codec (list_log 32) r [[1], [2], [3, 4]])
       (fold_consecutive_locations [\<lparr>loc_offset = 1, loc_limit = 1\<rparr>, \<lparr>loc_offset = 2, loc_limit = 2\<rparr>, \<lparr>loc_offset = 0, loc_limit = 1\<rparr>]) =
     map (\<lambda>vs. (Inr vs, [[1], [2], [3, 4]])) vss \<and> concat vss = [[2], [3, 4], [1]]"
proof -
  have m: "map (\<lambda>l. [[1], [2], [3, 4]] ! loc_offset l) [\<lparr>loc_offset = 1, loc_limit = 1\<rparr>, \<lparr>loc_offset = 2, loc_limit = 2\<rparr>,
      \<lparr>loc_offset = 0, loc_limit = 1\<rparr>] = [[2], [3, 4], [1 :: byte]]"
    by simp
  show ?thesis
    unfolding m [symmetric]
    by (rule get_range_folded [OF lls.log_laws_axioms])
      (auto simp: clog_get_def need_log_def list_log_def logA_def map_errA_def bindA_def ret_def liftR_def
        fit_read_limit_def bytes_codec_def fold_consecutive_locations_def is_consecutive_def)
qed

end
