(* ===== verification/Serial.thy ===== *)
theory Serial
  imports Persistent
begin

text \<open>
  Prefix codes. The storages serialize their values with third-party serializers, of which
  they need that decoding returns the encoded value. Here are codes with that property for
  numbers, lists, options and pairs, from which instances of the serializers are put together.
\<close>

type_synonym 'a getter = "bytes \<Rightarrow> ('a \<times> bytes) option"

locale prefix_code =
  fixes put :: "'a \<Rightarrow> bytes" and get :: "'a getter"
  assumes get_put: "get (put x @ rest) = Some (x, rest)"
begin

lemma get_put_Nil: "get (put x) = Some (x, [])"
  using get_put [of x "[]"] by simp

lemma put_inj: "put x = put y \<Longrightarrow> x = y"
  by (metis get_put_Nil option.inject prod.inject)

end

section \<open>Bytes, words and numbers\<close>

definition put_byte :: "byte \<Rightarrow> bytes" where
  "put_byte b = [b]"

fun get_byte :: "byte getter" where
  "get_byte [] = None"
| "get_byte (b # bs) = Some (b, bs)"

interpretation byte_code: prefix_code put_byte get_byte
  by unfold_locales (simp add: put_byte_def)

definition put_word :: "'w :: len word \<Rightarrow> bytes" where
  "put_word w = to_be_bytes LENGTH('w) (unat w)"

definition get_word :: "'w :: len word getter" where
  "get_word bs =
     (if LENGTH('w) \<le> length bs
      then Some (word_of_nat (from_be_bytes (take LENGTH('w) bs)), drop LENGTH('w) bs) else None)"

interpretation word_code: prefix_code put_word "get_word :: 'w :: len word getter"
proof unfold_locales
  fix w :: "'w word" and rest
  have "unat w < 2 ^ LENGTH('w)" "(2 :: nat) ^ LENGTH('w) \<le> 256 ^ LENGTH('w)"
    using unsigned_less [of w, where ?'a = nat] by (simp_all add: power_mono)
  then have "unat w < 256 ^ LENGTH('w)"
    by linarith
  then show "get_word (put_word w @ rest) = Some (w, rest)"
    by (simp add: get_word_def put_word_def from_to_be_bytes)
qed

fun put_nat :: "nat \<Rightarrow> bytes" where
  "put_nat 0 = [0]"
| "put_nat (Suc n) = 1 # put_nat n"

fun get_nat :: "nat getter" where
  "get_nat [] = None"
| "get_nat (b # bs) = (if b = 0 then Some (0, bs) else map_option (apfst Suc) (get_nat bs))"

lemma get_put_nat: "get_nat (put_nat n @ rest) = Some (n, rest)"
  by (induction n) simp_all

interpretation nat_code: prefix_code put_nat get_nat
  by unfold_locales (rule get_put_nat)

section \<open>Pairs, options and lists\<close>

definition put_pair :: "('a \<Rightarrow> bytes) \<Rightarrow> ('b \<Rightarrow> bytes) \<Rightarrow> 'a \<times> 'b \<Rightarrow> bytes" where
  "put_pair pa pb p = pa (fst p) @ pb (snd p)"

definition get_pair :: "'a getter \<Rightarrow> 'b getter \<Rightarrow> ('a \<times> 'b) getter" where
  "get_pair ga gb bs =
     (case ga bs of
        None \<Rightarrow> None
      | Some (a, bs') \<Rightarrow> map_option (apfst (Pair a)) (gb bs'))"

lemma pair_code:
  assumes "prefix_code pa ga" "prefix_code pb gb"
  shows "prefix_code (put_pair pa pb) (get_pair ga gb)"
  using assms by (simp add: prefix_code_def put_pair_def get_pair_def)

definition put_option :: "('a \<Rightarrow> bytes) \<Rightarrow> 'a option \<Rightarrow> bytes" where
  "put_option p v = (case v of None \<Rightarrow> [0] | Some a \<Rightarrow> 1 # p a)"

definition get_option :: "'a getter \<Rightarrow> 'a option getter" where
  "get_option g bs =
     (case bs of
        [] \<Rightarrow> None
      | b # bs' \<Rightarrow> if b = 0 then Some (None, bs') else map_option (apfst Some) (g bs'))"

lemma option_code:
  assumes "prefix_code p g"
  shows "prefix_code (put_option p) (get_option g)"
  using assms by (auto simp: prefix_code_def put_option_def get_option_def split: option.splits)

definition put_list :: "('a \<Rightarrow> bytes) \<Rightarrow> 'a list \<Rightarrow> bytes" where
  "put_list p xs = put_nat (length xs) @ concat (map p xs)"

fun get_items :: "'a getter \<Rightarrow> nat \<Rightarrow> 'a list getter" where
  "get_items g 0 bs = Some ([], bs)"
| "get_items g (Suc n) bs =
     (case g bs of None \<Rightarrow> None | Some (a, bs') \<Rightarrow> map_option (apfst (Cons a)) (get_items g n bs'))"

definition get_list :: "'a getter \<Rightarrow> 'a list getter" where
  "get_list g bs = (case get_nat bs of None \<Rightarrow> None | Some (n, bs') \<Rightarrow> get_items g n bs')"

lemma list_code:
  assumes "prefix_code p g"
  shows "prefix_code (put_list p) (get_list g)"
proof -
  have "get_items g (length xs) (concat (map p xs) @ rest) = Some (xs, rest)" for xs rest
    by (induction xs) (simp_all add: prefix_code.get_put [OF assms])
  then show ?thesis
    by (simp add: prefix_code_def put_list_def get_list_def get_put_nat)
qed

text \<open>Values of other types through a bijection.\<close>

definition get_via :: "('a \<Rightarrow> 'b) \<Rightarrow> 'a getter \<Rightarrow> 'b getter" where
  "get_via f g bs = map_option (apfst f) (g bs)"

lemma via_code:
  assumes "prefix_code p g" "\<And>b. f (h b) = b"
  shows "prefix_code (\<lambda>b. p (h b)) (get_via f g)"
  using assms by (simp add: prefix_code_def get_via_def)

section \<open>Codecs\<close>

text \<open>The codec of a schema that a prefix code gives: all of the input has to be used.\<close>

definition code_codec :: "('a \<Rightarrow> bytes) \<Rightarrow> 'a getter \<Rightarrow> 'a codec" where
  "code_codec p g = \<lparr>encode = (\<lambda>v. Inr (p v)),
     decode = (\<lambda>bs. case g bs of Some (v, []) \<Rightarrow> Inr v | _ \<Rightarrow> Inl (Err DecodeError))\<rparr>"

lemma code_codec_laws:
  assumes "prefix_code p g"
  shows "encode (code_codec p g) v = Inr (p v)" "decode (code_codec p g) (p v) = Inr v"
  by (simp_all add: code_codec_def prefix_code.get_put_Nil [OF assms])

definition put_bytes :: "bytes \<Rightarrow> bytes" where
  "put_bytes = put_list put_byte"

definition get_bytes :: "bytes getter" where
  "get_bytes = get_list get_byte"

interpretation bytes_code: prefix_code put_bytes get_bytes
  unfolding put_bytes_def get_bytes_def by (rule list_code) unfold_locales

lemma of_char_word: "char_of (unat (of_char ch :: byte)) = ch"
proof -
  have "unat (word_of_nat (of_char ch) :: byte) = of_char ch mod 256"
    by (simp add: unat_of_nat)
  moreover have "(of_char ch :: byte) = word_of_nat (of_char ch)"
    by (rule of_nat_of_char [symmetric])
  ultimately show ?thesis
    by simp
qed

definition put_string :: "string \<Rightarrow> bytes" where
  "put_string s = put_bytes (map of_char s)"

definition get_string :: "string getter" where
  "get_string = get_via (map (\<lambda>b. char_of (unat b))) get_bytes"

interpretation string_code: prefix_code put_string get_string
  unfolding put_string_def get_string_def
  by (rule via_code [OF bytes_code.prefix_code_axioms]) (simp add: comp_def of_char_word)

end
