(* ===== verification/BlockStorage.thy ===== *)
theory BlockStorage
  imports CommitLog Serial BlockHeader BlockMetaStorage "HOL-Library.Signed_Division"
begin

text \<open>
  The block storage (\<^verbatim>\<open>storage/src/block_storage.rs\<close>): headers and their JSON data are
  appended to a commit log; three indexes map block hashes, levels and context hashes to
  locations in the log. The column families of the indexes and the log do not share keys and
  are separate components of the state.
\<close>

section \<open>State and operations it calls\<close>

record block_json_data =
  block_header_proto_json :: string
  block_header_proto_metadata_bytes :: bytes
  operations_proto_metadata_bytes :: "bytes list list"

datatype block_storage_column =
    ColumnHeader block_header_with_hash
  | ColumnJsonData block_json_data

record columns_location =
  loc_header :: location
  loc_json :: "location option"

record ('p, 'l, 'c, 'g) block_stores =
  bs_primary :: 'p
  bs_level :: 'l
  bs_context :: 'c
  bs_clog :: 'g

datatype direction = Forward | Reverse

text \<open>The iterator over levels yields results that may fail to decode.\<close>

record ('p, 'l, 'c, 'g) block_backend =
  primary_kv :: "('p, block_hash, columns_location) kv_store"
  level_kv :: "('l, i32, columns_location) kv_store"
  level_iterator :: "i32 \<Rightarrow> direction \<Rightarrow> ('l, ((schema_error + i32) \<times> (schema_error + columns_location)) list) db_act"
  context_kv :: "('c, context_hash, columns_location) kv_store"
  block_append :: "block_storage_column \<Rightarrow> ('g, location) log_act"
  block_read :: "location \<Rightarrow> ('g, block_storage_column) log_act"

type_synonym ('p, 'l, 'c, 'g, 'a) block_act = "(('p, 'l, 'c, 'g) block_stores, 'a) storage_act"

definition on_primary :: "('p, 'a) storage_act \<Rightarrow> ('p, 'l, 'c, 'g, 'a) block_act" where
  "on_primary m s = (case m (bs_primary s) of (r, p) \<Rightarrow> (r, s\<lparr>bs_primary := p\<rparr>))"

definition on_level :: "('l, 'a) storage_act \<Rightarrow> ('p, 'l, 'c, 'g, 'a) block_act" where
  "on_level m s = (case m (bs_level s) of (r, l) \<Rightarrow> (r, s\<lparr>bs_level := l\<rparr>))"

definition on_context :: "('c, 'a) storage_act \<Rightarrow> ('p, 'l, 'c, 'g, 'a) block_act" where
  "on_context m s = (case m (bs_context s) of (r, c) \<Rightarrow> (r, s\<lparr>bs_context := c\<rparr>))"

definition on_clog :: "('g, 'a) storage_act \<Rightarrow> ('p, 'l, 'c, 'g, 'a) block_act" where
  "on_clog m s = (case m (bs_clog s) of (r, g) \<Rightarrow> (r, s\<lparr>bs_clog := g\<rparr>))"

text \<open>
  \<^verbatim>\<open>a.and(b)\<close>: the argument is evaluated before the call, so the second write is made even
  when the first one returned an error.
\<close>

definition and_both :: "('s, unit) storage_act \<Rightarrow> ('s, 'a) storage_act \<Rightarrow> ('s, 'a) storage_act" where
  "and_both m n s =
     (case m s of
        (Inl Panic, s') \<Rightarrow> (Inl Panic, s')
      | (r, s') \<Rightarrow> (case n s' of
          (Inl Panic, s'') \<Rightarrow> (Inl Panic, s'')
        | (r', s'') \<Rightarrow> (case r of Inl e \<Rightarrow> Inl e | Inr _ \<Rightarrow> r', s'')))"

section \<open>Operations\<close>

definition primary_put :: "('p, 'l, 'c, 'g) block_backend \<Rightarrow> block_hash \<Rightarrow> columns_location \<Rightarrow> ('p, 'l, 'c, 'g, unit) block_act" where
  "primary_put B h loc = on_primary (storageA (kv_put (primary_kv B) h loc))"

definition primary_get :: "('p, 'l, 'c, 'g) block_backend \<Rightarrow> block_hash \<Rightarrow> ('p, 'l, 'c, 'g, columns_location option) block_act" where
  "primary_get B h = on_primary (storageA (kv_get (primary_kv B) h))"

definition level_put :: "('p, 'l, 'c, 'g) block_backend \<Rightarrow> i32 \<Rightarrow> columns_location \<Rightarrow> ('p, 'l, 'c, 'g, unit) block_act" where
  "level_put B lvl loc = on_level (storageA (kv_put (level_kv B) lvl loc))"

definition bs_put_block_header :: "('p, 'l, 'c, 'g) block_backend \<Rightarrow> block_header_with_hash \<Rightarrow> ('p, 'l, 'c, 'g, bool) block_act" where
  "bs_put_block_header B bh =
     bindA (on_primary (storageA (kv_contains (primary_kv B) (bh_hash bh)))) (\<lambda>known.
     if known then ret False
     else bindA (on_clog (block_append B (ColumnHeader bh))) (\<lambda>block_header_location.
       let loc = \<lparr>loc_header = block_header_location, loc_json = None\<rparr> in
       and_both (and_both (primary_put B (bh_hash bh) loc) (level_put B (h_level (bh_header bh)) loc)) (ret True)))"

definition get_block_header_by_location :: "('p, 'l, 'c, 'g) block_backend \<Rightarrow> columns_location \<Rightarrow>
    ('p, 'l, 'c, 'g, block_header_with_hash) block_act" where
  "get_block_header_by_location B loc =
     bindA (on_clog (block_read B (loc_header loc))) (\<lambda>col.
     case col of ColumnHeader bh \<Rightarrow> ret bh | _ \<Rightarrow> fail (Err InvalidColumn))"

definition get_block_json_data_by_location :: "('p, 'l, 'c, 'g) block_backend \<Rightarrow> columns_location \<Rightarrow>
    ('p, 'l, 'c, 'g, block_json_data option) block_act" where
  "get_block_json_data_by_location B loc =
     (case loc_json loc of
        None \<Rightarrow> ret None
      | Some l \<Rightarrow> bindA (on_clog (block_read B l)) (\<lambda>col.
          case col of ColumnJsonData json \<Rightarrow> ret (Some json) | _ \<Rightarrow> fail (Err InvalidColumn)))"

definition put_block_json_data :: "('p, 'l, 'c, 'g) block_backend \<Rightarrow> block_hash \<Rightarrow> block_json_data \<Rightarrow>
    ('p, 'l, 'c, 'g, unit) block_act" where
  "put_block_json_data B h json =
     bindA (on_clog (block_append B (ColumnJsonData json))) (\<lambda>json_location.
     bindA (primary_get B h) (\<lambda>r.
     case r of
       None \<Rightarrow> fail (Err MissingKey)
     | Some loc0 \<Rightarrow>
         let loc = loc0\<lparr>loc_json := Some json_location\<rparr> in
         bindA (get_block_header_by_location B loc) (\<lambda>bh.
         and_both (primary_put B (bh_hash bh) loc) (level_put B (h_level (bh_header bh)) loc))))"

definition assign_to_context :: "('p, 'l, 'c, 'g) block_backend \<Rightarrow> block_hash \<Rightarrow> context_hash \<Rightarrow> ('p, 'l, 'c, 'g, unit) block_act" where
  "assign_to_context B h ctxt =
     bindA (primary_get B h) (\<lambda>r.
     case r of
       Some loc \<Rightarrow> on_context (storageA (kv_put (context_kv B) ctxt loc))
     | None \<Rightarrow> fail (Err MissingKey))"

definition bs_get :: "('p, 'l, 'c, 'g) block_backend \<Rightarrow> block_hash \<Rightarrow> ('p, 'l, 'c, 'g, block_header_with_hash option) block_act" where
  "bs_get B h =
     bindA (primary_get B h) (\<lambda>r.
     case r of
       None \<Rightarrow> ret None
     | Some loc \<Rightarrow> bindA (get_block_header_by_location B loc) (\<lambda>bh. ret (Some bh)))"

definition get_with_json_data :: "('p, 'l, 'c, 'g) block_backend \<Rightarrow> block_hash \<Rightarrow>
    ('p, 'l, 'c, 'g, (block_header_with_hash \<times> block_json_data) option) block_act" where
  "get_with_json_data B h =
     bindA (primary_get B h) (\<lambda>r.
     case r of
       None \<Rightarrow> ret None
     | Some loc \<Rightarrow> bindA (get_block_json_data_by_location B loc) (\<lambda>j.
         case j of
           None \<Rightarrow> ret None
         | Some json \<Rightarrow> bindA (get_block_header_by_location B loc) (\<lambda>bh. ret (Some (bh, json)))))"

definition get_json_data :: "('p, 'l, 'c, 'g) block_backend \<Rightarrow> block_hash \<Rightarrow> ('p, 'l, 'c, 'g, block_json_data option) block_act" where
  "get_json_data B h =
     bindA (primary_get B h) (\<lambda>r.
     case r of Some loc \<Rightarrow> get_block_json_data_by_location B loc | None \<Rightarrow> ret None)"

definition get_by_context_hash :: "('p, 'l, 'c, 'g) block_backend \<Rightarrow> context_hash \<Rightarrow>
    ('p, 'l, 'c, 'g, block_header_with_hash option) block_act" where
  "get_by_context_hash B ctxt =
     bindA (on_context (storageA (kv_get (context_kv B) ctxt))) (\<lambda>r.
     case r of
       None \<Rightarrow> ret None
     | Some loc \<Rightarrow> bindA (get_block_header_by_location B loc) (\<lambda>bh. ret (Some bh)))"

definition contains_context_hash :: "('p, 'l, 'c, 'g) block_backend \<Rightarrow> context_hash \<Rightarrow> ('p, 'l, 'c, 'g, bool) block_act" where
  "contains_context_hash B ctxt = on_context (storageA (kv_contains (context_kv B) ctxt))"

section \<open>Ranges of blocks\<close>

type_synonym level_items = "((schema_error + i32) \<times> (schema_error + columns_location)) list"

fun collect_values :: "level_items \<Rightarrow> storage_error failure + columns_location list" where
  "collect_values [] = Inr []"
| "collect_values ((_, Inl e) # rest) = Inl (Err (DBErr (SchemaErr e)))"
| "collect_values ((_, Inr v) # rest) = and_then (collect_values rest) (\<lambda>vs. Inr (v # vs))"

definition get_blocks_directed :: "('p, 'l, 'c, 'g) block_backend \<Rightarrow> i32 \<Rightarrow> nat \<Rightarrow> direction \<Rightarrow>
    ('p, 'l, 'c, 'g, columns_location list) block_act" where
  "get_blocks_directed B from_level limit dir =
     bindA (on_level (storageA (level_iterator B from_level dir))) (\<lambda>items.
     liftR (collect_values (take limit items)))"

definition get_blocks :: "('p, 'l, 'c, 'g) block_backend \<Rightarrow> i32 \<Rightarrow> nat \<Rightarrow> ('p, 'l, 'c, 'g, columns_location list) block_act" where
  "get_blocks B from_level limit =
     bindA (on_level (storageA (level_iterator B from_level Reverse))) (\<lambda>items.
     liftR (collect_values (take limit items)))"

text \<open>The filter panics on a level that does not decode, on a zero step and on the overflowing remainder.\<close>

fun every_nth_level :: "i32 \<Rightarrow> nat \<Rightarrow> level_items \<Rightarrow> storage_error failure + columns_location list" where
  "every_nth_level n 0 items = Inr []"
| "every_nth_level n (Suc limit) [] = Inr []"
| "every_nth_level n (Suc limit) ((Inl _, _) # rest) = Inl Panic"
| "every_nth_level n (Suc limit) ((Inr lvl, v) # rest) =
     (if n = 0 \<or> (n = - 1 \<and> sint lvl = - (2 ^ 31)) then Inl Panic
      else if sint lvl smod sint n = 0
      then (case v of
              Inl e \<Rightarrow> Inl (Err (DBErr (SchemaErr e)))
            | Inr loc \<Rightarrow> and_then (every_nth_level n limit rest) (\<lambda>vs. Inr (loc # vs)))
      else every_nth_level n (Suc limit) rest)"

definition get_blocks_by_nth_level :: "('p, 'l, 'c, 'g) block_backend \<Rightarrow> i32 \<Rightarrow> i32 \<Rightarrow> nat \<Rightarrow>
    ('p, 'l, 'c, 'g, columns_location list) block_act" where
  "get_blocks_by_nth_level B every_nth from_level limit =
     bindA (on_level (storageA (level_iterator B from_level Reverse))) (\<lambda>items.
     liftR (every_nth_level every_nth limit items))"

fun headers_of :: "('p, 'l, 'c, 'g) block_backend \<Rightarrow> columns_location list \<Rightarrow> ('p, 'l, 'c, 'g, block_header_with_hash list) block_act" where
  "headers_of B [] = ret []"
| "headers_of B (loc # locs) =
     bindA (get_block_header_by_location B loc) (\<lambda>bh.
     bindA (headers_of B locs) (\<lambda>bhs. ret (bh # bhs)))"

text \<open>Locations without JSON data are left out.\<close>

fun get_blocks_with_json_data_by_location :: "('p, 'l, 'c, 'g) block_backend \<Rightarrow> columns_location list \<Rightarrow>
    ('p, 'l, 'c, 'g, (block_header_with_hash \<times> block_json_data) list) block_act" where
  "get_blocks_with_json_data_by_location B [] = ret []"
| "get_blocks_with_json_data_by_location B (loc # locs) =
     bindA (get_block_json_data_by_location B loc) (\<lambda>j.
     case j of
       None \<Rightarrow> get_blocks_with_json_data_by_location B locs
     | Some json \<Rightarrow>
         bindA (get_block_header_by_location B loc) (\<lambda>bh.
         bindA (get_blocks_with_json_data_by_location B locs) (\<lambda>rest. ret ((bh, json) # rest))))"

definition locations_from :: "('p, 'l, 'c, 'g) block_backend \<Rightarrow> block_hash \<Rightarrow>
    (i32 \<Rightarrow> ('p, 'l, 'c, 'g, columns_location list) block_act) \<Rightarrow> ('p, 'l, 'c, 'g, columns_location list) block_act" where
  "locations_from B h f =
     bindA (bs_get B h) (\<lambda>r. case r of None \<Rightarrow> ret [] | Some block \<Rightarrow> f (h_level (bh_header block)))"

definition get_multiple_with_json_data :: "('p, 'l, 'c, 'g) block_backend \<Rightarrow> block_hash \<Rightarrow> nat \<Rightarrow>
    ('p, 'l, 'c, 'g, (block_header_with_hash \<times> block_json_data) list) block_act" where
  "get_multiple_with_json_data B h limit =
     bindA (locations_from B h (\<lambda>lvl. get_blocks B lvl limit)) (get_blocks_with_json_data_by_location B)"

definition get_every_nth_with_json_data :: "('p, 'l, 'c, 'g) block_backend \<Rightarrow> i32 \<Rightarrow> block_hash \<Rightarrow> nat \<Rightarrow>
    ('p, 'l, 'c, 'g, (block_header_with_hash \<times> block_json_data) list) block_act" where
  "get_every_nth_with_json_data B n h limit =
     bindA (locations_from B h (\<lambda>lvl. get_blocks_by_nth_level B n lvl limit)) (get_blocks_with_json_data_by_location B)"

definition get_every_nth :: "('p, 'l, 'c, 'g) block_backend \<Rightarrow> i32 \<Rightarrow> block_hash \<Rightarrow> nat \<Rightarrow>
    ('p, 'l, 'c, 'g, block_header_with_hash list) block_act" where
  "get_every_nth B n h limit = bindA (locations_from B h (\<lambda>lvl. get_blocks_by_nth_level B n lvl limit)) (headers_of B)"

definition get_multiple_without_json :: "('p, 'l, 'c, 'g) block_backend \<Rightarrow> block_hash \<Rightarrow> nat \<Rightarrow>
    ('p, 'l, 'c, 'g, block_header_with_hash list) block_act" where
  "get_multiple_without_json B h limit =
     bindA (locations_from B h (\<lambda>lvl. get_blocks_directed B lvl limit Forward)) (headers_of B)"

section \<open>What the storage promises\<close>

text \<open>A location read back: the header and the JSON data it points to.\<close>

definition columns_at :: "(location \<rightharpoonup> block_storage_column) \<Rightarrow> columns_location \<Rightarrow>
    (block_header_with_hash \<times> block_json_data option) option" where
  "columns_at log loc =
     (case log (loc_header loc) of
        Some (ColumnHeader bh) \<Rightarrow>
          (case loc_json loc of
             None \<Rightarrow> Some (bh, None)
           | Some l \<Rightarrow> (case log l of Some (ColumnJsonData json) \<Rightarrow> Some (bh, Some json) | _ \<Rightarrow> None))
      | _ \<Rightarrow> None)"

lemma columns_at_mono:
  "columns_at log loc = Some c \<Longrightarrow> log \<subseteq>\<^sub>m log' \<Longrightarrow> columns_at log' loc = Some c"
  by (auto simp: columns_at_def map_le_def dom_def split: option.splits block_storage_column.splits)

type_synonym block_map = "block_hash \<rightharpoonup> block_header_with_hash \<times> block_json_data option"

text \<open>
  The specification: blocks by hash; the first header stored for a hash stays, JSON data
  are attached to a stored block.
\<close>

definition spec_put_header :: "block_header_with_hash \<Rightarrow> block_map \<Rightarrow> block_map" where
  "spec_put_header bh m = (if m (bh_hash bh) = None then m(bh_hash bh \<mapsto> (bh, None)) else m)"

definition spec_put_json :: "block_hash \<Rightarrow> block_json_data \<Rightarrow> block_map \<Rightarrow> block_map" where
  "spec_put_json h json m = (case m h of None \<Rightarrow> m | Some (bh, _) \<Rightarrow> m(h \<mapsto> (bh, Some json)))"

text \<open>What the stores hold: the map each index stands for, its invariant and the readable records of the log.\<close>

record ('p, 'l, 'c, 'g) block_views =
  pview :: "'p \<Rightarrow> block_hash \<rightharpoonup> columns_location"
  pinv :: "'p \<Rightarrow> bool"
  lvview :: "'l \<Rightarrow> i32 \<rightharpoonup> columns_location"
  lvinv :: "'l \<Rightarrow> bool"
  cxview :: "'c \<Rightarrow> context_hash \<rightharpoonup> columns_location"
  cxinv :: "'c \<Rightarrow> bool"
  gview :: "'g \<Rightarrow> location \<rightharpoonup> block_storage_column"

definition blocks :: "('p, 'l, 'c, 'g) block_views \<Rightarrow> ('p, 'l, 'c, 'g) block_stores \<Rightarrow> block_map" where
  "blocks V s h = Option.bind (pview V (bs_primary s) h) (columns_at (gview V (bs_clog s)))"

definition by_level :: "('p, 'l, 'c, 'g) block_views \<Rightarrow> ('p, 'l, 'c, 'g) block_stores \<Rightarrow> i32 \<rightharpoonup> block_header_with_hash \<times> block_json_data option" where
  "by_level V s n = Option.bind (lvview V (bs_level s) n) (columns_at (gview V (bs_clog s)))"

definition by_context :: "('p, 'l, 'c, 'g) block_views \<Rightarrow> ('p, 'l, 'c, 'g) block_stores \<Rightarrow> context_hash \<rightharpoonup> block_header_with_hash" where
  "by_context V s c = map_option fst (Option.bind (cxview V (bs_context s) c) (columns_at (gview V (bs_clog s))))"

text \<open>Every location in an index can be read; a block is filed under its own hash and level.\<close>

definition stores_ok :: "('p, 'l, 'c, 'g) block_views \<Rightarrow> ('p, 'l, 'c, 'g) block_stores \<Rightarrow> bool" where
  "stores_ok V s \<longleftrightarrow> pinv V (bs_primary s) \<and> lvinv V (bs_level s) \<and> cxinv V (bs_context s) \<and>
     (\<forall>h loc. pview V (bs_primary s) h = Some loc \<longrightarrow>
        (\<exists>bh j. columns_at (gview V (bs_clog s)) loc = Some (bh, j) \<and> bh_hash bh = h)) \<and>
     (\<forall>n loc. lvview V (bs_level s) n = Some loc \<longrightarrow>
        (\<exists>bh j. columns_at (gview V (bs_clog s)) loc = Some (bh, j) \<and> h_level (bh_header bh) = n)) \<and>
     (\<forall>c loc. cxview V (bs_context s) c = Some loc \<longrightarrow> columns_at (gview V (bs_clog s)) loc \<noteq> None)"

lemma stores_okD:
  assumes "stores_ok V s"
  shows "pinv V (bs_primary s)" "lvinv V (bs_level s)" "cxinv V (bs_context s)"
    "pview V (bs_primary s) h = Some loc \<Longrightarrow> \<exists>bh j. columns_at (gview V (bs_clog s)) loc = Some (bh, j) \<and> bh_hash bh = h"
    "lvview V (bs_level s) n = Some loc \<Longrightarrow> \<exists>bh j. columns_at (gview V (bs_clog s)) loc = Some (bh, j) \<and> h_level (bh_header bh) = n"
    "cxview V (bs_context s) c = Some loc \<Longrightarrow> \<exists>bh j. columns_at (gview V (bs_clog s)) loc = Some (bh, j)"
  using assms unfolding stores_ok_def by auto

locale block_storage_laws =
  pr: kv_contract "primary_kv B" "pview V" "pinv V" "\<lambda>h. length h = LEN_BLOCK_HASH" "\<lambda>_. True" +
  lv: kv_contract "level_kv B" "lvview V" "lvinv V" "\<lambda>_. True" "\<lambda>_. True" +
  cx: kv_contract "context_kv B" "cxview V" "cxinv V" "\<lambda>h. length h = 32" "\<lambda>_. True" +
  lg: clog_contract "block_append B" "block_read B" "gview V"
  for B :: "('p, 'l, 'c, 'g) block_backend" and V :: "('p, 'l, 'c, 'g) block_views"
begin

text \<open>Appending to the log changes nothing that is already stored.\<close>

lemma append_frame:
  assumes "stores_ok V s" "gview V (bs_clog s) \<subseteq>\<^sub>m gview V g"
  shows "stores_ok V (s\<lparr>bs_clog := g\<rparr>)" "blocks V (s\<lparr>bs_clog := g\<rparr>) = blocks V s"
    "by_level V (s\<lparr>bs_clog := g\<rparr>) = by_level V s" "by_context V (s\<lparr>bs_clog := g\<rparr>) = by_context V s"
proof -
  note ok = stores_okD [OF assms(1)] and mono = columns_at_mono [OF _ assms(2)]
  show "stores_ok V (s\<lparr>bs_clog := g\<rparr>)"
    unfolding stores_ok_def using ok(1-3) by (auto dest!: ok(4-6) dest: mono)
  show "blocks V (s\<lparr>bs_clog := g\<rparr>) = blocks V s"
    by (rule ext) (auto simp: blocks_def bind_eq_Some_conv split: bind_split dest!: ok(4) dest: mono)
  show "by_level V (s\<lparr>bs_clog := g\<rparr>) = by_level V s"
    by (rule ext) (auto simp: by_level_def split: bind_split dest!: ok(5) dest: mono)
  show "by_context V (s\<lparr>bs_clog := g\<rparr>) = by_context V s"
    by (rule ext) (auto simp: by_context_def split: bind_split dest!: ok(6) intro!: exI dest: mono)
qed

lemma blocks_None_iff: "stores_ok V s \<Longrightarrow> blocks V s h = None \<longleftrightarrow> pview V (bs_primary s) h = None"
  using stores_okD(4) [of V s h] by (cases "pview V (bs_primary s) h") (auto simp: blocks_def)

lemma blocks_hash: "stores_ok V s \<Longrightarrow> blocks V s h = Some (bh, j) \<Longrightarrow> bh_hash bh = h"
  by (auto simp: blocks_def bind_eq_Some_conv dest: stores_okD(4))

lemma put_both:
  assumes ok: "stores_ok V s" and c: "columns_at (gview V (bs_clog s)) loc = Some (bh, j)"
    and len: "length (bh_hash bh) = LEN_BLOCK_HASH"
  shows "\<exists>s'. and_both (primary_put B (bh_hash bh) loc) (level_put B (h_level (bh_header bh)) loc) s = (Inr (), s') \<and>
    stores_ok V s' \<and> blocks V s' = (blocks V s)(bh_hash bh \<mapsto> (bh, j)) \<and>
    by_level V s' = (by_level V s)(h_level (bh_header bh) \<mapsto> (bh, j)) \<and> by_context V s' = by_context V s"
proof -
  note d = stores_okD [OF ok]
  obtain p' where p: "kv_put (primary_kv B) (bh_hash bh) loc (bs_primary s) = (Inr (), p')" "pinv V p'"
    "pview V p' = (pview V (bs_primary s))(bh_hash bh \<mapsto> loc)"
    using pr.put_law [OF d(1) len TrueI] by blast
  obtain l' where l: "kv_put (level_kv B) (h_level (bh_header bh)) loc (bs_level s) = (Inr (), l')" "lvinv V l'"
    "lvview V l' = (lvview V (bs_level s))(h_level (bh_header bh) \<mapsto> loc)"
    using lv.put_law [OF d(2) TrueI TrueI] by blast
  define s' where "s' = s\<lparr>bs_primary := p', bs_level := l'\<rparr>"
  have "and_both (primary_put B (bh_hash bh) loc) (level_put B (h_level (bh_header bh)) loc) s = (Inr (), s')"
    by (simp add: and_both_def primary_put_def level_put_def on_primary_def on_level_def storageA_run p(1)
        storageA_run l(1) s'_def)
  moreover have "stores_ok V s'"
    using p(2,3) l(2,3) d(3) c by (auto simp: stores_ok_def s'_def dest: d(4) d(5) d(6))
  moreover have "blocks V s' = (blocks V s)(bh_hash bh \<mapsto> (bh, j))" "by_context V s' = by_context V s"
    "by_level V s' = (by_level V s)(h_level (bh_header bh) \<mapsto> (bh, j))"
    using p(3) l(3) c by (auto simp: blocks_def by_level_def by_context_def s'_def fun_eq_iff)
  ultimately show ?thesis
    by blast
qed

lemma primary_get_run:
  "stores_ok V s \<Longrightarrow> length h = LEN_BLOCK_HASH \<Longrightarrow> primary_get B h s = (Inr (pview V (bs_primary s) h), s)"
  by (simp add: primary_get_def on_primary_def storageA_run [OF pr.get_law] stores_okD)

lemma append_run:
  obtains l g where "on_clog (block_append B col) s = (Inr l, s\<lparr>bs_clog := g\<rparr>)" "gview V g l = Some col"
    "gview V (bs_clog s) \<subseteq>\<^sub>m gview V g"
  using lg.append_law [of col "bs_clog s"] by (auto simp: on_clog_def)

lemma header_run:
  "columns_at (gview V (bs_clog s)) loc = Some (bh, j) \<Longrightarrow> get_block_header_by_location B loc s = (Inr bh, s)"
  by (auto simp: columns_at_def get_block_header_by_location_def bindA_def on_clog_def ret_def
      dest!: lg.log_get_law split: option.splits block_storage_column.splits)

lemma json_run:
  "columns_at (gview V (bs_clog s)) loc = Some (bh, j) \<Longrightarrow> get_block_json_data_by_location B loc s = (Inr j, s)"
  by (auto simp: columns_at_def get_block_json_data_by_location_def bindA_def on_clog_def ret_def
      dest!: lg.log_get_law split: option.splits block_storage_column.splits)

lemma put_block_header_spec:
  assumes ok: "stores_ok V s" and len: "length (bh_hash bh) = LEN_BLOCK_HASH"
  shows "\<exists>s'. bs_put_block_header B bh s = (Inr (blocks V s (bh_hash bh) = None), s') \<and> stores_ok V s' \<and>
    blocks V s' = spec_put_header bh (blocks V s) \<and> by_context V s' = by_context V s \<and>
    by_level V s' = (if blocks V s (bh_hash bh) = None then (by_level V s)(h_level (bh_header bh) \<mapsto> (bh, None)) else by_level V s)"
proof -
  have known: "on_primary (storageA (kv_contains (primary_kv B) (bh_hash bh))) s =
      (Inr (pview V (bs_primary s) (bh_hash bh) \<noteq> None), s)"
    by (simp add: on_primary_def storageA_run [OF pr.contains_law] stores_okD [OF ok] len)
  show ?thesis
  proof (cases "pview V (bs_primary s) (bh_hash bh)")
    case None
    obtain l g where a: "on_clog (block_append B (ColumnHeader bh)) s = (Inr l, s\<lparr>bs_clog := g\<rparr>)"
      "gview V g l = Some (ColumnHeader bh)" "gview V (bs_clog s) \<subseteq>\<^sub>m gview V g"
      by (rule append_run)
    define loc where "loc = \<lparr>loc_header = l, loc_json = None\<rparr>"
    have c: "columns_at (gview V (bs_clog (s\<lparr>bs_clog := g\<rparr>))) loc = Some (bh, None)"
      using a(2) by (simp add: columns_at_def loc_def)
    note fr = append_frame [OF ok a(3)]
    from put_both [OF fr(1) c len] None show ?thesis
      by (auto simp: bs_put_block_header_def bindA_def known a(1) blocks_None_iff [OF ok] fr spec_put_header_def
          Let_def and_both_def ret_def simp flip: loc_def split: prod.splits sum.splits failure.splits)
  next
    case (Some loc)
    then show ?thesis
      using ok by (simp add: bs_put_block_header_def bindA_def known blocks_None_iff spec_put_header_def ret_def)
  qed
qed

lemma put_json_spec:
  assumes ok: "stores_ok V s" and len: "length h = LEN_BLOCK_HASH"
  shows "\<exists>s'. put_block_json_data B h json s =
      (if blocks V s h = None then Inl (Err MissingKey) else Inr (), s') \<and> stores_ok V s' \<and>
    blocks V s' = spec_put_json h json (blocks V s) \<and> by_context V s' = by_context V s"
proof -
  obtain l g where a: "on_clog (block_append B (ColumnJsonData json)) s = (Inr l, s\<lparr>bs_clog := g\<rparr>)"
    "gview V g l = Some (ColumnJsonData json)" "gview V (bs_clog s) \<subseteq>\<^sub>m gview V g"
    by (rule append_run)
  note fr = append_frame [OF ok a(3)]
  note get = primary_get_run [OF fr(1) len]
  show ?thesis
  proof (cases "pview V (bs_primary s) h")
    case None
    then show ?thesis
      by (auto simp: put_block_json_data_def bindA_def a(1) get blocks_None_iff [OF ok] fr spec_put_json_def fail_def
          blocks_def)
  next
    case (Some loc0)
    define loc where "loc = loc0\<lparr>loc_json := Some l\<rparr>"
    from stores_okD(4) [OF ok Some] obtain bh j where
      c0: "columns_at (gview V (bs_clog s)) loc0 = Some (bh, j)" and h: "bh_hash bh = h"
      by blast
    have c: "columns_at (gview V (bs_clog (s\<lparr>bs_clog := g\<rparr>))) loc = Some (bh, Some json)"
      using columns_at_mono [OF c0 a(3)] a(2) by (auto simp: columns_at_def loc_def split: option.splits block_storage_column.splits)
    have b: "blocks V s h = Some (bh, j)"
      using Some c0 by (simp add: blocks_def)
    from put_both [OF fr(1) c] header_run [OF c] Some h len b show ?thesis
      by (auto simp: put_block_json_data_def bindA_def a(1) get fr spec_put_json_def simp flip: loc_def)
  qed
qed

lemma assign_spec:
  assumes ok: "stores_ok V s" and len: "length h = LEN_BLOCK_HASH" "length ctxt = 32"
  shows "\<exists>s'. assign_to_context B h ctxt s = (if blocks V s h = None then Inl (Err MissingKey) else Inr (), s') \<and>
    stores_ok V s' \<and> blocks V s' = blocks V s \<and>
    by_context V s' = (case blocks V s h of None \<Rightarrow> by_context V s | Some (bh, _) \<Rightarrow> (by_context V s)(ctxt \<mapsto> bh))"
proof (cases "pview V (bs_primary s) h")
  case None
  then show ?thesis
    using ok by (auto simp: assign_to_context_def bindA_def primary_get_run [OF ok len(1)] blocks_None_iff fail_def
        blocks_def)
next
  case (Some loc)
  note d = stores_okD [OF ok]
  from d(4) [OF Some] obtain bh j where c: "columns_at (gview V (bs_clog s)) loc = Some (bh, j)"
    by blast
  obtain c' where p: "kv_put (context_kv B) ctxt loc (bs_context s) = (Inr (), c')" "cxinv V c'"
    "cxview V c' = (cxview V (bs_context s))(ctxt \<mapsto> loc)"
    using cx.put_law [OF d(3) len(2) TrueI] by blast
  define s' where "s' = s\<lparr>bs_context := c'\<rparr>"
  have "assign_to_context B h ctxt s = (Inr (), s')" "blocks V s h = Some (bh, j)"
    using Some c by (simp_all add: assign_to_context_def bindA_def primary_get_run [OF ok len(1)] on_context_def
        storageA_run p(1) s'_def blocks_def)
  moreover have "stores_ok V s'"
    using p(2,3) d(1,2) c by (auto simp: stores_ok_def s'_def dest: d(4) d(5) d(6))
  moreover have "blocks V s' = blocks V s" "by_context V s' = (by_context V s)(ctxt \<mapsto> bh)"
    using p(3) c by (auto simp: blocks_def by_context_def s'_def fun_eq_iff)
  ultimately show ?thesis
    by auto
qed

lemma readers_spec:
  assumes ok: "stores_ok V s" and len: "length h = LEN_BLOCK_HASH" "length ctxt = 32"
  shows "bs_get B h s = (Inr (map_option fst (blocks V s h)), s)"
    "get_json_data B h s = (Inr (Option.bind (blocks V s h) snd), s)"
    "get_with_json_data B h s = (Inr (case blocks V s h of Some (bh, Some json) \<Rightarrow> Some (bh, json) | _ \<Rightarrow> None), s)"
    "get_by_context_hash B ctxt s = (Inr (by_context V s ctxt), s)"
    "contains_context_hash B ctxt s = (Inr (by_context V s ctxt \<noteq> None), s)"
proof -
  note d = stores_okD [OF ok]
  have run: "primary_get B h s = (Inr (pview V (bs_primary s) h), s)"
    by (rule primary_get_run [OF ok len(1)])
  show "bs_get B h s = (Inr (map_option fst (blocks V s h)), s)"
    using d(4) [of h] by (cases "pview V (bs_primary s) h") (auto simp: bs_get_def bindA_def run ret_def blocks_def header_run)
  show "get_json_data B h s = (Inr (Option.bind (blocks V s h) snd), s)"
    using d(4) [of h] by (cases "pview V (bs_primary s) h") (auto simp: get_json_data_def bindA_def run ret_def blocks_def json_run)
  show "get_with_json_data B h s = (Inr (case blocks V s h of Some (bh, Some json) \<Rightarrow> Some (bh, json) | _ \<Rightarrow> None), s)"
    using d(4) [of h] by (cases "pview V (bs_primary s) h")
      (auto simp: get_with_json_data_def bindA_def run ret_def blocks_def json_run header_run split: option.splits)
  have crun: "kv_get (context_kv B) ctxt (bs_context s) = (Inr (cxview V (bs_context s) ctxt), bs_context s)"
    "kv_contains (context_kv B) ctxt (bs_context s) = (Inr (cxview V (bs_context s) ctxt \<noteq> None), bs_context s)"
    using cx.get_law cx.contains_law d(3) len(2) by auto
  show "get_by_context_hash B ctxt s = (Inr (by_context V s ctxt), s)"
    using d(6) [of ctxt] by (cases "cxview V (bs_context s) ctxt")
      (auto simp: get_by_context_hash_def bindA_def on_context_def storageA_run crun(1) ret_def by_context_def header_run)
  show "contains_context_hash B ctxt s = (Inr (by_context V s ctxt \<noteq> None), s)"
    using d(6) [of ctxt] by (cases "cxview V (bs_context s) ctxt")
      (auto simp: contains_context_hash_def on_context_def storageA_def map_errA_def crun(2) by_context_def)
qed

end

section \<open>The storage on RocksDB and a log\<close>

text \<open>
  The three schemas and the log of the code; the serializer of locations and of columns is a
  parameter. Levels are big-endian numbers, so that the iterator goes through them in order.
\<close>

definition level_codec :: "i32 codec" where
  "level_codec = \<lparr>encode = (\<lambda>n. num_encode 4 (unat n)),
     decode = (\<lambda>bs. and_then (num_decode 4 bs) (\<lambda>n. Inr (word_of_nat n)))\<rparr>"

definition block_primary_schema :: "columns_location codec \<Rightarrow> (block_hash, columns_location) schema" where
  "block_primary_schema bincode = \<lparr>cf_name = ''block_storage'', key_codec = hash_codec LEN_BLOCK_HASH, value_codec = bincode\<rparr>"

definition block_by_level_schema :: "columns_location codec \<Rightarrow> (i32, columns_location) schema" where
  "block_by_level_schema bincode = \<lparr>cf_name = ''block_by_level_storage'', key_codec = level_codec, value_codec = bincode\<rparr>"

definition block_by_context_schema :: "columns_location codec \<Rightarrow> (context_hash, columns_location) schema" where
  "block_by_context_schema bincode =
     \<lparr>cf_name = ''block_by_context_hash_storage'', key_codec = hash_codec 32, value_codec = bincode\<rparr>"

definition block_backend_of :: "'r rocks \<Rightarrow> (i32 \<Rightarrow> direction \<Rightarrow> ('r, level_items) db_act) \<Rightarrow> 'g raw_log \<Rightarrow>
    columns_location codec \<Rightarrow> block_storage_column codec \<Rightarrow> ('r, 'r, 'r, 'g) block_backend" where
  "block_backend_of rk iter lg locs cols = \<lparr>
     primary_kv = db_kv rk (block_primary_schema locs),
     level_kv = db_kv rk (block_by_level_schema locs),
     level_iterator = iter,
     context_kv = db_kv rk (block_by_context_schema locs),
     block_append = clog_append cols lg,
     block_read = clog_get cols lg\<rparr>"

text \<open>An instance of the serializer.\<close>

definition put_location :: "location \<Rightarrow> bytes" where
  "put_location l = put_pair put_nat put_nat (loc_offset l, loc_limit l)"

definition get_location :: "location getter" where
  "get_location = get_via (\<lambda>(o', l). \<lparr>loc_offset = o', loc_limit = l\<rparr>) (get_pair get_nat get_nat)"

lemma location_code: "prefix_code put_location get_location"
  unfolding put_location_def get_location_def
  by (rule via_code [OF pair_code [OF nat_code.prefix_code_axioms nat_code.prefix_code_axioms]]) simp

definition put_columns_location :: "columns_location \<Rightarrow> bytes" where
  "put_columns_location l = put_pair put_location (put_option put_location) (loc_header l, loc_json l)"

definition get_columns_location :: "columns_location getter" where
  "get_columns_location = get_via (\<lambda>(h, j). \<lparr>loc_header = h, loc_json = j\<rparr>) (get_pair get_location (get_option get_location))"

lemma columns_location_code: "prefix_code put_columns_location get_columns_location"
  unfolding put_columns_location_def get_columns_location_def
  by (rule via_code [OF pair_code [OF location_code option_code [OF location_code]]]) simp

type_synonym header_fields = "block_hash \<times> i32 \<times> byte \<times> bytes \<times> 64 word \<times> byte \<times> bytes \<times> bytes list \<times> bytes \<times> bytes"

definition header_fields :: "block_header_with_hash \<Rightarrow> header_fields" where
  "header_fields bh = (let h = bh_header bh in
     (bh_hash bh, h_level h, h_proto h, h_predecessor h, h_timestamp h, h_validation_pass h, h_operations_hash h,
      h_fitness h, h_context h, h_protocol_data h))"

fun of_header_fields :: "header_fields \<Rightarrow> block_header_with_hash" where
  "of_header_fields (hash, lvl, prot, pred, tim, vp, oph, fit, ctxt, pdata) = \<lparr>bh_hash = hash, bh_header = \<lparr>
     h_level = lvl, h_proto = prot, h_predecessor = pred, h_timestamp = tim, h_validation_pass = vp,
     h_operations_hash = oph, h_fitness = fit, h_context = ctxt, h_protocol_data = pdata\<rparr>\<rparr>"

definition put_header :: "block_header_with_hash \<Rightarrow> bytes" where
  "put_header bh = put_pair put_bytes (put_pair put_word (put_pair put_byte (put_pair put_bytes (put_pair put_word
     (put_pair put_byte (put_pair put_bytes (put_pair (put_list put_bytes) (put_pair put_bytes put_bytes))))))))
     (header_fields bh)"

definition get_header :: "block_header_with_hash getter" where
  "get_header = get_via of_header_fields (get_pair get_bytes (get_pair get_word (get_pair get_byte (get_pair get_bytes
     (get_pair get_word (get_pair get_byte (get_pair get_bytes (get_pair (get_list get_bytes) (get_pair get_bytes get_bytes)))))))))"

lemmas base_codes = byte_code.prefix_code_axioms word_code.prefix_code_axioms bytes_code.prefix_code_axioms
  string_code.prefix_code_axioms

lemma header_code: "prefix_code put_header get_header"
  unfolding put_header_def get_header_def
  by (rule via_code, (rule pair_code list_code base_codes)+) (simp add: header_fields_def Let_def)

definition put_json :: "block_json_data \<Rightarrow> bytes" where
  "put_json j = put_pair put_string (put_pair put_bytes (put_list (put_list put_bytes)))
     (block_header_proto_json j, block_header_proto_metadata_bytes j, operations_proto_metadata_bytes j)"

definition get_json :: "block_json_data getter" where
  "get_json = get_via (\<lambda>(s, m, ms). \<lparr>block_header_proto_json = s, block_header_proto_metadata_bytes = m,
     operations_proto_metadata_bytes = ms\<rparr>) (get_pair get_string (get_pair get_bytes (get_list (get_list get_bytes))))"

lemma json_code: "prefix_code put_json get_json"
  unfolding put_json_def get_json_def
  by (rule via_code, (rule pair_code list_code base_codes)+) simp

definition put_column :: "block_storage_column \<Rightarrow> bytes" where
  "put_column col = (case col of ColumnHeader bh \<Rightarrow> 0 # put_header bh | ColumnJsonData j \<Rightarrow> 1 # put_json j)"

definition get_column :: "block_storage_column getter" where
  "get_column bs =
     (case bs of
        [] \<Rightarrow> None
      | b # bs' \<Rightarrow> if b = 0 then map_option (apfst ColumnHeader) (get_header bs')
                  else map_option (apfst ColumnJsonData) (get_json bs'))"

lemma column_code: "prefix_code put_column get_column"
  by unfold_locales (simp add: put_column_def get_column_def prefix_code.get_put [OF header_code]
      prefix_code.get_put [OF json_code] split: block_storage_column.split)

abbreviation loc_bincode :: "columns_location codec" where
  "loc_bincode \<equiv> code_codec put_columns_location get_columns_location"

abbreviation col_bincode :: "block_storage_column codec" where
  "col_bincode \<equiv> code_codec put_column get_column"

abbreviation mem_rocks :: "cfs rocks" where
  "mem_rocks \<equiv> map_rocks (\<lambda>_ _ _. Inl (Err ()))"

interpretation col_log: total_codec col_bincode put_column 20
  by unfold_locales (simp_all add: code_codec_laws [OF column_code])

interpretation bpi: schema_store mem_rocks "block_primary_schema loc_bincode"
  "\<lambda>r. r (cf_name (block_primary_schema loc_bincode))" "\<lambda>h. length h = LEN_BLOCK_HASH" "\<lambda>_. True" id put_columns_location
  by unfold_locales (simp_all add: block_primary_schema_def hash_codec_def code_codec_laws [OF columns_location_code])

interpretation bci: schema_store mem_rocks "block_by_context_schema loc_bincode"
  "\<lambda>r. r (cf_name (block_by_context_schema loc_bincode))" "\<lambda>h. length h = 32" "\<lambda>_. True" id put_columns_location
  by unfold_locales (simp_all add: block_by_context_schema_def hash_codec_def code_codec_laws [OF columns_location_code])

lemma level_key_inj: "to_be_bytes 4 (unat (k :: i32)) = to_be_bytes 4 (unat k') \<Longrightarrow> k = k'"
  by (metis from_to_be_bytes_word32)

interpretation bli: schema_store mem_rocks "block_by_level_schema loc_bincode"
  "\<lambda>r. r (cf_name (block_by_level_schema loc_bincode))" "\<lambda>_. True" "\<lambda>_. True" "\<lambda>n. to_be_bytes 4 (unat n)" put_columns_location
  by unfold_locales (simp_all add: block_by_level_schema_def level_codec_def num_encode_def level_key_inj
      code_codec_laws [OF columns_location_code])

text \<open>The levels from a level on, as the iterator of the level index gives them.\<close>

definition level_entries :: "i32 list \<Rightarrow> cfs \<Rightarrow> level_items" where
  "level_entries ns r = map (\<lambda>n. (Inr n, Inr (the (bli.tview r n)))) (filter (\<lambda>n. bli.tview r n \<noteq> None) ns)"

definition level_iter :: "i32 \<Rightarrow> direction \<Rightarrow> (cfs, level_items) db_act" where
  "level_iter from_level dir r = (Inr (level_entries
     (case dir of
        Forward \<Rightarrow> map word_of_nat [unat from_level..<2 ^ 32]
      | Reverse \<Rightarrow> map word_of_nat (rev [0..<Suc (unat from_level)])) r), r)"

abbreviation mem_block_backend :: "(cfs, cfs, cfs, bytes list) block_backend" where
  "mem_block_backend \<equiv> block_backend_of mem_rocks level_iter (list_log 20) loc_bincode col_bincode"

definition mem_block_views :: "(cfs, cfs, cfs, bytes list) block_views" where
  "mem_block_views = \<lparr>pview = bpi.tview, pinv = bpi.tinv, lvview = bli.tview, lvinv = bli.tinv,
     cxview = bci.tview, cxinv = bci.tinv, gview = col_log.list_view\<rparr>"

interpretation mbs: block_storage_laws mem_block_backend mem_block_views
  by (simp add: block_storage_laws_def block_backend_of_def mem_block_views_def bpi.kv.kv_contract_axioms bli.kv.kv_contract_axioms
      bci.kv.kv_contract_axioms col_log.lg.clog_contract_axioms)

lemma empty_stores_ok:
  "stores_ok mem_block_views \<lparr>bs_primary = empty_cfs, bs_level = empty_cfs, bs_context = empty_cfs, bs_clog = []\<rparr>"
  by (simp add: stores_ok_def mem_block_views_def empty_cfs_def bpi.tinv_def bli.tinv_def bci.tinv_def bpi.tview_def
      bli.tview_def bci.tview_def)

lemma empty_blocks:
  "blocks mem_block_views \<lparr>bs_primary = empty_cfs, bs_level = empty_cfs, bs_context = empty_cfs, bs_clog = g\<rparr> = Map.empty"
  by (simp add: blocks_def mem_block_views_def empty_cfs_def bpi.tview_def fun_eq_iff)

section \<open>Properties\<close>

text \<open>
  Property C5. The block storage is a map from hashes to headers with optional JSON data, and a map from
  context hashes to headers. Storing a header tells whether the block is new, and the first
  header of a hash stays; JSON data and context hashes are attached to stored blocks only, a missing
  block is an error and leaves the maps as they were; the readers return what the maps hold. The last
  block stored at a level is the one the level index holds, whatever branch it is on.
\<close>

theorem block_storage_refines:
  assumes "block_storage_laws B V" "stores_ok V s" "length (bh_hash bh) = LEN_BLOCK_HASH"
    "length h = LEN_BLOCK_HASH" "length ctxt = 32"
  shows "(\<exists>s'. bs_put_block_header B bh s = (Inr (blocks V s (bh_hash bh) = None), s') \<and> stores_ok V s' \<and>
      blocks V s' = spec_put_header bh (blocks V s) \<and> by_context V s' = by_context V s \<and>
      by_level V s' = (if blocks V s (bh_hash bh) = None then (by_level V s)(h_level (bh_header bh) \<mapsto> (bh, None)) else by_level V s)) \<and>
    (\<exists>s'. put_block_json_data B h json s = (if blocks V s h = None then Inl (Err MissingKey) else Inr (), s') \<and>
      stores_ok V s' \<and> blocks V s' = spec_put_json h json (blocks V s) \<and> by_context V s' = by_context V s) \<and>
    (\<exists>s'. assign_to_context B h ctxt s = (if blocks V s h = None then Inl (Err MissingKey) else Inr (), s') \<and>
      stores_ok V s' \<and> blocks V s' = blocks V s \<and>
      by_context V s' = (case blocks V s h of None \<Rightarrow> by_context V s | Some (b, _) \<Rightarrow> (by_context V s)(ctxt \<mapsto> b))) \<and>
    bs_get B h s = (Inr (map_option fst (blocks V s h)), s) \<and>
    get_json_data B h s = (Inr (Option.bind (blocks V s h) snd), s) \<and>
    get_by_context_hash B ctxt s = (Inr (by_context V s ctxt), s)"
  using assms
  by (intro conjI block_storage_laws.put_block_header_spec block_storage_laws.put_json_spec
      block_storage_laws.assign_spec block_storage_laws.readers_spec) assumption+

theorem block_storage_refines_witness:
  "\<exists>s'. bs_put_block_header mem_block_backend \<lparr>bh_hash = replicate 32 7, bh_header = bh_header sample_header\<rparr>
      \<lparr>bs_primary = empty_cfs, bs_level = empty_cfs, bs_context = empty_cfs, bs_clog = []\<rparr> = (Inr True, s') \<and>
    blocks mem_block_views s' (replicate 32 7) = Some (\<lparr>bh_hash = replicate 32 7, bh_header = bh_header sample_header\<rparr>, None)"
  using block_storage_refines [OF mbs.block_storage_laws_axioms empty_stores_ok, THEN conjunct1,
      of "\<lparr>bh_hash = replicate 32 7, bh_header = bh_header sample_header\<rparr>" "replicate 32 7" "replicate 32 1"]
  by (auto simp: LEN_BLOCK_HASH_def spec_put_header_def empty_blocks)

end
