(* ===== verification/HeadState.thy ===== *)
theory HeadState
  imports BlockStorage MempoolState ApplyBatch
begin

text \<open>
  The chain metadata storage (\<^verbatim>\<open>storage/src/chain_meta_storage.rs\<close>) and the current head that
  is kept in memory and in that storage (\<^verbatim>\<open>shell/src/state/head_state.rs\<close>).
\<close>

section \<open>Chain metadata\<close>

record meta_key =
  mk_chain_id :: chain_id
  mk_key :: string

datatype metadata_value = MdHead head | MdTestChainId chain_id

definition key_current_head :: "chain_id \<Rightarrow> meta_key" where
  "key_current_head cid = \<lparr>mk_chain_id = cid, mk_key = ''ch''\<rparr>"

definition key_caboose :: "chain_id \<Rightarrow> meta_key" where
  "key_caboose cid = \<lparr>mk_chain_id = cid, mk_key = ''cbs''\<rparr>"

definition key_genesis :: "chain_id \<Rightarrow> meta_key" where
  "key_genesis cid = \<lparr>mk_chain_id = cid, mk_key = ''gns''\<rparr>"

definition key_test_chain_id :: "chain_id \<Rightarrow> meta_key" where
  "key_test_chain_id cid = \<lparr>mk_chain_id = cid, mk_key = ''tcid''\<rparr>"

lemmas meta_keys = key_current_head_def key_caboose_def key_genesis_def key_test_chain_id_def

text \<open>Strings are stored as their bytes; decoding accepts well-formed UTF-8 only.\<close>

definition cont :: "byte \<Rightarrow> bool" where
  "cont b \<longleftrightarrow> 0x80 \<le> b \<and> b \<le> 0xBF"

fun utf8 :: "bytes \<Rightarrow> bool" where
  "utf8 [] = True"
| "utf8 (a # rest) =
     (if a < 0x80 then utf8 rest
      else case rest of
        [] \<Rightarrow> False
      | b # rest2 \<Rightarrow>
          if 0xC2 \<le> a \<and> a \<le> 0xDF then cont b \<and> utf8 rest2
          else (case rest2 of
            [] \<Rightarrow> False
          | c # rest3 \<Rightarrow>
              if 0xE0 \<le> a \<and> a \<le> 0xEF
              then (if a = 0xE0 then 0xA0 \<le> b \<and> b \<le> 0xBF else if a = 0xED then 0x80 \<le> b \<and> b \<le> 0x9F else cont b) \<and>
                cont c \<and> utf8 rest3
              else (case rest3 of
                [] \<Rightarrow> False
              | d # rest4 \<Rightarrow> 0xF0 \<le> a \<and> a \<le> 0xF4 \<and>
                  (if a = 0xF0 then 0x90 \<le> b \<and> b \<le> 0xBF else if a = 0xF4 then 0x80 \<le> b \<and> b \<le> 0x8F else cont b) \<and>
                  cont c \<and> cont d \<and> utf8 rest4)))"

definition string_codec :: "string codec" where
  "string_codec = \<lparr>encode = (\<lambda>s. Inr (map of_char s)),
     decode = (\<lambda>bs. if utf8 bs then Inr (map (\<lambda>b. char_of (unat b)) bs) else Inl (Err DecodeError))\<rparr>"

definition meta_key_encode :: "meta_key \<Rightarrow> schema_error + bytes" where
  "meta_key_encode k =
     (if length (mk_chain_id k) = LEN_CHAIN_ID
      then and_then (encode string_codec (mk_key k)) (\<lambda>bs. Inr (mk_chain_id k @ bs))
      else Inl EncodeError)"

definition meta_key_decode :: "bytes \<Rightarrow> schema_error failure + meta_key" where
  "meta_key_decode bs =
     (if LEN_CHAIN_ID < length bs
      then and_then (hash_from_bytes LEN_CHAIN_ID (take LEN_CHAIN_ID bs)) (\<lambda>cid.
           and_then (decode string_codec (drop LEN_CHAIN_ID bs)) (\<lambda>key.
           Inr \<lparr>mk_chain_id = cid, mk_key = key\<rparr>))
      else Inl (Err DecodeError))"

definition meta_key_codec :: "meta_key codec" where
  "meta_key_codec = \<lparr>encode = meta_key_encode, decode = meta_key_decode\<rparr>"

type_synonym 's chain_meta_kv = "('s, meta_key, metadata_value) kv_store"

definition set_current_head :: "'s chain_meta_kv \<Rightarrow> chain_id \<Rightarrow> head \<Rightarrow> ('s, unit) storage_act" where
  "set_current_head kv cid h = storageA (kv_put kv (key_current_head cid) (MdHead h))"

definition set_caboose :: "'s chain_meta_kv \<Rightarrow> chain_id \<Rightarrow> head \<Rightarrow> ('s, unit) storage_act" where
  "set_caboose kv cid h = storageA (kv_put kv (key_caboose cid) (MdHead h))"

definition set_genesis :: "'s chain_meta_kv \<Rightarrow> chain_id \<Rightarrow> head \<Rightarrow> ('s, unit) storage_act" where
  "set_genesis kv cid h = storageA (kv_put kv (key_genesis cid) (MdHead h))"

fun as_head :: "metadata_value option \<Rightarrow> head option" where
  "as_head (Some (MdHead h)) = Some h"
| "as_head _ = None"

fun as_test_chain_id :: "metadata_value option \<Rightarrow> chain_id option" where
  "as_test_chain_id (Some (MdTestChainId cid)) = Some cid"
| "as_test_chain_id _ = None"

definition get_test_chain_id :: "'s chain_meta_kv \<Rightarrow> chain_id \<Rightarrow> ('s, chain_id option) storage_act" where
  "get_test_chain_id kv cid = bindA (storageA (kv_get kv (key_test_chain_id cid))) (\<lambda>r. ret (as_test_chain_id r))"

definition set_test_chain_id :: "'s chain_meta_kv \<Rightarrow> chain_id \<Rightarrow> chain_id \<Rightarrow> ('s, unit) storage_act" where
  "set_test_chain_id kv cid t = storageA (kv_put kv (key_test_chain_id cid) (MdTestChainId t))"

definition remove_test_chain_id :: "'s chain_meta_kv \<Rightarrow> chain_id \<Rightarrow> ('s, unit) storage_act" where
  "remove_test_chain_id kv cid = storageA (kv_delete kv (key_test_chain_id cid))"

definition get_current_head :: "'s chain_meta_kv \<Rightarrow> chain_id \<Rightarrow> ('s, head option) storage_act" where
  "get_current_head kv cid = bindA (storageA (kv_get kv (key_current_head cid))) (\<lambda>r. ret (as_head r))"

definition get_caboose :: "'s chain_meta_kv \<Rightarrow> chain_id \<Rightarrow> ('s, head option) storage_act" where
  "get_caboose kv cid = bindA (storageA (kv_get kv (key_caboose cid))) (\<lambda>r. ret (as_head r))"

definition get_genesis :: "'s chain_meta_kv \<Rightarrow> chain_id \<Rightarrow> ('s, head option) storage_act" where
  "get_genesis kv cid = bindA (storageA (kv_get kv (key_genesis cid))) (\<lambda>r. ret (as_head r))"

section \<open>The current head\<close>

datatype head_result = BranchSwitch | HeadIncrement | GenesisInitialized

text \<open>
  The state is the storage, the head in memory behind its lock, and the identity of the chain.
  The mempool state is read only; reading a poisoned lock is an error.
\<close>

record 's head_state =
  hs_store :: 's
  current_head_state :: "head option"
  head_poisoned :: bool
  hs_chain_id :: chain_id
  chain_genesis_block_hash :: block_hash

type_synonym ('s, 'a) head_act = "('s head_state, state_error failure, 'a) act"

definition on_chain_meta :: "('s, 'a) storage_act \<Rightarrow> ('s, 'a) head_act" where
  "on_chain_meta m hs =
     (case m (hs_store hs) of (r, s) \<Rightarrow> (map_err (map_failure StStorageError) r, hs\<lparr>hs_store := s\<rparr>))"

definition read_head :: "('s, head option) head_act" where
  "read_head hs = (if head_poisoned hs then Inl (Err (StLockError ''poisoned'')) else Inr (current_head_state hs), hs)"

definition write_head :: "head \<Rightarrow> ('s, unit) head_act" where
  "write_head h hs =
     (if head_poisoned hs then (Inl (Err (StLockError ''poisoned'')), hs)
      else (Inr (), hs\<lparr>current_head_state := Some h\<rparr>))"

definition context_fitness_of :: "mempool_state \<Rightarrow> head \<Rightarrow> fitness" where
  "context_fitness_of mempool current_head =
     (case prevalidator mempool of
        Some p \<Rightarrow> (case pv_context_fitness p of Some f \<Rightarrow> f | None \<Rightarrow> head_fitness current_head)
      | None \<Rightarrow> head_fitness current_head)"

definition resolve_head_result :: "head option \<Rightarrow> block_hash \<Rightarrow> block_header_with_hash \<Rightarrow> head_result" where
  "resolve_head_result current genesis nh =
     (case current of
        Some previous \<Rightarrow>
          if head_block_hash previous = h_predecessor (bh_header nh) then HeadIncrement else BranchSwitch
      | None \<Rightarrow> if genesis = bh_hash nh then GenesisInitialized else HeadIncrement)"

definition try_update_new_current_head :: "'s chain_meta_kv \<Rightarrow> state_error + mempool_state \<Rightarrow> block_header_with_hash \<Rightarrow>
    ('s, (head \<times> head_result) option) head_act" where
  "try_update_new_current_head kv mempool_lock nh =
     bindA read_head (\<lambda>current.
     bindA (case current of
         None \<Rightarrow> ret True
       | Some current_head \<Rightarrow>
           bindA (liftR (map_err Err mempool_lock)) (\<lambda>mempool.
           ret (can_update_current_head nh current_head (context_fitness_of mempool current_head)))) (\<lambda>accepted.
     if \<not> accepted then ret None
     else
       bindA read_head (\<lambda>previous.
       bindA (\<lambda>hs. (Inr (resolve_head_result previous (chain_genesis_block_hash hs) nh, hs_chain_id hs), hs))
         (\<lambda>(head_result, cid).
       let h = new_head (bh_hash nh) (h_level (bh_header nh)) (h_fitness (bh_header nh)) in
       bindA (on_chain_meta (set_current_head kv cid h)) (\<lambda>_.
       bindA (write_head h) (\<lambda>_.
       ret (Some (h, head_result))))))))"

definition load_current_head_state :: "'s chain_meta_kv \<Rightarrow> ('s, head option) head_act" where
  "load_current_head_state kv =
     bindA (\<lambda>hs. (Inr (hs_chain_id hs), hs)) (\<lambda>cid.
     bindA (on_chain_meta (get_current_head kv cid)) (\<lambda>r.
     case r of
       Some h \<Rightarrow> bindA (write_head h) (\<lambda>_. ret (Some h))
     | None \<Rightarrow> ret None))"

section \<open>Laws of the metadata storage\<close>

locale chain_meta = kv_contract kv view inv_ok "\<lambda>k. length (mk_chain_id k) = LEN_CHAIN_ID" "\<lambda>_. True"
  for kv :: "'s chain_meta_kv" and view inv_ok
begin

lemma get_current_head_run:
  "inv_ok s \<Longrightarrow> length cid = LEN_CHAIN_ID \<Longrightarrow> get_current_head kv cid s = (Inr (as_head (view s (key_current_head cid))), s)"
  by (simp add: get_current_head_def bindA_def storageA_def map_errA_def get_law key_current_head_def ret_def)

lemma set_current_head_run:
  assumes "inv_ok s" "length cid = LEN_CHAIN_ID"
  obtains s' where "set_current_head kv cid h s = (Inr (), s')" "inv_ok s'"
    "view s' = (view s)(key_current_head cid \<mapsto> MdHead h)"
  using put_law [of s "key_current_head cid" "MdHead h"] assms
  by (auto simp: set_current_head_def storageA_def map_errA_def key_current_head_def)

end

text \<open>The head in memory is the stored one.\<close>

definition in_sync :: "('s \<Rightarrow> meta_key \<rightharpoonup> metadata_value) \<Rightarrow> 's head_state \<Rightarrow> bool" where
  "in_sync view hs \<longleftrightarrow> current_head_state hs = as_head (view (hs_store hs) (key_current_head (hs_chain_id hs)))"

text \<open>
  When one fitness is higher than another, said without the comparison loops: more parts win;
  with as many parts, the first part that differs decides, where the longer part is higher and, among
  parts of one length, the first byte that differs decides.
\<close>

definition higher_part :: "bytes \<Rightarrow> bytes \<Rightarrow> bool" where
  "higher_part p q \<longleftrightarrow> length q < length p \<or>
     length p = length q \<and> (\<exists>j < length p. take j p = take j q \<and> q ! j < p ! j)"

definition higher_fitness :: "fitness \<Rightarrow> fitness \<Rightarrow> bool" where
  "higher_fitness f g \<longleftrightarrow> length g < length f \<or>
     length f = length g \<and> (\<exists>i < length f. take i f = take i g \<and> higher_part (f ! i) (g ! i))"

text \<open>
  The fitness a new head is measured against: that of the context of the prevalidator, if it has
  one, else that of the head. A block of exactly this fitness is good enough unless it is the
  fitness of the head itself.
\<close>

definition good_enough :: "mempool_state \<Rightarrow> head \<Rightarrow> fitness \<Rightarrow> bool" where
  "good_enough mempool ch f \<longleftrightarrow>
     (\<exists>ctx. (case Option.bind (prevalidator mempool) pv_context_fitness of
          None \<Rightarrow> ctx = head_fitness ch | Some c \<Rightarrow> ctx = c) \<and>
        (higher_fitness f ctx \<or> f = ctx \<and> ctx \<noteq> head_fitness ch))"

lemma first_difference_Cons:
  "(\<exists>i < length (x # xs). take i (x # xs) = take i (y # ys) \<and> P ((x # xs) ! i) ((y # ys) ! i)) \<longleftrightarrow>
     P x y \<or> x = y \<and> (\<exists>i < length xs. take i xs = take i ys \<and> P (xs ! i) (ys ! i))"
proof -
  have "(\<exists>i < Suc n. Q i) \<longleftrightarrow> Q 0 \<or> (\<exists>i < n. Q (Suc i))" for Q n
    by (auto simp: less_Suc_eq_0_disj)
  then show ?thesis
    by auto
qed

lemma higher_part_key:
  assumes "length p = length q"
  shows "(\<exists>j < length p. take j p = take j q \<and> q ! j < p ! j) \<longleftrightarrow> q < p"
  using assms
proof (induction p q rule: list_induct2)
  case (Cons x xs y ys)
  then show ?case
    by (simp only: first_difference_Cons [where P = "\<lambda>a b. b < a"]) auto
qed simp

lemma higher_part_less: "higher_part p q \<longleftrightarrow> (length q, q) < (length p, p)"
  using higher_part_key [of p q] by (auto simp: higher_part_def less_prod_def)

lemma higher_parts_key:
  assumes "length f = length g"
  shows "(\<exists>i < length f. take i f = take i g \<and> higher_part (f ! i) (g ! i)) \<longleftrightarrow>
    map (\<lambda>p. (length p, p)) g < map (\<lambda>p. (length p, p)) f"
  using assms
proof (induction f g rule: list_induct2)
  case (Cons x xs y ys)
  then show ?case
    by (simp only: first_difference_Cons [where P = higher_part]) (auto simp: higher_part_less)
qed simp

lemma higher_fitness_less: "higher_fitness f g \<longleftrightarrow> FitnessWrapper g < FitnessWrapper f"
  using higher_parts_key [of f g] by (auto simp: higher_fitness_def fitness_less_key fitness_key_def less_prod_def)

lemma good_enough_iff:
  "good_enough mempool ch (h_fitness (bh_header nh)) \<longleftrightarrow> can_update_current_head nh ch (context_fitness_of mempool ch)"
  by (auto simp: good_enough_def can_update_current_head_def context_fitness_of_def higher_fitness_less Let_def
      order_le_less split: option.splits)

text \<open>The serializer instance and the storage on RocksDB.\<close>

definition chain_meta_schema :: "metadata_value codec \<Rightarrow> (meta_key, metadata_value) schema" where
  "chain_meta_schema bincode = \<lparr>cf_name = ''chain_meta_storage'', key_codec = meta_key_codec, value_codec = bincode\<rparr>"

definition put_metadata :: "metadata_value \<Rightarrow> bytes" where
  "put_metadata v =
     (case v of
        MdHead h \<Rightarrow> 0 # put_pair put_bytes (put_pair put_word (put_list put_bytes)) (head_block_hash h, head_level h, head_fitness h)
      | MdTestChainId cid \<Rightarrow> 1 # put_bytes cid)"

definition get_metadata :: "metadata_value getter" where
  "get_metadata bs =
     (case bs of
        [] \<Rightarrow> None
      | b # rest \<Rightarrow>
          if b = 0 then get_via (\<lambda>(h, l, f). MdHead (new_head h l f)) (get_pair get_bytes (get_pair get_word (get_list get_bytes))) rest
          else get_via MdTestChainId get_bytes rest)"

lemma metadata_code: "prefix_code put_metadata get_metadata"
proof unfold_locales
  fix v rest
  have p: "prefix_code (put_pair put_bytes (put_pair put_word (put_list put_bytes)))
      (get_pair get_bytes (get_pair (get_word :: i32 getter) (get_list get_bytes)))"
    by (rule pair_code list_code base_codes)+
  show "get_metadata (put_metadata v @ rest) = Some (v, rest)"
    by (cases v) (simp_all add: put_metadata_def get_metadata_def get_via_def prefix_code.get_put [OF p]
        bytes_code.get_put new_head_def)
qed

abbreviation md_bincode :: "metadata_value codec" where
  "md_bincode \<equiv> code_codec put_metadata get_metadata"

lemma of_char_inj: "inj (of_char :: char \<Rightarrow> byte)"
  by (rule inj_on_inverseI [where g = "\<lambda>b. char_of (unat b)"]) (rule of_char_word)

interpretation cms: schema_store mem_rocks "chain_meta_schema md_bincode"
  "\<lambda>r. r (cf_name (chain_meta_schema md_bincode))" "\<lambda>k. length (mk_chain_id k) = LEN_CHAIN_ID" "\<lambda>_. True"
  "\<lambda>k. mk_chain_id k @ map of_char (mk_key k)" put_metadata
  by unfold_locales (auto simp: chain_meta_schema_def meta_key_codec_def meta_key_encode_def string_codec_def
      code_codec_laws [OF metadata_code] inj_map_eq_map [OF of_char_inj])

abbreviation mem_chain_meta :: "cfs chain_meta_kv" where
  "mem_chain_meta \<equiv> db_kv mem_rocks (chain_meta_schema md_bincode)"

interpretation mcm: chain_meta mem_chain_meta cms.tview cms.tinv
  by unfold_locales

lemma empty_chain_meta: "cms.tinv empty_cfs" "cms.tview empty_cfs = Map.empty"
  by (simp_all add: empty_cfs_def cms.tinv_def cms.tview_def fun_eq_iff)

section \<open>Properties\<close>

text \<open>
  Property C20. Offering a block as the new head succeeds. It is refused, and then nothing changes,
  exactly when there is a head and the block's fitness is not good enough: it must be higher than the
  fitness of the mempool's context (of the head, if there is none), or equal to it where it differs
  from that of the head. Otherwise the block with its level and fitness is the head in memory and in
  the storage, where no other record changes. The result is a switch of branches exactly when the block does
  not follow the old head, and the initialization with genesis exactly when there was no head and the
  block is the genesis. Memory and storage stay in sync, so loading the head after a restart gives the head set last.
\<close>

theorem current_head_in_sync:
  assumes "chain_meta kv view inv_ok" "inv_ok (hs_store hs)" "length (hs_chain_id hs) = LEN_CHAIN_ID"
    "\<not> head_poisoned hs" "in_sync view hs"
  shows "\<exists>r hs'. try_update_new_current_head kv (Inr mempool) nh hs = (Inr r, hs') \<and>
    inv_ok (hs_store hs') \<and> in_sync view hs' \<and>
    load_current_head_state kv (hs'\<lparr>current_head_state := None\<rparr>) = (Inr (current_head_state hs'), hs') \<and>
    (case r of
       None \<Rightarrow> hs' = hs \<and> (\<exists>ch. current_head_state hs = Some ch \<and> \<not> good_enough mempool ch (h_fitness (bh_header nh)))
     | Some (h, res) \<Rightarrow>
         (\<forall>ch. current_head_state hs = Some ch \<longrightarrow> good_enough mempool ch (h_fitness (bh_header nh))) \<and>
         head_block_hash h = bh_hash nh \<and> head_level h = h_level (bh_header nh) \<and> head_fitness h = h_fitness (bh_header nh) \<and>
         current_head_state hs' = Some h \<and>
         view (hs_store hs') = (view (hs_store hs))(key_current_head (hs_chain_id hs) \<mapsto> MdHead h) \<and>
         (res = BranchSwitch \<longleftrightarrow> (\<exists>ch. current_head_state hs = Some ch \<and> h_predecessor (bh_header nh) \<noteq> head_block_hash ch)) \<and>
         (res = GenesisInitialized \<longleftrightarrow> current_head_state hs = None \<and> bh_hash nh = chain_genesis_block_hash hs))"
proof -
  let ?h = "new_head (bh_hash nh) (h_level (bh_header nh)) (h_fitness (bh_header nh))"
  let ?res = "resolve_head_result (current_head_state hs) (chain_genesis_block_hash hs) nh"
  obtain s' where s': "set_current_head kv (hs_chain_id hs) ?h (hs_store hs) = (Inr (), s')" "inv_ok s'"
    "view s' = (view (hs_store hs))(key_current_head (hs_chain_id hs) \<mapsto> MdHead ?h)"
    using chain_meta.set_current_head_run [OF assms(1-3)] by blast
  define ok where "ok \<longleftrightarrow> (\<forall>ch. current_head_state hs = Some ch \<longrightarrow> good_enough mempool ch (h_fitness (bh_header nh)))"
  define hs' where "hs' = (if ok then hs\<lparr>hs_store := s', current_head_state := Some ?h\<rparr> else hs)"
  have run: "try_update_new_current_head kv (Inr mempool) nh hs = (Inr (if ok then Some (?h, ?res) else None), hs')"
    using assms(4) by (cases "current_head_state hs")
      (simp_all add: try_update_new_current_head_def ok_def good_enough_iff bindA_def read_head_def write_head_def ret_def
        liftR_def on_chain_meta_def s'(1) hs'_def Let_def)
  have sync: "inv_ok (hs_store hs') \<and> in_sync view hs' \<and> \<not> head_poisoned hs' \<and> hs_chain_id hs' = hs_chain_id hs"
    using assms(2,4,5) s'(2,3) by (simp add: hs'_def in_sync_def)
  then have load: "load_current_head_state kv (hs'\<lparr>current_head_state := None\<rparr>) = (Inr (current_head_state hs'), hs')"
    using assms(3) chain_meta.get_current_head_run [OF assms(1)]
    by (auto simp: load_current_head_state_def bindA_def on_chain_meta_def write_head_def ret_def in_sync_def
        split: option.splits)
  show ?thesis
  proof (cases ok)
    case True
    then show ?thesis
      using run sync load s'(3)
      by (auto simp: ok_def hs'_def new_head_def resolve_head_result_def split: option.split)
  next
    case False
    then show ?thesis
      using run sync load by (auto simp: ok_def hs'_def)
  qed
qed

theorem current_head_in_sync_witness:
  "\<exists>hs'. try_update_new_current_head mem_chain_meta (Inr default_mempool_state) sample_header
     \<lparr>hs_store = empty_cfs, current_head_state = None, head_poisoned = False, hs_chain_id = [0, 0, 0, 0],
      chain_genesis_block_hash = bh_hash sample_header\<rparr> =
     (Inr (Some (new_head (bh_hash sample_header) (h_level (bh_header sample_header)) (h_fitness (bh_header sample_header)),
        GenesisInitialized)), hs')"
proof -
  let ?hs = "\<lparr>hs_store = empty_cfs, current_head_state = None, head_poisoned = False, hs_chain_id = [0, 0, 0, 0],
     chain_genesis_block_hash = bh_hash sample_header\<rparr>"
  have "length (hs_chain_id ?hs) = LEN_CHAIN_ID"
    by (simp add: LEN_CHAIN_ID_def)
  moreover have "cms.tinv (hs_store ?hs)" "in_sync cms.tview ?hs"
    by (simp_all add: in_sync_def empty_chain_meta)
  ultimately show ?thesis
    using current_head_in_sync [OF mcm.chain_meta_axioms, of ?hs default_mempool_state sample_header]
    by (auto simp: new_head_def split: option.splits)
qed

end
