(* ===== verification/History.thy ===== *)
theory History
  imports Predecessors SeededStep HeadState
begin

text \<open>
  Locators and branch histories (\<^verbatim>\<open>shell/src/state/chain_state.rs\<close>): the history a node offers
  for its head is made of ancestors at random, growing distances; the history a peer
  offers is cut at the last applied block.
\<close>

section \<open>The history of a head\<close>

definition HISTORY_MAX_SIZE :: nat where
  "HISTORY_MAX_SIZE = 200"

definition close_history :: "head option \<Rightarrow> block_hash \<Rightarrow> block_hash list \<Rightarrow> block_hash list" where
  "close_history caboose current_block_hash history =
     (case caboose of
        None \<Rightarrow> history
      | Some c \<Rightarrow>
          if history \<noteq> []
          then (if last history \<noteq> head_block_hash c then history @ [head_block_hash c] else history)
          else (if current_block_hash \<noteq> head_block_hash c then history @ [head_block_hash c] else history))"

fun history_loop :: "'s pred_kv \<Rightarrow> (bytes \<Rightarrow> bytes) \<Rightarrow> head option \<Rightarrow> nat \<Rightarrow> step \<Rightarrow> block_hash \<Rightarrow> block_hash list \<Rightarrow>
    ('s, block_hash list) storage_act" where
  "history_loop kv sha256 caboose 0 st current_block_hash history = ret history"
| "history_loop kv sha256 caboose (Suc counter) st current_block_hash history =
     (case step_next sha256 st of (distance, st') \<Rightarrow>
      bindA (find_block_at_distance kv current_block_hash (sint distance)) (\<lambda>r.
      case r of
        Some predecessor \<Rightarrow> history_loop kv sha256 caboose counter st' predecessor (history @ [predecessor])
      | None \<Rightarrow> ret (close_history caboose current_block_hash history)))"

definition compute_history :: "'s pred_kv \<Rightarrow> (bytes \<Rightarrow> bytes) \<Rightarrow> head option \<Rightarrow> block_hash \<Rightarrow> nat \<Rightarrow> seed \<Rightarrow>
    ('s, block_hash list) storage_act" where
  "compute_history kv sha256 caboose start max_size sd =
     (if max_size = 0 then ret []
      else history_loop kv sha256 caboose max_size (step_init sha256 sd start) start [])"

text \<open>The two column families it reads are the two halves of the state.\<close>

definition get_history_of :: "'c chain_meta_kv \<Rightarrow> 's pred_kv \<Rightarrow> (bytes \<Rightarrow> bytes) \<Rightarrow> chain_id \<Rightarrow> block_hash \<Rightarrow> seed \<Rightarrow>
    ('c \<times> 's, block_hash list) storage_act" where
  "get_history_of cm kv sha256 cid start sd = (\<lambda>(c, s).
     (case get_caboose cm cid c of
        (Inl e, c') \<Rightarrow> (Inl e, (c', s))
      | (Inr caboose, c') \<Rightarrow>
          (case compute_history kv sha256 caboose start HISTORY_MAX_SIZE sd s of (r, s') \<Rightarrow> (r, (c', s')))))"

section \<open>Distances\<close>

text \<open>The distance of the n-th step from the head.\<close>

definition distance :: "i32 list \<Rightarrow> nat \<Rightarrow> nat" where
  "distance vs n = sum_list (map (\<lambda>v. nat (sint v)) (take n vs))"

lemma distance_simps [simp]: "distance vs 0 = 0" "distance (v # vs) (Suc n) = nat (sint v) + distance vs n"
  by (simp_all add: distance_def)

text \<open>What the loop collects: ancestors at the distances of the steps, as long as there are any.\<close>

fun hops :: "('a \<rightharpoonup> 'a) \<Rightarrow> nat list \<Rightarrow> 'a \<Rightarrow> 'a list" where
  "hops p [] b = []"
| "hops p (d # ds) b = (case iter_opt p d b of None \<Rightarrow> [] | Some c \<Rightarrow> c # hops p ds c)"

lemma hops_nth:
  "i < length (hops p ds b) \<Longrightarrow> iter_opt p (sum_list (take (Suc i) ds)) b = Some (hops p ds b ! i)"
  by (induction p ds b arbitrary: i rule: hops.induct) (auto simp: iter_opt_add nth_Cons split: option.splits nat.splits)

lemma hops_stop:
  "length (hops p ds b) < length ds \<Longrightarrow> iter_opt p (sum_list (take (Suc (length (hops p ds b))) ds)) b = None"
  by (induction p ds b rule: hops.induct) (auto simp: iter_opt_add split: option.splits)

lemma length_hops: "length (hops p ds b) \<le> length ds"
  by (induction p ds b rule: hops.induct) (auto split: option.splits)

lemma close_history_last:
  "close_history caboose (last (b # hs)) hs =
     hs @ (case caboose of None \<Rightarrow> [] | Some c \<Rightarrow> if last (b # hs) \<noteq> head_block_hash c then [head_block_hash c] else [])"
  by (auto simp: close_history_def split: option.splits)

context pred_index
begin

lemma iter_opt_length:
  assumes "inv s" "length b = LEN_BLOCK_HASH" "iter_opt (direct (view s)) n b = Some c"
  shows "length c = LEN_BLOCK_HASH"
  using assms(2,3)
proof (induction n arbitrary: b)
  case (Suc n)
  then obtain d where d: "direct (view s) b = Some d" "iter_opt (direct (view s)) n d = Some c"
    by (auto split: option.splits)
  have "length d = LEN_BLOCK_HASH"
    using d(1) view_ok [OF assms(1), of "(b, 0)" d] by (simp add: direct_def)
  then show ?case
    by (rule Suc.IH [OF _ d(2)])
qed simp

lemma history_loop_spec:
  assumes "inv s" "index_ok (view s)"
  defines "p \<equiv> direct (view s)"
  shows "length b = LEN_BLOCK_HASH \<Longrightarrow> step_at k st \<Longrightarrow> k + n \<le> 310 \<Longrightarrow> steps sha256 n st = (vs, st') \<Longrightarrow>
    prior = [] \<or> last prior = b \<Longrightarrow>
    history_loop kv sha256 caboose n st b prior s =
      (Inr (let hs = prior @ hops p (map (\<lambda>v. nat (sint v)) vs) b in
            if length (hops p (map (\<lambda>v. nat (sint v)) vs) b) = n then hs
            else close_history caboose (last (b # hops p (map (\<lambda>v. nat (sint v)) vs) b)) hs), s)"
proof (induction n arbitrary: k st b prior vs)
  case (Suc n)
  obtain v st1 where v: "step_next sha256 st = (v, st1)"
    by (cases "step_next sha256 st")
  obtain ws st2 where r: "steps sha256 n st1 = (ws, st2)"
    by (cases "steps sha256 n st1")
  have vs: "vs = v # ws" and st': "steps sha256 n st1 = (ws, st')"
    using Suc.prems(4) v r by simp_all
  have "k < 310"
    using Suc.prems(3) by simp
  note sp = step_next_spec [OF Suc.prems(2) this v]
  have "0 \<le> x - x div 2" if "0 \<le> x" for x :: int
    using that by linarith
  then have "(0 :: int) \<le> 2 ^ (k div 10) - 2 ^ (k div 10) div 2"
    by simp
  then have nonneg: "0 \<le> sint v"
    using sp(2) by linarith
  note find = find_block_spec [OF assms(1,2) Suc.prems(1) nonneg, folded p_def]
  show ?case
  proof (cases "iter_opt p (nat (sint v)) b")
    case None
    then show ?thesis
      using Suc.prems(5) by (auto simp: vs v find bindA_def ret_def close_history_def split: option.splits)
  next
    case (Some c)
    have "length c = LEN_BLOCK_HASH"
      using iter_opt_length [OF assms(1) Suc.prems(1)] Some by (simp add: p_def)
    then show ?thesis
      using Suc.IH [OF _ sp(1) _ st', of c "prior @ [c]"] Suc.prems(3) Some
      by (simp add: vs v find bindA_def Let_def)
  qed
qed (simp add: ret_def)

end

section \<open>Cutting the history of a branch\<close>

text \<open>The block and its predecessor lead the history.\<close>

definition extend_history :: "block_header_with_hash \<Rightarrow> block_hash list \<Rightarrow> block_hash list" where
  "extend_history bh history =
     (let h1 = (if h_predecessor (bh_header bh) \<notin> set history then h_predecessor (bh_header bh) # history else history) in
      if bh_hash bh \<notin> set h1 then bh_hash bh # h1 else h1)"

text \<open>The metadata lookup; a failing lookup counts as not applied.\<close>

definition locator_entry :: "(block_hash \<Rightarrow> storage_error + meta option) \<Rightarrow> block_hash \<Rightarrow> block_hash \<times> bool" where
  "locator_entry get_meta b =
     (case get_meta b of Inr (Some m) \<Rightarrow> (b, m_is_applied m) | _ \<Rightarrow> (b, False))"

fun last_applied_from :: "nat \<Rightarrow> (block_hash \<times> bool) list \<Rightarrow> nat option \<Rightarrow> nat option" where
  "last_applied_from idx [] last_applied_idx = last_applied_idx"
| "last_applied_from idx ((_, applied) # rest) last_applied_idx =
     last_applied_from (Suc idx) rest (if applied then Some idx else last_applied_idx)"

definition split_history :: "(block_hash \<Rightarrow> storage_error + meta option) \<Rightarrow> block_hash \<Rightarrow> block_hash list \<Rightarrow>
    block_hash \<times> block_hash list" where
  "split_history get_meta genesis history =
     (let locator = map (locator_entry get_meta) (rev history) in
      case last_applied_from 0 locator None of
        Some last_applied_idx \<Rightarrow>
          (if last_applied_idx < length locator
           then (fst (locator ! last_applied_idx),
                 map (\<lambda>(_, (b, _)). b) (filter (\<lambda>(index, _). last_applied_idx < index) (enumerate 0 locator)))
           else (genesis, map fst locator))
      | None \<Rightarrow> (genesis, map fst locator))"

record start_branch_bootstraping =
  sb_peer_id :: string
  sb_chain_id :: chain_id
  sb_last_applied_block :: block_hash
  sb_missing_history :: "block_hash list"
  sb_to_level :: i32

text \<open>
  The bootstrapper is started when something is missing and none runs; starting the actor may
  fail. The result is the bootstrapper and the message it is sent.
\<close>

definition schedule_history_bootstrap :: "(block_hash \<Rightarrow> storage_error + meta option) \<Rightarrow> string + 'actor \<Rightarrow> chain_id \<Rightarrow>
    block_hash \<Rightarrow> string \<Rightarrow> block_header_with_hash \<Rightarrow> block_hash list \<Rightarrow> 'actor option \<Rightarrow>
    state_error + ('actor option \<times> ('actor \<times> start_branch_bootstraping) list)" where
  "schedule_history_bootstrap get_meta spawn cid genesis peer_id bh history bootstrapper =
     (case split_history get_meta genesis (extend_history bh history) of (last_applied_block, missing_history) \<Rightarrow>
      if missing_history = [] then Inr (bootstrapper, [])
      else
        and_then (case bootstrapper of Some a \<Rightarrow> Inr a | None \<Rightarrow> map_err ProcessingError spawn) (\<lambda>a.
        Inr (Some a, [(a, \<lparr>sb_peer_id = peer_id, sb_chain_id = cid, sb_last_applied_block = last_applied_block,
           sb_missing_history = missing_history, sb_to_level = h_level (bh_header bh)\<rparr>)])))"

lemma last_applied_from_cases:
  "last_applied_from i xs acc = acc \<and> (\<forall>x \<in> set xs. \<not> snd x) \<or>
   (\<exists>pre b post. xs = pre @ (b, True) # post \<and> (\<forall>x \<in> set post. \<not> snd x) \<and> last_applied_from i xs acc = Some (i + length pre))"
proof (induction i xs acc rule: last_applied_from.induct)
  case (2 idx b applied rest acc)
  from "2.IH" show ?case
  proof (elim disjE exE conjE)
    assume "last_applied_from (Suc idx) rest (if applied then Some idx else acc) = (if applied then Some idx else acc)"
      "\<forall>x \<in> set rest. \<not> snd x"
    then show ?thesis
      by (cases applied) (rule disjI2, rule exI [of _ "[]"], auto)
  next
    fix pre c post
    assume "rest = pre @ (c, True) # post" "\<forall>x \<in> set post. \<not> snd x"
      "last_applied_from (Suc idx) rest (if applied then Some idx else acc) = Some (Suc idx + length pre)"
    then show ?thesis
      by (intro disjI2 exI [of _ "(b, applied) # pre"] exI [of _ c] exI [of _ post]) simp
  qed
qed simp

lemma enumerate_after:
  fixes pre :: "(block_hash \<times> bool) list"
  shows "map (\<lambda>(_, (b, _)). b) (filter (\<lambda>(index, _). length pre < index) (enumerate 0 (pre @ x # post))) = map fst post"
proof -
  have before: "filter (\<lambda>(index, _). n < index) (enumerate m xs) = []" if "m + length xs \<le> Suc n" for n m and xs :: "(block_hash \<times> bool) list"
    using that by (auto simp: filter_empty_conv in_set_enumerate_eq)
  have after: "filter (\<lambda>(index, _). n < index) (enumerate m xs) = enumerate m xs" if "n < m" for n m and xs :: "(block_hash \<times> bool) list"
    using that by (auto simp: filter_id_conv in_set_enumerate_eq)
  have blocks: "map (\<lambda>(_, (b, _)). b) (enumerate m xs) = map fst xs" for m and xs :: "(block_hash \<times> bool) list"
    by (induction xs arbitrary: m) auto
  have "enumerate 0 (pre @ x # post) = enumerate 0 (pre @ [x]) @ enumerate (Suc (length pre)) post"
    by (simp add: enumerate_append_eq)
  then show ?thesis
    using before [of 0 "pre @ [x]" "length pre"] after [of "length pre" "Suc (length pre)" post] blocks [of "Suc (length pre)" post]
    by (simp del: enumerate_simps)
qed

lemma map_locator_fst: "map fst (map (locator_entry get_meta) bs) = bs"
  by (induction bs) (auto simp: locator_entry_def split: sum.splits option.splits)

definition applied_in :: "(block_hash \<Rightarrow> storage_error + meta option) \<Rightarrow> block_hash \<Rightarrow> bool" where
  "applied_in get_meta b \<longleftrightarrow> snd (locator_entry get_meta b)"

lemma split_history_cases:
  assumes "split_history get_meta genesis hs = (last_block, missing)"
  shows "\<forall>b \<in> set missing. \<not> applied_in get_meta b"
    "last_block = genesis \<and> missing = rev hs \<or> applied_in get_meta last_block \<and> (\<exists>older. rev hs = older @ last_block # missing)"
proof -
  define xs where "xs = map (locator_entry get_meta) (rev hs)"
  have fst_xs: "map fst xs = rev hs"
    by (simp only: xs_def map_locator_fst)
  have snd_xs: "snd x = applied_in get_meta (fst x)" if "x \<in> set xs" for x
    using that by (auto simp: xs_def applied_in_def locator_entry_def split: sum.splits option.splits)
  have "(\<forall>b \<in> set missing. \<not> applied_in get_meta b) \<and> (last_block = genesis \<and> missing = rev hs \<or>
      applied_in get_meta last_block \<and> (\<exists>older. rev hs = older @ last_block # missing))"
    using last_applied_from_cases [of 0 xs None]
  proof (elim disjE exE conjE)
    assume none: "last_applied_from 0 xs None = None" "\<forall>x \<in> set xs. \<not> snd x"
    then have "last_block = genesis" "missing = map fst xs"
      using assms by (simp_all add: split_history_def Let_def xs_def)
    moreover have "set hs = fst ` set xs"
      using arg_cong [OF fst_xs, of set] by simp
    ultimately show ?thesis
      using none(2) snd_xs fst_xs by auto
  next
    fix pre b post
    assume xs: "xs = pre @ (b, True) # post" "\<forall>x \<in> set post. \<not> snd x" "last_applied_from 0 xs None = Some (0 + length pre)"
    then have r: "last_block = b" "missing = map fst post"
      using assms enumerate_after [of pre "(b, True)" post] unfolding split_history_def Let_def xs_def [symmetric]
      by (simp_all add: nth_append)
    have "rev hs = map fst pre @ b # missing"
      using fst_xs xs(1) r by simp
    moreover have "applied_in get_meta b" "\<forall>c \<in> set missing. \<not> applied_in get_meta c"
      using snd_xs [of "(b, True)"] snd_xs xs r by auto
    ultimately show ?thesis
      using r by blast
  qed
  then show "\<forall>b \<in> set missing. \<not> applied_in get_meta b"
    "last_block = genesis \<and> missing = rev hs \<or> applied_in get_meta last_block \<and> (\<exists>older. rev hs = older @ last_block # missing)"
    by blast+
qed

section \<open>Properties\<close>

text \<open>
  Property C19. The history of a head consists of its ancestors at the distances given by the
  seeded steps, strictly increasing: the entries run from the newest to the oldest. There are
  at most as many as asked for; when the chain ends earlier, the history is closed with the
  caboose, unless that is already its last entry. Nothing is written.
\<close>

theorem compute_history_correct:
  assumes "pred_index kv view good" "good s" "index_ok (view s)" "length b = LEN_BLOCK_HASH" "n \<le> 255"
    "steps sha256 n (step_init sha256 sd b) = (vs, st')"
  shows "(\<exists>hs. length hs \<le> n \<and> (\<forall>i < length hs. iter_opt (direct (view s)) (distance vs (Suc i)) b = Some (hs ! i)) \<and>
      (if length hs = n then compute_history kv sha256 caboose b n sd s = (Inr hs, s)
       else iter_opt (direct (view s)) (distance vs (Suc (length hs))) b = None \<and>
         compute_history kv sha256 caboose b n sd s =
           (Inr (hs @ (case caboose of None \<Rightarrow> [] | Some c \<Rightarrow> if last (b # hs) \<noteq> head_block_hash c then [head_block_hash c] else [])), s))) \<and>
    (\<forall>i < n. distance vs i < distance vs (Suc i))"
proof -
  note st' = assms(6)
  have "n \<le> 310"
    using assms(5) by simp
  note sp = steps_spec [OF step_init_at _ st', simplified, OF this]
  define ds where "ds = map (\<lambda>v. nat (sint v)) vs"
  define hs where "hs = hops (direct (view s)) ds b"
  have dist: "distance vs i = sum_list (take i ds)" for i
    by (simp add: distance_def ds_def take_map)
  have run: "compute_history kv sha256 caboose b n sd s =
      (Inr (if length hs = n then hs else close_history caboose (last (b # hs)) hs), s)"
    using pred_index.history_loop_spec [OF assms(1-4) step_init_at _ st', of "[]" caboose] \<open>n \<le> 310\<close>
    st' by (cases n) (simp_all add: compute_history_def Let_def hs_def ds_def ret_def)
  have "length ds = n"
    using sp by (simp add: ds_def)
  then have hs: "length hs \<le> n" "\<forall>i < length hs. iter_opt (direct (view s)) (distance vs (Suc i)) b = Some (hs ! i)"
    "length hs \<noteq> n \<Longrightarrow> iter_opt (direct (view s)) (distance vs (Suc (length hs))) b = None"
    using length_hops [of "direct (view s)" ds b] hops_nth [of _ "direct (view s)" ds b] hops_stop [of "direct (view s)" ds b]
    by (auto simp: hs_def dist)
  have "distance vs i < distance vs (Suc i)" if "i < n" for i
  proof -
    have "(1 :: int) \<le> x - x div 2" if "1 \<le> x" for x
      using that by linarith
    then have "(1 :: int) \<le> 2 ^ (i div 10) - 2 ^ (i div 10) div 2"
      by simp
    then have "1 \<le> sint (vs ! i)"
      using sp that by (meson order_trans)
    then show ?thesis
      using that sp by (simp add: distance_def take_Suc_conv_app_nth)
  qed
  then show ?thesis
    using hs run close_history_last [of caboose b hs] by auto
qed

theorem compute_history_correct_witness:
  "\<exists>s hs. compute_history index_kv (\<lambda>_. replicate 32 7) (Some (new_head (replicate 32 3) 0 [])) (replicate 32 7) 1
     \<lparr>sender_id = [], receiver_id = []\<rparr> s = (Inr hs, s)"
proof -
  obtain s where s: "pdb.tinv s" "index_ok (pdb.tview s)"
    by (rule one_block_index)
  obtain vs st' where "steps (\<lambda>_. replicate 32 7) 1 (step_init (\<lambda>_. replicate 32 7) \<lparr>sender_id = [], receiver_id = []\<rparr> (replicate 32 7)) = (vs, st')"
    by (rule prod.exhaust)
  from compute_history_correct [OF pidx.pred_index_axioms, OF s _ _ this, of "Some (new_head (replicate 32 3) 0 [])"]
  show ?thesis
    by (auto simp: layout split: if_splits)
qed

text \<open>
  The history a peer offers is cut at its last applied block: the blocks to bootstrap are
  the part above that block, from the oldest to the newest, none of them is applied, and the
  bootstrap starts from that block, or from the genesis with the whole history when no block of
  it is applied. The bootstrapper is sent exactly this, and only if a block is missing; the block
  itself is always among the missing ones unless it is applied.
\<close>

theorem schedule_history_bootstrap_correct:
  "\<exists>last_block missing. (\<forall>b \<in> set missing. \<not> applied_in get_meta b) \<and>
    (last_block = genesis \<and> missing = rev (extend_history bh history) \<or>
     applied_in get_meta last_block \<and> (\<exists>older. rev (extend_history bh history) = older @ last_block # missing)) \<and>
    schedule_history_bootstrap get_meta (Inr new_actor) cid genesis peer bh history bootstrapper =
      (if missing = [] then Inr (bootstrapper, [])
       else let a = (case bootstrapper of Some a \<Rightarrow> a | None \<Rightarrow> new_actor) in
         Inr (Some a, [(a, \<lparr>sb_peer_id = peer, sb_chain_id = cid, sb_last_applied_block = last_block,
           sb_missing_history = missing, sb_to_level = h_level (bh_header bh)\<rparr>)])) \<and>
    {bh_hash bh, h_predecessor (bh_header bh)} \<subseteq> set (extend_history bh history)"
proof -
  obtain last_block missing where sp: "split_history get_meta genesis (extend_history bh history) = (last_block, missing)"
    by (rule prod.exhaust)
  have "{bh_hash bh, h_predecessor (bh_header bh)} \<subseteq> set (extend_history bh history)"
    by (auto simp: extend_history_def Let_def)
  moreover have "schedule_history_bootstrap get_meta (Inr new_actor) cid genesis peer bh history bootstrapper =
      (if missing = [] then Inr (bootstrapper, [])
       else let a = (case bootstrapper of Some a \<Rightarrow> a | None \<Rightarrow> new_actor) in
         Inr (Some a, [(a, \<lparr>sb_peer_id = peer, sb_chain_id = cid, sb_last_applied_block = last_block,
           sb_missing_history = missing, sb_to_level = h_level (bh_header bh)\<rparr>)]))"
    by (cases bootstrapper) (simp_all add: schedule_history_bootstrap_def Let_def sp)
  ultimately show ?thesis
    using split_history_cases [OF sp] by blast
qed

theorem schedule_history_bootstrap_correct_witness:
  "schedule_history_bootstrap (\<lambda>_. Inr None) (Inr (1 :: nat)) [] [9] ''peer'' sample_header [] None =
     Inr (Some 1, [(1, \<lparr>sb_peer_id = ''peer'', sb_chain_id = [], sb_last_applied_block = [9],
       sb_missing_history = rev (extend_history sample_header []), sb_to_level = h_level (bh_header sample_header)\<rparr>)])"
proof -
  have "\<not> applied_in (\<lambda>_. Inr None) c" for c
    by (simp add: applied_in_def locator_entry_def)
  moreover have "extend_history sample_header [] \<noteq> []"
    by (simp add: extend_history_def Let_def)
  ultimately show ?thesis
    using schedule_history_bootstrap_correct [of "\<lambda>_. Inr None" "[9]" sample_header "[]" "1 :: nat" "[]" "''peer''" None]
    by (auto simp: Let_def)
qed

end
