(* ===== verification/OperationsStorage.thy ===== *)
theory OperationsStorage
  imports Serial BlockMetaStorage Messages
begin

text \<open>
  Operations of blocks (\<^verbatim>\<open>storage/src/operations_storage.rs\<close>): one message per block and
  validation pass, read back with a prefix iterator over the passes of a block.
\<close>

section \<open>Keys\<close>

record operation_key =
  ok_block_hash :: block_hash
  ok_validation_pass :: byte

definition new_operation_key :: "block_hash \<Rightarrow> byte \<Rightarrow> operation_key" where
  "new_operation_key h vp = \<lparr>ok_block_hash = h, ok_validation_pass = vp\<rparr>"

text \<open>The pass is a signed byte; the conversion from a message clamps negative passes.\<close>

definition operation_key_of :: "operations_for_block \<Rightarrow> operation_key" where
  "operation_key_of ops = \<lparr>ok_block_hash = ofb_hash ops,
     ok_validation_pass = (if 0 \<le> sint (ofb_validation_pass ops) then ofb_validation_pass ops else 0)\<rparr>"

definition operation_key_decode :: "bytes \<Rightarrow> schema_error failure + operation_key" where
  "operation_key_decode bs =
     (if length bs < LEN_BLOCK_HASH + 1 then Inl (Err DecodeError)
      else and_then (hash_from_bytes LEN_BLOCK_HASH (take LEN_BLOCK_HASH bs)) (\<lambda>h.
        Inr \<lparr>ok_block_hash = h, ok_validation_pass = bs ! LEN_BLOCK_HASH\<rparr>))"

definition operation_key_encode :: "operation_key \<Rightarrow> schema_error + bytes" where
  "operation_key_encode k = Inr (ok_block_hash k @ [ok_validation_pass k])"

definition operation_key_codec :: "operation_key codec" where
  "operation_key_codec = \<lparr>encode = operation_key_encode, decode = operation_key_decode\<rparr>"

lemma operation_key_roundtrip:
  "length (ok_block_hash k) = LEN_BLOCK_HASH \<Longrightarrow> operation_key_decode (ok_block_hash k @ [ok_validation_pass k]) = Inr k"
  by (simp add: operation_key_decode_def hash_from_bytes_def nth_append)

section \<open>Operations\<close>

text \<open>The store and its prefix iterator, which gives keys and values as they decode.\<close>

record 's ops_backend =
  operations_kv :: "('s, operation_key, operations_for_blocks_message) kv_store"
  ops_prefix_iterator :: "operation_key \<Rightarrow>
    ('s, ((schema_error + operation_key) \<times> (schema_error + operations_for_blocks_message)) list) db_act"

definition ops_put_operations :: "'s ops_backend \<Rightarrow> operations_for_blocks_message \<Rightarrow> ('s, unit) storage_act" where
  "ops_put_operations B msg =
     (let key = \<lparr>ok_block_hash = ofb_hash (operations_for_block msg),
                 ok_validation_pass = ofb_validation_pass (operations_for_block msg)\<rparr> in
      storageA (kv_put (operations_kv B) key msg))"

definition ops_get :: "'s ops_backend \<Rightarrow> operation_key \<Rightarrow> ('s, operations_for_blocks_message option) storage_act" where
  "ops_get B key = storageA (kv_get (operations_kv B) key)"

fun push_values :: "('k \<times> (schema_error + 'v)) list \<Rightarrow> storage_error failure + 'v list" where
  "push_values [] = Inr []"
| "push_values ((_, Inl e) # rest) = Inl (Err (DBErr (SchemaErr e)))"
| "push_values ((_, Inr v) # rest) = and_then (push_values rest) (\<lambda>vs. Inr (v # vs))"

definition signed_pass :: "operations_for_blocks_message \<Rightarrow> int" where
  "signed_pass msg = sint (ofb_validation_pass (operations_for_block msg))"

definition get_operations :: "'s ops_backend \<Rightarrow> block_hash \<Rightarrow> ('s, operations_for_blocks_message list) storage_act" where
  "get_operations B h =
     bindA (storageA (ops_prefix_iterator B \<lparr>ok_block_hash = h, ok_validation_pass = 0\<rparr>)) (\<lambda>items.
     bindA (liftR (push_values items)) (\<lambda>ops.
     ret (sort_key signed_pass ops)))"

section \<open>Laws\<close>

text \<open>
  The iterator goes through the entries of one block in the order of their passes.
\<close>

definition block_entries :: "(operation_key \<rightharpoonup> operations_for_blocks_message) \<Rightarrow> block_hash \<Rightarrow> (operation_key \<times> operations_for_blocks_message) list" where
  "block_entries v h =
     List.map_filter (\<lambda>p. let k = \<lparr>ok_block_hash = h, ok_validation_pass = word_of_nat p\<rparr> in map_option (Pair k) (v k)) [0..<256]"

locale operations_store = kv_contract "operations_kv B" view inv_ok "\<lambda>k. length (ok_block_hash k) = LEN_BLOCK_HASH" "\<lambda>_. True"
  for B :: "'s ops_backend" and view inv_ok +
  assumes prefix_law: "inv_ok s \<Longrightarrow> length (ok_block_hash k) = LEN_BLOCK_HASH \<Longrightarrow>
    ops_prefix_iterator B k s = (Inr (map (\<lambda>(k, v). (Inr k, Inr v)) (block_entries (view s) (ok_block_hash k))), s)"

text \<open>Every message is filed under its own block and pass.\<close>

definition filed :: "(operation_key \<rightharpoonup> operations_for_blocks_message) \<Rightarrow> bool" where
  "filed v \<longleftrightarrow> (\<forall>k m. v k = Some m \<longrightarrow>
     k = \<lparr>ok_block_hash = ofb_hash (operations_for_block m), ok_validation_pass = ofb_validation_pass (operations_for_block m)\<rparr>)"

lemma push_values_ok: "push_values (map (\<lambda>(k, v). (f k, Inr v)) kvs) = Inr (map snd kvs)"
  by (induction kvs) auto

lemma nat_of_byte: "\<exists>p < 256. b = (word_of_nat p :: byte)"
proof -
  have "unat b < 256"
    using unsigned_less [of b, where ?'a = nat] by simp
  then show ?thesis
    by (intro exI [of _ "unat b"]) simp
qed

lemma set_block_entries: "set (map snd (block_entries v h)) = {m. \<exists>p. v \<lparr>ok_block_hash = h, ok_validation_pass = p\<rparr> = Some m}"
proof -
  have "m \<in> set (map snd (block_entries v h))" if "v \<lparr>ok_block_hash = h, ok_validation_pass = p\<rparr> = Some m" for m p
    using that nat_of_byte [of p] by (force simp: block_entries_def map_filter_def Let_def)
  then show ?thesis
    by (auto simp: block_entries_def map_filter_def Let_def)
qed

lemma passes_distinct:
  assumes "filed v"
  shows "distinct (map signed_pass (map snd (block_entries v h)))"
proof -
  define key where "key p = \<lparr>ok_block_hash = h, ok_validation_pass = (word_of_nat p :: byte)\<rparr>" for p
  define ps where "ps = filter (\<lambda>p. v (key p) \<noteq> None) [0..<256]"
  have e: "map snd (block_entries v h) = map (\<lambda>p. the (v (key p))) ps"
    by (auto simp: block_entries_def map_filter_def Let_def comp_def key_def ps_def)
  have "signed_pass (the (v (key p))) = sint (word_of_nat p :: byte)" if "p \<in> set ps" for p
  proof -
    from that obtain m where m: "v (key p) = Some m"
      by (auto simp: ps_def)
    then have "ofb_validation_pass (operations_for_block m) = word_of_nat p"
      using assms unfolding filed_def key_def by (metis operation_key.ext_inject)
    with m show ?thesis
      by (simp add: signed_pass_def)
  qed
  then have "map signed_pass (map (\<lambda>p. the (v (key p))) ps) = map (\<lambda>p. sint (word_of_nat p :: byte)) ps"
    by simp
  moreover have "inj_on (\<lambda>p. sint (word_of_nat p :: byte)) (set ps)"
  proof (rule inj_onI)
    fix p q
    assume pq: "p \<in> set ps" "q \<in> set ps" "sint (word_of_nat p :: byte) = sint (word_of_nat q :: byte)"
    then have "p < 256" "q < 256"
      using pq(1,2) by (simp_all add: ps_def)
    have "(word_of_nat p :: byte) = word_of_nat q"
      using arg_cong [OF pq(3), of "word_of_int :: int \<Rightarrow> byte"] by simp
    then have "unat (word_of_nat p :: byte) = unat (word_of_nat q :: byte)"
      by (rule arg_cong)
    with \<open>p < 256\<close> \<open>q < 256\<close> show "p = q"
      by (simp add: unat_of_nat)
  qed
  moreover have "distinct ps"
    by (simp add: ps_def)
  ultimately show ?thesis
    unfolding e by (simp only: distinct_map)
qed

lemma sort_key_strict:
  "distinct (map f xs) \<Longrightarrow> sorted_wrt (<) (map f (sort_key f xs))"
  by (simp add: strict_sorted_iff distinct_map)

context operations_store
begin

lemma put_run:
  assumes "inv_ok s" "length (ofb_hash (operations_for_block msg)) = LEN_BLOCK_HASH"
  obtains s' where "ops_put_operations B msg s = (Inr (), s')" "inv_ok s'"
    "view s' = (view s)(\<lparr>ok_block_hash = ofb_hash (operations_for_block msg),
       ok_validation_pass = ofb_validation_pass (operations_for_block msg)\<rparr> \<mapsto> msg)"
  using put_law [of s "\<lparr>ok_block_hash = ofb_hash (operations_for_block msg),
       ok_validation_pass = ofb_validation_pass (operations_for_block msg)\<rparr>" msg] assms
  by (auto simp: ops_put_operations_def storageA_def map_errA_def)

lemma get_operations_run:
  assumes "inv_ok s" "length h = LEN_BLOCK_HASH"
  shows "get_operations B h s = (Inr (sort_key signed_pass (map snd (block_entries (view s) h))), s)"
  using prefix_law [of s "\<lparr>ok_block_hash = h, ok_validation_pass = 0\<rparr>"] assms
  by (simp add: get_operations_def bindA_def storageA_def map_errA_def liftR_def push_values_ok ret_def)

end

section \<open>The storage on RocksDB\<close>

definition operations_schema :: "operations_for_blocks_message codec \<Rightarrow> (operation_key, operations_for_blocks_message) schema" where
  "operations_schema bincode = \<lparr>cf_name = ''operations_storage'', key_codec = operation_key_codec, value_codec = bincode\<rparr>"

definition put_path_item :: "path_item \<Rightarrow> bytes" where
  "put_path_item i = (case i of PathRight h \<Rightarrow> 0 # put_bytes h | PathLeft h \<Rightarrow> 1 # put_bytes h)"

definition get_path_item :: "path_item getter" where
  "get_path_item bs =
     (case bs of [] \<Rightarrow> None | b # rest \<Rightarrow> get_via (if b = 0 then PathRight else PathLeft) get_bytes rest)"

lemma path_item_code: "prefix_code put_path_item get_path_item"
  by unfold_locales (simp add: put_path_item_def get_path_item_def get_via_def bytes_code.get_put split: path_item.split)

definition put_operation :: "operation \<Rightarrow> bytes" where
  "put_operation o' = put_pair put_bytes put_bytes (op_branch o', op_data o')"

definition get_operation :: "operation getter" where
  "get_operation = get_via (\<lambda>(b, d). \<lparr>op_branch = b, op_data = d\<rparr>) (get_pair get_bytes get_bytes)"

lemma operation_code: "prefix_code put_operation get_operation"
  unfolding put_operation_def get_operation_def
  by (rule via_code, (rule pair_code bytes_code.prefix_code_axioms)+) simp

definition put_message :: "operations_for_blocks_message \<Rightarrow> bytes" where
  "put_message m = put_pair put_bytes (put_pair put_byte (put_pair (put_list put_path_item) (put_list put_operation)))
     (ofb_hash (operations_for_block m), ofb_validation_pass (operations_for_block m), operation_hashes_path m, operations m)"

definition get_message :: "operations_for_blocks_message getter" where
  "get_message = get_via (\<lambda>(h, p, path, ops). \<lparr>operations_for_block = \<lparr>ofb_hash = h, ofb_validation_pass = p\<rparr>,
     operation_hashes_path = path, operations = ops\<rparr>)
     (get_pair get_bytes (get_pair get_byte (get_pair (get_list get_path_item) (get_list get_operation))))"

lemma message_code: "prefix_code put_message get_message"
  unfolding put_message_def get_message_def
  by (rule via_code, (rule pair_code list_code path_item_code operation_code bytes_code.prefix_code_axioms
      byte_code.prefix_code_axioms)+) simp

abbreviation msg_bincode :: "operations_for_blocks_message codec" where
  "msg_bincode \<equiv> code_codec put_message get_message"

interpretation ost: schema_store "map_rocks (\<lambda>_ _ _. Inl (Err ()))" "operations_schema msg_bincode"
  "\<lambda>r. r (cf_name (operations_schema msg_bincode))" "\<lambda>k. length (ok_block_hash k) = LEN_BLOCK_HASH" "\<lambda>_. True"
  "\<lambda>k. ok_block_hash k @ [ok_validation_pass k]" put_message
  by unfold_locales (simp_all add: operations_schema_def operation_key_codec_def operation_key_encode_def
      code_codec_laws [OF message_code])

definition mem_ops_backend :: "cfs ops_backend" where
  "mem_ops_backend = \<lparr>operations_kv = db_kv (map_rocks (\<lambda>_ _ _. Inl (Err ()))) (operations_schema msg_bincode),
     ops_prefix_iterator = (\<lambda>k r. (Inr (map (\<lambda>(k, v). (Inr k, Inr v)) (block_entries (ost.tview r) (ok_block_hash k))), r))\<rparr>"

interpretation mos: operations_store mem_ops_backend ost.tview ost.tinv
  using ost.kv.kv_contract_axioms
  by (simp add: operations_store_def operations_store_axioms_def mem_ops_backend_def)

lemma block_hash_size: "32 = LEN_BLOCK_HASH"
  by (simp add: LEN_BLOCK_HASH_def)

lemma empty_ops: "ost.tinv empty_cfs" "ost.tview empty_cfs = Map.empty"
  by (simp_all add: empty_cfs_def ost.tinv_def ost.tview_def fun_eq_iff)

section \<open>Properties\<close>

text \<open>
  Storing the operations of a pass succeeds and replaces what was stored for that block and
  pass; the operations of a block are then read back as its stored messages, the new one among them,
  once each and in strictly increasing order of their passes.
\<close>

theorem operations_read_back:
  assumes "operations_store B view inv_ok" "inv_ok s" "filed (view s)"
    "operations_for_block msg = \<lparr>ofb_hash = h, ofb_validation_pass = p\<rparr>" "length h = LEN_BLOCK_HASH"
  shows "\<exists>s' ms. ops_put_operations B msg s = (Inr (), s') \<and> inv_ok s' \<and> filed (view s') \<and>
    get_operations B h s' = (Inr ms, s') \<and> sorted_wrt (<) (map signed_pass ms) \<and>
    set ms = {m. \<exists>q. ((view s)(\<lparr>ok_block_hash = h, ok_validation_pass = p\<rparr> \<mapsto> msg)) \<lparr>ok_block_hash = h, ok_validation_pass = q\<rparr> = Some m}"
proof -
  obtain s' where s': "ops_put_operations B msg s = (Inr (), s')" "inv_ok s'"
    "view s' = (view s)(\<lparr>ok_block_hash = h, ok_validation_pass = p\<rparr> \<mapsto> msg)"
    using operations_store.put_run [OF assms(1,2), of msg] assms(4,5) by auto
  have f: "filed (view s')"
    using assms(3,4) s'(3) by (simp add: filed_def)
  show ?thesis
    using operations_store.get_operations_run [OF assms(1) s'(2) assms(5)] s'(1,2) f
      sort_key_strict [OF passes_distinct [OF f, of h]] set_block_entries [of "view s'" h]
    by (intro exI [of _ s'] exI [of _ "sort_key signed_pass (map snd (block_entries (view s') h))"]) (simp only: s'(3)
        set_sort)
qed

theorem operations_read_back_witness:
  "\<exists>s' ms. ops_put_operations mem_ops_backend
      \<lparr>operations_for_block = \<lparr>ofb_hash = replicate 32 7, ofb_validation_pass = 2\<rparr>, operation_hashes_path = [], operations = []\<rparr>
      empty_cfs = (Inr (), s') \<and> get_operations mem_ops_backend (replicate 32 7) s' = (Inr ms, s') \<and>
    set ms = {\<lparr>operations_for_block = \<lparr>ofb_hash = replicate 32 7, ofb_validation_pass = 2\<rparr>, operation_hashes_path = [], operations = []\<rparr>}"
  using operations_read_back [OF mos.operations_store_axioms, OF empty_ops(1), of
      "\<lparr>operations_for_block = \<lparr>ofb_hash = replicate 32 7, ofb_validation_pass = 2\<rparr>, operation_hashes_path = [], operations = []\<rparr>"
      "replicate 32 7" 2]
  by (auto simp: empty_ops(2) filed_def block_hash_size)

end
