(* ===== verification/ChainState.thy ===== *)
theory ChainState
  imports History OperationsStorage OperationsMeta Bootstrap
begin

text \<open>
  The chain state (\<^verbatim>\<open>shell/src/state/chain_state.rs\<close>): which branches and heads offered by peers
  are accepted, and how a received header or a received pass of operations goes through the
  storages. Every storage is one part of the state.
\<close>

section \<open>State\<close>

record ('r, 'g) chain_stores =
  cs_blocks :: "('r, 'r, 'r, 'g) block_stores"
  cs_meta :: 'r
  cs_additional :: 'r
  cs_ops :: 'r
  cs_ops_meta :: 'r
  cs_pred :: 'r
  cs_chain_meta :: 'r

record ('r, 'g) chain_backend =
  cb_blocks :: "('r, 'r, 'r, 'g) block_backend"
  cb_meta :: "('r, block_hash, meta) kv_store"
  cb_additional :: "('r, block_hash, block_additional_data) kv_store"
  cb_ops :: "'r ops_backend"
  cb_ops_meta :: "'r ops_kv"
  cb_pred :: "'r pred_kv"
  cb_chain_meta :: "'r chain_meta_kv"

type_synonym ('r, 'g, 'a) chain_act = "(('r, 'g) chain_stores, 'a) storage_act"

definition in_blocks :: "(('r, 'r, 'r, 'g) block_stores, 'a) storage_act \<Rightarrow> ('r, 'g, 'a) chain_act" where
  "in_blocks m s = (case m (cs_blocks s) of (r, b) \<Rightarrow> (r, s\<lparr>cs_blocks := b\<rparr>))"

definition in_meta :: "('r, 'a) storage_act \<Rightarrow> ('r, 'g, 'a) chain_act" where
  "in_meta m s = (case m (cs_meta s) of (r, b) \<Rightarrow> (r, s\<lparr>cs_meta := b\<rparr>))"

definition in_additional :: "('r, 'a) storage_act \<Rightarrow> ('r, 'g, 'a) chain_act" where
  "in_additional m s = (case m (cs_additional s) of (r, b) \<Rightarrow> (r, s\<lparr>cs_additional := b\<rparr>))"

definition in_ops :: "('r, 'a) storage_act \<Rightarrow> ('r, 'g, 'a) chain_act" where
  "in_ops m s = (case m (cs_ops s) of (r, b) \<Rightarrow> (r, s\<lparr>cs_ops := b\<rparr>))"

definition in_pred :: "('r, 'a) storage_act \<Rightarrow> ('r, 'g, 'a) chain_act" where
  "in_pred m s = (case m (cs_pred s) of (r, b) \<Rightarrow> (r, s\<lparr>cs_pred := b\<rparr>))"

definition in_chain_meta :: "('r, 'a) storage_act \<Rightarrow> ('r, 'g, 'a) chain_act" where
  "in_chain_meta m s = (case m (cs_chain_meta s) of (r, b) \<Rightarrow> (r, s\<lparr>cs_chain_meta := b\<rparr>))"

definition in_ops_meta :: "('r, 'a) storage_act \<Rightarrow> ('r, 'g, 'a) chain_act" where
  "in_ops_meta m s = (case m (cs_ops_meta s) of (r, b) \<Rightarrow> (r, s\<lparr>cs_ops_meta := b\<rparr>))"

section \<open>Accepting branches and heads\<close>

datatype block_acceptance_result =
    AcceptBlock
  | IgnoreBlock
  | UnknownBranch
  | MutlipassValidationError protocol_service_error

text \<open>Reading the current head may fail on a poisoned lock.\<close>

definition can_accept_branch :: "chain_id \<Rightarrow> chain_id \<Rightarrow> block_header \<Rightarrow> state_error + head option \<Rightarrow> state_error + bool" where
  "can_accept_branch cid branch_chain_id branch_head current_head_lock =
     (if cid \<noteq> branch_chain_id then Inr False
      else if sint (h_level branch_head) \<le> 0 then Inr False
      else and_then current_head_lock (\<lambda>current_head.
        case current_head of
          Some ch \<Rightarrow> Inr (is_fitness_increases ch (h_fitness branch_head))
        | None \<Rightarrow> Inr True))"

text \<open>The calls made on the protocol runner, and the node's clock and header hash.\<close>

record validation_env =
  assert_encoding_for_protocol_data :: "protocol_hash \<Rightarrow> bytes \<Rightarrow> protocol_service_error + unit"
  begin_application :: "chain_id \<Rightarrow> block_header \<Rightarrow> block_header \<Rightarrow> protocol_service_error + unit"
  message_hash :: "block_header \<Rightarrow> string + bytes"
  time_now :: int
  from_timestamp :: "int \<Rightarrow> int option"

definition check_multipass_validation :: "validation_env \<Rightarrow> chain_id \<Rightarrow> protocol_hash \<Rightarrow> block_header \<Rightarrow>
    block_header_with_hash option \<Rightarrow> protocol_service_error option" where
  "check_multipass_validation E cid ph hdr pred =
     (case assert_encoding_for_protocol_data E ph (h_protocol_data hdr) of
        Inl e \<Rightarrow> Some e
      | Inr _ \<Rightarrow> (case pred of
          None \<Rightarrow> None
        | Some p \<Rightarrow> (case begin_application E cid (bh_header p) hdr of Inl e \<Rightarrow> Some e | Inr _ \<Rightarrow> None)))"

type_synonym ('r, 'g, 'a) state_act = "(('r, 'g) chain_stores, state_error failure, 'a) act"

definition stateA :: "('r, 'g, 'a) chain_act \<Rightarrow> ('r, 'g, 'a) state_act" where
  "stateA m = map_errA (map_failure StStorageError) m"

definition get_meta_of :: "('r, 'g) chain_backend \<Rightarrow> block_hash \<Rightarrow> ('r, 'g, meta option) state_act" where
  "get_meta_of B h = stateA (in_meta (bms_get (cb_meta B) h))"

definition get_additional_of :: "('r, 'g) chain_backend \<Rightarrow> block_hash \<Rightarrow> ('r, 'g, block_additional_data option) state_act" where
  "get_additional_of B h = stateA (in_additional (get_additional_data (cb_additional B) h))"

definition get_block_of :: "('r, 'g) chain_backend \<Rightarrow> block_hash \<Rightarrow> ('r, 'g, block_header_with_hash option) state_act" where
  "get_block_of B h = stateA (in_blocks (bs_get (cb_blocks B) h))"

text \<open>First by the predecessor: its protocol, its header if it is applied, and whether it is missing.\<close>

definition protocol_by_predecessor :: "('r, 'g) chain_backend \<Rightarrow> block_header \<Rightarrow>
    ('r, 'g, protocol_hash option \<times> block_header_with_hash option \<times> bool) state_act" where
  "protocol_by_predecessor B hdr =
     bindA (get_meta_of B (h_predecessor hdr)) (\<lambda>r.
     case r of
       None \<Rightarrow> ret (None, None, True)
     | Some predecessor_meta \<Rightarrow>
         if \<not> m_is_applied predecessor_meta then ret (None, None, False)
         else bindA (get_additional_of B (h_predecessor hdr)) (\<lambda>a.
           case a of
             None \<Rightarrow> fail (Err (ProcessingError ''Missing data for applied predecessor''))
           | Some data \<Rightarrow> bindA (get_block_of B (h_predecessor hdr)) (\<lambda>p.
               case p of
                 Some predecessor_header \<Rightarrow> ret (Some (bad_next_protocol_hash data), Some predecessor_header, False)
               | None \<Rightarrow> ret (Some (bad_next_protocol_hash data), None, True))))"

definition resolve_protocol :: "('r, 'g) chain_backend \<Rightarrow> block_header \<Rightarrow> head \<Rightarrow>
    ('r, 'g, protocol_hash option \<times> block_header_with_hash option \<times> bool) state_act" where
  "resolve_protocol B hdr current_head =
     bindA (protocol_by_predecessor B hdr) (\<lambda>(ph, predecessor_header, missing_predecessor).
     case ph of
       Some _ \<Rightarrow> ret (ph, predecessor_header, missing_predecessor)
     | None \<Rightarrow>
         bindA (get_block_of B (head_block_hash current_head)) (\<lambda>ch.
         case ch of
           None \<Rightarrow> fail (Err (ProcessingError ''Missing data for applied current_head''))
         | Some current_head_header \<Rightarrow>
             if h_proto (bh_header current_head_header) = h_proto hdr
             then bindA (get_additional_of B (head_block_hash current_head)) (\<lambda>a.
               case a of
                 Some metadata \<Rightarrow> ret (Some (bad_next_protocol_hash metadata), predecessor_header, missing_predecessor)
               | None \<Rightarrow> fail (Err (ProcessingError ''Missing `next_protocol` attribute for applied predecessor'')))
             else ret (None, predecessor_header, missing_predecessor)))"

definition can_accept_head :: "validation_env \<Rightarrow> ('r, 'g) chain_backend \<Rightarrow> chain_id \<Rightarrow> chain_id \<Rightarrow> block_header \<Rightarrow>
    state_error + head option \<Rightarrow> ('r, 'g, block_acceptance_result) state_act" where
  "can_accept_head E B cid head_chain_id hdr current_head_lock =
     (if cid \<noteq> head_chain_id then ret IgnoreBlock
      else if sint (h_level hdr) \<le> 0 then ret IgnoreBlock
      else
        bindA (liftR (map_err Err current_head_lock)) (\<lambda>current.
        case current of
          None \<Rightarrow> ret IgnoreBlock
        | Some current_head \<Rightarrow>
            bindA (liftR (map_err (\<lambda>e. Err (ProcessingError e)) (is_same_head (message_hash E) current_head hdr))) (\<lambda>same.
            if same then ret AcceptBlock
            else bindA (liftR (is_future_block (time_now E) (from_timestamp E) hdr)) (\<lambda>future.
            if future then ret IgnoreBlock
            else if \<not> is_fitness_increases_or_same current_head (h_fitness hdr) then ret IgnoreBlock
            else bindA (resolve_protocol B hdr current_head) (\<lambda>(ph, predecessor_header, missing_predecessor).
            if missing_predecessor then ret UnknownBranch
            else case ph of
              Some protocol_hash \<Rightarrow>
                (case check_multipass_validation E head_chain_id protocol_hash hdr predecessor_header of
                   Some e \<Rightarrow> ret (MutlipassValidationError e)
                 | None \<Rightarrow> ret AcceptBlock)
            | None \<Rightarrow> ret UnknownBranch)))))"

section \<open>Processing headers and operations\<close>

datatype bootstrapper_message =
    UpdateBlockState block_hash inner_block_state string
  | UpdateOperationsState block_hash string

definition process_block_header_operations :: "('r, 'g) chain_backend \<Rightarrow> block_header_with_hash \<Rightarrow>
    ('r, 'g, bool \<times> byte set option) chain_act" where
  "process_block_header_operations B bh =
     bindA (in_ops_meta (oms_get (cb_ops_meta B) (bh_hash bh))) (\<lambda>r.
     case r of
       Some m \<Rightarrow> ret (om_is_complete m, get_missing_validation_passes m)
     | None \<Rightarrow> in_ops_meta (oms_put_block_header (cb_ops_meta B) bh))"

definition process_injected_block_header_operations :: "('r, 'g) chain_backend \<Rightarrow> block_header_with_hash \<Rightarrow>
    ('r, 'g, bool) chain_act" where
  "process_injected_block_header_operations B bh =
     bindA (in_ops_meta (oms_get (cb_ops_meta B) (bh_hash bh))) (\<lambda>r.
     case r of
       Some m \<Rightarrow> ret (om_is_complete m)
     | None \<Rightarrow> bindA (in_ops_meta (oms_put_block_header (cb_ops_meta B) bh)) (\<lambda>(is_complete, _). ret is_complete))"

text \<open>The result is whether the block is new, and what the bootstrapper is told, if one runs.\<close>

definition process_block_header_from_peer :: "('r, 'g) chain_backend \<Rightarrow> chain_id \<Rightarrow> bool \<Rightarrow> block_header_with_hash \<Rightarrow>
    string \<Rightarrow> ('r, 'g, bool \<times> bootstrapper_message list) chain_act" where
  "process_block_header_from_peer B cid bootstrapper_runs bh peer_id =
     bindA (in_blocks (bs_put_block_header (cb_blocks B) bh)) (\<lambda>is_new_block.
     bindA (in_meta (put_block_header (cb_meta B) bh cid)) (\<lambda>block_metadata.
     bindA (process_block_header_operations B bh) (\<lambda>(are_operations_complete, _).
     ret (is_new_block,
       if bootstrapper_runs
       then [UpdateBlockState (bh_hash bh)
               \<lparr>operations_downloaded = are_operations_complete, inner_applied = m_is_applied block_metadata\<rparr> peer_id]
       else []))))"

definition process_injected_block_header :: "('r, 'g) chain_backend \<Rightarrow> chain_id \<Rightarrow> block_header_with_hash \<Rightarrow>
    ('r, 'g, meta \<times> bool \<times> bool) chain_act" where
  "process_injected_block_header B cid bh =
     bindA (in_blocks (bs_put_block_header (cb_blocks B) bh)) (\<lambda>is_new_block.
     bindA (in_meta (put_block_header (cb_meta B) bh cid)) (\<lambda>metadata.
     bindA (process_injected_block_header_operations B bh) (\<lambda>are_operations_complete.
     ret (metadata, is_new_block, are_operations_complete))))"

definition process_block_operations :: "('r, 'g) chain_backend \<Rightarrow> operations_for_blocks_message \<Rightarrow>
    ('r, 'g, bool \<times> byte set option) chain_act" where
  "process_block_operations B msg =
     bindA (in_ops_meta (oms_is_complete (cb_ops_meta B) (ofb_hash (operations_for_block msg)))) (\<lambda>complete.
     if complete then ret (True, None)
     else bindA (in_ops (ops_put_operations (cb_ops B) msg)) (\<lambda>_.
       in_ops_meta (oms_put_operations (cb_ops_meta B) msg)))"

definition process_block_operations_from_peer :: "('r, 'g) chain_backend \<Rightarrow> bool \<Rightarrow> block_hash \<Rightarrow> operations_for_blocks_message \<Rightarrow>
    string \<Rightarrow> ('r, 'g, bool \<times> bootstrapper_message list) state_act" where
  "process_block_operations_from_peer B bootstrapper_runs h msg peer_id =
     bindA (stateA (in_ops_meta (oms_is_complete (cb_ops_meta B) h))) (\<lambda>complete.
     bindA (if complete then ret (True, False)
            else bindA (stateA (process_block_operations B msg)) (\<lambda>(are_operations_complete, _).
              ret (are_operations_complete, are_operations_complete)))
       (\<lambda>(are_operations_complete, was_block_finished_now).
     ret (was_block_finished_now,
       if are_operations_complete \<and> bootstrapper_runs then [UpdateOperationsState h peer_id] else [])))"

section \<open>Operations injected by clients\<close>

datatype prevalidate_operation_error =
    PoUnknownBranch block_hash
  | PoBranchNotAppliedYet block_hash
  | PoPrevalidatorNotInitialized string
  | PoStorageError storage_error
  | PoValidationError operation_hash protocol_service_error
  | PoAlreadyInMempool operation_hash
  | PoUnexpectedError operation_hash string

definition prevalA :: "('r, 'g, 'a) chain_act \<Rightarrow> (('r, 'g) chain_stores, prevalidate_operation_error failure, 'a) act" where
  "prevalA m = map_errA (map_failure PoStorageError) m"

definition prevalidate_operation :: "('r, 'g) chain_backend \<Rightarrow> (chain_id \<Rightarrow> block_header \<Rightarrow> protocol_service_error + prevalidator_wrapper) \<Rightarrow>
    (prevalidator_wrapper \<Rightarrow> operation \<Rightarrow> protocol_service_error + validate_operation_result) \<Rightarrow>
    chain_id \<Rightarrow> operation_hash \<Rightarrow> operation \<Rightarrow> string + mempool_state \<Rightarrow>
    (('r, 'g) chain_stores, prevalidate_operation_error failure, validate_operation_result) act" where
  "prevalidate_operation B construct validate cid oph op mempool_lock =
     bindA (prevalA (in_meta (bms_get (cb_meta B) (op_branch op)))) (\<lambda>r.
     case r of
       None \<Rightarrow> fail (Err (PoUnknownBranch (op_branch op)))
     | Some metadata \<Rightarrow>
         if \<not> m_is_applied metadata then fail (Err (PoBranchNotAppliedYet (op_branch op)))
         else bindA (liftR (map_err (\<lambda>e. Err (PoUnexpectedError oph e)) mempool_lock)) (\<lambda>mempool.
           if is_already_in_mempool mempool oph then fail (Err (PoAlreadyInMempool oph))
           else case ms_predecessor mempool of
             None \<Rightarrow> fail (Err (PoPrevalidatorNotInitialized ''no head in mempool''))
           | Some mhead \<Rightarrow>
               bindA (prevalA (in_blocks (bs_get (cb_blocks B) mhead))) (\<lambda>b.
               case b of
                 None \<Rightarrow> fail (Err (PoUnknownBranch mhead))
               | Some mempool_head \<Rightarrow>
                   liftR (map_err (\<lambda>e. Err (PoValidationError oph e))
                     (and_then (construct cid (bh_header mempool_head)) (\<lambda>pv. validate pv op))))))"

section \<open>Consistency of the storages\<close>

record ('r, 'g) chain_views =
  cv_blocks :: "('r, 'r, 'r, 'g) block_views"
  cv_meta :: "'r \<Rightarrow> block_hash \<rightharpoonup> meta"
  cv_meta_ok :: "'r \<Rightarrow> bool"
  cv_additional :: "'r \<Rightarrow> block_hash \<rightharpoonup> block_additional_data"
  cv_additional_ok :: "'r \<Rightarrow> bool"
  cv_ops :: "'r \<Rightarrow> operation_key \<rightharpoonup> operations_for_blocks_message"
  cv_ops_ok :: "'r \<Rightarrow> bool"
  cv_ops_meta :: "'r \<Rightarrow> block_hash \<rightharpoonup> op_meta"
  cv_ops_meta_ok :: "'r \<Rightarrow> bool"
  cv_pred :: "'r \<Rightarrow> predecessor_key \<rightharpoonup> block_hash"
  cv_pred_ok :: "'r \<Rightarrow> bool"
  cv_chain_meta :: "'r \<Rightarrow> meta_key \<rightharpoonup> metadata_value"
  cv_chain_meta_ok :: "'r \<Rightarrow> bool"

definition block_map_of :: "('r, 'g) chain_views \<Rightarrow> ('r, 'g) chain_stores \<Rightarrow> block_map" where
  "block_map_of V s = blocks (cv_blocks V) (cs_blocks s)"

definition meta_of :: "('r, 'g) chain_views \<Rightarrow> ('r, 'g) chain_stores \<Rightarrow> block_hash \<rightharpoonup> meta" where
  "meta_of V s = cv_meta V (cs_meta s)"

definition ops_of :: "('r, 'g) chain_views \<Rightarrow> ('r, 'g) chain_stores \<Rightarrow> operation_key \<rightharpoonup> operations_for_blocks_message" where
  "ops_of V s = cv_ops V (cs_ops s)"

definition ops_meta_of :: "('r, 'g) chain_views \<Rightarrow> ('r, 'g) chain_stores \<Rightarrow> block_hash \<rightharpoonup> op_meta" where
  "ops_meta_of V s = cv_ops_meta V (cs_ops_meta s)"

lemmas views = block_map_of_def meta_of_def ops_of_def ops_meta_of_def

definition storages_ok :: "('r, 'g) chain_views \<Rightarrow> ('r, 'g) chain_stores \<Rightarrow> bool" where
  "storages_ok V s \<longleftrightarrow> stores_ok (cv_blocks V) (cs_blocks s) \<and> cv_meta_ok V (cs_meta s) \<and>
     cv_additional_ok V (cs_additional s) \<and> cv_ops_ok V (cs_ops s) \<and> cv_ops_meta_ok V (cs_ops_meta s) \<and>
     cv_pred_ok V (cs_pred s) \<and> cv_chain_meta_ok V (cs_chain_meta s)"

text \<open>
  Across the storages: a stored block has metadata that know its predecessor, and a record of
  its operations; a pass that is recorded as present has its operations stored.
\<close>

definition consistent :: "('r, 'g) chain_views \<Rightarrow> ('r, 'g) chain_stores \<Rightarrow> bool" where
  "consistent V s \<longleftrightarrow>
     (\<forall>h. block_map_of V s h \<noteq> None \<longrightarrow> (\<exists>m. meta_of V s h = Some m \<and> m_predecessor m \<noteq> None) \<and> ops_meta_of V s h \<noteq> None) \<and>
     (\<forall>h m p. ops_meta_of V s h = Some m \<longrightarrow> p \<in> present m \<longrightarrow> ops_of V s (new_operation_key h (word_of_nat p)) \<noteq> None)"

locale chain_laws =
  bl: block_storage_laws "cb_blocks B" "cv_blocks V" +
  bmk: block_meta_kv "cb_meta B" "cv_meta V" "cv_meta_ok V" +
  ad: kv_contract "cb_additional B" "cv_additional V" "cv_additional_ok V" "\<lambda>h. length h = LEN_BLOCK_HASH" "\<lambda>_. True" +
  ops: operations_store "cb_ops B" "cv_ops V" "cv_ops_ok V" +
  opm: ops_meta_kv "cb_ops_meta B" "cv_ops_meta V" "cv_ops_meta_ok V" +
  prd: pred_index "cb_pred B" "cv_pred V" "cv_pred_ok V" +
  cme: chain_meta "cb_chain_meta B" "cv_chain_meta V" "cv_chain_meta_ok V"
  for B :: "('r, 'g) chain_backend" and V :: "('r, 'g) chain_views"
begin

lemma process_header_operations_spec:
  assumes "storages_ok V s" "length (bh_hash bh) = LEN_BLOCK_HASH"
  obtains s' where
    "process_block_header_operations B bh s =
      (Inr (case ops_meta_of V s (bh_hash bh) of
         None \<Rightarrow> (h_validation_pass (bh_header bh) = 0, get_missing_validation_passes (new_op_meta (h_validation_pass (bh_header bh))))
       | Some m \<Rightarrow> (om_is_complete m, get_missing_validation_passes m)), s')"
    "process_injected_block_header_operations B bh s =
      (Inr (case ops_meta_of V s (bh_hash bh) of
         None \<Rightarrow> h_validation_pass (bh_header bh) = 0 | Some m \<Rightarrow> om_is_complete m), s')"
    "storages_ok V s'" "block_map_of V s' = block_map_of V s" "meta_of V s' = meta_of V s" "ops_of V s' = ops_of V s"
    "ops_meta_of V s' = (if ops_meta_of V s (bh_hash bh) = None
       then (ops_meta_of V s)(bh_hash bh \<mapsto> new_op_meta (h_validation_pass (bh_header bh))) else ops_meta_of V s)"
proof -
  let ?m = "new_op_meta (h_validation_pass (bh_header bh))"
  have ok: "cv_ops_meta_ok V (cs_ops_meta s)"
    using assms(1) by (simp add: storages_ok_def)
  note get = opm.oms_get_spec [OF ok assms(2)]
  show ?thesis
  proof (cases "ops_meta_of V s (bh_hash bh)")
    case None
    then obtain t where t: "oms_put (cb_ops_meta B) (bh_hash bh) ?m (cs_ops_meta s) = (Inr (), t)" "cv_ops_meta_ok V t"
      "cv_ops_meta V t = (cv_ops_meta V (cs_ops_meta s))(bh_hash bh \<mapsto> ?m)"
      using opm.oms_put_spec [OF ok assms(2) new_op_meta_ok, of "h_validation_pass (bh_header bh)"]
      by (auto simp: merged_def ops_meta_of_def)
    with None assms(1) show ?thesis
      by (intro that [of "s\<lparr>cs_ops_meta := t\<rparr>"]) (simp_all add: process_block_header_operations_def
          process_injected_block_header_operations_def in_ops_meta_def bindA_def get oms_put_block_header_def Let_def ret_def
          views storages_ok_def new_op_meta_def)
  next
    case (Some m)
    with assms(1) show ?thesis
      by (intro that [of s]) (simp_all add: process_block_header_operations_def
          process_injected_block_header_operations_def in_ops_meta_def bindA_def get ret_def views)
  qed
qed

lemma store_header_spec:
  assumes "storages_ok V s" "header_ok bh cid" "room (meta_of V s)"
  obtains s1 where
    "bindA (in_blocks (bs_put_block_header (cb_blocks B) bh)) (\<lambda>is_new. bindA (in_meta (put_block_header (cb_meta B) bh cid)) (f is_new)) s =
      f (block_map_of V s (bh_hash bh) = None) (own_record (meta_of V s) bh cid) s1"
    "storages_ok V s1" "block_map_of V s1 = spec_put_header bh (block_map_of V s)"
    "meta_of V s1 = put_header_view (meta_of V s) bh cid" "ops_of V s1 = ops_of V s" "ops_meta_of V s1 = ops_meta_of V s"
proof -
  have ok: "stores_ok (cv_blocks V) (cs_blocks s)" "cv_meta_ok V (cs_meta s)" and len: "length (bh_hash bh) = LEN_BLOCK_HASH"
    using assms(1,2) by (simp_all add: storages_ok_def header_ok_def)
  obtain b' where b': "bs_put_block_header (cb_blocks B) bh (cs_blocks s) = (Inr (blocks (cv_blocks V) (cs_blocks s) (bh_hash bh) = None), b')"
    "stores_ok (cv_blocks V) b'" "blocks (cv_blocks V) b' = spec_put_header bh (blocks (cv_blocks V) (cs_blocks s))"
    using bl.put_block_header_spec [OF ok(1) len] by blast
  obtain m' where m': "put_block_header (cb_meta B) bh cid (cs_meta s) = (Inr (own_record (cv_meta V (cs_meta s)) bh cid), m')"
    "cv_meta_ok V m'" "cv_meta V m' = put_header_view (cv_meta V (cs_meta s)) bh cid"
    using bmk.put_block_header_spec [OF ok(2) assms(2)] assms(3) by (auto simp: meta_of_def)
  show ?thesis
    using assms(1) b' m'
    by (intro that [of "s\<lparr>cs_blocks := b', cs_meta := m'\<rparr>"])
      (simp_all add: bindA_def in_blocks_def in_meta_def views storages_ok_def)
qed

lemma header_consistent:
  assumes "consistent V s" "block_map_of V s' = spec_put_header bh (block_map_of V s)"
    "meta_of V s' = put_header_view (meta_of V s) bh cid" "ops_of V s' = ops_of V s"
    "ops_meta_of V s' = (if ops_meta_of V s (bh_hash bh) = None
       then (ops_meta_of V s)(bh_hash bh \<mapsto> new_op_meta vp) else ops_meta_of V s)"
  shows "consistent V s'"
proof -
  have grows: "\<exists>m'. put_header_view (meta_of V s) bh cid h = Some m' \<and> m_predecessor m' \<noteq> None"
    if "meta_of V s h = Some m" "m_predecessor m \<noteq> None" for h m
    using put_header_view_grows [of "meta_of V s" bh cid] that unfolding view_grows_def meta_grows_def by force
  have own: "\<exists>m'. put_header_view (meta_of V s) bh cid (bh_hash bh) = Some m' \<and> m_predecessor m' \<noteq> None"
    by (auto simp: put_header_view_def Let_def own_record_def predecessor_record_def new_meta_def split: option.splits)
  have "present (new_op_meta vp) = {}"
    by (auto simp: present_def new_op_meta_def)
  then show ?thesis
    using assms own grows unfolding consistent_def
    by (auto simp: spec_put_header_def split: if_splits) metis+
qed

lemma process_operations_spec:
  assumes "storages_ok V s" "consistent V s" "filed (ops_of V s)"
    and "operations_for_block msg = \<lparr>ofb_hash = h, ofb_validation_pass = p\<rparr>" "length h = LEN_BLOCK_HASH"
    and "ops_meta_of V s h = Some m" "unat p < length (is_validation_pass_present m)"
  shows "\<exists>s'. process_block_operations B msg s =
      (Inr (if om_is_complete m then (True, None)
            else (om_is_complete (mark_present m (unat p)), get_missing_validation_passes (mark_present m (unat p)))), s') \<and>
    storages_ok V s' \<and> consistent V s' \<and> filed (ops_of V s') \<and>
    block_map_of V s' = block_map_of V s \<and> meta_of V s' = meta_of V s \<and>
    ops_meta_of V s' = (if om_is_complete m then ops_meta_of V s else (ops_meta_of V s)(h \<mapsto> mark_present m (unat p)))"
proof -
  have ok: "cv_ops_ok V (cs_ops s)" "cv_ops_meta_ok V (cs_ops_meta s)"
    using assms(1) by (simp_all add: storages_ok_def)
  have complete: "in_ops_meta (oms_is_complete (cb_ops_meta B) h) s = (Inr (om_is_complete m), s)"
    using assms(6) opm.oms_get_spec [OF ok(2) assms(5)]
    by (simp add: in_ops_meta_def oms_is_complete_def bindA_def ret_def ops_meta_of_def)
  show ?thesis
  proof (cases "om_is_complete m")
    case True
    with assms complete show ?thesis
      by (simp add: process_block_operations_def bindA_def ret_def)
  next
    case False
    obtain o' where o': "ops_put_operations (cb_ops B) msg (cs_ops s) = (Inr (), o')" "cv_ops_ok V o'"
      "cv_ops V o' = (cv_ops V (cs_ops s))(\<lparr>ok_block_hash = h, ok_validation_pass = p\<rparr> \<mapsto> msg)"
      using ops.put_run [OF ok(1), of msg] assms(4,5) by auto
    obtain t where t: "oms_put_operations (cb_ops_meta B) msg (cs_ops_meta s) =
        (Inr (om_is_complete (mark_present m (unat p)), get_missing_validation_passes (mark_present m (unat p))), t)"
      "cv_ops_meta_ok V t" "cv_ops_meta V t = (cv_ops_meta V (cs_ops_meta s))(h \<mapsto> mark_present m (unat p))"
      using opm.put_operations_spec [OF ok(2) assms(5), of m msg] assms(4,6,7) by (auto simp: ops_meta_of_def)
    let ?s = "s\<lparr>cs_ops := o', cs_ops_meta := t\<rparr>"
    have "process_block_operations B msg s =
        (Inr (om_is_complete (mark_present m (unat p)), get_missing_validation_passes (mark_present m (unat p))), ?s)"
      using assms(4) False complete by (simp add: process_block_operations_def bindA_def in_ops_def in_ops_meta_def o'(1) t(1))
    moreover have "consistent V ?s"
      using assms(2,6) o'(3) t(3) present_mark [OF assms(7)]
      by (auto simp: consistent_def views new_operation_key_def)
    moreover have "filed (ops_of V ?s)"
      using assms(3,4) o'(3) by (auto simp: filed_def ops_of_def)
    moreover have "storages_ok V ?s" "block_map_of V ?s = block_map_of V s" "meta_of V ?s = meta_of V s"
      "ops_meta_of V ?s = (ops_meta_of V s)(h \<mapsto> mark_present m (unat p))"
      using assms(1) o'(2) t(2,3) by (simp_all add: storages_ok_def views)
    ultimately show ?thesis
      using False by (intro exI [of _ ?s]) simp
  qed
qed

lemma reads:
  assumes "storages_ok V s" "length h = LEN_BLOCK_HASH"
  shows "get_meta_of B h s = (Inr (meta_of V s h), s)"
    "get_additional_of B h s = (Inr (cv_additional V (cs_additional s) h), s)"
    "get_block_of B h s = (Inr (map_option fst (block_map_of V s h)), s)"
proof -
  have ok: "stores_ok (cv_blocks V) (cs_blocks s)" "cv_meta_ok V (cs_meta s)" "cv_additional_ok V (cs_additional s)"
    using assms(1) by (simp_all add: storages_ok_def)
  show "get_meta_of B h s = (Inr (meta_of V s h), s)"
    by (simp add: get_meta_of_def stateA_def map_errA_def in_meta_def bmk.bms_get_spec [OF ok(2) assms(2)] meta_of_def)
  show "get_additional_of B h s = (Inr (cv_additional V (cs_additional s) h), s)"
    by (simp add: get_additional_of_def stateA_def map_errA_def in_additional_def get_additional_data_def storageA_def
        ad.get_law [OF ok(3) assms(2)])
  show "get_block_of B h s = (Inr (map_option fst (block_map_of V s h)), s)"
    using bl.readers_spec(1) [OF ok(1) assms(2), of "replicate 32 0"]
    by (simp add: get_block_of_def stateA_def map_errA_def in_blocks_def block_map_of_def)
qed

text \<open>The protocol that a header has to be checked with, and the applied predecessor.\<close>

lemma resolve_protocol_sound:
  assumes ok: "storages_ok V s" and len: "length (h_predecessor hdr) = LEN_BLOCK_HASH" "length (head_block_hash ch) = LEN_BLOCK_HASH"
    and r: "resolve_protocol B hdr ch s = (Inr (Some ph, pred, False), s')"
  shows "s' = s \<and> (\<exists>m. meta_of V s (h_predecessor hdr) = Some m \<and>
    (if m_is_applied m
     then (\<exists>d p j. cv_additional V (cs_additional s) (h_predecessor hdr) = Some d \<and> ph = bad_next_protocol_hash d \<and>
       block_map_of V s (h_predecessor hdr) = Some (p, j) \<and> pred = Some p)
     else (\<exists>d c j. cv_additional V (cs_additional s) (head_block_hash ch) = Some d \<and> ph = bad_next_protocol_hash d \<and>
       block_map_of V s (head_block_hash ch) = Some (c, j) \<and> h_proto (bh_header c) = h_proto hdr \<and> pred = None)))"
  using r by (auto simp: resolve_protocol_def protocol_by_predecessor_def bindA_def reads [OF ok len(1)] reads [OF ok len(2)]
      ret_def fail_def split: option.splits if_splits)

lemma complete_ops_stored:
  assumes "storages_ok V s" "consistent V s" "ops_meta_of V s h = Some m" "om_is_complete m"
  shows "\<forall>q < unat (validation_passes m). ops_of V s (new_operation_key h (word_of_nat q)) \<noteq> None"
proof -
  have "op_meta_ok m"
    using opm.view_ok [of "cs_ops_meta s" h m] assms(1,3) by (simp add: storages_ok_def ops_meta_of_def)
  then have "present m = {..<unat (validation_passes m)}"
    using assms(4) by (auto simp: op_meta_ok_def present_def list_all_length)
  then show ?thesis
    using assms(2,3) by (auto simp: consistent_def)
qed

end

section \<open>The storages on RocksDB\<close>

definition additional_data_schema :: "block_additional_data codec \<Rightarrow> (block_hash, block_additional_data) schema" where
  "additional_data_schema bincode =
     \<lparr>cf_name = ''block_additional_data'', key_codec = hash_codec LEN_BLOCK_HASH, value_codec = bincode\<rparr>"

definition put_additional :: "block_additional_data \<Rightarrow> bytes" where
  "put_additional d = put_pair put_word (put_pair put_word (put_pair put_bytes (put_pair put_bytes
     (put_pair (put_option put_bytes) (put_pair (put_option put_bytes) (put_option (put_list (put_list put_bytes))))))))
     (max_operations_ttl d, last_allowed_fork_level d, bad_protocol_hash d, bad_next_protocol_hash d,
      block_metadata_hash d, ops_metadata_hash d, ops_metadata_hashes d)"

definition get_additional :: "block_additional_data getter" where
  "get_additional = get_via (\<lambda>(ttl, fork, ph, nph, bmh, omh, omhs). new_additional_data ttl fork ph nph bmh omh omhs)
     (get_pair get_word (get_pair get_word (get_pair get_bytes (get_pair get_bytes
     (get_pair (get_option get_bytes) (get_pair (get_option get_bytes) (get_option (get_list (get_list get_bytes)))))))))"

lemma additional_code: "prefix_code put_additional get_additional"
  unfolding put_additional_def get_additional_def
  by (rule via_code, (rule pair_code list_code option_code base_codes)+) (simp add: new_additional_data_def)

abbreviation add_bincode :: "block_additional_data codec" where
  "add_bincode \<equiv> code_codec put_additional get_additional"

interpretation ads: schema_store mem_rocks "additional_data_schema add_bincode"
  "\<lambda>r. r (cf_name (additional_data_schema add_bincode))" "\<lambda>h. length h = LEN_BLOCK_HASH" "\<lambda>_. True" id put_additional
  by unfold_locales (simp_all add: additional_data_schema_def hash_codec_def code_codec_laws [OF additional_code])

definition mem_chain :: "(cfs, bytes list) chain_backend" where
  "mem_chain = \<lparr>cb_blocks = mem_block_backend, cb_meta = meta_kv,
     cb_additional = db_kv mem_rocks (additional_data_schema add_bincode), cb_ops = mem_ops_backend, cb_ops_meta = ops_kv,
     cb_pred = index_kv, cb_chain_meta = mem_chain_meta\<rparr>"

definition mem_chain_views :: "(cfs, bytes list) chain_views" where
  "mem_chain_views = \<lparr>cv_blocks = mem_block_views, cv_meta = meta_view, cv_meta_ok = meta_inv,
     cv_additional = ads.tview, cv_additional_ok = ads.tinv, cv_ops = ost.tview, cv_ops_ok = ost.tinv,
     cv_ops_meta = om.tview, cv_ops_meta_ok = om.tinv, cv_pred = pdb.tview, cv_pred_ok = pdb.tinv,
     cv_chain_meta = cms.tview, cv_chain_meta_ok = cms.tinv\<rparr>"

interpretation mch: chain_laws mem_chain mem_chain_views
  using mbs.block_storage_laws_axioms bms.block_meta_kv_axioms ads.kv.kv_contract_axioms mos.operations_store_axioms
    oms.ops_meta_kv_axioms pidx.pred_index_axioms mcm.chain_meta_axioms
  by (simp add: chain_laws_def mem_chain_def mem_chain_views_def)

definition empty_stores :: "(cfs, bytes list) chain_stores" where
  "empty_stores = \<lparr>cs_blocks = \<lparr>bs_primary = empty_cfs, bs_level = empty_cfs, bs_context = empty_cfs, bs_clog = []\<rparr>,
     cs_meta = empty_cfs, cs_additional = empty_cfs, cs_ops = empty_cfs, cs_ops_meta = empty_cfs,
     cs_pred = empty_cfs, cs_chain_meta = empty_cfs\<rparr>"

lemma empty_additional: "ads.tinv empty_cfs"
  by (simp add: empty_cfs_def ads.tinv_def)

lemma empty_ops_meta: "om.tinv empty_cfs" "om.tview empty_cfs = Map.empty"
  by (simp_all add: empty_cfs_def om.tinv_def om.tview_def fun_eq_iff)

lemma empty_chain:
  "storages_ok mem_chain_views empty_stores" "consistent mem_chain_views empty_stores" "room (meta_of mem_chain_views empty_stores)"
  "block_map_of mem_chain_views empty_stores = Map.empty"
  by (simp_all add: storages_ok_def consistent_def views mem_chain_views_def empty_stores_def empty_stores_ok empty_blocks
      empty_cfs_ok empty_additional empty_ops empty_ops_meta empty_index empty_chain_meta)

section \<open>Properties\<close>

text \<open>
  Property C3. A header received from a peer goes through all storages: it is reported new exactly when
  the block was not stored, the block storage, the metadata and the operations record are updated as
  their specifications say, and the storages stay consistent with each other. The bootstrapper, if
  one runs, is told the state of the block as it is now stored.
\<close>

theorem process_block_header_keeps_consistent:
  assumes "chain_laws B V" "storages_ok V s" "consistent V s" "header_ok bh cid" "room (meta_of V s)"
  shows "\<exists>s' msgs. process_block_header_from_peer B cid runs bh peer s = (Inr (block_map_of V s (bh_hash bh) = None, msgs), s') \<and>
    storages_ok V s' \<and> consistent V s' \<and>
    block_map_of V s' = spec_put_header bh (block_map_of V s) \<and> meta_of V s' = put_header_view (meta_of V s) bh cid \<and>
    (\<exists>m om. ops_meta_of V s' (bh_hash bh) = Some om \<and> m = own_record (meta_of V s) bh cid \<and>
      msgs = (if runs then [UpdateBlockState (bh_hash bh) \<lparr>operations_downloaded = om_is_complete om, inner_applied = m_is_applied m\<rparr> peer] else []))"
proof -
  have len: "length (bh_hash bh) = LEN_BLOCK_HASH"
    using assms(4) by (simp add: header_ok_def)
  define f where "f = (\<lambda>(is_new :: bool) (m :: meta). bindA (process_block_header_operations B bh) (\<lambda>(complete, _).
       ret (is_new, if runs then [UpdateBlockState (bh_hash bh)
         \<lparr>operations_downloaded = complete, inner_applied = m_is_applied m\<rparr> peer] else [])))"
  have run: "process_block_header_from_peer B cid runs bh peer s =
      bindA (in_blocks (bs_put_block_header (cb_blocks B) bh)) (\<lambda>is_new. bindA (in_meta (put_block_header (cb_meta B) bh cid)) (f is_new)) s"
    by (simp add: process_block_header_from_peer_def f_def)
  obtain s1 where s1: "process_block_header_from_peer B cid runs bh peer s =
      f (block_map_of V s (bh_hash bh) = None) (own_record (meta_of V s) bh cid) s1"
    and v1: "storages_ok V s1" "block_map_of V s1 = spec_put_header bh (block_map_of V s)"
      "meta_of V s1 = put_header_view (meta_of V s) bh cid" "ops_of V s1 = ops_of V s" "ops_meta_of V s1 = ops_meta_of V s"
    unfolding run by (rule chain_laws.store_header_spec [OF assms(1,2,4,5), where f = f])
  obtain s' where s': "process_block_header_operations B bh s1 =
      (Inr (case ops_meta_of V s1 (bh_hash bh) of
         None \<Rightarrow> (h_validation_pass (bh_header bh) = 0, get_missing_validation_passes (new_op_meta (h_validation_pass (bh_header bh))))
       | Some m \<Rightarrow> (om_is_complete m, get_missing_validation_passes m)), s')"
    and v': "storages_ok V s'" "block_map_of V s' = block_map_of V s1" "meta_of V s' = meta_of V s1" "ops_of V s' = ops_of V s1"
      "ops_meta_of V s' = (if ops_meta_of V s1 (bh_hash bh) = None
       then (ops_meta_of V s1)(bh_hash bh \<mapsto> new_op_meta (h_validation_pass (bh_header bh))) else ops_meta_of V s1)"
    by (rule chain_laws.process_header_operations_spec [OF assms(1) v1(1) len])
  have "consistent V s'"
    using v'(2-5) unfolding v1(2-5) by (rule chain_laws.header_consistent [OF assms(1,3)])
  then show ?thesis
    using s1 s' v1 v' by (cases "ops_meta_of V s (bh_hash bh)") (simp_all add: f_def bindA_def ret_def new_op_meta_def)
qed

theorem process_block_header_keeps_consistent_witness:
  "\<exists>s' msgs. process_block_header_from_peer mem_chain [0, 0, 0, 0] True sample_header ''peer'' empty_stores = (Inr (True, msgs), s') \<and>
    consistent mem_chain_views s'"
  using process_block_header_keeps_consistent [OF mch.chain_laws_axioms empty_chain(1,2), of sample_header "[0, 0, 0, 0]" True "''peer''"]
  by (auto simp: empty_chain(3,4) sample_ok)

text \<open>
  Property C4. Operations of a known block and a pass in range are stored before the pass is recorded as
  present: whatever pass is recorded, its operations can be found, so a block reported complete has
  the operations of all its passes stored. The result tells whether the block is complete now; a
  complete block is not touched.
\<close>

theorem process_block_operations_complete:
  assumes "chain_laws B V" "storages_ok V s" "consistent V s" "filed (ops_of V s)"
    and "operations_for_block msg = \<lparr>ofb_hash = h, ofb_validation_pass = p\<rparr>" "length h = LEN_BLOCK_HASH"
    and "ops_meta_of V s h = Some m" "unat p < length (is_validation_pass_present m)"
  shows "\<exists>s' complete missing m'. process_block_operations B msg s = (Inr (complete, missing), s') \<and>
    storages_ok V s' \<and> consistent V s' \<and> filed (ops_of V s') \<and>
    ops_meta_of V s' h = Some m' \<and> (complete \<longleftrightarrow> om_is_complete m') \<and>
    (complete \<longrightarrow> (\<forall>q < unat (validation_passes m'). ops_of V s' (new_operation_key h (word_of_nat q)) \<noteq> None))"
proof -
  let ?m = "if om_is_complete m then m else mark_present m (unat p)"
  obtain s' where s': "process_block_operations B msg s =
      (Inr (if om_is_complete m then (True, None)
            else (om_is_complete (mark_present m (unat p)), get_missing_validation_passes (mark_present m (unat p)))), s')"
    "storages_ok V s'" "consistent V s'" "filed (ops_of V s')"
    "ops_meta_of V s' = (if om_is_complete m then ops_meta_of V s else (ops_meta_of V s)(h \<mapsto> mark_present m (unat p)))"
    using chain_laws.process_operations_spec [OF assms] by blast
  have m': "ops_meta_of V s' h = Some ?m"
    using s'(5) assms(7) by simp
  have "\<forall>q < unat (validation_passes ?m). ops_of V s' (new_operation_key h (word_of_nat q)) \<noteq> None" if "om_is_complete ?m"
    using chain_laws.complete_ops_stored [OF assms(1) s'(2,3) m' that] .
  then show ?thesis
    using s' m' by (intro exI [of _ s'] exI [of _ "om_is_complete ?m"]
        exI [of _ "if om_is_complete m then None else get_missing_validation_passes (mark_present m (unat p))"] exI [of _ ?m]) simp
qed

definition one_pass_stores :: "(cfs, bytes list) chain_stores" where
  "one_pass_stores = empty_stores\<lparr>cs_ops_meta := one_pass_cfs\<rparr>"

lemma one_pass_stores_ok:
  "storages_ok mem_chain_views one_pass_stores" "consistent mem_chain_views one_pass_stores"
  "filed (ops_of mem_chain_views one_pass_stores)"
  "ops_meta_of mem_chain_views one_pass_stores (replicate 32 7) = Some (new_op_meta 1)"
proof -
  have one: "om.tview one_pass_cfs h = Some m \<Longrightarrow> m = new_op_meta 1" for h m
    using one_pass(2) by (auto simp: one_pass_cfs_def om.tview_def split: if_splits)
  have none: "present (new_op_meta 1) = {}"
    by (auto simp: present_def new_op_meta_def)
  have v: "block_map_of mem_chain_views one_pass_stores = Map.empty" "ops_of mem_chain_views one_pass_stores = Map.empty"
    "ops_meta_of mem_chain_views one_pass_stores = om.tview one_pass_cfs"
    by (simp_all add: views mem_chain_views_def one_pass_stores_def empty_stores_def empty_ops(2) empty_blocks)
  show "storages_ok mem_chain_views one_pass_stores"
    using empty_chain(1) one_pass(1) by (simp add: storages_ok_def mem_chain_views_def one_pass_stores_def)
  show "consistent mem_chain_views one_pass_stores"
    unfolding consistent_def v by (auto dest!: one simp only: none)
  show "filed (ops_of mem_chain_views one_pass_stores)"
    by (simp add: v filed_def)
  show "ops_meta_of mem_chain_views one_pass_stores (replicate 32 7) = Some (new_op_meta 1)"
    by (simp only: v one_pass(2))
qed

theorem process_block_operations_complete_witness:
  "\<exists>s' complete missing. process_block_operations mem_chain sample_ops one_pass_stores = (Inr (complete, missing), s') \<and>
    consistent mem_chain_views s'"
  using process_block_operations_complete [OF mch.chain_laws_axioms one_pass_stores_ok(1-3), of sample_ops "replicate 32 7" 0 "new_op_meta 1"]
    one_pass_stores_ok(4)
  by (auto simp: sample_ops_def new_op_meta_def LEN_BLOCK_HASH_def)

text \<open>
  Property C14. A head offered by a peer is accepted only for the node's own chain and a positive level,
  when the node has a head, and either it is that very head or its fitness is not below the head's
  fitness, its predecessor is known, and its protocol data are encoded for the protocol that the applied
  predecessor, or else the head of the same protocol level, leads to; with an applied predecessor the
  protocol also accepts to begin the application. Nothing is written.
\<close>

theorem can_accept_head_sound:
  assumes "chain_laws B V" "storages_ok V s" "length (h_predecessor hdr) = LEN_BLOCK_HASH"
    "length (head_block_hash ch) = LEN_BLOCK_HASH"
    "can_accept_head E B cid cid' hdr (Inr current) s = (Inr AcceptBlock, s')" "current = None \<or> current = Some ch"
  shows "s' = s \<and> cid' = cid \<and> 0 < sint (h_level hdr) \<and> current = Some ch \<and>
    (is_same_head (message_hash E) ch hdr = Inr True \<or>
     is_fitness_increases_or_same ch (h_fitness hdr) \<and>
     (\<exists>m ph. meta_of V s (h_predecessor hdr) = Some m \<and>
        assert_encoding_for_protocol_data E ph (h_protocol_data hdr) = Inr () \<and>
        (if m_is_applied m
         then (\<exists>d p j. cv_additional V (cs_additional s) (h_predecessor hdr) = Some d \<and> ph = bad_next_protocol_hash d \<and>
           block_map_of V s (h_predecessor hdr) = Some (p, j) \<and> begin_application E cid (bh_header p) hdr = Inr ())
         else (\<exists>d c j. cv_additional V (cs_additional s) (head_block_hash ch) = Some d \<and> ph = bad_next_protocol_hash d \<and>
           block_map_of V s (head_block_hash ch) = Some (c, j) \<and> h_proto (bh_header c) = h_proto hdr))))"
proof -
  have cur: "current = Some ch" and pre: "cid' = cid" "0 < sint (h_level hdr)"
    using assms(5,6) by (auto simp: can_accept_head_def bindA_def ret_def liftR_def split: if_splits)
  show ?thesis
  proof (cases "is_same_head (message_hash E) ch hdr = Inr True")
    case True
    then show ?thesis
      using assms(5) cur pre by (simp add: can_accept_head_def bindA_def ret_def liftR_def)
  next
    case False
    then obtain ph pred where r: "resolve_protocol B hdr ch s = (Inr (Some ph, pred, False), s')"
      and c: "check_multipass_validation E cid ph hdr pred = None" "is_fitness_increases_or_same ch (h_fitness hdr)"
      using assms(5) cur pre
      by (auto simp: can_accept_head_def bindA_def ret_def liftR_def split: if_splits sum.splits prod.splits option.splits)
    have "assert_encoding_for_protocol_data E ph (h_protocol_data hdr) = Inr ()"
      "pred = Some p \<Longrightarrow> begin_application E cid (bh_header p) hdr = Inr ()" for p
      using c(1) by (auto simp: check_multipass_validation_def split: sum.splits option.splits)
    with chain_laws.resolve_protocol_sound [OF assms(1-4) r] c(2) cur pre show ?thesis
      by (auto split: if_splits)
  qed
qed

definition sample_env_of_node :: validation_env where
  "sample_env_of_node = \<lparr>assert_encoding_for_protocol_data = (\<lambda>_ _. Inr ()), begin_application = (\<lambda>_ _ _. Inr ()),
     message_hash = (\<lambda>_. Inr (bh_hash sample_header)), time_now = 0, from_timestamp = Some\<rparr>"

theorem can_accept_head_sound_witness:
  "\<exists>s'. can_accept_head sample_env_of_node mem_chain [] [] (bh_header sample_header)
      (Inr (Some (new_head (bh_hash sample_header) (h_level (bh_header sample_header)) (h_fitness (bh_header sample_header)))))
      empty_stores = (Inr AcceptBlock, s') \<and> s' = empty_stores \<and> 0 < sint (h_level (bh_header sample_header))"
proof -
  let ?hd = "new_head (bh_hash sample_header) (h_level (bh_header sample_header)) (h_fitness (bh_header sample_header))"
  have "can_accept_head sample_env_of_node mem_chain [] [] (bh_header sample_header) (Inr (Some ?hd)) empty_stores =
      (Inr AcceptBlock, empty_stores)"
    by (simp add: can_accept_head_def bindA_def liftR_def ret_def is_same_head_def sample_env_of_node_def new_head_def
        sample_header_def)
  moreover have "length (h_predecessor (bh_header sample_header)) = LEN_BLOCK_HASH" "length (head_block_hash ?hd) = LEN_BLOCK_HASH"
    using sample_ok by (simp_all add: header_ok_def new_head_def)
  ultimately show ?thesis
    using can_accept_head_sound [OF mch.chain_laws_axioms empty_chain(1)] by blast
qed

end
