(* ===== verification/ApplyResult.thy ===== *)
theory ApplyResult
  imports ChainState
begin

text \<open>
  Storing the result of an application (\<^verbatim>\<open>storage/src/lib.rs\<close>): the result of the protocol
  goes to the block storage, the additional data, the predecessor index and the metadata of the block;
  the genesis block has its own initialisation. The fields of the protocol's answer that no storage
  reads are left out.
\<close>

section \<open>Results of the protocol\<close>

record apply_block_response =
  ar_context_hash :: context_hash
  ar_protocol_hash :: protocol_hash
  ar_next_protocol_hash :: protocol_hash
  ar_block_header_proto_json :: string
  ar_block_header_proto_metadata_bytes :: bytes
  ar_operations_proto_metadata_bytes :: "bytes list list"
  ar_max_operations_ttl :: i32
  ar_last_allowed_fork_level :: i32
  ar_block_metadata_hash :: "bytes option"
  ar_ops_metadata_hashes :: "bytes list list option"
  ar_ops_metadata_hash :: "bytes option"

record commit_genesis_result =
  cg_block_header_proto_json :: string
  cg_block_header_proto_metadata_bytes :: bytes
  cg_operations_proto_metadata_bytes :: "bytes list list"

definition json_of_response :: "apply_block_response \<Rightarrow> block_json_data" where
  "json_of_response res = \<lparr>block_header_proto_json = ar_block_header_proto_json res,
     block_header_proto_metadata_bytes = ar_block_header_proto_metadata_bytes res,
     operations_proto_metadata_bytes = ar_operations_proto_metadata_bytes res\<rparr>"

text \<open>
  The conversion of the number of operations to 16 bits panics out of range. The hash of the operations'
  metadata is kept only if there are validation passes.
\<close>

definition additional_data_of :: "apply_block_response \<Rightarrow> storage_error failure + block_additional_data" where
  "additional_data_of res =
     (if 0 \<le> sint (ar_max_operations_ttl res) \<and> sint (ar_max_operations_ttl res) < 2 ^ 16
      then Inr (new_additional_data (word_of_int (sint (ar_max_operations_ttl res))) (ar_last_allowed_fork_level res)
        (ar_protocol_hash res) (ar_next_protocol_hash res) (ar_block_metadata_hash res)
        (case ar_ops_metadata_hashes res of
           Some hashes \<Rightarrow> if hashes = [] then None else ar_ops_metadata_hash res
         | None \<Rightarrow> None)
        (ar_ops_metadata_hashes res))
      else Inl Panic)"

section \<open>Operations\<close>

text \<open>The metadata are an in-out argument: the result carries them with the flag set.\<close>

definition store_applied_block_result :: "('r, 'g) chain_backend \<Rightarrow> block_hash \<Rightarrow> apply_block_response \<Rightarrow> meta \<Rightarrow>
    ('r, 'g, block_additional_data \<times> meta) chain_act" where
  "store_applied_block_result B h res block_metadata =
     bindA (in_blocks (put_block_json_data (cb_blocks B) h (json_of_response res))) (\<lambda>_.
     bindA (liftR (additional_data_of res)) (\<lambda>data.
     bindA (in_additional (put_block_additional_data (cb_additional B) h data)) (\<lambda>_.
     bindA (in_pred (store_predecessors (cb_pred B) h block_metadata)) (\<lambda>_.
     let metadata = block_metadata\<lparr>m_is_applied := True\<rparr> in
     bindA (in_meta (bms_put (cb_meta B) h metadata)) (\<lambda>_.
     ret (data, metadata))))))"

definition json_of_genesis :: "commit_genesis_result \<Rightarrow> block_json_data" where
  "json_of_genesis res = \<lparr>block_header_proto_json = cg_block_header_proto_json res,
     block_header_proto_metadata_bytes = cg_block_header_proto_metadata_bytes res,
     operations_proto_metadata_bytes = cg_operations_proto_metadata_bytes res\<rparr>"

text \<open>The last part of the next operation: the genesis block, if stored, is the start and the head of the chain.\<close>

definition init_chain_data :: "('r, 'g) chain_backend \<Rightarrow> chain_id \<Rightarrow> block_header_with_hash option \<Rightarrow> ('r, 'g, unit) chain_act" where
  "init_chain_data B cid r =
     (case r of
        None \<Rightarrow> fail (Err MissingKey)
      | Some genesis \<Rightarrow>
          let h = new_head (bh_hash genesis) (h_level (bh_header genesis)) (h_fitness (bh_header genesis)) in
          bindA (in_chain_meta (set_genesis (cb_chain_meta B) cid h)) (\<lambda>_.
          bindA (in_chain_meta (set_caboose (cb_chain_meta B) cid h)) (\<lambda>_.
          in_chain_meta (set_current_head (cb_chain_meta B) cid h))))"

definition store_commit_genesis_result :: "('r, 'g) chain_backend \<Rightarrow> block_hash \<Rightarrow> chain_id \<Rightarrow> commit_genesis_result \<Rightarrow>
    ('r, 'g, unit) chain_act" where
  "store_commit_genesis_result B genesis_hash cid res =
     bindA (in_meta (bms_put (cb_meta B) genesis_hash (genesis_meta genesis_hash cid True))) (\<lambda>_.
     bindA (in_ops_meta (oms_put (cb_ops_meta B) genesis_hash genesis_op_meta)) (\<lambda>_.
     bindA (in_blocks (put_block_json_data (cb_blocks B) genesis_hash (json_of_genesis res))) (\<lambda>_.
     bindA (in_blocks (bs_get (cb_blocks B) genesis_hash)) (init_chain_data B cid))))"

text \<open>
  What the configuration of the network decodes to: hashes in Base58 and a date, each of which
  may be malformed.
\<close>

record genesis_env =
  ge_header_hash :: "string + block_hash"
  ge_time :: "string + 64 word"
  ge_protocol :: "string + protocol_hash"
  ge_zero_protocol :: "string + protocol_hash"
  ge_empty_operations_hash :: "storage_error + bytes"

definition genesis_header :: "genesis_env \<Rightarrow> context_hash \<Rightarrow> bytes \<Rightarrow> string + block_header" where
  "genesis_header E ctxt operations_hash =
     and_then (ge_header_hash E) (\<lambda>genesis_hash.
     and_then (ge_time E) (\<lambda>time.
     Inr \<lparr>h_level = 0, h_proto = 0, h_predecessor = genesis_hash, h_timestamp = time, h_validation_pass = 0,
       h_operations_hash = operations_hash, h_fitness = [], h_context = ctxt, h_protocol_data = []\<rparr>))"

definition genesis_additional_data :: "genesis_env \<Rightarrow> string + block_additional_data" where
  "genesis_additional_data E =
     and_then (ge_zero_protocol E) (\<lambda>ph.
     and_then (ge_protocol E) (\<lambda>nph.
     Inr (new_additional_data 0 0 ph nph None None None)))"

definition initialize_storage_with_genesis_block :: "('r, 'g) chain_backend \<Rightarrow> genesis_env \<Rightarrow> block_hash \<Rightarrow> context_hash \<Rightarrow>
    ('r, 'g, block_header_with_hash) chain_act" where
  "initialize_storage_with_genesis_block B E genesis_hash ctxt =
     bindA (liftR (map_err Err (ge_empty_operations_hash E))) (\<lambda>oph.
     bindA (liftR (map_err (\<lambda>e. Err (TezosEnvironmentErr e)) (genesis_header E ctxt oph))) (\<lambda>hdr.
     let genesis = \<lparr>bh_hash = genesis_hash, bh_header = hdr\<rparr> in
     bindA (in_blocks (bs_put_block_header (cb_blocks B) genesis)) (\<lambda>_.
     bindA (liftR (map_err (\<lambda>e. Err (TezosEnvironmentErr e)) (genesis_additional_data E))) (\<lambda>data.
     bindA (in_additional (put_block_additional_data (cb_additional B) genesis_hash data)) (\<lambda>_.
     bindA (in_blocks (assign_to_context (cb_blocks B) genesis_hash ctxt)) (\<lambda>_.
     ret genesis))))))"

section \<open>What is stored\<close>

definition additional_of :: "('r, 'g) chain_views \<Rightarrow> ('r, 'g) chain_stores \<Rightarrow> block_hash \<rightharpoonup> block_additional_data" where
  "additional_of V s = cv_additional V (cs_additional s)"

definition pred_of :: "('r, 'g) chain_views \<Rightarrow> ('r, 'g) chain_stores \<Rightarrow> predecessor_key \<rightharpoonup> block_hash" where
  "pred_of V s = cv_pred V (cs_pred s)"

text \<open>Every applied block has its JSON data and its additional data.\<close>

definition applied_complete :: "('r, 'g) chain_views \<Rightarrow> ('r, 'g) chain_stores \<Rightarrow> bool" where
  "applied_complete V s \<longleftrightarrow> (\<forall>h m. meta_of V s h = Some m \<longrightarrow> m_is_applied m \<longrightarrow>
     (\<exists>bh json. block_map_of V s h = Some (bh, Some json)) \<and> additional_of V s h \<noteq> None)"

lemma meta_merge_self: "meta_merge m (m\<lparr>m_is_applied := b\<rparr>) = m\<lparr>m_is_applied := m_is_applied m \<or> b\<rparr>"
  by (cases m) (auto simp: meta_merge_def split: option.split)

lemma in_chain_meta_bind:
  "bindA (in_chain_meta a) (\<lambda>x. in_chain_meta (f x)) = in_chain_meta (bindA a f)"
  by (rule ext) (simp add: bindA_def in_chain_meta_def split: prod.split sum.split)

context chain_laws
begin

lemma put_additional_run:
  assumes "storages_ok V s" "length h = LEN_BLOCK_HASH"
  obtains a where "in_additional (put_block_additional_data (cb_additional B) h d) s = (Inr (), s\<lparr>cs_additional := a\<rparr>)"
    "cv_additional_ok V a" "cv_additional V a = (cv_additional V (cs_additional s))(h \<mapsto> d)"
  using ad.put_law [of "cs_additional s" h d] assms
  by (auto simp: storages_ok_def in_additional_def put_block_additional_data_def storageA_def map_errA_def)

lemma put_json_run:
  assumes "storages_ok V s" "length h = LEN_BLOCK_HASH" "block_map_of V s h = Some (bh, j)"
  obtains b where "in_blocks (put_block_json_data (cb_blocks B) h json) s = (Inr (), s\<lparr>cs_blocks := b\<rparr>)"
    "stores_ok (cv_blocks V) b" "blocks (cv_blocks V) b = (block_map_of V s)(h \<mapsto> (bh, Some json))"
  using bl.put_json_spec [of "cs_blocks s" h json] assms
  by (auto simp: storages_ok_def in_blocks_def block_map_of_def spec_put_json_def)

lemma store_applied_spec:
  assumes ok: "storages_ok V s" and h: "length h = LEN_BLOCK_HASH" "block_map_of V s h = Some (bh, j)" "meta_of V s h = Some w"
    and d: "additional_data_of res = Inr d" and m: "meta_ok m"
    and p: "m_predecessor m = Some p" "p \<noteq> h" "index_ok (pred_of V s)" "fresh_block (pred_of V s) h"
  obtains s' where "store_applied_block_result B h res m s = (Inr (d, m\<lparr>m_is_applied := True\<rparr>), s')" "storages_ok V s'"
    "block_map_of V s' = (block_map_of V s)(h \<mapsto> (bh, Some (json_of_response res)))"
    "additional_of V s' = (additional_of V s)(h \<mapsto> d)" "meta_of V s' = (meta_of V s)(h \<mapsto> meta_merge w (m\<lparr>m_is_applied := True\<rparr>))"
    "index_ok (pred_of V s')" "direct (pred_of V s') = (direct (pred_of V s))(h \<mapsto> p)"
    "ops_of V s' = ops_of V s" "ops_meta_of V s' = ops_meta_of V s" "cs_chain_meta s' = cs_chain_meta s"
proof -
  obtain b where b: "in_blocks (put_block_json_data (cb_blocks B) h (json_of_response res)) s = (Inr (), s\<lparr>cs_blocks := b\<rparr>)"
    "stores_ok (cv_blocks V) b" "blocks (cv_blocks V) b = (block_map_of V s)(h \<mapsto> (bh, Some (json_of_response res)))"
    by (rule put_json_run [OF ok h(1,2)])
  have ok1: "storages_ok V (s\<lparr>cs_blocks := b\<rparr>)" and oks: "cv_pred_ok V (cs_pred s)" "cv_meta_ok V (cs_meta s)"
    using ok b(2) by (simp_all add: storages_ok_def)
  obtain a where a: "in_additional (put_block_additional_data (cb_additional B) h d) (s\<lparr>cs_blocks := b\<rparr>) = (Inr (), s\<lparr>cs_blocks := b, cs_additional := a\<rparr>)"
    "cv_additional_ok V a" "cv_additional V a = (additional_of V s)(h \<mapsto> d)"
    using put_additional_run [OF ok1 h(1), of d] by (auto simp: additional_of_def)
  have "length p = LEN_BLOCK_HASH"
    using m p(1) by (simp add: meta_ok_def LEN_BLOCK_HASH_def)
  then obtain q where q: "store_predecessors (cb_pred B) h m (cs_pred s) = (Inr (), q)" "cv_pred_ok V q"
    "index_ok (cv_pred V q)" "direct (cv_pred V q) = (direct (pred_of V s))(h \<mapsto> p)"
    using prd.store_predecessors_spec [OF oks(1) p(3,4) [unfolded pred_of_def] h(1) p(1,2)] by (auto simp: pred_of_def)
  have "meta_ok (m\<lparr>m_is_applied := True\<rparr>)"
    using m by (simp add: meta_ok_def)
  then obtain t where t: "bms_put (cb_meta B) h (m\<lparr>m_is_applied := True\<rparr>) (cs_meta s) = (Inr (), t)" "cv_meta_ok V t"
    "cv_meta V t = (meta_of V s)(h \<mapsto> meta_merge w (m\<lparr>m_is_applied := True\<rparr>))"
    using bmk.bms_put_spec [OF oks(2) h(1)] h(3) by (fastforce simp: meta_of_def)
  show ?thesis
    by (rule that [of "s\<lparr>cs_blocks := b, cs_additional := a, cs_pred := q, cs_meta := t\<rparr>"])
      (use ok b a q t d in \<open>simp_all add: store_applied_block_result_def bindA_def liftR_def ret_def in_pred_def in_meta_def Let_def
        storages_ok_def views additional_of_def pred_of_def\<close>)
qed

lemma stored_meta_ok:
  "storages_ok V s \<Longrightarrow> meta_of V s h = Some m \<Longrightarrow> meta_ok m"
  using bmk.view_ok [of "cs_meta s" h m] by (simp add: storages_ok_def meta_of_def)

text \<open>A header that arrives touches neither the index of predecessors nor the additional data.\<close>

lemma received_header:
  assumes "storages_ok V s" "header_ok bh cid" "room (meta_of V s)"
  obtains s' r where "process_block_header_from_peer B cid runs bh peer s = (Inr r, s')" "storages_ok V s'"
    "block_map_of V s' = spec_put_header bh (block_map_of V s)" "meta_of V s' = put_header_view (meta_of V s) bh cid"
    "cs_pred s' = cs_pred s" "cs_additional s' = cs_additional s" "consistent V s \<longrightarrow> consistent V s'"
proof -
  define f where "f = (\<lambda>(is_new :: bool) (m :: meta). bindA (process_block_header_operations B bh) (\<lambda>(complete, _).
       ret (is_new, if runs then [UpdateBlockState (bh_hash bh)
         \<lparr>operations_downloaded = complete, inner_applied = m_is_applied m\<rparr> peer] else [])))"
  have run: "process_block_header_from_peer B cid runs bh peer s =
      bindA (in_blocks (bs_put_block_header (cb_blocks B) bh)) (\<lambda>is_new. bindA (in_meta (put_block_header (cb_meta B) bh cid)) (f is_new)) s"
    by (simp add: process_block_header_from_peer_def f_def)
  have kept: "cs_pred (snd (process_block_header_from_peer B cid runs bh peer s)) = cs_pred s"
    "cs_additional (snd (process_block_header_from_peer B cid runs bh peer s)) = cs_additional s"
    by (auto simp: process_block_header_from_peer_def process_block_header_operations_def bindA_def in_blocks_def in_meta_def
        in_ops_meta_def ret_def split: prod.split sum.split option.split)
  obtain s1 where s1: "process_block_header_from_peer B cid runs bh peer s =
      f (block_map_of V s (bh_hash bh) = None) (own_record (meta_of V s) bh cid) s1"
    and v1: "storages_ok V s1" "block_map_of V s1 = spec_put_header bh (block_map_of V s)"
      "meta_of V s1 = put_header_view (meta_of V s) bh cid" "ops_of V s1 = ops_of V s" "ops_meta_of V s1 = ops_meta_of V s"
    unfolding run by (rule store_header_spec [OF assms, where f = f])
  have len: "length (bh_hash bh) = LEN_BLOCK_HASH"
    using assms(2) by (simp add: header_ok_def)
  obtain s' where s': "process_block_header_operations B bh s1 =
      (Inr (case ops_meta_of V s1 (bh_hash bh) of
         None \<Rightarrow> (h_validation_pass (bh_header bh) = 0, get_missing_validation_passes (new_op_meta (h_validation_pass (bh_header bh))))
       | Some m \<Rightarrow> (om_is_complete m, get_missing_validation_passes m)), s')"
    and v': "storages_ok V s'" "block_map_of V s' = block_map_of V s1" "meta_of V s' = meta_of V s1" "ops_of V s' = ops_of V s1"
      "ops_meta_of V s' = (if ops_meta_of V s1 (bh_hash bh) = None
       then (ops_meta_of V s1)(bh_hash bh \<mapsto> new_op_meta (h_validation_pass (bh_header bh))) else ops_meta_of V s1)"
    by (rule process_header_operations_spec [OF v1(1) len])
  obtain r where r: "process_block_header_from_peer B cid runs bh peer s = (Inr r, s')"
    using s' unfolding s1 by (cases "ops_meta_of V s1 (bh_hash bh)") (simp_all add: f_def bindA_def ret_def)
  have "consistent V s \<longrightarrow> consistent V s'"
    using header_consistent [of s s' bh cid "h_validation_pass (bh_header bh)"] v'(2-5) unfolding v1(2-5) by simp
  with r kept v1(2,3) v'(1-3) show ?thesis
    by (intro that [of r s']) simp_all
qed

lemma chain_heads_run:
  assumes "cv_chain_meta_ok V c" "length cid = LEN_CHAIN_ID"
  obtains c' where "cv_chain_meta_ok V c'"
    "bindA (set_genesis (cb_chain_meta B) cid h) (\<lambda>_. bindA (set_caboose (cb_chain_meta B) cid h) (\<lambda>_. set_current_head (cb_chain_meta B) cid h)) c = (Inr (), c')"
    "cv_chain_meta V c' = (cv_chain_meta V c)(key_genesis cid \<mapsto> MdHead h, key_caboose cid \<mapsto> MdHead h, key_current_head cid \<mapsto> MdHead h)"
proof -
  have k: "length (mk_chain_id (key_genesis cid)) = LEN_CHAIN_ID" "length (mk_chain_id (key_caboose cid)) = LEN_CHAIN_ID"
    "length (mk_chain_id (key_current_head cid)) = LEN_CHAIN_ID"
    using assms(2) by (simp_all add: meta_keys)
  obtain c1 where c1: "kv_put (cb_chain_meta B) (key_genesis cid) (MdHead h) c = (Inr (), c1)" "cv_chain_meta_ok V c1"
    "cv_chain_meta V c1 = (cv_chain_meta V c)(key_genesis cid \<mapsto> MdHead h)"
    using cme.put_law [OF assms(1) k(1), of "MdHead h"] by blast
  obtain c2 where c2: "kv_put (cb_chain_meta B) (key_caboose cid) (MdHead h) c1 = (Inr (), c2)" "cv_chain_meta_ok V c2"
    "cv_chain_meta V c2 = (cv_chain_meta V c1)(key_caboose cid \<mapsto> MdHead h)"
    using cme.put_law [OF c1(2) k(2), of "MdHead h"] by blast
  obtain c3 where c3: "kv_put (cb_chain_meta B) (key_current_head cid) (MdHead h) c2 = (Inr (), c3)" "cv_chain_meta_ok V c3"
    "cv_chain_meta V c3 = (cv_chain_meta V c2)(key_current_head cid \<mapsto> MdHead h)"
    using cme.put_law [OF c2(2) k(3), of "MdHead h"] by blast
  show ?thesis
    by (rule that [OF c3(2)]) (simp_all add: bindA_def set_genesis_def set_caboose_def set_current_head_def storageA_def map_errA_def c1 c2 c3)
qed

text \<open>The first writes of the genesis block: it is marked as applied before anything else is stored.\<close>

lemma genesis_marked:
  assumes "storages_ok V s" "length g = LEN_BLOCK_HASH" "length cid = LEN_CHAIN_ID"
    and "merged op_meta_merge (ops_meta_of V s g) genesis_op_meta = Some om"
  obtains s1 where "store_commit_genesis_result B g cid res s =
      bindA (in_blocks (put_block_json_data (cb_blocks B) g (json_of_genesis res))) (\<lambda>_.
      bindA (in_blocks (bs_get (cb_blocks B) g)) (init_chain_data B cid)) s1"
    "storages_ok V s1" "cs_blocks s1 = cs_blocks s" "cs_chain_meta s1 = cs_chain_meta s" "cs_additional s1 = cs_additional s"
    "meta_of V s1 = (meta_of V s)(g \<mapsto> (case meta_of V s g of None \<Rightarrow> genesis_meta g cid True | Some w \<Rightarrow> meta_merge w (genesis_meta g cid True)))"
    "ops_meta_of V s1 = (ops_meta_of V s)(g \<mapsto> om)"
proof -
  have ok: "cv_meta_ok V (cs_meta s)" "cv_ops_meta_ok V (cs_ops_meta s)"
    using assms(1) by (simp_all add: storages_ok_def)
  have gm: "meta_ok (genesis_meta g cid True)" "op_meta_ok genesis_op_meta"
    using assms(2,3) by (simp_all add: meta_ok_def genesis_meta_def layout LEN_BLOCK_HASH_def vec_capacity_ok_def op_meta_ok_def genesis_op_meta_def)
  obtain t where t: "bms_put (cb_meta B) g (genesis_meta g cid True) (cs_meta s) = (Inr (), t)" "cv_meta_ok V t"
    "cv_meta V t = (cv_meta V (cs_meta s))(g \<mapsto> (case cv_meta V (cs_meta s) g of None \<Rightarrow> genesis_meta g cid True | Some w \<Rightarrow> meta_merge w (genesis_meta g cid True)))"
    using bmk.bms_put_spec [OF ok(1) assms(2) gm(1)] by blast
  obtain q where q: "oms_put (cb_ops_meta B) g genesis_op_meta (cs_ops_meta s) = (Inr (), q)" "cv_ops_meta_ok V q"
    "cv_ops_meta V q = (cv_ops_meta V (cs_ops_meta s))(g \<mapsto> om)"
    using opm.oms_put_spec [OF ok(2) assms(2) gm(2)] assms(4) by (auto simp: ops_meta_of_def)
  show ?thesis
    by (rule that [of "s\<lparr>cs_meta := t, cs_ops_meta := q\<rparr>"])
      (use assms(1) t q in \<open>simp_all add: store_commit_genesis_result_def bindA_def in_meta_def in_ops_meta_def storages_ok_def views\<close>)
qed

lemma commit_genesis_spec:
  assumes "storages_ok V s" "length g = LEN_BLOCK_HASH" "length cid = LEN_CHAIN_ID"
    and "merged op_meta_merge (ops_meta_of V s g) genesis_op_meta = Some om" "block_map_of V s g = Some (bh, j)"
  obtains s' where "store_commit_genesis_result B g cid res s = (Inr (), s')" "storages_ok V s'"
    "block_map_of V s' = (block_map_of V s)(g \<mapsto> (bh, Some (json_of_genesis res)))" "ops_meta_of V s' = (ops_meta_of V s)(g \<mapsto> om)"
    "meta_of V s' = (meta_of V s)(g \<mapsto> (case meta_of V s g of None \<Rightarrow> genesis_meta g cid True | Some w \<Rightarrow> meta_merge w (genesis_meta g cid True)))"
    "cv_chain_meta V (cs_chain_meta s') (key_current_head cid) = Some (MdHead (new_head (bh_hash bh) (h_level (bh_header bh)) (h_fitness (bh_header bh))))"
    "additional_of V s' = additional_of V s"
proof -
  define h where "h = new_head (bh_hash bh) (h_level (bh_header bh)) (h_fitness (bh_header bh))"
  obtain s1 where s1: "store_commit_genesis_result B g cid res s =
      bindA (in_blocks (put_block_json_data (cb_blocks B) g (json_of_genesis res))) (\<lambda>_.
      bindA (in_blocks (bs_get (cb_blocks B) g)) (init_chain_data B cid)) s1"
    and v1: "storages_ok V s1" "cs_blocks s1 = cs_blocks s" "cs_chain_meta s1 = cs_chain_meta s" "cs_additional s1 = cs_additional s"
    "meta_of V s1 = (meta_of V s)(g \<mapsto> (case meta_of V s g of None \<Rightarrow> genesis_meta g cid True | Some w \<Rightarrow> meta_merge w (genesis_meta g cid True)))"
    "ops_meta_of V s1 = (ops_meta_of V s)(g \<mapsto> om)"
    by (rule genesis_marked [OF assms(1-4), where res = res])
  have "block_map_of V s1 g = Some (bh, j)"
    using assms(5) v1(2) by (simp add: block_map_of_def)
  then obtain b where b: "in_blocks (put_block_json_data (cb_blocks B) g (json_of_genesis res)) s1 = (Inr (), s1\<lparr>cs_blocks := b\<rparr>)"
    "stores_ok (cv_blocks V) b" "blocks (cv_blocks V) b = (block_map_of V s1)(g \<mapsto> (bh, Some (json_of_genesis res)))"
    by (rule put_json_run [OF v1(1) assms(2)])
  have get: "bs_get (cb_blocks B) g b = (Inr (Some bh), b)"
    using bl.readers_spec(1) [OF b(2) assms(2), of "replicate 32 0"] by (simp add: b(3))
  have "cv_chain_meta_ok V (cs_chain_meta s1)"
    using v1(1) by (simp add: storages_ok_def)
  then obtain c where c: "cv_chain_meta_ok V c"
    "bindA (set_genesis (cb_chain_meta B) cid h) (\<lambda>_. bindA (set_caboose (cb_chain_meta B) cid h) (\<lambda>_. set_current_head (cb_chain_meta B) cid h)) (cs_chain_meta s1) = (Inr (), c)"
    "cv_chain_meta V c = (cv_chain_meta V (cs_chain_meta s1))(key_genesis cid \<mapsto> MdHead h, key_caboose cid \<mapsto> MdHead h, key_current_head cid \<mapsto> MdHead h)"
    using chain_heads_run [OF _ assms(3), where h = h] by blast
  have heads: "init_chain_data B cid (Some bh) (s1\<lparr>cs_blocks := b\<rparr>) = (Inr (), s1\<lparr>cs_blocks := b, cs_chain_meta := c\<rparr>)"
    using c(2) by (simp add: init_chain_data_def Let_def h_def [symmetric] in_chain_meta_bind) (simp add: in_chain_meta_def)
  have "store_commit_genesis_result B g cid res s = (Inr (), s1\<lparr>cs_blocks := b, cs_chain_meta := c\<rparr>)"
    unfolding s1 by (simp add: bindA_def b(1) in_blocks_def [of "bs_get (cb_blocks B) g"] get heads)
  then show ?thesis
    by (rule that) (use v1 b c in \<open>simp_all add: storages_ok_def views additional_of_def h_def\<close>)
qed

end

section \<open>Properties\<close>

text \<open>
  Property C6. Storing the result of an application makes the block complete before it is marked applied:
  afterwards its JSON data and additional data can be read, the index of predecessors is extended by its
  predecessor, the metadata differ from the old ones only in the flag, and the invariants of the
  storages hold, among them that every applied block has both kinds of data.
\<close>

theorem store_applied_block_result_complete:
  assumes "chain_laws B V" "storages_ok V s" "consistent V s" "applied_complete V s"
    and "length h = LEN_BLOCK_HASH" "block_map_of V s h = Some (bh, j)" "meta_of V s h = Some m"
    and "m_predecessor m = Some p" "p \<noteq> h" "index_ok (pred_of V s)" "fresh_block (pred_of V s) h"
    and "0 \<le> sint (ar_max_operations_ttl res)" "sint (ar_max_operations_ttl res) < 2 ^ 16"
  shows "\<exists>s' d. store_applied_block_result B h res m s = (Inr (d, m\<lparr>m_is_applied := True\<rparr>), s') \<and>
    storages_ok V s' \<and> consistent V s' \<and> applied_complete V s' \<and>
    block_map_of V s' = (block_map_of V s)(h \<mapsto> (bh, Some (json_of_response res))) \<and>
    additional_of V s' = (additional_of V s)(h \<mapsto> d) \<and> meta_of V s' = (meta_of V s)(h \<mapsto> m\<lparr>m_is_applied := True\<rparr>) \<and>
    index_ok (pred_of V s') \<and> direct (pred_of V s') = (direct (pred_of V s))(h \<mapsto> p) \<and>
    max_operations_ttl d = word_of_int (sint (ar_max_operations_ttl res))"
proof -
  obtain d where d: "additional_data_of res = Inr d" "max_operations_ttl d = word_of_int (sint (ar_max_operations_ttl res))"
    using assms(12,13) by (auto simp: additional_data_of_def new_additional_data_def)
  obtain s' where s': "store_applied_block_result B h res m s = (Inr (d, m\<lparr>m_is_applied := True\<rparr>), s')" "storages_ok V s'"
    "block_map_of V s' = (block_map_of V s)(h \<mapsto> (bh, Some (json_of_response res)))"
    "additional_of V s' = (additional_of V s)(h \<mapsto> d)" "meta_of V s' = (meta_of V s)(h \<mapsto> meta_merge m (m\<lparr>m_is_applied := True\<rparr>))"
    "index_ok (pred_of V s')" "direct (pred_of V s') = (direct (pred_of V s))(h \<mapsto> p)"
    "ops_of V s' = ops_of V s" "ops_meta_of V s' = ops_meta_of V s" "cs_chain_meta s' = cs_chain_meta s"
    by (rule chain_laws.store_applied_spec [OF assms(1,2,5-7) d(1) chain_laws.stored_meta_ok [OF assms(1,2,7)] assms(8-11)])
  have m': "meta_of V s' = (meta_of V s)(h \<mapsto> m\<lparr>m_is_applied := True\<rparr>)"
    by (simp add: s'(5) meta_merge_self)
  have "consistent V s'"
    using assms(3,6,8) unfolding consistent_def s'(3,8,9) m' by (auto split: if_splits)
  moreover have "applied_complete V s'"
    using assms(4) unfolding applied_complete_def s'(3,4) m' by (auto split: if_splits)
  ultimately show ?thesis
    using s' m' d(2) by blast
qed

definition sample_response :: apply_block_response where
  "sample_response = \<lparr>ar_context_hash = [], ar_protocol_hash = [], ar_next_protocol_hash = [], ar_block_header_proto_json = [],
     ar_block_header_proto_metadata_bytes = [], ar_operations_proto_metadata_bytes = [], ar_max_operations_ttl = 60,
     ar_last_allowed_fork_level = 0, ar_block_metadata_hash = None, ar_ops_metadata_hashes = None, ar_ops_metadata_hash = None\<rparr>"

lemma sample_received:
  obtains s where "storages_ok mem_chain_views s" "consistent mem_chain_views s" "applied_complete mem_chain_views s"
    "block_map_of mem_chain_views s (replicate 32 7) = Some (sample_header, None)" "index_ok (pred_of mem_chain_views s)"
    "fresh_block (pred_of mem_chain_views s) (replicate 32 7)" "room (meta_of mem_chain_views s)"
    "meta_of mem_chain_views s (replicate 32 7) = Some (new_meta False (Some (replicate 32 3)) 1 [0, 0, 0, 0])"
proof -
  have m0: "meta_of mem_chain_views empty_stores = Map.empty" "pred_of mem_chain_views empty_stores = Map.empty"
    by (simp_all add: meta_of_def pred_of_def mem_chain_views_def empty_stores_def empty_index) (simp add: empty_cfs_def bm.tview_def fun_eq_iff)
  obtain s r where s: "process_block_header_from_peer mem_chain [0, 0, 0, 0] True sample_header ''peer'' empty_stores = (Inr r, s)"
    "storages_ok mem_chain_views s" "block_map_of mem_chain_views s = spec_put_header sample_header (block_map_of mem_chain_views empty_stores)"
    "meta_of mem_chain_views s = put_header_view (meta_of mem_chain_views empty_stores) sample_header [0, 0, 0, 0]"
    "cs_pred s = cs_pred empty_stores" "cs_additional s = cs_additional empty_stores"
    "consistent mem_chain_views empty_stores \<longrightarrow> consistent mem_chain_views s"
    by (rule mch.received_header [OF empty_chain(1) sample_ok empty_chain(3)])
  have m: "meta_of mem_chain_views s = [replicate 32 7 \<mapsto> new_meta False (Some (replicate 32 3)) 1 [0, 0, 0, 0],
      replicate 32 3 \<mapsto> (new_meta False None 0 [0, 0, 0, 0])\<lparr>m_successors := [replicate 32 7]\<rparr>]"
    by (simp add: s(4) m0 put_header_view_def own_record_def predecessor_record_def sample_header_def replicate_eq_replicate)
  have "pred_of mem_chain_views s = Map.empty"
    using m0(2) s(5) by (simp add: pred_of_def)
  moreover have "applied_complete mem_chain_views s" "room (meta_of mem_chain_views s)"
    unfolding applied_complete_def room_def m by (auto simp: new_meta_def vec_capacity_ok_def split: if_splits)
  ultimately show ?thesis
    using s(2,3) s(7) empty_chain(2) m
    by (intro that [of s]) (simp_all add: empty_chain(4) spec_put_header_def sample_header_def replicate_eq_replicate)
qed

theorem store_applied_block_result_complete_witness:
  "\<exists>s s' d. store_applied_block_result mem_chain (replicate 32 7) sample_response (new_meta False (Some (replicate 32 3)) 1 [0, 0, 0, 0]) s =
      (Inr (d, new_meta True (Some (replicate 32 3)) 1 [0, 0, 0, 0]), s') \<and> applied_complete mem_chain_views s' \<and> max_operations_ttl d = 60"
proof -
  obtain s where s: "storages_ok mem_chain_views s" "consistent mem_chain_views s" "applied_complete mem_chain_views s"
    "block_map_of mem_chain_views s (replicate 32 7) = Some (sample_header, None)" "index_ok (pred_of mem_chain_views s)"
    "fresh_block (pred_of mem_chain_views s) (replicate 32 7)" "room (meta_of mem_chain_views s)"
    "meta_of mem_chain_views s (replicate 32 7) = Some (new_meta False (Some (replicate 32 3)) 1 [0, 0, 0, 0])"
    by (rule sample_received)
  show ?thesis
    using store_applied_block_result_complete [OF mch.chain_laws_axioms s(1-3) _ s(4,8) _ _ s(5,6), of "replicate 32 3" sample_response]
    by (auto simp: LEN_BLOCK_HASH_def new_meta_def replicate_eq_replicate sample_response_def)
qed

text \<open>
  A failed attempt never leaves a block marked as applied by accident: over any storage whatsoever,
  if an error is returned, the metadata are as before, or it is the last write, the one of the metadata
  itself, that failed.
\<close>

theorem store_applied_block_result_error:
  assumes "store_applied_block_result B h res m s = (Inl e, s')"
  shows "cs_meta s' = cs_meta s \<or> bms_put (cb_meta B) h (m\<lparr>m_is_applied := True\<rparr>) (cs_meta s) = (Inl e, cs_meta s')"
  using assms
  by (auto simp: store_applied_block_result_def bindA_def liftR_def ret_def Let_def in_blocks_def in_additional_def in_pred_def
      in_meta_def split: prod.splits sum.splits)

theorem store_applied_block_result_error_witness:
  "cs_meta (snd (store_applied_block_result mem_chain (replicate 32 7) sample_response (new_meta False None 0 []) empty_stores)) = empty_cfs"
proof -
  obtain b where "in_blocks (put_block_json_data (cb_blocks mem_chain) (replicate 32 7) (json_of_response sample_response)) empty_stores =
      (Inl (Err MissingKey), b)" "cs_meta b = empty_cfs"
    using mch.bl.put_json_spec [of "cs_blocks empty_stores" "replicate 32 7" "json_of_response sample_response"] empty_chain(1,4)
    by (auto simp: in_blocks_def storages_ok_def block_map_of_def LEN_BLOCK_HASH_def empty_stores_def)
  then have run: "store_applied_block_result mem_chain (replicate 32 7) sample_response (new_meta False None 0 []) empty_stores =
      (Inl (Err MissingKey), b)"
    by (simp add: store_applied_block_result_def bindA_def)
  from store_applied_block_result_error [OF this] \<open>cs_meta b = empty_cfs\<close> show ?thesis
    by (simp add: run)
qed

text \<open>
  Property C39. The metadata are written back as they were read before the application. If a header of a successor
  arrives in between, and the block had another number of successors then, the merge takes the stale list:
  the new successor was recorded and is lost again.
\<close>

theorem stale_metadata_loses_successor:
  assumes "chain_laws B V" "storages_ok V s" "room (meta_of V s)"
    and "length h = LEN_BLOCK_HASH" "block_map_of V s h = Some (b, j)" "meta_of V s h = Some m"
    and "m_predecessor m = Some p" "p \<noteq> h" "index_ok (pred_of V s)" "fresh_block (pred_of V s) h" "additional_data_of res = Inr d"
    and "header_ok bh cid" "h_predecessor (bh_header bh) = h" "bh_hash bh \<noteq> h" "bh_hash bh \<notin> set (m_successors m)"
  shows "\<exists>r s1 s2 m1 m2. process_block_header_from_peer B cid runs bh peer s = (Inr r, s1) \<and>
    meta_of V s1 h = Some m1 \<and> bh_hash bh \<in> set (m_successors m1) \<and>
    store_applied_block_result B h res m s1 = (Inr (d, m\<lparr>m_is_applied := True\<rparr>), s2) \<and>
    meta_of V s2 h = Some m2 \<and> m_successors m2 = m_successors m"
proof -
  obtain s1 r where s1: "process_block_header_from_peer B cid runs bh peer s = (Inr r, s1)" "storages_ok V s1"
    "block_map_of V s1 = spec_put_header bh (block_map_of V s)" "meta_of V s1 = put_header_view (meta_of V s) bh cid"
    "cs_pred s1 = cs_pred s" "cs_additional s1 = cs_additional s" "consistent V s \<longrightarrow> consistent V s1"
    by (rule chain_laws.received_header [OF assms(1,2,12,3)])
  define m1 where "m1 = m\<lparr>m_successors := m_successors m @ [bh_hash bh]\<rparr>"
  have v1: "block_map_of V s1 h = Some (b, j)" "meta_of V s1 h = Some m1" "pred_of V s1 = pred_of V s"
    using assms(5,6,13-15) s1(3-5) by (auto simp: spec_put_header_def put_header_view_def predecessor_record_def m1_def pred_of_def Let_def)
  have fresh: "index_ok (pred_of V s1)" "fresh_block (pred_of V s1) h"
    using assms(9,10) by (simp_all add: v1(3))
  obtain s2 where "store_applied_block_result B h res m s1 = (Inr (d, m\<lparr>m_is_applied := True\<rparr>), s2)"
    "meta_of V s2 = (meta_of V s1)(h \<mapsto> meta_merge m1 (m\<lparr>m_is_applied := True\<rparr>))"
    using chain_laws.store_applied_spec [OF assms(1) s1(2) assms(4) v1(1,2) assms(11) chain_laws.stored_meta_ok [OF assms(1,2,6)] assms(7,8) fresh]
    by blast
  with s1(1) v1(2) show ?thesis
    by (auto simp: m1_def meta_merge_def)
qed

definition sample_child :: block_header_with_hash where
  "sample_child = sample_header\<lparr>bh_hash := replicate 32 9, bh_header := (bh_header sample_header)\<lparr>h_level := 2, h_predecessor := replicate 32 7\<rparr>\<rparr>"

theorem stale_metadata_loses_successor_witness:
  "\<exists>s r s1 s2 d m m1 m2. process_block_header_from_peer mem_chain [0, 0, 0, 0] True sample_child ''peer'' s = (Inr r, s1) \<and>
    meta_of mem_chain_views s1 (replicate 32 7) = Some m1 \<and> replicate 32 9 \<in> set (m_successors m1) \<and>
    store_applied_block_result mem_chain (replicate 32 7) sample_response m s1 = (Inr d, s2) \<and>
    meta_of mem_chain_views s2 (replicate 32 7) = Some m2 \<and> m_successors m2 = []"
proof -
  obtain s where s: "storages_ok mem_chain_views s" "consistent mem_chain_views s" "applied_complete mem_chain_views s"
    "block_map_of mem_chain_views s (replicate 32 7) = Some (sample_header, None)" "index_ok (pred_of mem_chain_views s)"
    "fresh_block (pred_of mem_chain_views s) (replicate 32 7)" "room (meta_of mem_chain_views s)"
    "meta_of mem_chain_views s (replicate 32 7) = Some (new_meta False (Some (replicate 32 3)) 1 [0, 0, 0, 0])"
    by (rule sample_received)
  obtain d where d: "additional_data_of sample_response = Inr d"
    by (simp add: additional_data_of_def sample_response_def)
  have ok: "header_ok sample_child [0, 0, 0, 0]" "length (replicate 32 (7 :: byte)) = LEN_BLOCK_HASH"
    by (simp_all add: header_ok_def sample_child_def layout LEN_BLOCK_HASH_def)
  show ?thesis
    using stale_metadata_loses_successor [OF mch.chain_laws_axioms s(1,7) ok(2) s(4,8) _ _ s(5,6) d ok(1), of "replicate 32 3" True "''peer''"]
    by (auto simp: new_meta_def replicate_eq_replicate sample_child_def) blast
qed

end
