(* ===== verification/ChainFeeder.thy ===== *)
theory ChainFeeder
  imports ApplyResult
begin

text \<open>
  Feeding blocks to the protocol (\<^verbatim>\<open>shell/src/chain_feeder.rs\<close>): the thread that initialises the
  protocol context and applies batches of blocks. The protocol runner is another process reached over
  IPC; its calls are parameters, with a state of their own. Messages to other actors are recorded in
  the order in which they are sent, with the return of the ticket of the batch among them.
\<close>

section \<open>State and environment\<close>

record apply_block_request =
  rq_chain_id :: chain_id
  rq_block_header :: block_header
  rq_pred_header :: block_header
  rq_max_operations_ttl :: i32
  rq_operations :: "operation list list"
  rq_predecessor_block_metadata_hash :: "bytes option"
  rq_predecessor_ops_metadata_hash :: "bytes option"

datatype feed_chain_error =
    UnknownCurrentHeadError
  | MissingContextError context_hash
  | FcStorageError storage_error
  | FcProtocolServiceError protocol_service_error
  | FcProcessingError string

record apply_block_stats =
  applied_block_level :: "i32 option"
  applied_block_lasts_count :: "32 word"

definition default_apply_stats :: apply_block_stats where
  "default_apply_stats = \<lparr>applied_block_level = None, applied_block_lasts_count = 0\<rparr>"

text \<open>Counters wrap as the release build does.\<close>

definition add_block_validation_stats :: "apply_block_stats \<Rightarrow> apply_block_stats" where
  "add_block_validation_stats st = st\<lparr>applied_block_lasts_count := applied_block_lasts_count st + 1\<rparr>"

definition set_applied_block_level :: "i32 \<Rightarrow> apply_block_stats \<Rightarrow> apply_block_stats" where
  "set_applied_block_level l st = st\<lparr>applied_block_level := Some l\<rparr>"

definition merge_stats :: "apply_block_stats \<Rightarrow> apply_block_stats \<Rightarrow> apply_block_stats" where
  "merge_stats st new = \<lparr>applied_block_level = applied_block_level new,
     applied_block_lasts_count = applied_block_lasts_count st + applied_block_lasts_count new\<rparr>"

definition clear_applied_block_lasts :: "apply_block_stats \<Rightarrow> apply_block_stats" where
  "clear_applied_block_lasts st = st\<lparr>applied_block_lasts_count := 0\<rparr>"

datatype feeder_event =
    ProcessValidatedBlock block_header_with_hash chain_id
  | ApplyBlockBatchFailed block_hash
  | ApplyBlockBatchDone block_hash
  | ApplyBlockDone apply_block_stats
  | OneshotResult "state_error + unit"
  | DropPermit

record ('r, 'g, 'p) feed_state =
  fd_stores :: "('r, 'g) chain_stores"
  fd_runner :: 'p
  fd_tick :: nat
  fd_sent :: "feeder_event list"

text \<open>
  The environment: the calls of the protocol runner, what the polls of the context say and how long each
  of them takes in milliseconds, and the value of the run flag each time it is read.
\<close>

record 'p feeder_env =
  fe_apply_block :: "apply_block_request \<Rightarrow> ('p, protocol_service_error, apply_block_response) act"
  fe_init_protocol_for_write :: "bool \<Rightarrow> ('p, protocol_service_error, context_hash option) act"
  fe_genesis_result_data :: "context_hash \<Rightarrow> ('p, protocol_service_error, commit_genesis_result) act"
  fe_is_committed :: "context_hash \<Rightarrow> nat \<Rightarrow> bool"
  fe_poll_time :: "context_hash \<Rightarrow> nat \<Rightarrow> nat"
  fe_one_context :: bool
  fe_run :: "nat \<Rightarrow> bool"

type_synonym ('r, 'g, 'p, 'a) feed_act = "(('r, 'g, 'p) feed_state, feed_chain_error failure, 'a) act"

definition in_stores :: "('r, 'g, 'a) chain_act \<Rightarrow> ('r, 'g, 'p, 'a) feed_act" where
  "in_stores m s = (case m (fd_stores s) of (r, t) \<Rightarrow> (map_err (map_failure FcStorageError) r, s\<lparr>fd_stores := t\<rparr>))"

definition in_runner :: "('p, protocol_service_error, 'a) act \<Rightarrow> ('r, 'g, 'p, 'a) feed_act" where
  "in_runner m s = (case m (fd_runner s) of (r, t) \<Rightarrow> (map_err (\<lambda>e. Err (FcProtocolServiceError e)) r, s\<lparr>fd_runner := t\<rparr>))"

definition tell :: "feeder_event \<Rightarrow> ('r, 'g, 'p, unit) feed_act" where
  "tell e s = (Inr (), s\<lparr>fd_sent := fd_sent s @ [e]\<rparr>)"

definition load_run :: "'p feeder_env \<Rightarrow> ('r, 'g, 'p, bool) feed_act" where
  "load_run E s = (Inr (fe_run E (fd_tick s)), s\<lparr>fd_tick := Suc (fd_tick s)\<rparr>)"

text \<open>A result that is matched on instead of being passed on with \<^verbatim>\<open>?\<close>. A panic ends the thread.\<close>

definition attempt :: "('r, 'g, 'p, 'a) feed_act \<Rightarrow> ('r, 'g, 'p, feed_chain_error + 'a) feed_act" where
  "attempt m s = (case m s of
       (Inr a, t) \<Rightarrow> (Inr (Inr a), t)
     | (Inl (Err e), t) \<Rightarrow> (Inr (Inl e), t)
     | (Inl Panic, t) \<Rightarrow> (Inl Panic, t))"

section \<open>Waiting for the context\<close>

definition CONTEXT_WAIT_TIMEOUT :: nat where
  "CONTEXT_WAIT_TIMEOUT = 60 * 60 * 2 * 1000"

definition CONTEXT_WAIT_DELAY :: nat where
  "CONTEXT_WAIT_DELAY = 15"

text \<open>
  The loop, at poll \<open>i\<close> with \<open>elapsed\<close> milliseconds since the start. A thread sleeps at least as long as
  asked; anything beyond is counted to the time of the next poll.
\<close>

function wait_loop :: "(nat \<Rightarrow> bool) \<Rightarrow> (nat \<Rightarrow> nat) \<Rightarrow> nat \<Rightarrow> nat \<Rightarrow> bool \<times> nat" where
  "wait_loop committed poll_time i elapsed =
     (if committed i then (True, i)
      else if elapsed \<le> CONTEXT_WAIT_TIMEOUT
      then wait_loop committed poll_time (Suc i) (elapsed + CONTEXT_WAIT_DELAY + poll_time (Suc i))
      else (False, i))"
  by pat_completeness auto
termination
  by (relation "measure (\<lambda>(_, _, _, elapsed). Suc CONTEXT_WAIT_TIMEOUT - elapsed)") (auto simp: CONTEXT_WAIT_DELAY_def)

declare wait_loop.simps [simp del]

definition wait_for_context :: "'p feeder_env \<Rightarrow> context_hash \<Rightarrow> feed_chain_error + unit" where
  "wait_for_context E ctxt =
     (if fe_one_context E then Inr ()
      else if fst (wait_loop (fe_is_committed E ctxt) (fe_poll_time E ctxt) 0 (fe_poll_time E ctxt 0)) then Inr ()
      else Inl (MissingContextError ctxt))"

section \<open>Requests\<close>

definition convert_operations :: "operations_for_blocks_message list \<Rightarrow> operation list list" where
  "convert_operations = map operations"

text \<open>Header and additional data of the predecessor, from the block applied before or from the storages.\<close>

definition resolve_block_data :: "('r, 'g) chain_backend \<Rightarrow> block_hash \<Rightarrow> (block_header_with_hash \<times> block_additional_data) option \<Rightarrow>
    ('r, 'g, 'p, block_header_with_hash \<times> block_additional_data) feed_act" where
  "resolve_block_data B h block_data_cache =
     (let load =
        bindA (in_stores (in_blocks (bs_get (cb_blocks B) h))) (\<lambda>b.
        case b of
          None \<Rightarrow> fail (Err (FcStorageError MissingKey))
        | Some block \<Rightarrow>
            bindA (in_stores (in_additional (get_additional_data (cb_additional B) h))) (\<lambda>d.
            case d of
              None \<Rightarrow> fail (Err (FcStorageError MissingKey))
            | Some additional_data \<Rightarrow> ret (block, additional_data)))
      in case block_data_cache of
        Some cached \<Rightarrow> if h = bh_hash (fst cached) then ret cached else load
      | None \<Rightarrow> load)"

definition prepare_apply_request :: "('r, 'g) chain_backend \<Rightarrow> block_hash \<Rightarrow> chain_id \<Rightarrow>
    (block_header_with_hash \<times> block_additional_data) option \<Rightarrow>
    ('r, 'g, 'p, apply_block_request \<times> meta \<times> block_header_with_hash) feed_act" where
  "prepare_apply_request B h cid predecessor_data_cache =
     bindA (in_stores (in_blocks (bs_get (cb_blocks B) h))) (\<lambda>b.
     case b of
       None \<Rightarrow> fail (Err (FcStorageError MissingKey))
     | Some block \<Rightarrow>
         bindA (in_stores (in_meta (bms_get (cb_meta B) h))) (\<lambda>m.
         case m of
           None \<Rightarrow> fail (Err (FcProcessingError ''Block metadata not found''))
         | Some block_meta \<Rightarrow>
             bindA (in_stores (in_ops (get_operations (cb_ops B) h))) (\<lambda>ops.
             bindA (resolve_block_data B (h_predecessor (bh_header block)) predecessor_data_cache) (\<lambda>(predecessor, d).
             let (block_hash', ops_hash, ttl) = into_metadata_hashes_ttl d in
             ret (\<lparr>rq_chain_id = cid, rq_block_header = bh_header block, rq_pred_header = bh_header predecessor,
                   rq_max_operations_ttl = ucast ttl, rq_operations = convert_operations ops,
                   rq_predecessor_block_metadata_hash = block_hash', rq_predecessor_ops_metadata_hash = ops_hash\<rparr>,
                  block_meta, block)))))"

section \<open>Applying\<close>

definition apply_block :: "('r, 'g) chain_backend \<Rightarrow> 'p feeder_env \<Rightarrow> block_hash \<Rightarrow>
    feed_chain_error + apply_block_request \<times> meta \<times> block_header_with_hash \<Rightarrow>
    ('r, 'g, 'p, (block_header_with_hash \<times> block_additional_data) option) feed_act" where
  "apply_block B E h apply_block_request_data =
     bindA (liftR (map_err Err apply_block_request_data)) (\<lambda>(request, block_meta, block).
     if m_is_applied block_meta then ret None
     else bindA (in_runner (fe_apply_block E request)) (\<lambda>result.
       bindA (liftR (map_err Err (wait_for_context E (ar_context_hash result)))) (\<lambda>_.
       bindA (in_stores (store_applied_block_result B h result block_meta)) (\<lambda>(d, _).
       ret (Some (block, d))))))"

record batch_progress =
  last_applied :: "block_hash option"
  batch_stats :: "apply_block_stats option"
  oneshot_result :: "(state_error + unit) option"
  previous_block_data_cache :: "(block_header_with_hash \<times> block_additional_data) option"

definition start_progress :: batch_progress where
  "start_progress = \<lparr>last_applied = None, batch_stats = Some default_apply_stats, oneshot_result = None, previous_block_data_cache = None\<rparr>"

text \<open>A block was applied, or it had been applied before.\<close>

definition on_block_applied :: "bool \<Rightarrow> block_hash \<Rightarrow> block_header_with_hash \<Rightarrow> block_additional_data \<Rightarrow> batch_progress \<Rightarrow> batch_progress" where
  "on_block_applied callback h block d st = st\<lparr>last_applied := Some h,
     oneshot_result := (if callback then Some (Inr ()) else oneshot_result st),
     previous_block_data_cache := Some (block, d),
     batch_stats := map_option (\<lambda>a. add_block_validation_stats (set_applied_block_level (h_level (bh_header block)) a)) (batch_stats st)\<rparr>"

definition on_block_known :: "bool \<Rightarrow> block_hash \<Rightarrow> batch_progress \<Rightarrow> batch_progress" where
  "on_block_known callback h st = st\<lparr>last_applied := Some h,
     oneshot_result := (if callback then Some (Inl (ProcessingError ''Block/batch is already applied'')) else oneshot_result st),
     previous_block_data_cache := None\<rparr>"

text \<open>
  A block failed: the waiting caller, the bootstrapper and the feeder are told at once. An error of the
  connection to the runner is passed on, any other error just ends the batch.
\<close>

definition on_block_failed :: "'p feeder_env \<Rightarrow> bool \<Rightarrow> bool \<Rightarrow> block_hash \<Rightarrow> feed_chain_error \<Rightarrow> batch_progress \<Rightarrow>
    ('r, 'g, 'p, batch_progress) feed_act" where
  "on_block_failed E callback bootstrapper h e st =
     bindA (whenA callback (tell (OneshotResult (Inl (ProcessingError ''Block apply processing failed''))))) (\<lambda>_.
     bindA (load_run E) (\<lambda>run.
     bindA (whenA (run \<and> bootstrapper) (tell (ApplyBlockBatchFailed h))) (\<lambda>_.
     bindA (case batch_stats st of Some a \<Rightarrow> tell (ApplyBlockDone a) | None \<Rightarrow> ret ()) (\<lambda>_.
     bindA (case e of
         FcProtocolServiceError err \<Rightarrow> liftR (map_err (\<lambda>x. Err (FcProtocolServiceError x)) (handle_protocol_service_error err))
       | _ \<Rightarrow> ret ()) (\<lambda>_.
     ret (st\<lparr>batch_stats := None, oneshot_result := (if callback then None else oneshot_result st)\<rparr>))))))"

text \<open>One block: its request is prepared and applied, and the outcome is matched on.\<close>

definition apply_one :: "('r, 'g) chain_backend \<Rightarrow> 'p feeder_env \<Rightarrow> chain_id \<Rightarrow> (block_header_with_hash \<times> block_additional_data) option \<Rightarrow>
    block_hash \<Rightarrow> ('r, 'g, 'p, feed_chain_error + (block_header_with_hash \<times> block_additional_data) option) feed_act" where
  "apply_one B E cid cache h =
     bindA (attempt (prepare_apply_request B h cid cache)) (\<lambda>request. attempt (apply_block B E h request))"

text \<open>The blocks of a batch in order. \<^term>\<open>None\<close> stands for the early return on shutdown.\<close>

fun apply_blocks :: "('r, 'g) chain_backend \<Rightarrow> 'p feeder_env \<Rightarrow> chain_id \<Rightarrow> bool \<Rightarrow> bool \<Rightarrow> block_hash list \<Rightarrow> batch_progress \<Rightarrow>
    ('r, 'g, 'p, batch_progress option) feed_act" where
  "apply_blocks B E cid callback bootstrapper [] st = ret (Some st)"
| "apply_blocks B E cid callback bootstrapper (h # hs) st =
     bindA (load_run E) (\<lambda>run.
     if \<not> run then ret None
     else bindA (apply_one B E cid (previous_block_data_cache st) h) (\<lambda>r.
       case r of
         Inr (Some (block, d)) \<Rightarrow>
           bindA (tell (ProcessValidatedBlock block cid)) (\<lambda>_.
           apply_blocks B E cid callback bootstrapper hs (on_block_applied callback h block d st))
       | Inr None \<Rightarrow> apply_blocks B E cid callback bootstrapper hs (on_block_known callback h st)
       | Inl e \<Rightarrow> bindA (on_block_failed E callback bootstrapper h e st) (\<lambda>st'. ret (Some st'))))"

text \<open>The end of a batch.\<close>

definition finish_batch :: "'p feeder_env \<Rightarrow> bool \<Rightarrow> bool \<Rightarrow> bool \<Rightarrow> batch_progress \<Rightarrow> ('r, 'g, 'p, unit) feed_act" where
  "finish_batch E callback bootstrapper permit st =
     bindA (whenA permit (tell DropPermit)) (\<lambda>_.
     bindA (case oneshot_result st of Some r \<Rightarrow> whenA callback (tell (OneshotResult r)) | None \<Rightarrow> ret ()) (\<lambda>_.
     bindA (load_run E) (\<lambda>run.
     whenA run
       (bindA (case batch_stats st of Some a \<Rightarrow> tell (ApplyBlockDone a) | None \<Rightarrow> ret ()) (\<lambda>_.
        case last_applied st of
          Some h \<Rightarrow> whenA bootstrapper (tell (ApplyBlockBatchDone h))
        | None \<Rightarrow> ret ())))))"

record apply_request =
  ab_batch :: apply_block_batch
  ab_chain_id :: chain_id
  ab_bootstrapper :: bool
  ab_result_callback :: bool
  ab_permit :: bool

text \<open>
  One request of the queue. Where the function is left early, by shutdown or by an error, the request
  and its ticket go out of scope.
\<close>

definition process_request :: "('r, 'g) chain_backend \<Rightarrow> 'p feeder_env \<Rightarrow> apply_request \<Rightarrow> ('r, 'g, 'p, bool) feed_act" where
  "process_request B E req s =
     (case apply_blocks B E (ab_chain_id req) (ab_result_callback req) (ab_bootstrapper req)
         (take_all_blocks_to_apply (ab_batch req)) start_progress s of
        (Inr (Some st), t) \<Rightarrow> bindA (finish_batch E (ab_result_callback req) (ab_bootstrapper req) (ab_permit req) st) (\<lambda>_. ret True) t
      | (Inr None, t) \<Rightarrow> bindA (whenA (ab_permit req) (tell DropPermit)) (\<lambda>_. ret False) t
      | (Inl e, t) \<Rightarrow> bindA (whenA (ab_permit req) (tell DropPermit)) (\<lambda>_. fail e) t)"

section \<open>Initialisation and the loop of the thread\<close>

definition initialize_protocol_context :: "('r, 'g) chain_backend \<Rightarrow> 'p feeder_env \<Rightarrow> genesis_env \<Rightarrow> block_hash \<Rightarrow> chain_id \<Rightarrow>
    ('r, 'g, 'p, unit) feed_act" where
  "initialize_protocol_context B E G genesis_hash cid =
     bindA (in_stores (in_meta (bms_get (cb_meta B) genesis_hash))) (\<lambda>m.
     let need_commit_genesis = (case m of Some meta \<Rightarrow> \<not> m_is_applied meta | None \<Rightarrow> True) in
     bindA (in_runner (fe_init_protocol_for_write E need_commit_genesis)) (\<lambda>genesis_commit_hash.
     case (need_commit_genesis, genesis_commit_hash) of
       (True, Some ctxt) \<Rightarrow>
         bindA (in_stores (initialize_storage_with_genesis_block B G genesis_hash ctxt)) (\<lambda>genesis.
         bindA (liftR (map_err Err (wait_for_context E ctxt))) (\<lambda>_.
         bindA (in_runner (fe_genesis_result_data E ctxt)) (\<lambda>commit_data.
         bindA (in_stores (store_commit_genesis_result B genesis_hash cid commit_data)) (\<lambda>_.
         bindA (load_run E) (\<lambda>run.
         whenA run (tell (ProcessValidatedBlock genesis cid)))))))
     | _ \<Rightarrow> ret ()))"

datatype queue_event = ApplyBlock apply_request | ShuttingDown

text \<open>
  The events that arrive while the thread runs. The loop ends with the flag; a received shutdown clears
  it. A list that ends stands for a thread that waits for the next event.
\<close>

fun apply_events :: "('r, 'g) chain_backend \<Rightarrow> 'p feeder_env \<Rightarrow> queue_event list \<Rightarrow> ('r, 'g, 'p, unit) feed_act" where
  "apply_events B E [] = ret ()"
| "apply_events B E (ev # evs) =
     bindA (load_run E) (\<lambda>run.
     if \<not> run then ret ()
     else (case ev of
         ShuttingDown \<Rightarrow> ret ()
       | ApplyBlock req \<Rightarrow> bindA (process_request B E req) (\<lambda>continue. if continue then apply_events B E evs else ret ())))"

definition feed_chain_to_protocol :: "('r, 'g) chain_backend \<Rightarrow> 'p feeder_env \<Rightarrow> genesis_env \<Rightarrow> block_hash \<Rightarrow> chain_id \<Rightarrow> queue_event list \<Rightarrow>
    ('r, 'g, 'p, unit) feed_act" where
  "feed_chain_to_protocol B E G genesis_hash cid evs =
     bindA (initialize_protocol_context B E G genesis_hash cid) (\<lambda>_.
     bindA (in_stores (in_chain_meta (get_current_head (cb_chain_meta B) cid))) (\<lambda>h.
     if h = None then fail (Err UnknownCurrentHeadError)
     else apply_events B E evs))"

section \<open>Reference: batches without the cache\<close>

text \<open>The same loop, reading the data of every predecessor from the storages.\<close>

fun apply_blocks_direct :: "('r, 'g) chain_backend \<Rightarrow> 'p feeder_env \<Rightarrow> chain_id \<Rightarrow> bool \<Rightarrow> bool \<Rightarrow> block_hash list \<Rightarrow> batch_progress \<Rightarrow>
    ('r, 'g, 'p, batch_progress option) feed_act" where
  "apply_blocks_direct B E cid callback bootstrapper [] st = ret (Some st)"
| "apply_blocks_direct B E cid callback bootstrapper (h # hs) st =
     bindA (load_run E) (\<lambda>run.
     if \<not> run then ret None
     else bindA (apply_one B E cid None h) (\<lambda>r.
       case r of
         Inr (Some (block, d)) \<Rightarrow>
           bindA (tell (ProcessValidatedBlock block cid)) (\<lambda>_.
           apply_blocks_direct B E cid callback bootstrapper hs (on_block_applied callback h block d st))
       | Inr None \<Rightarrow> apply_blocks_direct B E cid callback bootstrapper hs (on_block_known callback h st)
       | Inl e \<Rightarrow> bindA (on_block_failed E callback bootstrapper h e st) (\<lambda>st'. ret (Some st'))))"

text \<open>The hashes of the blocks handed to the manager of the current head, in order.\<close>

fun validated_hashes :: "feeder_event list \<Rightarrow> block_hash list" where
  "validated_hashes [] = []"
| "validated_hashes (ProcessValidatedBlock b cid # evs) = bh_hash b # validated_hashes evs"
| "validated_hashes (_ # evs) = validated_hashes evs"

lemma validated_hashes_append [simp]: "validated_hashes (xs @ ys) = validated_hashes xs @ validated_hashes ys"
  by (induction xs rule: validated_hashes.induct) simp_all

text \<open>The messages about the batch itself.\<close>

definition is_signal :: "feeder_event \<Rightarrow> bool" where
  "is_signal e \<longleftrightarrow> e = DropPermit \<or> (\<exists>a. e = ApplyBlockDone a)"

lemma is_signal_simps [simp]:
  "is_signal DropPermit" "is_signal (ApplyBlockDone a)" "\<not> is_signal (ProcessValidatedBlock b cid)" "\<not> is_signal (OneshotResult r)"
  "\<not> is_signal (ApplyBlockBatchFailed h)" "\<not> is_signal (ApplyBlockBatchDone h)"
  by (simp_all add: is_signal_def)

lemma tells [simp]:
  "tell e s = (Inr (), s\<lparr>fd_sent := fd_sent s @ [e]\<rparr>)"
  "whenA b (tell e) s = (Inr (), s\<lparr>fd_sent := fd_sent s @ (if b then [e] else [])\<rparr>)"
  "(case x of None \<Rightarrow> ret () | Some a \<Rightarrow> tell (f a)) s = (Inr (), s\<lparr>fd_sent := fd_sent s @ (case x of None \<Rightarrow> [] | Some a \<Rightarrow> [f a])\<rparr>)"
  by (simp_all add: whenA_def tell_def ret_def split: option.split)

lemma block_failed_effect:
  assumes "on_block_failed E callback boot h e st s = (r, s')"
  shows "fd_stores s' = fd_stores s" "r \<noteq> Inl Panic"
    "\<exists>new. fd_sent s' = fd_sent s @ new \<and> validated_hashes new = [] \<and> (\<forall>h. ApplyBlockBatchDone h \<notin> set new) \<and>
      filter is_signal new = (case batch_stats st of None \<Rightarrow> [] | Some a \<Rightarrow> [ApplyBlockDone a])"
    "r = Inr st' \<Longrightarrow> last_applied st' = last_applied st \<and> batch_stats st' = None"
proof -
  define new where "new = (if callback then [OneshotResult (Inl (ProcessingError ''Block apply processing failed''))] else []) @
    (if fe_run E (fd_tick s) \<and> boot then [ApplyBlockBatchFailed h] else []) @ (case batch_stats st of None \<Rightarrow> [] | Some a \<Rightarrow> [ApplyBlockDone a])"
  have "s' = s\<lparr>fd_tick := Suc (fd_tick s), fd_sent := fd_sent s @ new\<rparr>" "r \<noteq> Inl Panic"
    "r = Inr st' \<Longrightarrow> last_applied st' = last_applied st \<and> batch_stats st' = None"
    using assms by (auto simp: on_block_failed_def bindA_def load_run_def ret_def liftR_def map_err_def new_def
        split: feed_chain_error.splits sum.splits)
  then show "fd_stores s' = fd_stores s" "r \<noteq> Inl Panic"
    "\<exists>new. fd_sent s' = fd_sent s @ new \<and> validated_hashes new = [] \<and> (\<forall>h. ApplyBlockBatchDone h \<notin> set new) \<and>
      filter is_signal new = (case batch_stats st of None \<Rightarrow> [] | Some a \<Rightarrow> [ApplyBlockDone a])"
    "r = Inr st' \<Longrightarrow> last_applied st' = last_applied st \<and> batch_stats st' = None"
    by (auto simp: new_def intro!: exI [of _ new] split: option.split)
qed

text \<open>Computations that send nothing.\<close>

definition silent :: "('r, 'g, 'p, 'a) feed_act \<Rightarrow> bool" where
  "silent m \<longleftrightarrow> (\<forall>s. fd_sent (snd (m s)) = fd_sent s)"

named_theorems silent_intros "computations that send nothing"

lemma silent_basic [silent_intros]:
  "silent (in_stores a)" "silent (in_runner c)" "silent (liftR x)" "silent (ret y)" "silent (fail z)"
  by (auto simp: silent_def in_stores_def in_runner_def liftR_def ret_def fail_def split: prod.split)

lemma silent_bind [silent_intros]: "silent m \<Longrightarrow> (\<And>x. silent (f x)) \<Longrightarrow> silent (bindA m f)"
  by (auto simp: silent_def bindA_def split: prod.split sum.split) (metis snd_conv)+

lemma silent_attempt [silent_intros]: "silent m \<Longrightarrow> silent (attempt m)"
  by (auto simp: silent_def attempt_def split: prod.split sum.split failure.split) (metis snd_conv)+

lemma silent_case_option [silent_intros]: "silent m \<Longrightarrow> (\<And>x. silent (f x)) \<Longrightarrow> silent (case x of None \<Rightarrow> m | Some y \<Rightarrow> f y)"
  by (simp split: option.split)

lemma silent_if [silent_intros]: "silent m \<Longrightarrow> silent n \<Longrightarrow> silent (if c then m else n)"
  by simp

lemma silent_case_prod [silent_intros]: "(\<And>x y. silent (f x y)) \<Longrightarrow> silent (case p of (x, y) \<Rightarrow> f x y)"
  by (simp split: prod.split)

lemma apply_one_silent: "apply_one B E cid cache h s = (r, s') \<Longrightarrow> fd_sent s' = fd_sent s"
proof -
  have "silent (apply_one B E cid cache h)"
    unfolding apply_one_def prepare_apply_request_def apply_block_def resolve_block_data_def Let_def
    by (intro silent_intros)
  then show "apply_one B E cid cache h s = (r, s') \<Longrightarrow> fd_sent s' = fd_sent s"
    by (metis silent_def snd_conv)
qed

lemma apply_one_panic: "apply_one B E cid cache h s = (Inl e, s') \<Longrightarrow> e = Panic"
  by (auto simp: apply_one_def attempt_def bindA_def split: prod.splits sum.splits failure.splits)

text \<open>
  The signals of a batch so far, by the way its loop ended: the feeder is told of a failure at once, and
  then never again.
\<close>

definition signals_ok :: "feed_chain_error failure + batch_progress option \<Rightarrow> feeder_event list \<Rightarrow> bool" where
  "signals_ok r sig \<longleftrightarrow> (case r of
       Inr (Some st) \<Rightarrow> if batch_stats st = None then \<exists>a. sig = [ApplyBlockDone a] else sig = []
     | Inr None \<Rightarrow> sig = []
     | Inl Panic \<Rightarrow> sig = []
     | Inl (Err e) \<Rightarrow> \<exists>a. sig = [ApplyBlockDone a])"

lemma signals_keep_permit: "signals_ok r sig \<Longrightarrow> DropPermit \<notin> set sig"
  by (auto simp: signals_ok_def split: sum.splits option.splits failure.splits if_splits)

lemma batch_signals:
  assumes "apply_blocks B E cid callback boot hs st s = (r, s')" "batch_stats st \<noteq> None"
  shows "\<exists>new. fd_sent s' = fd_sent s @ new \<and> signals_ok r (filter is_signal new)"
  using assms
proof (induction hs arbitrary: st s)
  case Nil
  then show ?case
    by (auto simp: ret_def signals_ok_def)
next
  case (Cons h hs)
  define s0 where "s0 = s\<lparr>fd_tick := Suc (fd_tick s)\<rparr>"
  have run: "load_run E s = (Inr (fe_run E (fd_tick s)), s0)" "fd_sent s0 = fd_sent s"
    by (simp_all add: load_run_def s0_def)
  obtain r1 s1 where one: "apply_one B E cid (previous_block_data_cache st) h s0 = (r1, s1)"
    by fastforce
  note sent = apply_one_silent [OF one, unfolded run(2)]
  show ?case
  proof (cases "fe_run E (fd_tick s)")
    case False
    with Cons.prems(1) run(2) show ?thesis
      by (intro exI [of _ "[]"]) (auto simp: bindA_def run(1) ret_def signals_ok_def)
  next
    case True
    consider x where "r1 = Inl x" | x where "r1 = Inr (Inl x)" | "r1 = Inr (Inr None)" | b d where "r1 = Inr (Inr (Some (b, d)))"
      by (metis old.sum.exhaust option.exhaust prod.collapse)
    then show ?thesis
    proof cases
      case (1 x)
      with one have "x = Panic"
        by (auto dest: apply_one_panic)
      with 1 Cons.prems(1) True one sent show ?thesis
        by (intro exI [of _ "[]"]) (auto simp: bindA_def run signals_ok_def)
    next
      case (2 x)
      obtain rf sf where bf: "on_block_failed E callback boot h x st s1 = (rf, sf)"
        by fastforce
      have "s' = sf" "r = (case rf of Inl e \<Rightarrow> Inl e | Inr st' \<Rightarrow> Inr (Some st'))"
        using Cons.prems(1) True 2 bf by (auto simp: bindA_def run one ret_def split: sum.splits)
      moreover obtain new a where "fd_sent sf = fd_sent s1 @ new" "filter is_signal new = [ApplyBlockDone a]"
        using block_failed_effect(3) [OF bf] Cons.prems(2) by auto
      moreover have "rf = Inl e \<Longrightarrow> \<exists>x. e = Err x" for e
        using block_failed_effect(2) [OF bf] by (cases e) simp_all
      ultimately show ?thesis
        using sent block_failed_effect(4) [OF bf] by (intro exI [of _ new]) (auto simp: signals_ok_def split: sum.split)
    next
      case 3
      with Cons.prems(1) True have "apply_blocks B E cid callback boot hs (on_block_known callback h st) s1 = (r, s')"
        by (simp add: bindA_def run one)
      from Cons.IH [OF this] Cons.prems(2) sent show ?thesis
        by (simp add: on_block_known_def)
    next
      case (4 b d)
      have "apply_blocks B E cid callback boot hs (on_block_applied callback h b d st) (s1\<lparr>fd_sent := fd_sent s1 @ [ProcessValidatedBlock b cid]\<rparr>) = (r, s')"
        using Cons.prems(1) True 4 by (simp add: bindA_def run one)
      from Cons.IH [OF this] Cons.prems(2) sent show ?thesis
        by (auto simp: on_block_applied_def intro: exI [of _ "ProcessValidatedBlock b cid # _"])
    qed
  qed
qed

text \<open>The messages at the end of a batch.\<close>

definition finish_events :: "bool \<Rightarrow> bool \<Rightarrow> bool \<Rightarrow> bool \<Rightarrow> batch_progress \<Rightarrow> feeder_event list" where
  "finish_events run callback bootstrapper permit st =
     (if permit then [DropPermit] else []) @
     (case oneshot_result st of None \<Rightarrow> [] | Some r \<Rightarrow> if callback then [OneshotResult r] else []) @
     (if run then (case batch_stats st of None \<Rightarrow> [] | Some a \<Rightarrow> [ApplyBlockDone a]) @
        (case last_applied st of None \<Rightarrow> [] | Some h \<Rightarrow> if bootstrapper then [ApplyBlockBatchDone h] else [])
      else [])"

lemma finish_batch_run:
  "finish_batch E callback boot permit st s = (Inr (), s\<lparr>fd_tick := Suc (fd_tick s),
     fd_sent := fd_sent s @ finish_events (fe_run E (fd_tick s)) callback boot permit st\<rparr>)"
  by (simp add: finish_batch_def finish_events_def bindA_def load_run_def whenA_def ret_def split: option.split)

lemma process_request_run:
  assumes "apply_blocks B E (ab_chain_id req) (ab_result_callback req) (ab_bootstrapper req) (take_all_blocks_to_apply (ab_batch req))
      start_progress s = (r1, s1)" "process_request B E req s = (r, s')"
  shows "fd_stores s' = fd_stores s1"
    "fd_sent s' = fd_sent s1 @ (case r1 of
       Inr (Some st) \<Rightarrow> finish_events (fe_run E (fd_tick s1)) (ab_result_callback req) (ab_bootstrapper req) (ab_permit req) st
     | _ \<Rightarrow> if ab_permit req then [DropPermit] else [])"
    "r = Inl e \<longleftrightarrow> r1 = Inl e"
  using assms
  by (auto simp: process_request_def bindA_def finish_batch_run ret_def fail_def split: sum.splits option.splits)

section \<open>Effect of the operations\<close>

text \<open>
  The feeder relies on the block storage, the metadata, the additional data and the operations, and on
  blocks being stored under their own hash.
\<close>

definition feed_ok :: "('r, 'g) chain_views \<Rightarrow> ('r, 'g) chain_stores \<Rightarrow> bool" where
  "feed_ok V s \<longleftrightarrow> stores_ok (cv_blocks V) (cs_blocks s) \<and> cv_meta_ok V (cs_meta s) \<and> cv_additional_ok V (cs_additional s) \<and>
     cv_ops_ok V (cs_ops s) \<and>
     (\<forall>h bh j. block_map_of V s h = Some (bh, j) \<longrightarrow> bh_hash bh = h \<and> length (h_predecessor (bh_header bh)) = LEN_BLOCK_HASH)"

text \<open>A block whose application is complete in all storages.\<close>

definition fully_applied :: "('r, 'g) chain_views \<Rightarrow> ('r, 'g) chain_stores \<Rightarrow> block_hash \<Rightarrow> bool" where
  "fully_applied V s h \<longleftrightarrow> (\<exists>m. meta_of V s h = Some m \<and> m_is_applied m) \<and> (\<exists>bh j. block_map_of V s h = Some (bh, Some j)) \<and>
     additional_of V s h \<noteq> None"

definition marked_in :: "('r, 'g) chain_views \<Rightarrow> ('r, 'g) chain_stores \<Rightarrow> block_hash \<Rightarrow> bool" where
  "marked_in V s h \<longleftrightarrow> (\<exists>m. meta_of V s h = Some m \<and> m_is_applied m)"

text \<open>What was there stays: headers, completed applications and the data of other blocks than \<open>h\<close>.\<close>

definition extends :: "('r, 'g) chain_views \<Rightarrow> block_hash \<Rightarrow> ('r, 'g) chain_stores \<Rightarrow> ('r, 'g) chain_stores \<Rightarrow> bool" where
  "extends V h s s' \<longleftrightarrow> (\<forall>x. map_option fst (block_map_of V s' x) = map_option fst (block_map_of V s x)) \<and>
     (\<forall>x. fully_applied V s x \<longrightarrow> fully_applied V s' x) \<and> (\<forall>x. marked_in V s x \<longrightarrow> marked_in V s' x) \<and> (\<forall>x. x \<noteq> h \<longrightarrow> additional_of V s' x = additional_of V s x)"

definition resolved :: "('r, 'g) chain_views \<Rightarrow> ('r, 'g) chain_stores \<Rightarrow> (block_header_with_hash \<times> block_additional_data) option \<Rightarrow>
    block_hash \<Rightarrow> (block_header_with_hash \<times> block_additional_data) option" where
  "resolved V s cache h =
     (case cache of
        Some c \<Rightarrow> if h = bh_hash (fst c) then Some c
          else (case (block_map_of V s h, additional_of V s h) of (Some (b, _), Some d) \<Rightarrow> Some (b, d) | _ \<Rightarrow> None)
      | None \<Rightarrow> (case (block_map_of V s h, additional_of V s h) of (Some (b, _), Some d) \<Rightarrow> Some (b, d) | _ \<Rightarrow> None))"

definition cache_ok :: "('r, 'g) chain_views \<Rightarrow> ('r, 'g) chain_stores \<Rightarrow> (block_header_with_hash \<times> block_additional_data) option \<Rightarrow> bool" where
  "cache_ok V s cache \<longleftrightarrow> (\<forall>b d. cache = Some (b, d) \<longrightarrow>
     (\<exists>j. block_map_of V s (bh_hash b) = Some (b, j)) \<and> additional_of V s (bh_hash b) = Some d)"

lemma resolved_cache: "cache_ok V s cache \<Longrightarrow> resolved V s cache h = resolved V s None h"
  by (cases cache) (auto simp: resolved_def cache_ok_def)

context chain_laws
begin

lemma feed_reads:
  assumes "feed_ok V (fd_stores s)" "length h = LEN_BLOCK_HASH"
  shows "in_stores (in_blocks (bs_get (cb_blocks B) h)) s = (Inr (map_option fst (block_map_of V (fd_stores s) h)), s)"
    "in_stores (in_meta (bms_get (cb_meta B) h)) s = (Inr (meta_of V (fd_stores s) h), s)"
    "in_stores (in_additional (get_additional_data (cb_additional B) h)) s = (Inr (additional_of V (fd_stores s) h), s)"
    "\<exists>ops. in_stores (in_ops (get_operations (cb_ops B) h)) s = (Inr ops, s)"
proof -
  have ok: "stores_ok (cv_blocks V) (cs_blocks (fd_stores s))" "cv_meta_ok V (cs_meta (fd_stores s))"
    "cv_additional_ok V (cs_additional (fd_stores s))" "cv_ops_ok V (cs_ops (fd_stores s))"
    using assms(1) by (simp_all add: feed_ok_def)
  show "in_stores (in_blocks (bs_get (cb_blocks B) h)) s = (Inr (map_option fst (block_map_of V (fd_stores s) h)), s)"
    using bl.readers_spec(1) [OF ok(1) assms(2), of "replicate 32 0"] by (simp add: in_stores_def in_blocks_def block_map_of_def)
  show "in_stores (in_meta (bms_get (cb_meta B) h)) s = (Inr (meta_of V (fd_stores s) h), s)"
    by (simp add: in_stores_def in_meta_def bmk.bms_get_spec [OF ok(2) assms(2)] meta_of_def)
  show "in_stores (in_additional (get_additional_data (cb_additional B) h)) s = (Inr (additional_of V (fd_stores s) h), s)"
    by (simp add: in_stores_def in_additional_def get_additional_data_def storageA_def map_errA_def
        ad.get_law [OF ok(3) assms(2)] additional_of_def)
  show "\<exists>ops. in_stores (in_ops (get_operations (cb_ops B) h)) s = (Inr ops, s)"
    by (simp add: in_stores_def in_ops_def ops.get_operations_run [OF ok(4) assms(2)])
qed

lemma resolve_block_data_run:
  assumes "feed_ok V (fd_stores s)" "length h = LEN_BLOCK_HASH"
  shows "resolve_block_data B h cache s =
    ((case resolved V (fd_stores s) cache h of None \<Rightarrow> Inl (Err (FcStorageError MissingKey)) | Some r \<Rightarrow> Inr r), s)"
  by (cases cache) (auto simp: resolve_block_data_def resolved_def Let_def bindA_def feed_reads [OF assms] ret_def fail_def
      split: option.split)

text \<open>Preparing a request only reads; with a valid cache it gives what the storages give.\<close>

lemma prepare_cache:
  assumes "feed_ok V (fd_stores s)" "length h = LEN_BLOCK_HASH" "cache_ok V (fd_stores s) cache"
  shows "prepare_apply_request B h cid cache s = prepare_apply_request B h cid None s"
    "\<exists>r. prepare_apply_request B h cid cache s = (r, s) \<and> r \<noteq> Inl Panic \<and>
      (\<forall>q m b. r = Inr (q, m, b) \<longrightarrow> meta_of V (fd_stores s) h = Some m \<and> (\<exists>j. block_map_of V (fd_stores s) h = Some (b, j)))"
proof -
  obtain ops where o: "in_stores (in_ops (get_operations (cb_ops B) h)) s = (Inr ops, s)"
    using feed_reads(4) [OF assms(1,2)] by blast
  have pred: "length (h_predecessor (bh_header b)) = LEN_BLOCK_HASH" if "block_map_of V (fd_stores s) h = Some (b, j)" for b j
    using assms(1) that unfolding feed_ok_def by blast
  show "prepare_apply_request B h cid cache s = prepare_apply_request B h cid None s"
    by (auto simp: prepare_apply_request_def bindA_def feed_reads(1,2) [OF assms(1,2)] o
        resolve_block_data_run [OF assms(1) pred] resolved_cache [OF assms(3)] fail_def split: option.split)
  show "\<exists>r. prepare_apply_request B h cid cache s = (r, s) \<and> r \<noteq> Inl Panic \<and>
      (\<forall>q m b. r = Inr (q, m, b) \<longrightarrow> meta_of V (fd_stores s) h = Some m \<and> (\<exists>j. block_map_of V (fd_stores s) h = Some (b, j)))"
    by (auto simp: prepare_apply_request_def bindA_def feed_reads(1,2) [OF assms(1,2)] o
        resolve_block_data_run [OF assms(1) pred] fail_def ret_def Let_def into_metadata_hashes_ttl_def split: option.split)
qed

lemma json_effect:
  assumes ok: "feed_ok V s" "length h = LEN_BLOCK_HASH"
    and run: "in_blocks (put_block_json_data (cb_blocks B) h json) s = (r, s')"
  shows "feed_ok V s' \<and> extends V h s s' \<and> meta_of V s' = meta_of V s \<and> additional_of V s' = additional_of V s"
    "r = Inr () \<Longrightarrow> \<exists>bh. block_map_of V s' h = Some (bh, Some json)"
proof -
  have oks: "stores_ok (cv_blocks V) (cs_blocks s)"
    using ok by (simp add: feed_ok_def)
  obtain b where b: "put_block_json_data (cb_blocks B) h json (cs_blocks s) =
      (if block_map_of V s h = None then Inl (Err MissingKey) else Inr (), b)" "stores_ok (cv_blocks V) b"
    "blocks (cv_blocks V) b = spec_put_json h json (block_map_of V s)"
    using bl.put_json_spec [OF oks ok(2), of json] by (auto simp: block_map_of_def)
  have s': "s' = s\<lparr>cs_blocks := b\<rparr>" "r = (if block_map_of V s h = None then Inl (Err MissingKey) else Inr ())"
    using run b(1) by (auto simp: in_blocks_def)
  have v: "block_map_of V s' = spec_put_json h json (block_map_of V s)" "meta_of V s' = meta_of V s" "additional_of V s' = additional_of V s"
    by (simp_all add: s'(1) views additional_of_def b(3))
  have "\<forall>x. map_option fst (block_map_of V s' x) = map_option fst (block_map_of V s x)"
    by (auto simp: v spec_put_json_def split: option.split)
  moreover have "\<forall>x. fully_applied V s x \<longrightarrow> fully_applied V s' x"
    by (auto simp: fully_applied_def v spec_put_json_def split: option.split)
  moreover have "feed_ok V s'"
    using ok(1) b(2) v(1) by (auto simp: feed_ok_def s'(1) spec_put_json_def split: option.splits if_splits)
  ultimately show "feed_ok V s' \<and> extends V h s s' \<and> meta_of V s' = meta_of V s \<and> additional_of V s' = additional_of V s"
    using v by (simp add: extends_def marked_in_def)
  show "\<exists>bh. block_map_of V s' h = Some (bh, Some json)" if "r = Inr ()"
    using that s'(2) by (auto simp: v spec_put_json_def split: if_splits option.split)
qed

lemma additional_effect:
  assumes ok: "feed_ok V s" "length h = LEN_BLOCK_HASH"
    and run: "in_additional (put_block_additional_data (cb_additional B) h d) s = (r, s')"
  shows "r = Inr () \<and> feed_ok V s' \<and> extends V h s s' \<and> block_map_of V s' = block_map_of V s \<and> meta_of V s' = meta_of V s \<and>
    additional_of V s' = (additional_of V s)(h \<mapsto> d)"
proof -
  have oks: "cv_additional_ok V (cs_additional s)"
    using ok by (simp add: feed_ok_def)
  obtain a where a: "put_block_additional_data (cb_additional B) h d (cs_additional s) = (Inr (), a)" "cv_additional_ok V a"
    "cv_additional V a = (cv_additional V (cs_additional s))(h \<mapsto> d)"
    using ad.put_law [OF oks ok(2), of d] by (auto simp: put_block_additional_data_def storageA_def map_errA_def)
  have s': "s' = s\<lparr>cs_additional := a\<rparr>" "r = Inr ()"
    using run a(1) by (auto simp: in_additional_def)
  have v: "block_map_of V s' = block_map_of V s" "meta_of V s' = meta_of V s" "additional_of V s' = (additional_of V s)(h \<mapsto> d)"
    by (simp_all add: s'(1) views additional_of_def a(3))
  have "feed_ok V s'"
    using ok(1) a(2) v(1) by (simp add: feed_ok_def s'(1))
  then show ?thesis
    using s'(2) v by (auto simp: extends_def fully_applied_def marked_in_def)
qed

lemma meta_effect:
  assumes ok: "feed_ok V s" "length h = LEN_BLOCK_HASH" "meta_ok m" "m_is_applied m"
    and run: "in_meta (bms_put (cb_meta B) h m) s = (r, s')"
  shows "r = Inr () \<and> feed_ok V s' \<and> extends V h s s' \<and> block_map_of V s' = block_map_of V s \<and> additional_of V s' = additional_of V s \<and>
    (\<exists>w. meta_of V s' h = Some w \<and> m_is_applied w)"
proof -
  have oks: "cv_meta_ok V (cs_meta s)"
    using ok by (simp add: feed_ok_def)
  obtain t where t: "bms_put (cb_meta B) h m (cs_meta s) = (Inr (), t)" "cv_meta_ok V t"
    "cv_meta V t = (cv_meta V (cs_meta s))(h \<mapsto> (case cv_meta V (cs_meta s) h of None \<Rightarrow> m | Some w \<Rightarrow> meta_merge w m))"
    using bmk.bms_put_spec [OF oks ok(2,3)] by blast
  define w where "w = (case cv_meta V (cs_meta s) h of None \<Rightarrow> m | Some w \<Rightarrow> meta_merge w m)"
  have w: "m_is_applied w"
    using ok(4) by (simp add: w_def meta_merge_def split: option.split)
  have s': "s' = s\<lparr>cs_meta := t\<rparr>" "r = Inr ()"
    using run t(1) by (auto simp: in_meta_def)
  have v: "block_map_of V s' = block_map_of V s" "meta_of V s' = (meta_of V s)(h \<mapsto> w)" "additional_of V s' = additional_of V s"
    by (simp_all add: s'(1) views additional_of_def t(3) w_def)
  have "feed_ok V s'"
    using ok(1) t(2) v(1) by (simp add: feed_ok_def s'(1))
  then show ?thesis
    using s'(2) v w by (auto simp: extends_def fully_applied_def marked_in_def)
qed

lemma pred_effect:
  assumes "feed_ok V s" "in_pred a s = (r, s')"
  shows "feed_ok V s' \<and> extends V h s s' \<and> block_map_of V s' = block_map_of V s \<and> additional_of V s' = additional_of V s \<and> meta_of V s' = meta_of V s"
proof -
  obtain q where "s' = s\<lparr>cs_pred := q\<rparr>"
    using assms(2) by (auto simp: in_pred_def split: prod.splits)
  with assms(1) show ?thesis
    by (simp add: feed_ok_def extends_def fully_applied_def marked_in_def views additional_of_def)
qed

lemma extends_trans: "extends V h s s' \<Longrightarrow> extends V h s' s'' \<Longrightarrow> extends V h s s''"
  by (simp add: extends_def)

lemma store_applied_effect:
  assumes ok: "feed_ok V s" and h: "length h = LEN_BLOCK_HASH" "meta_ok m"
    and run: "store_applied_block_result B h res m s = (r, s')"
  shows "feed_ok V s' \<and> extends V h s s' \<and> (\<forall>d m'. r = Inr (d, m') \<longrightarrow> fully_applied V s' h \<and> additional_of V s' h = Some d)"
proof -
  obtain r1 s1 where 1: "in_blocks (put_block_json_data (cb_blocks B) h (json_of_response res)) s = (r1, s1)"
    by fastforce
  note e1 = json_effect [OF ok h(1) 1]
  show ?thesis
  proof (cases "r1 = Inr () \<and> (\<exists>d. additional_data_of res = Inr d)")
    case True
    then obtain d where d: "r1 = Inr ()" "additional_data_of res = Inr d"
      by blast
    obtain r2 s2 where 2: "in_additional (put_block_additional_data (cb_additional B) h d) s1 = (r2, s2)"
      by fastforce
    note e2 = additional_effect [OF conjunct1 [OF e1(1)] h(1) 2]
    obtain r3 s3 where 3: "in_pred (store_predecessors (cb_pred B) h m) s2 = (r3, s3)"
      by fastforce
    have e3: "feed_ok V s3 \<and> extends V h s2 s3 \<and> block_map_of V s3 = block_map_of V s2 \<and> additional_of V s3 = additional_of V s2 \<and> meta_of V s3 = meta_of V s2"
      using pred_effect [OF _ 3] e2 by blast
    obtain r4 s4 where 4: "in_meta (bms_put (cb_meta B) h (m\<lparr>m_is_applied := True\<rparr>)) s3 = (r4, s4)"
      by fastforce
    have m: "meta_ok (m\<lparr>m_is_applied := True\<rparr>)"
      using h(2) by (simp add: meta_ok_def)
    have e4: "r4 = Inr () \<and> feed_ok V s4 \<and> extends V h s3 s4 \<and> block_map_of V s4 = block_map_of V s3 \<and>
        additional_of V s4 = additional_of V s3 \<and> (\<exists>w. meta_of V s4 h = Some w \<and> m_is_applied w)"
      using meta_effect [OF conjunct1 [OF e3] h(1) m _ 4] by simp
    have "s' = (case r3 of Inl _ \<Rightarrow> s3 | Inr _ \<Rightarrow> s4)" "r = Inr (d', m') \<Longrightarrow> d' = d \<and> s' = s4" for d' m'
      using run e2 e4 by (auto simp: store_applied_block_result_def bindA_def liftR_def Let_def ret_def 1 2 3 4 d split: sum.splits)
    moreover have "extends V h s s3"
      using e1(1) e2 e3 extends_trans by blast
    moreover from this have "extends V h s s4"
      using e4 extends_trans by blast
    moreover have "fully_applied V s4 h" "additional_of V s4 h = Some d"
      using e1(2) [OF d(1)] e2 e3 e4 by (auto simp: fully_applied_def)
    ultimately show ?thesis
      using e3 e4 by (auto split: sum.splits)
  next
    case False
    then have "s' = s1" "\<exists>e. r = Inl e"
      using run 1 by (auto simp: store_applied_block_result_def bindA_def liftR_def split: sum.splits)
    with e1(1) show ?thesis
      by auto
  qed
qed

lemma apply_block_effect:
  assumes "feed_ok V (fd_stores s)" "length h = LEN_BLOCK_HASH" "meta_of V (fd_stores s) h = Some m"
    and run: "apply_block B E h (Inr (q, m, b)) s = (r, s')"
  shows "feed_ok V (fd_stores s') \<and> extends V h (fd_stores s) (fd_stores s') \<and> fd_sent s' = fd_sent s \<and>
    (\<forall>b' d. r = Inr (Some (b', d)) \<longrightarrow> b' = b \<and> fully_applied V (fd_stores s') h \<and> additional_of V (fd_stores s') h = Some d) \<and>
    (r = Inr None \<longrightarrow> marked_in V (fd_stores s') h)"
proof -
  have m: "meta_ok m"
    using bmk.view_ok [of "cs_meta (fd_stores s)" h m] assms(1,3) by (simp add: feed_ok_def meta_of_def)
  have refl: "extends V h x x" for x
    by (simp add: extends_def)
  obtain rr p where p: "in_runner (fe_apply_block E q) s = (rr, s\<lparr>fd_runner := p\<rparr>)"
    by (cases "fe_apply_block E q (fd_runner s)") (simp add: in_runner_def)
  show ?thesis
  proof (cases "\<exists>res. rr = Inr res \<and> wait_for_context E (ar_context_hash res) = Inr () \<and> \<not> m_is_applied m")
    case True
    then obtain res where res: "rr = Inr res" "wait_for_context E (ar_context_hash res) = Inr ()" "\<not> m_is_applied m"
      by blast
    obtain r1 s1 where s1: "store_applied_block_result B h res m (fd_stores s) = (r1, s1)"
      by fastforce
    have "s' = s\<lparr>fd_runner := p, fd_stores := s1\<rparr>" "r = (case r1 of Inl e \<Rightarrow> Inl (map_failure FcStorageError e) | Inr (d, _) \<Rightarrow> Inr (Some (b, d)))"
      using run res by (auto simp: apply_block_def bindA_def liftR_def p in_stores_def s1 ret_def split: sum.splits)
    with store_applied_effect [OF assms(1,2) m s1] show ?thesis
      by (auto split: sum.splits)
  next
    case False
    then have "fd_stores s' = fd_stores s" "fd_sent s' = fd_sent s" "r = Inr x \<Longrightarrow> x = None \<and> m_is_applied m" for x
      using run by (auto simp: apply_block_def bindA_def liftR_def p ret_def split: sum.splits if_splits)
    with assms(1,3) refl show ?thesis
      by (auto simp: marked_in_def)
  qed
qed

lemma apply_one_effect:
  assumes ok: "feed_ok V (fd_stores s)" "length h = LEN_BLOCK_HASH" "cache_ok V (fd_stores s) cache"
  shows "apply_one B E cid cache h s = apply_one B E cid None h s"
    "apply_one B E cid cache h s = (r, s') \<Longrightarrow> feed_ok V (fd_stores s') \<and> extends V h (fd_stores s) (fd_stores s') \<and> fd_sent s' = fd_sent s \<and>
      (\<forall>b d. r = Inr (Inr (Some (b, d))) \<longrightarrow> bh_hash b = h \<and> fully_applied V (fd_stores s') h \<and> cache_ok V (fd_stores s') (Some (b, d))) \<and>
      (r = Inr (Inr None) \<longrightarrow> marked_in V (fd_stores s') h)"
proof -
  show "apply_one B E cid cache h s = apply_one B E cid None h s"
    by (simp add: apply_one_def bindA_def attempt_def prepare_cache(1) [OF ok])
  obtain rp where rp: "prepare_apply_request B h cid cache s = (rp, s)" "rp \<noteq> Inl Panic"
    "\<forall>q m b. rp = Inr (q, m, b) \<longrightarrow> meta_of V (fd_stores s) h = Some m \<and> (\<exists>j. block_map_of V (fd_stores s) h = Some (b, j))"
    using prepare_cache(2) [OF ok] by blast
  assume run: "apply_one B E cid cache h s = (r, s')"
  show "feed_ok V (fd_stores s') \<and> extends V h (fd_stores s) (fd_stores s') \<and> fd_sent s' = fd_sent s \<and>
      (\<forall>b d. r = Inr (Inr (Some (b, d))) \<longrightarrow> bh_hash b = h \<and> fully_applied V (fd_stores s') h \<and> cache_ok V (fd_stores s') (Some (b, d))) \<and>
      (r = Inr (Inr None) \<longrightarrow> marked_in V (fd_stores s') h)"
  proof (cases rp)
    case (Inl e)
    then have "s' = s" "\<exists>e. r = Inr (Inl e)"
      using run rp(1,2) by (cases e; auto simp: apply_one_def bindA_def attempt_def apply_block_def liftR_def)+
    with ok(1) show ?thesis
      by (auto simp: extends_def)
  next
    case (Inr x)
    obtain q m b where x: "x = (q, m, b)"
      by (cases x)
    obtain j where v: "meta_of V (fd_stores s) h = Some m" "block_map_of V (fd_stores s) h = Some (b, j)"
      using rp(3) Inr x by blast
    obtain ra where a: "apply_block B E h (Inr (q, m, b)) s = (ra, s')" "ra = Inr y \<longleftrightarrow> r = Inr (Inr y)" for y
      using run rp(1) Inr x
      by (auto simp: apply_one_def bindA_def attempt_def split: prod.splits sum.splits failure.splits)
    note e = apply_block_effect [OF ok(1,2) v(1) a(1)]
    have "bh_hash b = h"
      using ok(1) v(2) unfolding feed_ok_def by blast
    moreover have "\<exists>j. block_map_of V (fd_stores s') h = Some (b, j)"
    proof -
      have "map_option fst (block_map_of V (fd_stores s') h) = Some b"
        using e v(2) by (simp add: extends_def)
      then show ?thesis
        by auto
    qed
    ultimately show ?thesis
      using e a(2) by (auto simp: cache_ok_def)
  qed
qed

lemma batch_equiv:
  assumes "feed_ok V (fd_stores s)" "list_all (\<lambda>h. length h = LEN_BLOCK_HASH) hs" "cache_ok V (fd_stores s) (previous_block_data_cache st)"
  shows "apply_blocks B E cid callback boot hs st s = apply_blocks_direct B E cid callback boot hs st s"
  using assms
proof (induction hs arbitrary: st s)
  case (Cons h hs)
  define s0 where "s0 = s\<lparr>fd_tick := Suc (fd_tick s)\<rparr>"
  have run: "load_run E s = (Inr (fe_run E (fd_tick s)), s0)" and ok0: "fd_stores s0 = fd_stores s"
    by (simp_all add: load_run_def s0_def)
  have pre: "feed_ok V (fd_stores s0)" "length h = LEN_BLOCK_HASH" "cache_ok V (fd_stores s0) (previous_block_data_cache st)"
    and tl: "list_all (\<lambda>h. length h = LEN_BLOCK_HASH) hs"
    using Cons.prems by (simp_all add: ok0)
  obtain r s1 where one: "apply_one B E cid None h s0 = (r, s1)"
    by fastforce
  have one': "apply_one B E cid (previous_block_data_cache st) h s0 = (r, s1)"
    using apply_one_effect(1) [OF pre] one by simp
  note e = apply_one_effect(2) [OF pre one']
  show ?case
  proof (cases r)
    case (Inr x)
    have known: ?thesis if "x = Inr None"
      using Cons.IH [of s1 "on_block_known callback h st"] e tl that Inr
      by (simp add: bindA_def run one one' on_block_known_def cache_ok_def)
    have applied: ?thesis if "x = Inr (Some (b, d))" for b d
      using Cons.IH [of "s1\<lparr>fd_sent := fd_sent s1 @ [ProcessValidatedBlock b cid]\<rparr>" "on_block_applied callback h b d st"] e tl that Inr
      by (simp add: bindA_def run one one' on_block_applied_def tell_def)
    show ?thesis
      using known applied by (cases x) (force simp: bindA_def run one one' Inr)+
  qed (simp add: bindA_def run one one')
qed simp

end

text \<open>
  What a run of the loop over \<open>hs\<close> leaves: its messages \<open>new\<close>, and what holds of the blocks they are about.
  The argument \<open>la\<close> is the block applied last before the run.
\<close>

definition batch_report :: "('r, 'g) chain_views \<Rightarrow> block_hash list \<Rightarrow> block_hash option \<Rightarrow> feed_chain_error failure + batch_progress option \<Rightarrow>
    ('r, 'g) chain_stores \<Rightarrow> ('r, 'g) chain_stores \<Rightarrow> feeder_event list \<Rightarrow> bool" where
  "batch_report V hs la r t t' new \<longleftrightarrow> subseq (validated_hashes new) hs \<and> list_all (fully_applied V t') (validated_hashes new) \<and>
    (\<forall>x. fully_applied V t x \<longrightarrow> fully_applied V t' x) \<and> (\<forall>x. marked_in V t x \<longrightarrow> marked_in V t' x) \<and>
    (\<forall>st' h. r = Inr (Some st') \<longrightarrow> last_applied st' = Some h \<longrightarrow> la = Some h \<or> h \<in> set hs \<and> marked_in V t' h) \<and>
    (\<forall>h. ApplyBlockBatchDone h \<notin> set new)"

lemma report_known:
  assumes "batch_report V hs (Some h) r t1 t' new" "extends V h t t1" "marked_in V t1 h"
  shows "batch_report V (h # hs) la r t t' new"
  using assms unfolding batch_report_def extends_def by auto

lemma report_applied:
  assumes "batch_report V hs (Some h) r t1 t' new" "extends V h t t1" "fully_applied V t1 h" "bh_hash b = h"
  shows "batch_report V (h # hs) la r t t' (ProcessValidatedBlock b cid # new)"
proof -
  have "marked_in V t1 h"
    using assms(3) by (simp add: fully_applied_def marked_in_def)
  with assms show ?thesis
    unfolding batch_report_def extends_def by auto
qed

lemma report_stop:
  assumes "extends V h t t'" "validated_hashes new = []" "\<forall>h. ApplyBlockBatchDone h \<notin> set new"
    and "\<forall>st'. r = Inr (Some st') \<longrightarrow> last_applied st' = la"
  shows "batch_report V hs la r t t' new"
  using assms unfolding batch_report_def extends_def by auto

context chain_laws
begin

lemma batch_effect:
  assumes "feed_ok V (fd_stores s)" "list_all (\<lambda>h. length h = LEN_BLOCK_HASH) hs" "cache_ok V (fd_stores s) (previous_block_data_cache st)"
    and "apply_blocks B E cid callback boot hs st s = (r, s')"
  shows "\<exists>new. fd_sent s' = fd_sent s @ new \<and> batch_report V hs (last_applied st) r (fd_stores s) (fd_stores s') new"
  using assms
proof (induction hs arbitrary: st s)
  case Nil
  then show ?case
    by (auto simp: ret_def batch_report_def)
next
  case (Cons h hs)
  define s0 where "s0 = s\<lparr>fd_tick := Suc (fd_tick s)\<rparr>"
  have run: "load_run E s = (Inr (fe_run E (fd_tick s)), s0)" and ok0: "fd_stores s0 = fd_stores s" "fd_sent s0 = fd_sent s"
    by (simp_all add: load_run_def s0_def)
  have pre: "feed_ok V (fd_stores s0)" "length h = LEN_BLOCK_HASH" "cache_ok V (fd_stores s0) (previous_block_data_cache st)"
    and tl: "list_all (\<lambda>h. length h = LEN_BLOCK_HASH) hs"
    using Cons.prems by (simp_all add: ok0)
  obtain r1 s1 where one: "apply_one B E cid (previous_block_data_cache st) h s0 = (r1, s1)"
    by fastforce
  note e = apply_one_effect(2) [OF pre one, unfolded ok0]
  show ?case
  proof (cases "fe_run E (fd_tick s)")
    case False
    have "extends V h (fd_stores s) (fd_stores s)"
      by (simp add: extends_def)
    from report_stop [OF this, of "[]" r "last_applied st"] False Cons.prems(4) show ?thesis
      by (simp add: bindA_def run ret_def) (metis append_Nil2 ok0 sum.inject(2) option.distinct(1))
  next
    case True
    consider x where "r1 = Inl x" | x where "r1 = Inr (Inl x)" | "r1 = Inr (Inr None)" | b d where "r1 = Inr (Inr (Some (b, d)))"
      by (metis old.sum.exhaust option.exhaust prod.collapse)
    then show ?thesis
    proof cases
      case (1 x)
      with Cons.prems(4) True have "s' = s1" "r = Inl x"
        by (simp_all add: bindA_def run one)
      with e show ?thesis
        by (intro exI [of _ "[]"]) (auto intro: report_stop)
    next
      case (2 x)
      obtain rf sf where bf: "on_block_failed E callback boot h x st s1 = (rf, sf)"
        by fastforce
      note f = block_failed_effect [OF bf]
      have "s' = sf" "\<forall>st'. r = Inr (Some st') \<longrightarrow> rf = Inr st'"
        using Cons.prems(4) True 2 bf by (auto simp: bindA_def run one ret_def split: sum.splits)
      moreover obtain new where "fd_sent sf = fd_sent s1 @ new" "validated_hashes new = []" "\<forall>h. ApplyBlockBatchDone h \<notin> set new"
        using f(3) by blast
      ultimately show ?thesis
        using e f(1,4) by (intro exI [of _ new]) (auto intro!: report_stop)
    next
      case 3
      with Cons.prems(4) True have "apply_blocks B E cid callback boot hs (on_block_known callback h st) s1 = (r, s')"
        by (simp add: bindA_def run one)
      from Cons.IH [OF _ tl _ this] e 3 show ?thesis
        by (auto simp: on_block_known_def cache_ok_def intro: report_known)
    next
      case (4 b d)
      define s2 where "s2 = s1\<lparr>fd_sent := fd_sent s1 @ [ProcessValidatedBlock b cid]\<rparr>"
      have "apply_blocks B E cid callback boot hs (on_block_applied callback h b d st) s2 = (r, s')"
        using Cons.prems(4) True 4 by (simp add: bindA_def run one s2_def)
      from Cons.IH [OF _ tl _ this] obtain new where new: "fd_sent s' = fd_sent s2 @ new"
        "batch_report V hs (Some h) r (fd_stores s2) (fd_stores s') new"
        using e 4 by (auto simp: s2_def on_block_applied_def)
      have "batch_report V (h # hs) (last_applied st) r (fd_stores s) (fd_stores s') (ProcessValidatedBlock b cid # new)"
        by (rule report_applied) (use new(2) e 4 in \<open>auto simp: s2_def\<close>)
      with new(1) e show ?thesis
        by (intro exI [of _ "ProcessValidatedBlock b cid # new"]) (simp add: s2_def)
    qed
  qed
qed

end

section \<open>Properties\<close>

text \<open>
  Property C7. The loop that keeps the data of the block applied last, to save reading them for the next one, is
  equivalent to the loop that always reads the storages: same result, same storages, same requests
  to the protocol, same messages.
\<close>

theorem cached_batch_equivalent:
  assumes "chain_laws B V" "feed_ok V (fd_stores s)" "list_all (\<lambda>h. length h = LEN_BLOCK_HASH) hs"
  shows "apply_blocks B E cid callback bootstrapper hs start_progress s = apply_blocks_direct B E cid callback bootstrapper hs start_progress s"
  by (rule chain_laws.batch_equiv [OF assms]) (simp add: start_progress_def cache_ok_def)

text \<open>
  Property C15. Whatever the protocol answers and wherever a batch stops, the blocks announced to the manager of the
  current head are blocks of the batch in their order, each of them completely applied: marked, with its JSON
  data and additional data stored. The block that the bootstrapper is told as last applied is a
  block of the batch that is marked applied. The ticket is returned exactly once.
\<close>

theorem process_request_safe:
  assumes "chain_laws B V" "feed_ok V (fd_stores s)"
    and "list_all (\<lambda>h. length h = LEN_BLOCK_HASH) (take_all_blocks_to_apply (ab_batch req))"
    and "process_request B E req s = (r, s')"
  shows "\<exists>new. fd_sent s' = fd_sent s @ new \<and> subseq (validated_hashes new) (take_all_blocks_to_apply (ab_batch req)) \<and>
    list_all (fully_applied V (fd_stores s')) (validated_hashes new) \<and>
    (\<forall>h. ApplyBlockBatchDone h \<in> set new \<longrightarrow> h \<in> set (take_all_blocks_to_apply (ab_batch req)) \<and> marked_in V (fd_stores s') h) \<and>
    count_list new DropPermit = (if ab_permit req then 1 else 0)"
proof -
  let ?hs = "take_all_blocks_to_apply (ab_batch req)"
  obtain r1 s1 where run: "apply_blocks B E (ab_chain_id req) (ab_result_callback req) (ab_bootstrapper req) ?hs start_progress s = (r1, s1)"
    by fastforce
  have "cache_ok V (fd_stores s) (previous_block_data_cache start_progress)"
    by (simp add: start_progress_def cache_ok_def)
  from chain_laws.batch_effect [OF assms(1-3) this run] obtain new where new: "fd_sent s1 = fd_sent s @ new"
    "batch_report V ?hs None r1 (fd_stores s) (fd_stores s1) new"
    by (auto simp: start_progress_def)
  have "signals_ok r1 (filter is_signal new)"
    using batch_signals [OF run] new(1) by (auto simp: start_progress_def)
  from signals_keep_permit [OF this] have "DropPermit \<notin> set new"
    by simp
  then have none: "count_list new DropPermit = 0"
    by (simp add: count_list_0_iff)
  define fin where "fin = (case r1 of
       Inr (Some st) \<Rightarrow> finish_events (fe_run E (fd_tick s1)) (ab_result_callback req) (ab_bootstrapper req) (ab_permit req) st
     | _ \<Rightarrow> if ab_permit req then [DropPermit] else [])"
  note fin = process_request_run [OF run assms(4), folded fin_def]
  have drop: "count_list fin DropPermit = (if ab_permit req then 1 else 0)" "validated_hashes fin = []"
    by (auto simp: fin_def finish_events_def split: sum.split option.split)
  have "ApplyBlockBatchDone h \<in> set fin \<longrightarrow> (\<exists>st. r1 = Inr (Some st) \<and> last_applied st = Some h)" for h
    by (auto simp: fin_def finish_events_def split: sum.splits option.splits if_splits)
  then have "\<forall>h. ApplyBlockBatchDone h \<in> set (new @ fin) \<longrightarrow> h \<in> set ?hs \<and> marked_in V (fd_stores s1) h"
    using new(2) unfolding batch_report_def by (metis Un_iff option.distinct(1) set_append)
  moreover have "subseq (validated_hashes (new @ fin)) ?hs" "list_all (fully_applied V (fd_stores s1)) (validated_hashes (new @ fin))"
    using new(2) drop(2) by (simp_all add: batch_report_def)
  moreover have "count_list (new @ fin) DropPermit = (if ab_permit req then 1 else 0)"
    by (simp only: count_list_append none drop(1) add_0)
  moreover have "fd_sent s' = fd_sent s @ new @ fin"
    using fin(2) new(1) by simp
  ultimately show ?thesis
    unfolding fin(1) by (intro exI [of _ "new @ fin"] conjI)
qed

definition idle_env :: "unit feeder_env" where
  "idle_env = \<lparr>fe_apply_block = (\<lambda>_. ret sample_response), fe_init_protocol_for_write = (\<lambda>_. ret None),
     fe_genesis_result_data = (\<lambda>_. ret \<lparr>cg_block_header_proto_json = [], cg_block_header_proto_metadata_bytes = [],
       cg_operations_proto_metadata_bytes = []\<rparr>),
     fe_is_committed = (\<lambda>_ _. True), fe_poll_time = (\<lambda>_ _. 0), fe_one_context = False, fe_run = (\<lambda>_. True)\<rparr>"

definition feed_start :: "('r, 'g) chain_stores \<Rightarrow> ('r, 'g, unit) feed_state" where
  "feed_start t = \<lparr>fd_stores = t, fd_runner = (), fd_tick = 0, fd_sent = []\<rparr>"

lemma empty_feed_ok: "feed_ok mem_chain_views empty_stores"
  using empty_chain(1,4) by (simp add: feed_ok_def storages_ok_def)

theorem cached_batch_equivalent_witness:
  "apply_blocks mem_chain idle_env [0, 0, 0, 0] True True [replicate 32 7, replicate 32 9] start_progress (feed_start empty_stores) =
   apply_blocks_direct mem_chain idle_env [0, 0, 0, 0] True True [replicate 32 7, replicate 32 9] start_progress (feed_start empty_stores)"
  using empty_feed_ok by (intro cached_batch_equivalent [OF mch.chain_laws_axioms]) (simp_all add: feed_start_def LEN_BLOCK_HASH_def)

theorem process_request_safe_witness:
  "\<exists>r s' new. process_request mem_chain idle_env \<lparr>ab_batch = batch_one (replicate 32 7), ab_chain_id = [0, 0, 0, 0], ab_bootstrapper = True,
      ab_result_callback = False, ab_permit = True\<rparr> (feed_start empty_stores) = (r, s') \<and> fd_sent s' = new \<and> count_list new DropPermit = 1"
proof -
  obtain r s' where run: "process_request mem_chain idle_env \<lparr>ab_batch = batch_one (replicate 32 7), ab_chain_id = [0, 0, 0, 0],
      ab_bootstrapper = True, ab_result_callback = False, ab_permit = True\<rparr> (feed_start empty_stores) = (r, s')"
    by fastforce
  have "feed_ok mem_chain_views (fd_stores (feed_start empty_stores))"
    using empty_feed_ok by (simp add: feed_start_def)
  from process_request_safe [OF mch.chain_laws_axioms this _ run] run show ?thesis
    by (auto simp: take_all_blocks_to_apply_def batch_one_def LEN_BLOCK_HASH_def feed_start_def)
qed

lemma wait_loop_spec:
  assumes "wait_loop c p i e = (b, n)"
  shows "(b \<longleftrightarrow> c n) \<and> i \<le> n \<and> (\<forall>k. i \<le> k \<longrightarrow> k < n \<longrightarrow> \<not> c k) \<and> (CONTEXT_WAIT_TIMEOUT < e \<longrightarrow> n = i) \<and>
    (n - i) * CONTEXT_WAIT_DELAY + min e CONTEXT_WAIT_TIMEOUT \<le> CONTEXT_WAIT_TIMEOUT + CONTEXT_WAIT_DELAY \<and>
    (\<not> b \<longrightarrow> CONTEXT_WAIT_TIMEOUT < e + (n - i) * CONTEXT_WAIT_DELAY + sum p {Suc i..n})"
  using assms
proof (induction c p i e rule: wait_loop.induct)
  case (1 c p i e)
  show ?case
  proof (cases "\<not> c i \<and> e \<le> CONTEXT_WAIT_TIMEOUT")
    case True
    then have "wait_loop c p (Suc i) (e + CONTEXT_WAIT_DELAY + p (Suc i)) = (b, n)"
      using 1(2) by (subst (asm) wait_loop.simps) simp
    note IH = 1(1) [OF _ _ this]
    have n: "Suc i \<le> n"
      using IH True by simp
    then have sum: "sum p {Suc i..n} = p (Suc i) + sum p {Suc (Suc i)..n}"
      by (rule sum.atLeast_Suc_atMost)
    have steps: "(n - i) * CONTEXT_WAIT_DELAY = CONTEXT_WAIT_DELAY + (n - Suc i) * CONTEXT_WAIT_DELAY"
      using n by (simp add: Suc_diff_Suc [symmetric])
    have "\<forall>k. i \<le> k \<longrightarrow> k < n \<longrightarrow> \<not> c k"
      using IH True by (metis le_antisym not_less_eq_eq)
    moreover have "(n - i) * CONTEXT_WAIT_DELAY + min e CONTEXT_WAIT_TIMEOUT \<le> CONTEXT_WAIT_TIMEOUT + CONTEXT_WAIT_DELAY"
      using IH True n unfolding steps by (cases "CONTEXT_WAIT_TIMEOUT < e + CONTEXT_WAIT_DELAY + p (Suc i)") (simp_all add: min_def)
    moreover have "\<not> b \<longrightarrow> CONTEXT_WAIT_TIMEOUT < e + (n - i) * CONTEXT_WAIT_DELAY + sum p {Suc i..n}"
      using IH True unfolding steps sum by (auto simp: algebra_simps)
    ultimately show ?thesis
      using IH True n by simp
  next
    case False
    with 1(2) show ?thesis
      by (subst (asm) wait_loop.simps) (auto split: if_splits)
  qed
qed

text \<open>
  Waiting for a context always ends, after at most 480001 further polls. It succeeds exactly if the last
  poll saw the context, which no poll before did, and it gives up only after the two hours have passed.
\<close>

theorem wait_for_context_ends:
  assumes "wait_loop committed poll_time 0 (poll_time 0) = (found, n)"
  shows "(found \<longleftrightarrow> committed n) \<and> (\<forall>k. k < n \<longrightarrow> \<not> committed k) \<and> n \<le> 480001 \<and>
    (\<not> found \<longrightarrow> 7200000 < n * 15 + (\<Sum>k\<le>n. poll_time k))"
proof -
  have "(\<Sum>k\<le>n. poll_time k) = poll_time 0 + sum poll_time {Suc 0..n}"
    by (simp add: atMost_atLeast0 sum.atLeast_Suc_atMost)
  with wait_loop_spec [OF assms] show ?thesis
    by (auto simp: CONTEXT_WAIT_TIMEOUT_def CONTEXT_WAIT_DELAY_def)
qed

theorem wait_for_context_ends_witness:
  "fst (wait_loop (\<lambda>n. n = 2) (\<lambda>_. 1) 0 1) \<and> snd (wait_loop (\<lambda>n. n = 2) (\<lambda>_. 1) 0 1) = 2"
proof -
  have "wait_loop (\<lambda>n. n = 2) (\<lambda>_. 1) 0 1 = (True, 2)"
    by (simp add: wait_loop.simps CONTEXT_WAIT_TIMEOUT_def CONTEXT_WAIT_DELAY_def)
  with wait_for_context_ends [of "\<lambda>n. n = 2" "\<lambda>_. 1" True 2] show ?thesis
    by simp
qed

text \<open>
  Property C38. The genesis block is marked as applied before its data and the current head are stored. If the write of
  the data fails, the node is stuck: on every later attempt, whatever works again by then and whatever the
  protocol answers, the mark is found, nothing is committed, and the feeder ends with the error
  that no head is known.
\<close>

theorem interrupted_genesis_is_stuck:
  assumes "block_meta_kv (cb_meta B) (cv_meta V) (cv_meta_ok V)" "ops_meta_kv (cb_ops_meta B) (cv_ops_meta V) (cv_ops_meta_ok V)"
    and "HeadState.chain_meta (cb_chain_meta B) (cv_chain_meta V) (cv_chain_meta_ok V)" "storages_ok V t"
    and "length g = LEN_BLOCK_HASH" "length cid = LEN_CHAIN_ID" "ops_meta_of V t g = None"
    and "as_head (cv_chain_meta V (cs_chain_meta t) (key_current_head cid)) = None"
    and "put_block_json_data (cb_blocks B) g (json_of_genesis res) (cs_blocks t) = (Inl e, b)"
  shows "\<exists>t'. store_commit_genesis_result B g cid res t = (Inl e, t') \<and>
    (\<forall>bb (E :: 'p feeder_env) G evs s p x. fd_stores s = t' \<longrightarrow> fe_init_protocol_for_write E False (fd_runner s) = (Inr x, p) \<longrightarrow>
      feed_chain_to_protocol (B\<lparr>cb_blocks := bb\<rparr>) E G g cid evs s = (Inl (Err UnknownCurrentHeadError), s\<lparr>fd_runner := p\<rparr>))"
proof -
  have ok: "cv_meta_ok V (cs_meta t)" "cv_ops_meta_ok V (cs_ops_meta t)" "cv_chain_meta_ok V (cs_chain_meta t)"
    using assms(4) by (simp_all add: storages_ok_def)
  have gm: "meta_ok (genesis_meta g cid True)" "op_meta_ok genesis_op_meta"
    using assms(5,6) by (simp_all add: meta_ok_def genesis_meta_def layout LEN_BLOCK_HASH_def vec_capacity_ok_def op_meta_ok_def genesis_op_meta_def)
  obtain m where m: "bms_put (cb_meta B) g (genesis_meta g cid True) (cs_meta t) = (Inr (), m)" "cv_meta_ok V m"
    "cv_meta V m = (cv_meta V (cs_meta t))(g \<mapsto> (case cv_meta V (cs_meta t) g of None \<Rightarrow> genesis_meta g cid True | Some w \<Rightarrow> meta_merge w (genesis_meta g cid True)))"
    using block_meta_kv.bms_put_spec [OF assms(1) ok(1) assms(5) gm(1)] by blast
  obtain w where w: "cv_meta V m g = Some w" "m_is_applied w"
    by (simp add: m(3) genesis_meta_def meta_merge_def split: option.split)
  obtain q where q: "oms_put (cb_ops_meta B) g genesis_op_meta (cs_ops_meta t) = (Inr (), q)"
    using ops_meta_kv.oms_put_spec [OF assms(2) ok(2) assms(5) gm(2)] assms(7) by (auto simp: ops_meta_of_def merged_def)
  define t' where "t' = t\<lparr>cs_meta := m, cs_ops_meta := q, cs_blocks := b\<rparr>"
  have stopped: "store_commit_genesis_result B g cid res t = (Inl e, t')"
    by (simp add: store_commit_genesis_result_def bindA_def in_meta_def in_ops_meta_def in_blocks_def m(1) q assms(9) t'_def)
  have "feed_chain_to_protocol (B\<lparr>cb_blocks := bb\<rparr>) E G g cid evs s = (Inl (Err UnknownCurrentHeadError), s\<lparr>fd_runner := p\<rparr>)"
    if "fd_stores s = t'" "fe_init_protocol_for_write E False (fd_runner s) = (Inr x, p)" for bb and E :: "'p feeder_env" and G evs s p x
  proof -
    have "in_stores (in_meta (bms_get (cb_meta B) g)) s = (Inr (Some w), s)"
      using block_meta_kv.bms_get_spec [OF assms(1) m(2) assms(5)] w(1) that(1) by (simp add: in_stores_def in_meta_def t'_def)
    moreover have "in_stores (in_chain_meta (get_current_head (cb_chain_meta B) cid)) (s\<lparr>fd_runner := p\<rparr>) = (Inr None, s\<lparr>fd_runner := p\<rparr>)"
      using HeadState.chain_meta.get_current_head_run [OF assms(3) ok(3) assms(6)] that(1) assms(8) by (simp add: in_stores_def in_chain_meta_def t'_def)
    ultimately show ?thesis
      using that(2) w(2) by (simp add: feed_chain_to_protocol_def initialize_protocol_context_def bindA_def in_runner_def ret_def fail_def)
  qed
  with stopped show ?thesis
    by blast
qed

definition sample_genesis :: genesis_env where
  "sample_genesis = \<lparr>ge_header_hash = Inr (replicate 32 7), ge_time = Inr 0, ge_protocol = Inr (replicate 32 1),
     ge_zero_protocol = Inr (replicate 32 0), ge_empty_operations_hash = Inr (replicate 32 2)\<rparr>"

definition sample_genesis_result :: commit_genesis_result where
  "sample_genesis_result = \<lparr>cg_block_header_proto_json = [], cg_block_header_proto_metadata_bytes = [], cg_operations_proto_metadata_bytes = []\<rparr>"

theorem interrupted_genesis_is_stuck_witness:
  "\<exists>t'. store_commit_genesis_result mem_chain (replicate 32 7) [0, 0, 0, 0] sample_genesis_result empty_stores = (Inl (Err MissingKey), t') \<and>
    feed_chain_to_protocol mem_chain idle_env sample_genesis (replicate 32 7) [0, 0, 0, 0] [] (feed_start t') =
      (Inl (Err UnknownCurrentHeadError), feed_start t')"
proof -
  have v: "ops_meta_of mem_chain_views empty_stores (replicate 32 7) = None"
    "as_head (cv_chain_meta mem_chain_views (cs_chain_meta empty_stores) (key_current_head [0, 0, 0, 0])) = None"
    by (simp_all add: ops_meta_of_def mem_chain_views_def empty_stores_def empty_ops_meta empty_chain_meta)
  have len: "length (replicate 32 (7 :: byte)) = LEN_BLOCK_HASH" "length [0, 0, 0, 0 :: byte] = LEN_CHAIN_ID"
    by (simp_all add: LEN_BLOCK_HASH_def layout)
  obtain b where b: "put_block_json_data (cb_blocks mem_chain) (replicate 32 7) (json_of_genesis sample_genesis_result) (cs_blocks empty_stores) =
      (Inl (Err MissingKey), b)"
    using mch.bl.put_json_spec [of "cs_blocks empty_stores" "replicate 32 7" "json_of_genesis sample_genesis_result"] empty_chain(1,4) len(1)
    by (auto simp: storages_ok_def block_map_of_def)
  obtain t' where t': "store_commit_genesis_result mem_chain (replicate 32 7) [0, 0, 0, 0] sample_genesis_result empty_stores = (Inl (Err MissingKey), t')"
    "\<forall>bb (E :: unit feeder_env) G evs s p x. fd_stores s = t' \<longrightarrow> fe_init_protocol_for_write E False (fd_runner s) = (Inr x, p) \<longrightarrow>
      feed_chain_to_protocol (mem_chain\<lparr>cb_blocks := bb\<rparr>) E G (replicate 32 7) [0, 0, 0, 0] evs s = (Inl (Err UnknownCurrentHeadError), s\<lparr>fd_runner := p\<rparr>)"
    using interrupted_genesis_is_stuck [where 'p = unit, OF mch.bmk.block_meta_kv_axioms mch.opm.ops_meta_kv_axioms mch.cme.chain_meta_axioms empty_chain(1) len v b]
    by blast
  have "feed_chain_to_protocol (mem_chain\<lparr>cb_blocks := cb_blocks mem_chain\<rparr>) idle_env sample_genesis (replicate 32 7) [0, 0, 0, 0] [] (feed_start t') =
      (Inl (Err UnknownCurrentHeadError), (feed_start t')\<lparr>fd_runner := ()\<rparr>)"
    by (rule t'(2) [rule_format]) (simp_all add: feed_start_def idle_env_def ret_def)
  with t'(1) show ?thesis
    by (simp add: feed_start_def)
qed

end
