(* ===== verification/FeederQueue.thy ===== *)
theory FeederQueue
  imports ChainFeeder
begin

text \<open>
  The actor in front of the feeder thread (\<^verbatim>\<open>shell/src/chain_feeder.rs\<close>): batches wait in a queue
  until one of the tickets is free, and go to the thread over a channel. The actor and the thread run
  concurrently; their steps interleave in any order.
\<close>

section \<open>The actor\<close>

definition BLOCK_APPLY_BATCH_MAX_TICKETS :: nat where
  "BLOCK_APPLY_BATCH_MAX_TICKETS = 2"

record schedule_apply_block =
  sab_batch :: apply_block_batch
  sab_chain_id :: chain_id
  sab_bootstrapper :: bool

text \<open>The actor with the channel to the thread and its own mailbox of finished batches.\<close>

record feeder_actor =
  fa_queue :: "schedule_apply_block list"
  fa_tickets :: nat
  fa_tickets_maximum :: nat
  fa_run :: bool
  fa_stats :: apply_block_stats
  fa_channel :: "queue_event list"
  fa_channel_open :: bool
  fa_done :: "apply_block_stats list"

definition new_feeder :: "nat \<Rightarrow> feeder_actor" where
  "new_feeder max_permits = \<lparr>fa_queue = [], fa_tickets = max_permits, fa_tickets_maximum = max_permits, fa_run = True,
     fa_stats = default_apply_stats, fa_channel = [], fa_channel_open = True, fa_done = []\<rparr>"

definition send_to_queue :: "queue_event \<Rightarrow> feeder_actor \<Rightarrow> bool \<times> feeder_actor" where
  "send_to_queue e a = (if fa_channel_open a then (True, a\<lparr>fa_channel := fa_channel a @ [e]\<rparr>) else (False, a))"

text \<open>A request that cannot be sent is dropped, and its ticket with it; the actor is told to go on.\<close>

definition apply_completed_block :: "apply_request \<Rightarrow> feeder_actor \<Rightarrow> feeder_actor" where
  "apply_completed_block req a =
     (case send_to_queue (ApplyBlock req) a of
        (True, a') \<Rightarrow> a'
      | (False, a') \<Rightarrow> a'\<lparr>fa_tickets := fa_tickets a' + (if ab_permit req then 1 else 0), fa_done := fa_done a' @ [default_apply_stats]\<rparr>)"

definition add_to_batch_queue :: "schedule_apply_block \<Rightarrow> feeder_actor \<Rightarrow> feeder_actor" where
  "add_to_batch_queue m a = a\<lparr>fa_queue := fa_queue a @ [m]\<rparr>"

definition request_of :: "schedule_apply_block \<Rightarrow> apply_request" where
  "request_of m = \<lparr>ab_batch = sab_batch m, ab_chain_id = sab_chain_id m, ab_bootstrapper = sab_bootstrapper m,
     ab_result_callback = False, ab_permit = True\<rparr>"

text \<open>A ticket that is acquired while no batch waits is returned at once.\<close>

function process_batch_queue :: "feeder_actor \<Rightarrow> feeder_actor" where
  "process_batch_queue a =
     (if fa_tickets a = 0 then a
      else case fa_queue a of
        [] \<Rightarrow> a
      | m # ms \<Rightarrow> process_batch_queue (apply_completed_block (request_of m) (a\<lparr>fa_tickets := fa_tickets a - 1, fa_queue := ms\<rparr>)))"
  by pat_completeness auto
termination
  by (relation "measure (\<lambda>a. length (fa_queue a))") (auto simp: apply_completed_block_def send_to_queue_def)

declare process_batch_queue.simps [simp del]

definition update_stats :: "apply_block_stats \<Rightarrow> feeder_actor \<Rightarrow> feeder_actor" where
  "update_stats st a = a\<lparr>fa_stats := merge_stats (fa_stats a) st\<rparr>"

section \<open>Messages\<close>

definition receive_apply_block :: "apply_request \<Rightarrow> feeder_actor \<Rightarrow> feeder_actor" where
  "receive_apply_block req a = (if \<not> fa_run a then a else apply_completed_block req a)"

definition receive_schedule_apply_block :: "schedule_apply_block \<Rightarrow> feeder_actor \<Rightarrow> feeder_actor" where
  "receive_schedule_apply_block m a = (if \<not> fa_run a then a else process_batch_queue (add_to_batch_queue m a))"

definition receive_apply_block_done :: "apply_block_stats \<Rightarrow> feeder_actor \<Rightarrow> feeder_actor" where
  "receive_apply_block_done st a = (if \<not> fa_run a then a else process_batch_queue (update_stats st a))"

text \<open>The statistics that are logged: batches with a ticket, waiting batches, waiting blocks.\<close>

definition receive_log_stats :: "feeder_actor \<Rightarrow> (nat \<times> nat \<times> nat) \<times> feeder_actor" where
  "receive_log_stats a =
     ((fa_tickets_maximum a - fa_tickets a, length (fa_queue a), sum_list (map (\<lambda>m. batch_total_size (sab_batch m)) (fa_queue a))),
      if 0 < applied_block_lasts_count (fa_stats a) then a\<lparr>fa_stats := clear_applied_block_lasts (fa_stats a)\<rparr> else a)"

definition receive_shutting_down :: "feeder_actor \<Rightarrow> feeder_actor" where
  "receive_shutting_down a = snd (send_to_queue ShuttingDown (a\<lparr>fa_run := False\<rparr>))"

section \<open>The actor and the thread\<close>

text \<open>What the thread still has to signal of the batch it works on.\<close>

datatype worker = Idle | Busy "feeder_event list"

text \<open>
  A batch with a ticket ends with its return and a message to the actor: the message first after a failure,
  last after a success. A batch without ticket only sends the message.
\<close>

definition ending :: "bool \<Rightarrow> feeder_event list \<Rightarrow> bool" where
  "ending permit sig \<longleftrightarrow> (\<exists>a. sig = [ApplyBlockDone a] \<and> \<not> permit \<or>
     permit \<and> (sig = [DropPermit, ApplyBlockDone a] \<or> sig = [ApplyBlockDone a, DropPermit]))"

text \<open>Steps of the node itself, and steps that other actors cause.\<close>

inductive internal_step :: "feeder_actor \<times> worker \<Rightarrow> feeder_actor \<times> worker \<Rightarrow> bool" where
  finished: "fa_done a = st # sts \<Longrightarrow> internal_step (a, w) (receive_apply_block_done st (a\<lparr>fa_done := sts\<rparr>), w)"
| start: "fa_channel a = ApplyBlock req # evs \<Longrightarrow> ending (ab_permit req) sig \<Longrightarrow>
    internal_step (a, Idle) (a\<lparr>fa_channel := evs\<rparr>, Busy sig)"
| return_ticket: "internal_step (a, Busy (DropPermit # sig)) (a\<lparr>fa_tickets := fa_tickets a + 1\<rparr>, Busy sig)"
| tell_done: "internal_step (a, Busy (ApplyBlockDone st # sig)) (a\<lparr>fa_done := fa_done a @ [st]\<rparr>, Busy sig)"
| idle: "internal_step (a, Busy []) (a, Idle)"

inductive external_step :: "feeder_actor \<times> worker \<Rightarrow> feeder_actor \<times> worker \<Rightarrow> bool" where
  scheduled: "external_step (a, w) (receive_schedule_apply_block m a, w)"
| injected: "\<not> ab_permit req \<Longrightarrow> external_step (a, w) (receive_apply_block req a, w)"
| logged: "external_step (a, w) (snd (receive_log_stats a), w)"
| shut_down: "external_step (a, w) (receive_shutting_down a, w)"

inductive feeder_reach :: "nat \<Rightarrow> feeder_actor \<times> worker \<Rightarrow> bool" for n where
  initial: "feeder_reach n (new_feeder n, Idle)"
| internal: "feeder_reach n s \<Longrightarrow> internal_step s s' \<Longrightarrow> feeder_reach n s'"
| external: "feeder_reach n s \<Longrightarrow> external_step s s' \<Longrightarrow> feeder_reach n s'"

inductive_cases internal_stepE: "internal_step s s'"
inductive_cases external_stepE: "external_step s s'"

text \<open>The thread of \<^const>\<open>process_request\<close> ends every batch this way, unless it panics or is shut down.\<close>

lemma not_shut_down:
  assumes "\<forall>n. fe_run E n"
  shows "fst (apply_blocks B E cid callback boot hs st s) \<noteq> Inr None"
proof (induction hs arbitrary: st s)
  case Nil
  show ?case
    by (simp add: ret_def)
next
  case (Cons h hs)
  then show ?case
    using assms by (auto simp: bindA_def load_run_def ret_def split: prod.split sum.split option.split)
qed

lemma process_request_ending:
  assumes "process_request B E req s = (r, s')" "\<forall>n. fe_run E n" "r \<noteq> Inl Panic"
  shows "\<exists>new. fd_sent s' = fd_sent s @ new \<and> ending (ab_permit req) (filter is_signal new)"
proof -
  obtain r1 s1 where run: "apply_blocks B E (ab_chain_id req) (ab_result_callback req) (ab_bootstrapper req)
      (take_all_blocks_to_apply (ab_batch req)) start_progress s = (r1, s1)"
    by fastforce
  obtain new where new: "fd_sent s1 = fd_sent s @ new" "signals_ok r1 (filter is_signal new)"
    using batch_signals [OF run] by (auto simp: start_progress_def)
  note fin = process_request_run [OF run assms(1)]
  consider e where "r1 = Inl (Err e)" | st where "r1 = Inr (Some st)"
    using not_shut_down [OF assms(2), of B "ab_chain_id req" "ab_result_callback req" "ab_bootstrapper req"
      "take_all_blocks_to_apply (ab_batch req)" start_progress s] run assms(3) fin(3)
    by (cases r1) (auto, metis failure.exhaust option.exhaust_sel)
  then show ?thesis
  proof cases
    case 1
    with new fin(2) show ?thesis
      by (auto simp: signals_ok_def ending_def)
  next
    case (2 st)
    with new fin(2) assms(2) show ?thesis
      by (cases "batch_stats st") (auto simp: signals_ok_def ending_def finish_events_def split: option.split)
  qed
qed

section \<open>Invariants\<close>

text \<open>Tickets that are not free.\<close>

definition with_ticket :: "queue_event \<Rightarrow> bool" where
  "with_ticket e \<longleftrightarrow> (\<exists>req. e = ApplyBlock req \<and> ab_permit req)"

lemma with_ticket_simps [simp]: "with_ticket (ApplyBlock req) = ab_permit req" "\<not> with_ticket ShuttingDown"
  by (simp_all add: with_ticket_def)

fun signals :: "worker \<Rightarrow> feeder_event list" where
  "signals Idle = []"
| "signals (Busy sig) = sig"

definition tickets_ok :: "nat \<Rightarrow> feeder_actor \<times> worker \<Rightarrow> bool" where
  "tickets_ok n s \<longleftrightarrow> fa_tickets (fst s) + length (filter with_ticket (fa_channel (fst s))) + count_list (signals (snd s)) DropPermit = n \<and>
     count_list (signals (snd s)) DropPermit \<le> 1 \<and> list_all is_signal (signals (snd s)) \<and>
     (fa_run (fst s) \<longrightarrow> ShuttingDown \<notin> set (fa_channel (fst s)))"

text \<open>A waiting batch is not forgotten: somebody will tell the actor to look at the queue again.\<close>

definition attended :: "feeder_actor \<times> worker \<Rightarrow> bool" where
  "attended s \<longleftrightarrow> (fa_run (fst s) \<longrightarrow> fa_queue (fst s) \<noteq> [] \<longrightarrow> fa_done (fst s) \<noteq> [] \<or>
     (\<exists>e \<in> set (fa_channel (fst s)). with_ticket e) \<or> (\<exists>st. ApplyBlockDone st \<in> set (signals (snd s))))"

definition launch :: "feeder_actor \<Rightarrow> schedule_apply_block \<Rightarrow> schedule_apply_block list \<Rightarrow> feeder_actor" where
  "launch a m ms = apply_completed_block (request_of m) (a\<lparr>fa_tickets := fa_tickets a - 1, fa_queue := ms\<rparr>)"

text \<open>What every launch of a batch keeps, the loop keeps; it stops when tickets or batches are used up.\<close>

lemma process_batch_queue_keeps:
  assumes "P a" "\<And>a m ms. P a \<Longrightarrow> fa_tickets a \<noteq> 0 \<Longrightarrow> fa_queue a = m # ms \<Longrightarrow> P (launch a m ms)"
  shows "P (process_batch_queue a)" "fa_tickets (process_batch_queue a) = 0 \<or> fa_queue (process_batch_queue a) = []"
proof -
  have "P (process_batch_queue a) \<and> (fa_tickets (process_batch_queue a) = 0 \<or> fa_queue (process_batch_queue a) = [])"
    using assms(1)
  proof (induction a rule: process_batch_queue.induct)
    case (1 a)
    show ?case
    proof (cases "fa_tickets a = 0 \<or> fa_queue a = []")
      case True
      with 1(2) show ?thesis
        by (subst (1 2 3) process_batch_queue.simps) (auto split: list.split)
    next
      case False
      then obtain m ms where q: "fa_queue a = m # ms" "fa_tickets a \<noteq> 0"
        by (cases "fa_queue a") auto
      have "process_batch_queue a = process_batch_queue (launch a m ms)"
        by (subst process_batch_queue.simps) (simp add: q launch_def)
      with 1(1) [OF q(2,1), folded launch_def] assms(2) [OF 1(2) q(2,1)] show ?thesis
        by simp
    qed
  qed
  then show "P (process_batch_queue a)" "fa_tickets (process_batch_queue a) = 0 \<or> fa_queue (process_batch_queue a) = []"
    by auto
qed

lemma launch_fields:
  "fa_run (launch a m ms) = fa_run a" "fa_queue (launch a m ms) = ms"
  "fa_channel (launch a m ms) = fa_channel a @ (if fa_channel_open a then [ApplyBlock (request_of m)] else [])"
  "fa_done (launch a m ms) = fa_done a @ (if fa_channel_open a then [] else [default_apply_stats])"
  "fa_tickets (launch a m ms) = (if fa_channel_open a then fa_tickets a - 1 else fa_tickets a - 1 + 1)"
  by (simp_all add: launch_def apply_completed_block_def send_to_queue_def request_of_def)

lemma process_batch_queue_tickets: "tickets_ok n (a, w) \<Longrightarrow> tickets_ok n (process_batch_queue a, w)"
  by (rule process_batch_queue_keeps(1)) (auto simp: tickets_ok_def launch_fields request_of_def)

lemma process_batch_queue_attended:
  assumes "tickets_ok n (a, w)" "2 \<le> n"
  shows "attended (process_batch_queue a, w)"
proof -
  let ?a = "process_batch_queue a"
  have "fa_tickets ?a = 0 \<or> fa_queue ?a = []"
    by (rule process_batch_queue_keeps(2) [of "\<lambda>_. True"]) simp_all
  moreover have "filter with_ticket (fa_channel ?a) \<noteq> []" if "fa_tickets ?a = 0"
    using process_batch_queue_tickets [OF assms(1)] assms(2) that by (auto simp: tickets_ok_def)
  ultimately show ?thesis
    by (auto simp: attended_def filter_empty_conv)
qed

lemma tickets_step:
  assumes "tickets_ok n s" "internal_step s s' \<or> external_step s s'"
  shows "tickets_ok n s'"
  using assms(2)
proof
  assume "internal_step s s'"
  then show ?thesis
    using assms(1)
  proof cases
    case (finished a st sts w)
    have "tickets_ok n (update_stats st (a\<lparr>fa_done := sts\<rparr>), w)"
      using assms(1) finished(1) by (simp add: tickets_ok_def update_stats_def)
    then show ?thesis
      using assms(1) finished(1,2) process_batch_queue_tickets
      by (cases "fa_run a") (simp_all add: receive_apply_block_done_def, simp add: tickets_ok_def)
  next
    case (start a req evs sig)
    then show ?thesis
      using assms(1) by (auto simp: tickets_ok_def ending_def)
  qed (auto simp: tickets_ok_def)
next
  assume "external_step s s'"
  then show ?thesis
  proof cases
    case (scheduled a w m)
    have "tickets_ok n (add_to_batch_queue m a, w)"
      using assms(1) scheduled(1) by (simp add: tickets_ok_def add_to_batch_queue_def)
    then show ?thesis
      using assms(1) scheduled process_batch_queue_tickets by (auto simp: receive_schedule_apply_block_def)
  qed (use assms(1) in \<open>auto simp: tickets_ok_def receive_apply_block_def apply_completed_block_def send_to_queue_def
      receive_log_stats_def receive_shutting_down_def\<close>)
qed

lemma reach_tickets: "feeder_reach n s \<Longrightarrow> tickets_ok n s"
proof (induction rule: feeder_reach.induct)
  case initial
  show ?case
    by (simp add: tickets_ok_def new_feeder_def)
qed (blast intro: tickets_step)+

lemma attended_step:
  assumes "tickets_ok n s" "2 \<le> n" "attended s" "internal_step s s' \<or> external_step s s'"
  shows "attended s'"
  using assms(4)
proof
  assume "internal_step s s'"
  then show ?thesis
  proof cases
    case (finished a st sts w)
    have "tickets_ok n (update_stats st (a\<lparr>fa_done := sts\<rparr>), w)"
      using assms(1) finished(1) by (simp add: tickets_ok_def update_stats_def)
    from process_batch_queue_attended [OF this assms(2)] finished show ?thesis
      by (cases "fa_run a") (simp_all add: receive_apply_block_done_def attended_def)
  next
    case (start a req evs sig)
    then show ?thesis
      using assms(3) by (auto simp: attended_def ending_def)
  qed (use assms(3) in \<open>auto simp: attended_def\<close>)
next
  assume "external_step s s'"
  then show ?thesis
  proof cases
    case (scheduled a w m)
    have "tickets_ok n (add_to_batch_queue m a, w)"
      using assms(1) scheduled(1) by (simp add: tickets_ok_def add_to_batch_queue_def)
    from process_batch_queue_attended [OF this assms(2)] scheduled assms(3) show ?thesis
      by (cases "fa_run a") (simp_all add: receive_schedule_apply_block_def attended_def)
  qed (use assms(3) in \<open>auto simp: attended_def receive_apply_block_def apply_completed_block_def send_to_queue_def
      receive_log_stats_def receive_shutting_down_def\<close>)
qed

lemma reach_attended: "feeder_reach n s \<Longrightarrow> 2 \<le> n \<Longrightarrow> attended s"
proof (induction rule: feeder_reach.induct)
  case initial
  then show ?case
    by (simp add: attended_def new_feeder_def)
qed (blast intro: attended_step reach_tickets)+

text \<open>The work that is left, and that it shrinks with every step of the node itself.\<close>

fun signal_work :: "feeder_event \<Rightarrow> nat" where
  "signal_work (ApplyBlockDone _) = 2"
| "signal_work _ = 1"

fun worker_work :: "worker \<Rightarrow> nat" where
  "worker_work Idle = 0"
| "worker_work (Busy sig) = 1 + sum_list (map signal_work sig)"

definition work :: "feeder_actor \<times> worker \<Rightarrow> nat" where
  "work s = 6 * length (fa_queue (fst s)) + 5 * length (fa_channel (fst s)) + length (fa_done (fst s)) + worker_work (snd s)"

lemma process_batch_queue_work: "work (process_batch_queue a, w) \<le> work (a, w)"
  by (rule process_batch_queue_keeps(1)) (auto simp: work_def launch_fields)

lemma internal_step_work: "internal_step s s' \<Longrightarrow> work s' < work s"
proof (induction rule: internal_step.induct)
  case (finished a st sts w)
  have "work (process_batch_queue (update_stats st (a\<lparr>fa_done := sts\<rparr>)), w) < work (a, w)"
    using process_batch_queue_work [of "update_stats st (a\<lparr>fa_done := sts\<rparr>)" w] finished by (simp add: work_def update_stats_def)
  then show ?case
    using finished by (simp add: receive_apply_block_done_def work_def)
qed (auto simp: work_def ending_def)

lemma stuck_is_quiet:
  assumes "tickets_ok n (a, w)" "\<nexists>s'. internal_step (a, w) s'" "fa_run a"
  shows "fa_done a = [] \<and> fa_channel a = [] \<and> w = Idle"
proof -
  have d: "fa_done a = []"
    using assms(2) internal_step.finished by (metis neq_Nil_conv)
  have w: "w = Idle"
  proof (cases w)
    case (Busy sig)
    show ?thesis
    proof (cases sig)
      case Nil
      with assms(2) Busy show ?thesis
        using internal_step.idle by blast
    next
      case (Cons e es)
      then have "is_signal e"
        using assms(1) Busy by (simp add: tickets_ok_def)
      with assms(2) Busy Cons show ?thesis
        unfolding is_signal_def by (blast intro: internal_step.return_ticket internal_step.tell_done)
    qed
  qed simp
  have "fa_channel a = []"
  proof (cases "fa_channel a")
    case (Cons e es)
    then obtain req where "e = ApplyBlock req"
      using assms(1,3) by (cases e) (auto simp: tickets_ok_def)
    moreover have "\<exists>sig. ending (ab_permit req) sig"
      by (auto simp: ending_def)
    ultimately show ?thesis
      using assms(2) w Cons internal_step.start by blast
  qed simp
  with d w show ?thesis
    by simp
qed

section \<open>Properties\<close>

text \<open>
  Property C17. Tickets are conserved: in every reachable state of the actor and its thread, the free tickets, those of
  the batches in the channel and that of the batch being applied add up to the maximum. So at most
  that many scheduled batches are ever under way.
\<close>

theorem feeder_tickets_conserved:
  assumes "feeder_reach BLOCK_APPLY_BATCH_MAX_TICKETS (a, w)"
  shows "fa_tickets a + length (filter with_ticket (fa_channel a)) + count_list (signals w) DropPermit = 2 \<and>
    count_list (signals w) DropPermit \<le> 1"
  using reach_tickets [OF assms] by (simp add: tickets_ok_def BLOCK_APPLY_BATCH_MAX_TICKETS_def)

lemma reach_one: "feeder_reach 2 (receive_schedule_apply_block \<lparr>sab_batch = batch_one [7], sab_chain_id = [0], sab_bootstrapper = True\<rparr> (new_feeder 2), Idle)"
  by (rule feeder_reach.external [OF feeder_reach.initial external_step.scheduled])

theorem feeder_tickets_conserved_witness:
  "fa_tickets (receive_schedule_apply_block \<lparr>sab_batch = batch_one [7], sab_chain_id = [0], sab_bootstrapper = True\<rparr> (new_feeder 2)) +
   length (filter with_ticket (fa_channel (receive_schedule_apply_block
     \<lparr>sab_batch = batch_one [7], sab_chain_id = [0], sab_bootstrapper = True\<rparr> (new_feeder 2)))) = 2"
  using feeder_tickets_conserved [unfolded BLOCK_APPLY_BATCH_MAX_TICKETS_def, OF reach_one] by simp

text \<open>
  Property C16. No batch is ever forgotten: left alone, the actor and its thread stop after finitely many steps, whatever
  the order of their steps and however each batch ends; and where they stop, unless they are shut down,
  no batch is waiting, none is under way, and all tickets are free.
\<close>

theorem feeder_drains:
  assumes "feeder_reach BLOCK_APPLY_BATCH_MAX_TICKETS s"
  shows "wf {(y, x). internal_step x y} \<and>
    (\<forall>a w. internal_step\<^sup>*\<^sup>* s (a, w) \<longrightarrow> (\<nexists>s'. internal_step (a, w) s') \<longrightarrow> fa_run a \<longrightarrow>
      fa_queue a = [] \<and> fa_channel a = [] \<and> w = Idle \<and> fa_tickets a = 2)"
proof -
  have "wf {(y, x). internal_step x y}"
    by (rule wf_subset [OF wf_measure [of work]]) (auto intro: internal_step_work)
  moreover have "fa_queue a = [] \<and> fa_channel a = [] \<and> w = Idle \<and> fa_tickets a = 2"
    if "internal_step\<^sup>*\<^sup>* s (a, w)" "\<nexists>s'. internal_step (a, w) s'" "fa_run a" for a w
  proof -
    have r: "feeder_reach 2 (a, w)"
      using that(1) assms unfolding BLOCK_APPLY_BATCH_MAX_TICKETS_def
      by (induction rule: rtranclp_induct) (auto intro: feeder_reach.internal)
    note t = reach_tickets [OF r]
    from stuck_is_quiet [OF t that(2,3)] t reach_attended [OF r] that(3) show ?thesis
      by (auto simp: tickets_ok_def attended_def)
  qed
  ultimately show ?thesis
    by blast
qed

theorem feeder_drains_witness:
  "wf {(y, x). internal_step x y} \<and> feeder_reach 2 (new_feeder 2, Idle)"
  using feeder_drains [unfolded BLOCK_APPLY_BATCH_MAX_TICKETS_def, OF feeder_reach.initial] feeder_reach.initial by blast

text \<open>
  Two tickets are needed for this. With one, a batch that waits while another fails is forgotten: the
  actor is told of the failure before the ticket is free, and nothing tells it again.
\<close>

theorem one_ticket_forgets_a_batch:
  "\<exists>a. feeder_reach 1 (a, Idle) \<and> fa_run a \<and> fa_queue a \<noteq> [] \<and> (\<nexists>s'. internal_step (a, Idle) s')"
proof -
  define m where "m = \<lparr>sab_batch = batch_one [7], sab_chain_id = [0], sab_bootstrapper = True\<rparr>"
  define a where "a = (new_feeder 1)\<lparr>fa_tickets := 0, fa_channel := [ApplyBlock (request_of m)]\<rparr>"
  define b where "b = (new_feeder 1)\<lparr>fa_tickets := 0, fa_queue := [m]\<rparr>"
  note defs = a_def b_def new_feeder_def receive_schedule_apply_block_def add_to_batch_queue_def apply_completed_block_def send_to_queue_def
    process_batch_queue.simps
  have "receive_schedule_apply_block m (new_feeder 1) = a"
    by (simp add: defs)
  then have 1: "feeder_reach 1 (a, Idle)"
    using feeder_reach.external [OF feeder_reach.initial external_step.scheduled] by metis
  have "ending (ab_permit (request_of m)) [ApplyBlockDone default_apply_stats, DropPermit]"
    by (simp add: ending_def request_of_def)
  then have "internal_step (a, Idle) (a\<lparr>fa_channel := []\<rparr>, Busy [ApplyBlockDone default_apply_stats, DropPermit])"
    by (intro internal_step.start [of _ "request_of m"]) (simp_all add: a_def)
  with 1 have 2: "feeder_reach 1 (a\<lparr>fa_channel := []\<rparr>, Busy [ApplyBlockDone default_apply_stats, DropPermit])"
    by (rule feeder_reach.internal)
  have "receive_schedule_apply_block m (a\<lparr>fa_channel := []\<rparr>) = b"
    by (simp add: defs)
  with 2 have 3: "feeder_reach 1 (b, Busy [ApplyBlockDone default_apply_stats, DropPermit])"
    using feeder_reach.external [OF _ external_step.scheduled] by metis
  have 4: "feeder_reach 1 (b\<lparr>fa_done := [default_apply_stats]\<rparr>, Busy [DropPermit])"
    using feeder_reach.internal [OF 3 internal_step.tell_done] by (simp add: b_def new_feeder_def)
  have "receive_apply_block_done default_apply_stats b = b"
    by (simp add: receive_apply_block_done_def update_stats_def merge_stats_def default_apply_stats_def process_batch_queue.simps b_def new_feeder_def)
  then have 5: "feeder_reach 1 (b, Busy [DropPermit])"
    using feeder_reach.internal [OF 4 internal_step.finished [of _ default_apply_stats "[]"]] by (simp add: b_def new_feeder_def)
  have 6: "feeder_reach 1 (b\<lparr>fa_tickets := 1\<rparr>, Idle)"
    using feeder_reach.internal [OF feeder_reach.internal [OF 5 internal_step.return_ticket] internal_step.idle] by (simp add: b_def new_feeder_def)
  have "\<nexists>s'. internal_step (b\<lparr>fa_tickets := 1\<rparr>, Idle) s'"
    by (auto elim: internal_step.cases simp: b_def new_feeder_def)
  with 6 show ?thesis
    by (intro exI [of _ "b\<lparr>fa_tickets := 1\<rparr>"]) (simp add: b_def new_feeder_def)
qed

end
