(* ===== verification/Zarith.thy ===== *)
theory Zarith
  imports Prelude
begin

text \<open>
  Big numbers on the wire (\<^verbatim>\<open>tezos/encoding/src/binary_writer.rs\<close>, \<^verbatim>\<open>nom.rs\<close>,
  \<^verbatim>\<open>bit_utils.rs\<close>). The bit vector crate, the hexadecimal printer of big integers and its decoder are
  parameters with their documented behaviour.
\<close>

unbundle bit_operations_syntax

section \<open>Libraries\<close>

record 'b bit_vec =
  bv_new :: 'b
  bv_from_bytes :: "bytes \<Rightarrow> 'b"
  bv_from_elem :: "nat \<Rightarrow> bool \<Rightarrow> 'b"
  bv_push :: "'b \<Rightarrow> bool \<Rightarrow> 'b"
  bv_pop :: "'b \<Rightarrow> bool option \<times> 'b"
  bv_append :: "'b \<Rightarrow> 'b \<Rightarrow> 'b"
  bv_iter :: "'b \<Rightarrow> bool list"
  bv_to_bytes :: "'b \<Rightarrow> bytes"

text \<open>The bits of a byte, highest first, and of a sequence of bytes.\<close>

definition byte_bits :: "byte \<Rightarrow> bool list" where
  "byte_bits w = map (bit w) (rev [0..<8])"

definition bytes_bits :: "bytes \<Rightarrow> bool list" where
  "bytes_bits bs = concat (map byte_bits bs)"

locale bit_vec_laws =
  fixes bv :: "'b bit_vec"
  assumes new_law: "bv_iter bv (bv_new bv) = []"
    and from_bytes_law: "bv_iter bv (bv_from_bytes bv bs) = bytes_bits bs"
    and from_elem_law: "bv_iter bv (bv_from_elem bv n b) = replicate n b"
    and push_law: "bv_iter bv (bv_push bv x b) = bv_iter bv x @ [b]"
    and pop_law: "bv_iter bv x = [] \<Longrightarrow> fst (bv_pop bv x) = None"
      "bv_iter bv x = xs @ [b] \<Longrightarrow> \<exists>y. bv_pop bv x = (Some b, y) \<and> bv_iter bv y = xs"
    and append_law: "bv_iter bv (bv_append bv x y) = bv_iter bv x @ bv_iter bv y"
    and to_bytes_law: "8 dvd length (bv_iter bv x) \<Longrightarrow> bytes_bits (bv_to_bytes bv x) = bv_iter bv x"

record big_int_lib =
  to_str_radix_16 :: "int \<Rightarrow> string"
  hex_decode :: "string \<Rightarrow> unit + bytes"
  from_bytes_be :: "bool \<Rightarrow> bytes \<Rightarrow> int"

definition pad_even :: "string \<Rightarrow> string" where
  "pad_even s = (if length s mod 2 = 1 then CHR ''0'' # s else s)"

definition is_alphanumeric :: "char \<Rightarrow> bool" where
  "is_alphanumeric c \<longleftrightarrow> (let n = of_char c :: nat in 48 \<le> n \<and> n \<le> 57 \<or> 65 \<le> n \<and> n \<le> 90 \<or> 97 \<le> n \<and> n \<le> 122)"

text \<open>
  A number is printed as an optional minus and its hexadecimal digits without leading zeros; an even
  number of digits decodes to the big-endian bytes.
\<close>

locale big_int_laws =
  fixes bi :: big_int_lib
  assumes radix_law: "\<exists>d bs. to_str_radix_16 bi n = (if n < 0 then CHR ''-'' # d else d) \<and> d \<noteq> [] \<and> is_alphanumeric (hd d) \<and>
      hex_decode bi (pad_even d) = Inr bs \<and> from_be_bytes bs = nat \<bar>n\<bar> \<and> bs \<noteq> [] \<and> (hd bs \<noteq> 0 \<or> bs = [0])"
    and from_bytes_be_law: "from_bytes_be bi neg bs = (if neg then - int (from_be_bytes bs) else int (from_be_bytes bs))"

section \<open>Bits of a byte\<close>

datatype z_error = EmptyValue | HexError | NotEnoughBits | IndexOutOfRange | Eof

definition set_bit_at :: "byte \<Rightarrow> nat \<Rightarrow> bool \<Rightarrow> z_error + byte" where
  "set_bit_at n place v =
     (if place > 7 then Inl IndexOutOfRange
      else Inr ((n AND NOT (push_bit place 1)) OR push_bit place (of_bool v)))"

definition get_bit_at :: "byte \<Rightarrow> nat \<Rightarrow> z_error + bool" where
  "get_bit_at n place = (if place > 7 then Inl IndexOutOfRange else Inr (drop_bit place n AND 1 = 1))"

definition take_bit_at :: "byte \<Rightarrow> nat \<Rightarrow> z_error + bool \<times> byte" where
  "take_bit_at n place =
     (if place > 7 then Inl IndexOutOfRange
      else Inr (push_bit place 1 AND n \<noteq> 0, n AND NOT (push_bit place 1)))"

definition trim_left :: "'b bit_vec \<Rightarrow> 'b \<Rightarrow> 'b" where
  "trim_left bv x = fst (foldl (\<lambda>(t, notrim) b.
       if b then (bv_push bv t b, True) else if notrim then (bv_push bv t b, notrim) else (t, notrim))
     (bv_new bv, False) (bv_iter bv x))"

definition bv_reverse :: "'b bit_vec \<Rightarrow> 'b \<Rightarrow> 'b" where
  "bv_reverse bv x = foldl (bv_push bv) (bv_new bv) (rev (bv_iter bv x))"

section \<open>Writing\<close>

text \<open>Pops bits into the places from \<open>idx\<close> on.\<close>

fun pop_bits :: "'b bit_vec \<Rightarrow> nat \<Rightarrow> nat \<Rightarrow> 'b \<Rightarrow> byte \<Rightarrow> z_error failure + byte \<times> 'b" where
  "pop_bits bv idx 0 bits n = Inr (n, bits)"
| "pop_bits bv idx (Suc count) bits n =
     (case bv_pop bv bits of
        (None, _) \<Rightarrow> Inl (Err NotEnoughBits)
      | (Some b, bits') \<Rightarrow> and_then (map_err Err (set_bit_at n idx b)) (\<lambda>n'. pop_bits bv (Suc idx) count bits' n'))"

text \<open>The groups of seven bits. The continuation bit is set on all but the last.\<close>

fun put_chunks :: "'b bit_vec \<Rightarrow> nat \<Rightarrow> 'b \<Rightarrow> bytes \<Rightarrow> z_error failure + bytes" where
  "put_chunks bv 0 bits data =
     and_then (pop_bits bv 0 (min 7 (length (bv_iter bv bits))) bits 0) (\<lambda>(n, _). Inr (data @ [n]))"
| "put_chunks bv (Suc k) bits data =
     and_then (pop_bits bv 0 (min 7 (length (bv_iter bv bits))) bits 0) (\<lambda>(n, bits').
     and_then (map_err Err (set_bit_at n 7 True)) (\<lambda>n'. put_chunks bv k bits' (data @ [n'])))"

text \<open>The index of the last group is computed with a subtraction that overflows if no bits are left.\<close>

definition encode_z :: "'b bit_vec \<Rightarrow> big_int_lib \<Rightarrow> bytes \<Rightarrow> string \<Rightarrow> z_error failure + nat \<times> bytes" where
  "encode_z bv bi data v =
     (case v of
        [] \<Rightarrow> Inl (Err EmptyValue)
      | sign # rest \<Rightarrow>
          let (hex, negative) = (if is_alphanumeric sign then (v, False) else (rest, sign = CHR ''-''))
          in and_then (map_err (\<lambda>_. Err HexError) (hex_decode bi (pad_even hex))) (\<lambda>bytes.
          if length bytes = 1 \<and> bytes ! 0 \<le> 63
          then Inr (1, data @ [if negative then bytes ! 0 OR 64 else bytes ! 0])
          else
            let bits = trim_left bv (bv_from_bytes bv bytes)
            in and_then (pop_bits bv 0 6 bits (if negative then 192 else 128)) (\<lambda>(n, bits').
            let left = length (bv_iter bv bits')
            in if left = 0 then Inl Panic
            else and_then (put_chunks bv ((left - 1) div 7) bits' (data @ [n])) (\<lambda>data'.
            Inr (length data' - length data, data')))))"

section \<open>Reading\<close>

fun push_bits :: "'b bit_vec \<Rightarrow> nat \<Rightarrow> nat \<Rightarrow> byte \<Rightarrow> 'b \<Rightarrow> z_error + 'b" where
  "push_bits bv idx 0 byte bits = Inr bits"
| "push_bits bv idx (Suc count) byte bits =
     and_then (get_bit_at byte idx) (\<lambda>b. push_bits bv (Suc idx) count byte (bv_push bv bits b))"

fun read_chunks :: "'b bit_vec \<Rightarrow> bytes \<Rightarrow> 'b \<Rightarrow> z_error + bytes \<times> 'b" where
  "read_chunks bv [] bits = Inl Eof"
| "read_chunks bv (byte # input) bits =
     and_then (push_bits bv 0 7 byte bits) (\<lambda>bits'.
     and_then (get_bit_at byte 7) (\<lambda>has_next.
     if has_next then read_chunks bv input bits' else Inr (input, bits')))"

definition pad_bits :: "'b bit_vec \<Rightarrow> 'b \<Rightarrow> 'b" where
  "pad_bits bv bits =
     (let pad = length (bv_iter bv bits) mod 8
      in if pad \<noteq> 0 then bv_append bv bits (bv_from_elem bv (8 - pad) False) else bits)"

definition zarith :: "'b bit_vec \<Rightarrow> big_int_lib \<Rightarrow> bytes \<Rightarrow> z_error + bytes \<times> int" where
  "zarith bv bi input =
     (case input of
        [] \<Rightarrow> Inl Eof
      | first # rest \<Rightarrow>
          and_then (take_bit_at first 7) (\<lambda>(has_next, first').
          and_then (take_bit_at first' 6) (\<lambda>(negative, first'').
          if \<not> has_next
          then Inr (rest, if negative then - sint first'' else sint first'')
          else and_then (push_bits bv 0 6 first'' (bv_new bv)) (\<lambda>bits.
            and_then (read_chunks bv rest bits) (\<lambda>(input', bits').
            Inr (input', from_bytes_be bi negative (bv_to_bytes bv (bv_reverse bv (pad_bits bv bits')))))))))"

definition mutez :: "'b bit_vec \<Rightarrow> big_int_lib \<Rightarrow> bytes \<Rightarrow> z_error + bytes \<times> int" where
  "mutez bv bi input =
     and_then (read_chunks bv input (bv_new bv)) (\<lambda>(input', bits).
     Inr (input', from_bytes_be bi False (bv_to_bytes bv (bv_reverse bv (pad_bits bv bits)))))"

section \<open>Bits and numbers\<close>

text \<open>The number whose bits, lowest first, are given.\<close>

abbreviation bits_value :: "bool list \<Rightarrow> nat" where
  "bits_value \<equiv> horner_sum of_bool 2"

lemma set_bit_at_bit:
  assumes "place \<le> 7"
  obtains n' where "set_bit_at n place v = Inr n'" "\<And>i. bit n' i = (if i = place then v else bit n i)"
proof
  show "set_bit_at n place v = Inr ((n AND NOT (push_bit place 1)) OR push_bit place (of_bool v))"
    using assms by (simp add: set_bit_at_def)
  show "bit ((n AND NOT (push_bit place 1)) OR push_bit place (of_bool v)) i = (if i = place then v else bit n i)" for i
    using assms by (auto simp: bit_simps dest: bit_imp_le_length)
qed

lemma get_bit_at_bit: "place \<le> 7 \<Longrightarrow> get_bit_at n place = Inr (bit n place)"
  by (auto simp: get_bit_at_def and_one_eq bit_iff_odd_drop_bit odd_iff_mod_2_eq_one)

lemma take_bit_at_bit:
  assumes "place \<le> 7"
  obtains n' where "take_bit_at n place = Inr (bit n place, n')" "\<And>i. bit n' i = (i \<noteq> place \<and> bit n i)"
proof
  have "push_bit place 1 AND n \<noteq> 0 \<longleftrightarrow> bit n place"
    by (simp add: push_bit_eq_mult and.commute [of _ n] and_exp_eq_0_iff_not_bit)
  then show "take_bit_at n place = Inr (bit n place, n AND NOT (push_bit place 1))"
    using assms by (simp add: take_bit_at_def)
  show "bit (n AND NOT (push_bit place 1)) i = (i \<noteq> place \<and> bit n i)" for i
    using assms by (auto simp: bit_simps dest: bit_imp_le_length)
qed

lemma unat_bits: "unat (w :: byte) = bits_value (rev (byte_bits w))"
proof -
  have "map (bit w) [0..<8] = map (bit (unat w)) [0..<8]"
    by (simp add: bit_unsigned_iff)
  then have "bits_value (rev (byte_bits w)) = bits_value (map (bit (unat w)) [0..<8])"
    by (simp only: byte_bits_def rev_map rev_rev_ident)
  also have "\<dots> = take_bit 8 (unat w)"
    by (rule horner_sum_bit_eq_take_bit)
  also have "\<dots> = unat w"
    by (rule take_bit_nat_eq_self) (use unsigned_less [of w] in simp)
  finally show ?thesis
    by simp
qed

lemma bits_value_append: "bits_value (xs @ ys) = bits_value xs + 2 ^ length xs * bits_value ys"
  by (simp add: horner_sum_append)

lemma from_be_bytes_bits: "from_be_bytes bs = bits_value (rev (bytes_bits bs))"
proof (induction bs rule: rev_induct)
  case (snoc b bs)
  then show ?case
    by (simp add: bytes_bits_def bits_value_append unat_bits [symmetric]) (simp add: byte_bits_def)
qed (simp add: bytes_bits_def)

lemma bits_value_zeros [simp]: "bits_value (replicate n False) = 0"
  by (induction n) simp_all

lemma bits_value_trim: "bits_value (rev (dropWhile Not xs)) = bits_value (rev xs)"
  by (induction xs) (simp_all add: bits_value_append)

context bit_vec_laws
begin

lemma trim_left_iter: "bv_iter bv (trim_left bv x) = dropWhile Not (bv_iter bv x)"
proof -
  let ?f = "\<lambda>(t, notrim) b. if b then (bv_push bv t b, True) else if notrim then (bv_push bv t b, notrim) else (t, notrim)"
  have "bv_iter bv (fst (foldl ?f (t, notrim) xs)) = bv_iter bv t @ (if notrim then xs else dropWhile Not xs)" for t notrim xs
    by (induction xs arbitrary: t notrim) (auto simp: push_law)
  from this [of "bv_new bv" False] show ?thesis
    by (simp add: trim_left_def new_law)
qed

lemma reverse_iter: "bv_iter bv (bv_reverse bv x) = rev (bv_iter bv x)"
proof -
  have "bv_iter bv (foldl (bv_push bv) t xs) = bv_iter bv t @ xs" for t xs
    by (induction xs arbitrary: t) (simp_all add: push_law)
  then show ?thesis
    by (simp add: bv_reverse_def new_law)
qed

lemma pop_bits_run:
  assumes "bv_iter bv bits = rev (xs @ ys)" "idx + length xs \<le> 8"
  obtains n' bits' where "pop_bits bv idx (length xs) bits n = Inr (n', bits')" "bv_iter bv bits' = rev ys"
    "\<And>i. bit n' i = (if idx \<le> i \<and> i < idx + length xs then xs ! (i - idx) else bit n i)"
  using assms
proof (induction xs arbitrary: idx bits n thesis)
  case Nil
  show ?case
    using Nil.prems(2) by (intro Nil.prems(1) [of n bits]) auto
next
  case (Cons x xs)
  obtain b1 where b1: "bv_pop bv bits = (Some x, b1)" "bv_iter bv b1 = rev (xs @ ys)"
    using pop_law(2) [of bits "rev (xs @ ys)" x] Cons.prems(2) by auto
  obtain n1 where n1: "set_bit_at n idx x = Inr n1" "\<And>i. bit n1 i = (if i = idx then x else bit n i)"
    using Cons.prems(3) by (auto intro: set_bit_at_bit [of idx n x])
  obtain n' bits' where "pop_bits bv (Suc idx) (length xs) b1 n1 = Inr (n', bits')" "bv_iter bv bits' = rev ys"
    "\<And>i. bit n' i = (if Suc idx \<le> i \<and> i < Suc idx + length xs then xs ! (i - Suc idx) else bit n1 i)"
    using Cons.IH [OF _ b1(2), of "Suc idx" n1] Cons.prems(3) by auto
  then show ?case
    by (intro Cons.prems(1) [of n' bits']) (auto simp: b1 n1 nth_Cons' Suc_le_eq)
qed

lemma pop_low_bits:
  assumes "bv_iter bv bits = rev (xs @ ys)" "length xs \<le> 8"
  shows "\<exists>n' bits'. pop_bits bv 0 (length xs) bits n = Inr (n', bits') \<and> bv_iter bv bits' = rev ys \<and>
    (\<forall>i. bit n' i = (if i < length xs then xs ! i else bit n i))"
proof -
  obtain n' bits' where "pop_bits bv 0 (length xs) bits n = Inr (n', bits')" "bv_iter bv bits' = rev ys"
    "\<And>i. bit n' i = (if 0 \<le> i \<and> i < 0 + length xs then xs ! (i - 0) else bit n i)"
    by (rule pop_bits_run [of bits xs ys 0]) (use assms in auto)
  then show ?thesis
    by simp
qed

lemma push_bits_run:
  "idx + count \<le> 8 \<Longrightarrow> \<exists>bits'. push_bits bv idx count byte bits = Inr bits' \<and>
    bv_iter bv bits' = bv_iter bv bits @ map (bit byte) [idx..<idx + count]"
proof (induction count arbitrary: idx bits)
  case (Suc count)
  then obtain bits' where "push_bits bv (Suc idx) count byte (bv_push bv bits (bit byte idx)) = Inr bits'"
    "bv_iter bv bits' = bv_iter bv (bv_push bv bits (bit byte idx)) @ map (bit byte) [Suc idx..<Suc idx + count]"
    using Suc.IH [of "Suc idx" "bv_push bv bits (bit byte idx)"] by auto
  moreover have "[idx..<idx + Suc count] = idx # [Suc idx..<Suc idx + count]"
    by (simp add: upt_conv_Cons)
  ultimately show ?case
    using Suc.prems by (simp only: push_bits.simps get_bit_at_bit and_then_simps push_law) (simp add: push_law)
qed simp

lemma pad_bits_iter:
  "8 dvd length (bv_iter bv (pad_bits bv bits)) \<and> (\<exists>k. bv_iter bv (pad_bits bv bits) = bv_iter bv bits @ replicate k False)"
proof -
  let ?l = "length (bv_iter bv bits)"
  have pad: "8 dvd ?l + (8 - ?l mod 8)" if "?l mod 8 \<noteq> 0"
    by presburger
  show ?thesis
  proof (cases "?l mod 8 = 0")
    case True
    then show ?thesis
      by (auto simp: pad_bits_def intro: exI [of _ 0])
  next
    case False
    then have "bv_iter bv (pad_bits bv bits) = bv_iter bv bits @ replicate (8 - ?l mod 8) False"
      by (simp add: pad_bits_def append_law from_elem_law)
    with pad [OF False] show ?thesis
      by (auto simp: length_append)
  qed
qed

lemma read_one_chunk:
  assumes "length xs \<le> 7" "\<And>i. bit n i = (if i < length xs then xs ! i else i = 7 \<and> c)"
  shows "\<exists>bits'. read_chunks bv (n # rest) bits = (if c then read_chunks bv rest bits' else Inr (rest, bits')) \<and>
    bv_iter bv bits' = bv_iter bv bits @ xs @ replicate (7 - length xs) False"
proof -
  obtain bits' where b: "push_bits bv 0 7 n bits = Inr bits'" "bv_iter bv bits' = bv_iter bv bits @ map (bit n) [0..<7]"
    using push_bits_run [of 0 7 n bits] by auto
  have "map (bit n) [0..<7] = xs @ replicate (7 - length xs) False"
    using assms by (intro nth_equalityI) (auto simp: nth_append)
  moreover have "get_bit_at n 7 = Inr c"
    using assms by (simp add: get_bit_at_bit)
  ultimately show ?thesis
    using b by auto
qed

lemma chunks_roundtrip:
  assumes "bv_iter bv bits = rev xs" "xs \<noteq> []" "k = (length xs - 1) div 7"
  shows "\<exists>out. put_chunks bv k bits data = Inr (data @ out) \<and>
    (\<forall>rest rb. \<exists>rb' z. read_chunks bv (out @ rest) rb = Inr (rest, rb') \<and> bv_iter bv rb' = bv_iter bv rb @ xs @ replicate z False)"
  using assms
proof (induction k arbitrary: bits xs data)
  case 0
  then have len: "length xs \<le> 7" "min 7 (length xs) = length xs"
    by (cases xs; simp)+
  obtain n bits' where n: "pop_bits bv 0 (length xs) bits 0 = Inr (n, bits')"
    "\<And>i. bit n i = (if i < length xs then xs ! i else False)"
    using pop_low_bits [of bits xs "[]" 0] 0(1) len by auto
  then have bits: "\<And>i. bit n i = (if i < length xs then xs ! i else i = 7 \<and> False)"
    by simp
  have "\<exists>rb' z. read_chunks bv (n # rest) rb = Inr (rest, rb') \<and> bv_iter bv rb' = bv_iter bv rb @ xs @ replicate z False" for rest rb
    using read_one_chunk [OF len(1) bits, of rest rb] by (auto simp del: read_chunks.simps)
  with n(1) len 0(1) show ?case
    by (intro exI [of _ "[n]"]) auto
next
  case (Suc k)
  define ys zs where "ys = take 7 xs" and "zs = drop 7 xs"
  have xs: "xs = ys @ zs" "length ys = 7" "zs \<noteq> []" "k = (length zs - 1) div 7" "min 7 (length xs) = 7"
    using Suc.prems(3) by (auto simp: ys_def zs_def div_nat_eqI)
  obtain n bits' where n: "pop_bits bv 0 7 bits 0 = Inr (n, bits')" "bv_iter bv bits' = rev zs"
    "\<And>i. bit n i = (if i < 7 then ys ! i else False)"
    using pop_low_bits [of bits ys zs 0] Suc.prems(1) xs(1,2) by auto
  obtain n' where n': "set_bit_at n 7 True = Inr n'" "\<And>i. bit n' i = (if i = 7 then True else bit n i)"
    by (auto intro: set_bit_at_bit [of 7 n True])
  obtain out where out: "put_chunks bv k bits' (data @ [n']) = Inr ((data @ [n']) @ out)"
    "\<And>rest rb. \<exists>rb' z. read_chunks bv (out @ rest) rb = Inr (rest, rb') \<and> bv_iter bv rb' = bv_iter bv rb @ zs @ replicate z False"
    using Suc.IH [OF n(2) xs(3,4)] by blast
  have "\<exists>rb' z. read_chunks bv (n' # out @ rest) rb = Inr (rest, rb') \<and> bv_iter bv rb' = bv_iter bv rb @ xs @ replicate z False" for rest rb
  proof -
    have bits: "bit n' i = (if i < length ys then ys ! i else i = 7 \<and> True)" for i
      using n(3) n'(2) xs(2) by simp
    obtain b1 where "read_chunks bv (n' # out @ rest) rb = read_chunks bv (out @ rest) b1" "bv_iter bv b1 = bv_iter bv rb @ ys"
      using read_one_chunk [OF _ bits, of "out @ rest" rb] xs(2) by (auto simp del: read_chunks.simps)
    with out(2) [of rest b1] xs(1) show ?thesis
      by (auto simp del: read_chunks.simps)
  qed
  with n(1) n'(1) out(1) Suc.prems(1) xs(5) show ?case
    by (intro exI [of _ "n' # out"]) auto
qed

lemma bytes_value: "8 dvd length (bv_iter bv x) \<Longrightarrow> from_be_bytes (bv_to_bytes bv x) = bits_value (rev (bv_iter bv x))"
  by (simp add: from_be_bytes_bits to_bytes_law)

lemma padded_value: "from_be_bytes (bv_to_bytes bv (bv_reverse bv (pad_bits bv x))) = bits_value (bv_iter bv x)"
  using pad_bits_iter [of x] by (auto simp: bytes_value reverse_iter bits_value_append)

end

lemma bits_value_less: "bits_value xs < 2 ^ length xs"
  by (induction xs) auto

lemma widened_value:
  assumes "length xs = 6"
  shows "bits_value (xs @ False # ys) = bits_value (xs @ ys) + 64 * (bits_value (xs @ ys) div 64)"
  using bits_value_less [of xs] assms by (simp add: bits_value_append)

lemma from_be_bytes_pos: "bs \<noteq> [] \<Longrightarrow> hd bs \<noteq> 0 \<Longrightarrow> 0 < from_be_bytes bs"
proof (induction bs rule: rev_induct)
  case (snoc b bs)
  then show ?case
    by (cases "bs = []") (simp_all add: from_be_bytes_def unat_gt_0)
qed simp

lemma from_be_bytes_large:
  assumes "bs \<noteq> []" "hd bs \<noteq> 0" "\<not> (length bs = 1 \<and> bs ! 0 \<le> 63)"
  shows "64 \<le> from_be_bytes bs"
proof (cases bs rule: rev_cases)
  case (snoc xs b)
  show ?thesis
  proof (cases "xs = []")
    case True
    with assms(3) snoc show ?thesis
      by (simp add: from_be_bytes_def word_le_nat_alt)
  next
    case False
    with from_be_bytes_pos [of xs] assms(2) snoc show ?thesis
      by simp
  qed
qed (use assms in simp)

lemma small_byte_bits: "bit (b :: byte) i \<Longrightarrow> b \<le> 63 \<Longrightarrow> i < 6"
proof -
  assume b: "bit b i" "b \<le> 63"
  then have "take_bit 6 (unat b) = unat b"
    by (intro take_bit_nat_eq_self) (simp add: word_le_nat_alt)
  with b(1) show "i < 6"
    by (metis bit_take_bit_iff bit_unsigned_iff possible_bit_nat)
qed

lemma zarith_small:
  assumes "b \<le> 63"
  shows "zarith bv bi ((if neg then b OR 64 else b) # rest) = Inr (rest, if neg then - int (unat b) else int (unat b))"
proof -
  let ?w = "if neg then b OR 64 else b"
  have w: "bit ?w i = (bit b i \<or> neg \<and> i = 6)" for i
    using bit_exp_iff [of 6 i, where 'a = byte] by (auto simp: bit_or_iff)
  obtain w1 where w1: "take_bit_at ?w 7 = Inr (bit ?w 7, w1)" "\<And>i. bit w1 i = (i \<noteq> 7 \<and> bit ?w i)"
    by (rule take_bit_at_bit [of 7 ?w]) simp_all
  obtain w2 where w2: "take_bit_at w1 6 = Inr (bit w1 6, w2)" "\<And>i. bit w2 i = (i \<noteq> 6 \<and> bit w1 i)"
    by (rule take_bit_at_bit [of 6 w1]) simp_all
  have b: "\<not> bit b 6" "\<not> bit b 7"
    using small_byte_bits [OF _ assms] by fastforce+
  then have "w2 = b"
    by (intro bit_eqI) (auto simp: w1(2) w2(2) w split: if_splits)
  moreover have "sint b = int (unat b)"
  proof -
    have "uint b < 2 ^ 7"
      using assms by (simp add: word_le_def)
    then show ?thesis
      using b(2) by (simp add: sint_uint signed_take_bit_eq_if_positive bit_uint_iff take_bit_int_eq_self)
  qed
  ultimately show ?thesis
    unfolding zarith_def list.case by (simp only: w1(1) w2(1) w1(2) w and_then_simps prod.case) (use b in auto)
qed

locale zarith_laws = bit_vec_laws bv + big_int_laws bi for bv :: "'b bit_vec" and bi
begin

lemma zarith_large:
  assumes low: "\<And>i. bit n i = (if i < 6 then xs ! i else i = 6 \<and> neg \<or> i = 7)" "length xs = 6"
    and rest: "\<And>rest rb. \<exists>rb' z. read_chunks bv (out @ rest) rb = Inr (rest, rb') \<and> bv_iter bv rb' = bv_iter bv rb @ ys @ replicate z False"
  shows "zarith bv bi (n # out @ rest) = Inr (rest, if neg then - int (bits_value (xs @ ys)) else int (bits_value (xs @ ys)))"
proof -
  obtain n1 where n1: "take_bit_at n 7 = Inr (bit n 7, n1)" "\<And>i. bit n1 i = (i \<noteq> 7 \<and> bit n i)"
    by (rule take_bit_at_bit [of 7 n]) simp_all
  obtain n2 where n2: "take_bit_at n1 6 = Inr (bit n1 6, n2)" "\<And>i. bit n2 i = (i \<noteq> 6 \<and> bit n1 i)"
    by (rule take_bit_at_bit [of 6 n1]) simp_all
  have flags: "bit n 7" "bit n1 6 = neg"
    by (simp_all add: low(1) n1(2))
  obtain bits where bits: "push_bits bv 0 6 n2 (bv_new bv) = Inr bits" "bv_iter bv bits = map (bit n2) [0..<6]"
    using push_bits_run [of 0 6 n2 "bv_new bv"] new_law by auto
  have "map (bit n2) [0..<6] = xs"
    by (rule nth_equalityI) (simp_all add: low n1(2) n2(2))
  then obtain bits' z where bits': "read_chunks bv (out @ rest) bits = Inr (rest, bits')" "bv_iter bv bits' = xs @ ys @ replicate z False"
    using rest [of rest bits] bits(2) by auto
  then have "bits_value (bv_iter bv bits') = bits_value (xs @ ys)"
    by (simp add: bits_value_append)
  then show ?thesis
    by (simp add: zarith_def n1(1) n2(1) flags bits(1) bits'(1) from_bytes_be_law padded_value)
qed

lemma mutez_large:
  assumes low: "\<And>i. bit n i = (if i < 6 then xs ! i else i = 7)" "length xs = 6"
    and rest: "\<And>rest rb. \<exists>rb' z. read_chunks bv (out @ rest) rb = Inr (rest, rb') \<and> bv_iter bv rb' = bv_iter bv rb @ ys @ replicate z False"
  shows "mutez bv bi (n # out @ rest) = Inr (rest, int (bits_value (xs @ False # ys)))"
proof -
  have "bit n i = (if i < length (xs @ [False]) then (xs @ [False]) ! i else i = 7 \<and> True)" for i
    by (auto simp: low nth_append)
  from read_one_chunk [OF _ this, of "out @ rest" "bv_new bv"] obtain b1 where b1:
    "read_chunks bv (n # out @ rest) (bv_new bv) = read_chunks bv (out @ rest) b1" "bv_iter bv b1 = xs @ [False]"
    by (auto simp: low(2) new_law simp del: read_chunks.simps)
  obtain b2 z where b2: "read_chunks bv (out @ rest) b1 = Inr (rest, b2)" "bv_iter bv b2 = xs @ False # ys @ replicate z False"
    using rest [of rest b1] b1(2) by auto
  then have "bits_value (bv_iter bv b2) = bits_value (xs @ False # ys)"
    by (simp add: bits_value_append)
  then show ?thesis
    by (simp add: mutez_def b1(1) b2(1) from_bytes_be_law padded_value del: read_chunks.simps)
qed

lemma mutez_small:
  assumes "b \<le> 63"
  shows "mutez bv bi (b # rest) = Inr (rest, int (unat b))"
proof -
  have "bit b i = (if i < length (map (bit b) [0..<7]) then map (bit b) [0..<7] ! i else i = 7 \<and> False)" for i
    using small_byte_bits [OF _ assms, of i] by (auto simp del: upt_Suc)
  from read_one_chunk [OF _ this, of rest "bv_new bv"] obtain b1 where
    b1: "read_chunks bv (b # rest) (bv_new bv) = Inr (rest, b1)" "bv_iter bv b1 = map (bit b) [0..<7]"
    by (auto simp: new_law simp del: read_chunks.simps upt_Suc)
  moreover have "unat b = bits_value (map (bit b) [0..<7])"
  proof -
    have "\<not> bit b 7"
      using small_byte_bits [OF _ assms, of 7] by auto
    moreover have "map (bit b) [0..<8] = map (bit b) [0..<7] @ [bit b 7]"
      using upt_add_eq_append [of 0 7 1] by simp
    ultimately show ?thesis
      by (simp add: unat_bits byte_bits_def rev_map bits_value_append del: upt_Suc)
  qed
  ultimately show ?thesis
    by (simp add: mutez_def from_bytes_be_law padded_value del: read_chunks.simps upt_Suc)
qed

lemma encode_large:
  assumes "bv_iter bv bits = rev (xs @ ys)" "length xs = 6" "ys \<noteq> []"
  shows "\<exists>n bits' out. pop_bits bv 0 6 bits (if neg then 192 else 128) = Inr (n, bits') \<and> bv_iter bv bits' = rev ys \<and>
    put_chunks bv ((length ys - 1) div 7) bits' (data @ [n]) = Inr (data @ n # out) \<and>
    (\<forall>rest. zarith bv bi (n # out @ rest) = Inr (rest, if neg then - int (bits_value (xs @ ys)) else int (bits_value (xs @ ys))) \<and>
      (\<not> neg \<longrightarrow> mutez bv bi (n # out @ rest) = Inr (rest, int (bits_value (xs @ False # ys)))))"
proof -
  let ?s = "if neg then 192 else 128 :: byte"
  obtain n bits' where n: "pop_bits bv 0 6 bits ?s = Inr (n, bits')" "bv_iter bv bits' = rev ys"
    "\<And>i. bit n i = (if i < 6 then xs ! i else bit ?s i)"
    using pop_low_bits [OF assms(1), of ?s] assms(2) by auto
  obtain out where out: "put_chunks bv ((length ys - 1) div 7) bits' (data @ [n]) = Inr ((data @ [n]) @ out)"
    "\<And>rest rb. \<exists>rb' z. read_chunks bv (out @ rest) rb = Inr (rest, rb') \<and> bv_iter bv rb' = bv_iter bv rb @ ys @ replicate z False"
    using chunks_roundtrip [OF n(2) assms(3) refl] by blast
  have "bit ?s i \<longleftrightarrow> i = 6 \<and> neg \<or> i = 7" if "\<not> i < 6" for i
  proof -
    have "i = 6 \<or> i = 7 \<or> 8 \<le> i"
      using that by linarith
    then show ?thesis
      by (auto dest: bit_imp_le_length)
  qed
  then have low: "bit n i = (if i < 6 then xs ! i else i = 6 \<and> neg \<or> i = 7)" for i
    by (simp add: n(3))
  then have "\<not> neg \<Longrightarrow> bit n i = (if i < 6 then xs ! i else i = 7)" for i
    by simp
  from mutez_large [OF this assms(2) out(2)] zarith_large [OF low assms(2) out(2)] n out(1) show ?thesis
    by auto
qed

lemma encode_z_small_back:
  assumes "hex_decode bi (pad_even d) = Inr bs" "d \<noteq> []" "is_alphanumeric (hd d)" "length bs = 1 \<and> bs ! 0 \<le> 63"
  shows "\<exists>out. encode_z bv bi data (if neg then CHR ''-'' # d else d) = Inr (length out, data @ out) \<and>
    (\<forall>rest. zarith bv bi (out @ rest) = Inr (rest, if neg then - int (from_be_bytes bs) else int (from_be_bytes bs)) \<and>
      (\<not> neg \<longrightarrow> mutez bv bi (out @ rest) = Inr (rest, int (from_be_bytes bs + 64 * (from_be_bytes bs div 64)))))"
proof -
  obtain b where b: "bs = [b]" "b \<le> 63"
    using assms(4) by (cases bs) auto
  then have "from_be_bytes bs = unat b" "unat b div 64 = 0"
    by (simp_all add: from_be_bytes_def word_le_nat_alt)
  then show ?thesis
    using assms b zarith_small [OF b(2), of bv bi neg] mutez_small [OF b(2)]
    by (intro exI [of _ "[if neg then b OR 64 else b]"]) (cases d; auto simp: encode_z_def is_alphanumeric_def)
qed

lemma encode_z_large_back:
  assumes hex: "hex_decode bi (pad_even d) = Inr bs" "d \<noteq> []" "is_alphanumeric (hd d)"
    and bs: "\<not> (length bs = 1 \<and> bs ! 0 \<le> 63)" "64 \<le> from_be_bytes bs"
  shows "\<exists>out. encode_z bv bi data (if neg then CHR ''-'' # d else d) = Inr (length out, data @ out) \<and>
    (\<forall>rest. zarith bv bi (out @ rest) = Inr (rest, if neg then - int (from_be_bytes bs) else int (from_be_bytes bs)) \<and>
      (\<not> neg \<longrightarrow> mutez bv bi (out @ rest) = Inr (rest, int (from_be_bytes bs + 64 * (from_be_bytes bs div 64)))))"
proof -
  define zs where "zs = rev (dropWhile Not (bytes_bits bs))"
  have zs: "bits_value zs = from_be_bytes bs"
    by (simp add: zs_def bits_value_trim from_be_bytes_bits)
  with bs(2) bits_value_less [of zs] have "(2 :: nat) ^ 6 < 2 ^ length zs"
    by simp
  then have "6 < length zs"
    by (rule power_less_imp_less_exp [rotated]) simp
  then have split: "length (take 6 zs) = 6" "drop 6 zs \<noteq> []" "length (drop 6 zs) = length zs - 6"
    by simp_all
  have iter: "bv_iter bv (trim_left bv (bv_from_bytes bv bs)) = rev (take 6 zs @ drop 6 zs)"
    by (simp add: trim_left_iter from_bytes_law zs_def)
  obtain w bits' out where w: "pop_bits bv 0 6 (trim_left bv (bv_from_bytes bv bs)) (if neg then 192 else 128) = Inr (w, bits')"
    "bv_iter bv bits' = rev (drop 6 zs)" "put_chunks bv ((length (drop 6 zs) - 1) div 7) bits' (data @ [w]) = Inr (data @ w # out)"
    "\<And>rest. zarith bv bi (w # out @ rest) = Inr (rest, if neg then - int (bits_value zs) else int (bits_value zs)) \<and>
      (\<not> neg \<longrightarrow> mutez bv bi (w # out @ rest) = Inr (rest, int (bits_value (take 6 zs @ False # drop 6 zs))))"
    using encode_large [OF iter split(1,2), of neg data] unfolding append_take_drop_id by blast
  have "encode_z bv bi data (if neg then CHR ''-'' # d else d) = Inr (length (w # out), data @ w # out)"
    using hex bs(1) w(1-3) split by (cases neg; cases d) (auto simp: encode_z_def is_alphanumeric_def Let_def)
  with w(4) widened_value [OF split(1), of "drop 6 zs"] show ?thesis
    by (intro exI [of _ "w # out"]) (simp add: zs)
qed

lemma encode_z_reads_back:
  "\<exists>out. encode_z bv bi data (to_str_radix_16 bi n) = Inr (length out, data @ out) \<and>
    (\<forall>rest. zarith bv bi (out @ rest) = Inr (rest, n) \<and>
      (0 \<le> n \<longrightarrow> mutez bv bi (out @ rest) = Inr (rest, n + 64 * (n div 64))))"
proof -
  obtain d bs where d: "to_str_radix_16 bi n = (if n < 0 then CHR ''-'' # d else d)" "d \<noteq> []" "is_alphanumeric (hd d)"
    and bs: "hex_decode bi (pad_even d) = Inr bs" "from_be_bytes bs = nat \<bar>n\<bar>" "bs \<noteq> []" "hd bs \<noteq> 0 \<or> bs = [0]"
    using radix_law [of n] by blast
  have val: "(if n < 0 then - int (from_be_bytes bs) else int (from_be_bytes bs)) = n"
    by (simp add: bs(2))
  have doubled: "int (from_be_bytes bs + 64 * (from_be_bytes bs div 64)) = n + 64 * (n div 64)" if "\<not> n < 0"
    using that by (simp add: bs(2) nat_div_distrib)
  have "64 \<le> from_be_bytes bs" if "\<not> (length bs = 1 \<and> bs ! 0 \<le> 63)"
    using that bs(3,4) from_be_bytes_large [of bs] by auto
  then show ?thesis
    using encode_z_small_back [OF bs(1) d(2,3), of data "n < 0"] encode_z_large_back [OF bs(1) d(2,3), of data "n < 0"]
    unfolding d(1) val not_less [symmetric] using doubled by (metis (no_types, lifting))
qed

end

section \<open>The libraries over lists and numbers\<close>

fun pack_bits :: "bool list \<Rightarrow> bytes" where
  "pack_bits (a # b # c # d # e # f # g # h # bits) = word_of_nat (bits_value [h, g, f, e, d, c, b, a]) # pack_bits bits"
| "pack_bits bits = []"

definition list_bit_vec :: "bool list bit_vec" where
  "list_bit_vec = \<lparr>bv_new = [], bv_from_bytes = bytes_bits, bv_from_elem = replicate, bv_push = (\<lambda>x b. x @ [b]),
     bv_pop = (\<lambda>x. if x = [] then (None, []) else (Some (last x), butlast x)), bv_append = (@), bv_iter = (\<lambda>x. x),
     bv_to_bytes = pack_bits\<rparr>"

definition hex_digit :: "nat \<Rightarrow> char" where
  "hex_digit n = (if n < 10 then char_of (48 + n) else char_of (87 + n))"

definition hex_value :: "char \<Rightarrow> nat" where
  "hex_value c = (let n = of_char c in if n \<le> 57 then n - 48 else n - 87)"

fun hex_digits :: "nat \<Rightarrow> string" where
  "hex_digits n = (if n < 16 then [hex_digit n] else hex_digits (n div 16) @ [hex_digit (n mod 16)])"

declare hex_digits.simps [simp del]

fun hex_pairs :: "string \<Rightarrow> unit + bytes" where
  "hex_pairs [] = Inr []"
| "hex_pairs [_] = Inl ()"
| "hex_pairs (a # b # s) = and_then (hex_pairs s) (\<lambda>bs. Inr (word_of_nat (16 * hex_value a + hex_value b) # bs))"

definition simple_big_int :: big_int_lib where
  "simple_big_int = \<lparr>to_str_radix_16 = (\<lambda>n. if n < 0 then CHR ''-'' # hex_digits (nat (- n)) else hex_digits (nat n)),
     hex_decode = hex_pairs, from_bytes_be = (\<lambda>neg bs. if neg then - int (from_be_bytes bs) else int (from_be_bytes bs))\<rparr>"

lemma byte_bits_pack: "byte_bits (word_of_nat (bits_value [h, g, f, e, d, c, b, a])) = [a, b, c, d, e, f, g, h]"
  by (cases a; cases b; cases c; cases d; cases e; cases f; cases g; cases h) (simp_all add: byte_bits_def upt_rec)

lemma bytes_bits_pack: "8 dvd length bits \<Longrightarrow> bytes_bits (pack_bits bits) = bits"
proof (induction bits rule: pack_bits.induct)
  case (1 a b c d e f g h bits)
  then have "8 dvd length bits"
    by simp presburger
  with 1 show ?case
    by (simp add: bytes_bits_def byte_bits_pack del: horner_sum_simps)
qed (auto simp: bytes_bits_def dest: dvd_imp_le)

interpretation lbv: bit_vec_laws list_bit_vec
  by unfold_locales (auto simp: list_bit_vec_def bytes_bits_pack)

lemma hex_value_digit [simp]: "n < 16 \<Longrightarrow> hex_value (hex_digit n) = n"
  by (simp add: hex_value_def hex_digit_def)

lemma hex_pairs_append: "even (length s) \<Longrightarrow> hex_pairs s = Inr bs \<Longrightarrow>
    hex_pairs (s @ [a, b]) = Inr (bs @ [word_of_nat (16 * hex_value a + hex_value b)])"
  by (induction s arbitrary: bs rule: hex_pairs.induct) (auto split: sum.splits simp: and_then_def)

lemma hex_digits_step: "256 \<le> n \<Longrightarrow> hex_digits n = hex_digits (n div 256) @ [hex_digit (n div 16 mod 16), hex_digit (n mod 16)]"
  by (subst hex_digits.simps, subst hex_digits.simps) (simp add: div_mult2_eq [symmetric])

lemma pad_even_append: "pad_even (s @ [a, b]) = pad_even s @ [a, b]"
  by (simp add: pad_even_def)

lemma even_pad: "even (length (pad_even s))"
  by (simp add: pad_even_def) presburger

lemma hex_digits_decode:
  "\<exists>bs. hex_pairs (pad_even (hex_digits n)) = Inr bs \<and> from_be_bytes bs = n \<and> bs \<noteq> [] \<and> (hd bs \<noteq> 0 \<or> bs = [0])"
proof (induction n rule: less_induct)
  case (less n)
  show ?case
  proof (cases "n < 256")
    case True
    then have "n div 16 < 16"
      by simp
    then have "hex_pairs (pad_even (hex_digits n)) = Inr [word_of_nat n]"
      by (cases "n < 16") (simp_all add: hex_digits.simps pad_even_def, simp add: hex_value_def)
    moreover have "unat (word_of_nat n :: byte) = n"
      using True by (simp add: unat_of_nat)
    ultimately show ?thesis
      by (auto simp: from_be_bytes_def)
  next
    case False
    then have n: "n div 256 < n" "256 \<le> n" "0 < n div 256"
      by simp_all
    obtain bs where bs: "hex_pairs (pad_even (hex_digits (n div 256))) = Inr bs" "from_be_bytes bs = n div 256" "bs \<noteq> []" "hd bs \<noteq> 0 \<or> bs = [0]"
      using less [OF n(1)] by blast
    have low: "16 * (n div 16 mod 16) + n mod 16 = n mod 256"
      using mod_mult2_eq [of n 16 16] by simp
    have "hex_pairs (pad_even (hex_digits n)) = Inr (bs @ [word_of_nat (n mod 256)])"
      unfolding hex_digits_step [OF n(2)] pad_even_append
      by (subst hex_pairs_append [OF even_pad bs(1)]) (simp add: low del: of_nat_add of_nat_mult)
    moreover have "unat (word_of_nat (n mod 256) :: byte) = n mod 256"
      by (simp add: unat_of_nat)
    moreover have "bs \<noteq> [0]"
      using bs(2) n(3) by (auto simp: from_be_bytes_def)
    ultimately show ?thesis
      using bs by (intro exI [of _ "bs @ [word_of_nat (n mod 256)]"]) auto
  qed
qed

lemma hex_digits_head: "hex_digits n \<noteq> [] \<and> is_alphanumeric (hd (hex_digits n))"
  by (induction n rule: hex_digits.induct) (subst (1 2) hex_digits.simps, simp add: is_alphanumeric_def hex_digit_def Let_def)

interpretation sbi: big_int_laws simple_big_int
proof
  show "\<exists>d bs. to_str_radix_16 simple_big_int n = (if n < 0 then CHR ''-'' # d else d) \<and> d \<noteq> [] \<and> is_alphanumeric (hd d) \<and>
      hex_decode simple_big_int (pad_even d) = Inr bs \<and> from_be_bytes bs = nat \<bar>n\<bar> \<and> bs \<noteq> [] \<and> (hd bs \<noteq> 0 \<or> bs = [0])" for n
    using hex_digits_decode [of "nat \<bar>n\<bar>"] hex_digits_head [of "nat \<bar>n\<bar>"]
    by (intro exI [of _ "hex_digits (nat \<bar>n\<bar>)"]) (auto simp: simple_big_int_def)
qed (simp add: simple_big_int_def)

interpretation szl: zarith_laws list_bit_vec simple_big_int ..

section \<open>Properties\<close>

text \<open>
  Property C10. Every integer is written successfully, the size returned is the number of bytes appended, and the
  reader gives the integer back and leaves the bytes that follow.
\<close>

theorem encode_z_roundtrip:
  assumes "zarith_laws bv bi"
  shows "\<exists>out. encode_z bv bi data (to_str_radix_16 bi n) = Inr (length out, data @ out) \<and>
    (\<forall>rest. zarith bv bi (out @ rest) = Inr (rest, n))"
  using zarith_laws.encode_z_reads_back [OF assms, of data n] by blast

theorem encode_z_roundtrip_witness:
  "\<exists>out. encode_z list_bit_vec simple_big_int [7] (to_str_radix_16 simple_big_int (- 100000)) = Inr (length out, [7] @ out) \<and>
    (\<forall>rest. zarith list_bit_vec simple_big_int (out @ rest) = Inr (rest, - 100000))"
  by (rule encode_z_roundtrip [OF szl.zarith_laws_axioms])

text \<open>
  Property C37. Amounts in mutez are written like signed numbers, with six bits and a sign in the first byte, and
  read with seven bits in every byte. Every amount from 64 on is read back as a different one.
\<close>

theorem mutez_reads_other_amount:
  assumes "zarith_laws bv bi" "64 \<le> n"
  shows "\<exists>out. encode_z bv bi data (to_str_radix_16 bi n) = Inr (length out, data @ out) \<and>
    (\<forall>rest. mutez bv bi (out @ rest) = Inr (rest, n + 64 * (n div 64))) \<and> n + 64 * (n div 64) \<noteq> n"
proof -
  have "0 \<le> n" "n div 64 \<noteq> 0"
    using assms(2) by (simp_all add: zdiv_eq_0_iff)
  with zarith_laws.encode_z_reads_back [OF assms(1), of data n] show ?thesis
    by auto
qed

theorem mutez_reads_other_amount_witness:
  "\<exists>out. encode_z list_bit_vec simple_big_int [] (to_str_radix_16 simple_big_int 64) = Inr (length out, [] @ out) \<and>
    (\<forall>rest. mutez list_bit_vec simple_big_int (out @ rest) = Inr (rest, 64 + 64 * (64 div 64))) \<and> 64 + 64 * (64 div 64) \<noteq> (64 :: int)"
  by (rule mutez_reads_other_amount [OF szl.zarith_laws_axioms]) simp

end
