(* ===== verification/BinaryWriter.thy ===== *)
theory BinaryWriter
  imports Zarith "HOL-Library.AList"
begin

text \<open>
  The schema-driven binary writer (\<^verbatim>\<open>tezos/encoding/src/binary_writer.rs\<close>, with the schemas of
  \<^verbatim>\<open>encoding.rs\<close>, the intermediate values of \<^verbatim>\<open>types.rs\<close> and the errors of
  \<^verbatim>\<open>error_context.rs\<close>). The writer appends to a buffer and returns the size written. Its errors
  drop the buffer, because the only caller does. Strings are sequences of ASCII characters, floating point
  numbers are their 64 bits.
\<close>

section \<open>Values and schemas\<close>

datatype val =
    VUnit
  | VInt8 "8 word"
  | VUint8 byte
  | VInt16 "16 word"
  | VUint16 "16 word"
  | VInt31 i32
  | VInt32 i32
  | VInt64 "64 word"
  | VRangedInt i32
  | VFloat "64 word"
  | VRangedFloat "64 word"
  | VBool bool
  | VString string
  | VBytes bytes
  | VOption "val option"
  | VList "val list"
  | VEnum "string option" "32 word option"
  | VTag string val
  | VRecord "(string \<times> val) list"
  | VTuple "val list"

datatype hash_type =
    ChainId | BlockHash | BlockMetadataHash | ProtocolHash | ContextHash | OperationHash | OperationListListHash
  | OperationMetadataHash | OperationMetadataListListHash | CryptoboxPublicKeyHash | ContractKt1Hash | ContractTz1Hash
  | ContractTz2Hash | ContractTz3Hash | PublicKeyEd25519 | PublicKeySecp256k1 | PublicKeyP256

fun hash_size :: "hash_type \<Rightarrow> nat" where
  "hash_size ChainId = 4"
| "hash_size CryptoboxPublicKeyHash = 16"
| "hash_size ContractKt1Hash = 20"
| "hash_size ContractTz1Hash = 20"
| "hash_size ContractTz2Hash = 20"
| "hash_size ContractTz3Hash = 20"
| "hash_size PublicKeySecp256k1 = 33"
| "hash_size PublicKeyP256 = 33"
| "hash_size _ = 32"

text \<open>
  The custom codecs are the type parameter, so that the codecs of a schema are its set. The tags are two
  hash maps: by identifier the variant and its schema, and the identifier of each variant.
\<close>

datatype (codecs: 'c) encoding =
    EUnit | EInt8 | EUint8 | EInt16 | EUint16 | EInt31 | EInt32 | EUint32 | EInt64 | ERangedInt | EZ | EMutez
  | EFloat | ERangedFloat | EBool
  | EString
  | EBoundedString nat
  | EBytes
  | ETags nat "(16 word \<times> string \<times> 'c encoding) list" "(string \<times> 16 word) list"
  | EList "'c encoding"
  | EBoundedList nat "'c encoding"
  | EEnum
  | EOption "'c encoding"
  | EOptionalField "'c encoding"
  | EObj string "(string \<times> 'c encoding) list"
  | ETup "'c encoding list"
  | EDynamic "'c encoding"
  | EBoundedDynamic nat "'c encoding"
  | ESized nat "'c encoding"
  | EBounded nat "'c encoding"
  | EGreedy "'c encoding"
  | EHash hash_type
  | ETimestamp
  | ECustom 'c

text \<open>The tag map of a list of tags; a later tag with the same identifier replaces the earlier one.\<close>

definition tag_map_new :: "(16 word \<times> string \<times> 'c encoding) list \<Rightarrow> (16 word \<times> string \<times> 'c encoding) list \<times> (string \<times> 16 word) list" where
  "tag_map_new tags = foldl (\<lambda>(ids, variants) (i, variant, e). (AList.update i (variant, e) ids, AList.update variant i variants)) ([], []) tags"

definition find_by_id :: "(16 word \<times> string \<times> 'e) list \<Rightarrow> 16 word \<Rightarrow> (string \<times> 'e) option" where
  "find_by_id ids i = map_of ids i"

definition find_by_variant :: "(16 word \<times> string \<times> 'e) list \<Rightarrow> (string \<times> 16 word) list \<Rightarrow> string \<Rightarrow> (16 word \<times> 'e) option" where
  "find_by_variant ids variants variant =
     (case map_of variants variant of
        None \<Rightarrow> None
      | Some i \<Rightarrow> map_option (\<lambda>(_, e). (i, e)) (map_of ids i))"

section \<open>Errors\<close>

datatype ser_error =
    EncodingMismatch
  | NoValueFound string
  | SizeOverflow
  | MaximumSizeExceeded nat nat
  | OutsideInt31
  | OutsideUint32
  | NotImplemented
  | OrdinalTooLarge "32 word"
  | NoOrdinal
  | NotBytes
  | UnexpectedSize nat nat
  | NoVariantName
  | NoTagFound string
  | UnsupportedTagSize nat
  | ZError z_error

text \<open>An error with the description of its place.\<close>

record error_info =
  ei_kind :: ser_error
  ei_location :: string

definition of_kind :: "ser_error \<Rightarrow> error_info" where
  "of_kind k = \<lparr>ei_kind = k, ei_location = []\<rparr>"

definition in_field :: "string \<Rightarrow> error_info \<Rightarrow> error_info" where
  "in_field name e = e\<lparr>ei_location := (if ei_location e = [] then ''field `'' @ name @ ''`''
     else ei_location e @ '' @ field `'' @ name @ ''`'')\<rparr>"

definition element_of :: "error_info \<Rightarrow> error_info" where
  "element_of e = e\<lparr>ei_location := (if ei_location e = [] then ''list element''
     else ei_location e @ '' @ list element'')\<rparr>"

abbreviation raise :: "ser_error \<Rightarrow> error_info failure + 'a" where
  "raise k \<equiv> Inl (Err (of_kind k))"

type_synonym written = "error_info failure + nat \<times> bytes"

type_synonym custom_codec = "val \<Rightarrow> bytes \<Rightarrow> ser_error + nat \<times> bytes"

section \<open>The writer\<close>

definition string_bytes :: "string \<Rightarrow> bytes" where
  "string_bytes s = map of_char s"

definition usize_max :: nat where
  "usize_max = 2 ^ 64 - 1"

definition checked_add :: "nat \<Rightarrow> nat \<Rightarrow> error_info failure + nat" where
  "checked_add a b = (if a + b \<le> usize_max then Inr (a + b) else raise SizeOverflow)"

text \<open>The size written since the buffer was \<open>data\<close>.\<close>

definition size_since :: "bytes \<Rightarrow> bytes \<Rightarrow> written" where
  "size_since data data' = (if length data \<le> length data' then Inr (length data' - length data, data') else raise SizeOverflow)"

definition write_tag_id :: "bytes \<Rightarrow> nat \<Rightarrow> 16 word \<Rightarrow> error_info failure + bytes" where
  "write_tag_id data tag_sz i =
     (if tag_sz = 1 then Inr (data @ [ucast i])
      else if tag_sz = 2 then Inr (data @ to_be_bytes 2 (unat i))
      else raise (UnsupportedTagSize tag_sz))"

definition find_value_in_record_values :: "string \<Rightarrow> (string \<times> val) list \<Rightarrow> val option" where
  "find_value_in_record_values name values = map_option snd (List.find (\<lambda>(v_name, _). v_name = name) values)"

text \<open>A loop that writes every element and fails at the first error.\<close>

fun write_each :: "('a \<Rightarrow> bytes \<Rightarrow> 'e + nat \<times> bytes) \<Rightarrow> 'a list \<Rightarrow> bytes \<Rightarrow> 'e + bytes" where
  "write_each f [] data = Inr data"
| "write_each f (v # vs) data = and_then (f v data) (\<lambda>(_, data'). write_each f vs data')"

fun put_u8 :: "val \<Rightarrow> bytes \<Rightarrow> written" where
  "put_u8 (VUint8 b) data = Inr (1, data @ [b])"
| "put_u8 _ data = raise NotBytes"

text \<open>The size of a dynamic block is written over its placeholder.\<close>

definition patch_size :: "nat \<Rightarrow> nat \<Rightarrow> bytes \<Rightarrow> error_info failure + bytes" where
  "patch_size before sz data =
     (if length data < before + 4 then Inl Panic
      else if sz \<ge> 2 ^ 32 then raise SizeOverflow
      else Inr (take before data @ to_be_bytes 4 sz @ drop (before + 4) data))"

definition encode_string :: "string \<Rightarrow> bytes \<Rightarrow> written" where
  "encode_string v data =
     (let data' = data @ to_be_bytes 4 (unat (word_of_nat (length v) :: 32 word)) @ string_bytes v
      in and_then (checked_add 4 (length v)) (\<lambda>n. Inr (n, data')))"

text \<open>The encodings without parts.\<close>

definition encode_leaf :: "'b bit_vec \<Rightarrow> big_int_lib \<Rightarrow> custom_codec encoding \<Rightarrow> val \<Rightarrow> bytes \<Rightarrow> written" where
  "encode_leaf bv bi e v data =
     (case e of
        EUnit \<Rightarrow> Inr (0, data)
      | EInt8 \<Rightarrow> (case v of VInt8 w \<Rightarrow> Inr (1, data @ [w]) | _ \<Rightarrow> raise EncodingMismatch)
      | EUint8 \<Rightarrow> (case v of VUint8 w \<Rightarrow> Inr (1, data @ [w]) | _ \<Rightarrow> raise EncodingMismatch)
      | EInt16 \<Rightarrow> (case v of VInt16 w \<Rightarrow> Inr (2, data @ to_be_bytes 2 (unat w)) | _ \<Rightarrow> raise EncodingMismatch)
      | EUint16 \<Rightarrow> (case v of VUint16 w \<Rightarrow> Inr (2, data @ to_be_bytes 2 (unat w)) | _ \<Rightarrow> raise EncodingMismatch)
      | EInt32 \<Rightarrow> (case v of VInt32 w \<Rightarrow> Inr (4, data @ to_be_bytes 4 (unat w)) | _ \<Rightarrow> raise EncodingMismatch)
      | EInt31 \<Rightarrow>
          (case v of
             VInt32 w \<Rightarrow> if w AND 0x7FFFFFFF = w then Inr (4, data @ to_be_bytes 4 (unat w)) else raise OutsideInt31
           | _ \<Rightarrow> raise EncodingMismatch)
      | EUint32 \<Rightarrow>
          (case v of
             VInt32 w \<Rightarrow> if sint w \<ge> 0 then Inr (4, data @ to_be_bytes 4 (unat w)) else raise OutsideUint32
           | _ \<Rightarrow> raise EncodingMismatch)
      | ERangedInt \<Rightarrow> raise NotImplemented
      | ERangedFloat \<Rightarrow> raise NotImplemented
      | EInt64 \<Rightarrow> (case v of VInt64 w \<Rightarrow> Inr (8, data @ to_be_bytes 8 (unat w)) | _ \<Rightarrow> raise EncodingMismatch)
      | ETimestamp \<Rightarrow> (case v of VInt64 w \<Rightarrow> Inr (8, data @ to_be_bytes 8 (unat w)) | _ \<Rightarrow> raise EncodingMismatch)
      | EFloat \<Rightarrow> (case v of VFloat w \<Rightarrow> Inr (8, data @ to_be_bytes 8 (unat w)) | _ \<Rightarrow> raise EncodingMismatch)
      | EBool \<Rightarrow> (case v of VBool b \<Rightarrow> Inr (1, data @ [if b then 0xFF else 0]) | _ \<Rightarrow> raise EncodingMismatch)
      | EZ \<Rightarrow> (case v of VString s \<Rightarrow> map_err (map_failure (of_kind \<circ> ZError)) (encode_z bv bi data s) | _ \<Rightarrow> raise EncodingMismatch)
      | EMutez \<Rightarrow> (case v of VString s \<Rightarrow> map_err (map_failure (of_kind \<circ> ZError)) (encode_z bv bi data s) | _ \<Rightarrow> raise EncodingMismatch)
      | EString \<Rightarrow> (case v of VString s \<Rightarrow> encode_string s data | _ \<Rightarrow> raise EncodingMismatch)
      | EBoundedString bound \<Rightarrow>
          (case v of
             VString s \<Rightarrow> if length s > bound then raise (MaximumSizeExceeded bound (length s)) else encode_string s data
           | _ \<Rightarrow> raise EncodingMismatch)
      | EEnum \<Rightarrow>
          (case v of
             VEnum _ ordinal \<Rightarrow>
               (case ordinal of
                  Some i \<Rightarrow> if unat i \<le> 255 then Inr (1, data @ [ucast i]) else raise (OrdinalTooLarge i)
                | None \<Rightarrow> raise NoOrdinal)
           | _ \<Rightarrow> raise EncodingMismatch)
      | EBytes \<Rightarrow> (case v of VList vs \<Rightarrow> and_then (write_each put_u8 vs data) (size_since data) | _ \<Rightarrow> raise EncodingMismatch)
      | EHash h \<Rightarrow>
          (case v of
             VList vs \<Rightarrow>
               and_then (write_each put_u8 vs data) (\<lambda>data'.
               and_then (size_since data data') (\<lambda>(n, data'').
               if n = hash_size h then Inr (n, data'') else raise (UnexpectedSize (hash_size h) n)))
           | _ \<Rightarrow> raise EncodingMismatch)
      | _ \<Rightarrow> raise EncodingMismatch)"

text \<open>The elements of a list, and a dynamic block.\<close>

definition encode_elements :: "(val \<Rightarrow> bytes \<Rightarrow> written) \<Rightarrow> val list \<Rightarrow> bytes \<Rightarrow> written" where
  "encode_elements f vs data =
     and_then (write_each (\<lambda>v d. map_err (map_failure element_of) (f v d)) vs data) (size_since data)"

definition encode_dynamic :: "nat option \<Rightarrow> (val \<Rightarrow> bytes \<Rightarrow> written) \<Rightarrow> val \<Rightarrow> bytes \<Rightarrow> written" where
  "encode_dynamic limit enc v data =
     and_then (enc v (data @ to_be_bytes 4 0)) (\<lambda>(sz, data').
     case limit of
       Some bound \<Rightarrow>
         if sz > bound then raise (MaximumSizeExceeded bound sz)
         else and_then (patch_size (length data) sz data') (size_since data)
     | None \<Rightarrow> and_then (patch_size (length data) sz data') (size_since data))"

text \<open>
  Records, tuples and tags, over the writers of their parts. A field of the schema is looked up by its
  name among the values.
\<close>

type_synonym writer = "val \<Rightarrow> bytes \<Rightarrow> written"

fun encode_fields :: "(string \<times> writer) list \<Rightarrow> (string \<times> val) list \<Rightarrow> nat \<Rightarrow> bytes \<Rightarrow> written" where
  "encode_fields [] values sz data = Inr (sz, data)"
| "encode_fields ((name, enc) # schema) values sz data =
     (case find_value_in_record_values name values of
        None \<Rightarrow> raise (NoValueFound name)
      | Some v \<Rightarrow>
          and_then (map_err (map_failure (in_field name)) (enc v data)) (\<lambda>(n, data').
          and_then (checked_add sz n) (\<lambda>sz'. encode_fields schema values sz' data')))"

definition encode_record :: "(string \<times> writer) list \<Rightarrow> writer" where
  "encode_record schema v data =
     (case v of VRecord values \<Rightarrow> encode_fields schema values 0 data | _ \<Rightarrow> raise EncodingMismatch)"

fun encode_items :: "writer list \<Rightarrow> val list \<Rightarrow> nat \<Rightarrow> bytes \<Rightarrow> written" where
  "encode_items [] values sz data = Inr (sz, data)"
| "encode_items (enc # encs) [] sz data = raise EncodingMismatch"
| "encode_items (enc # encs) (v # values) sz data =
     and_then (enc v data) (\<lambda>(n, data').
     and_then (checked_add sz n) (\<lambda>sz'. encode_items encs values sz' data'))"

definition encode_tuple :: "writer list \<Rightarrow> writer" where
  "encode_tuple encs v data =
     (case v of VTuple values \<Rightarrow> encode_items encs values 0 data | _ \<Rightarrow> raise EncodingMismatch)"

definition encode_tags :: "nat \<Rightarrow> (16 word \<times> string \<times> writer) list \<Rightarrow> (string \<times> 16 word) list \<Rightarrow> writer" where
  "encode_tags tag_sz ids variants v data =
     (case v of
        VTag variant v' \<Rightarrow>
          (case find_by_variant ids variants variant of
             None \<Rightarrow> raise (NoTagFound variant)
           | Some (i, enc) \<Rightarrow>
               and_then (write_tag_id data tag_sz i) (\<lambda>data'.
               and_then (enc v' data') (\<lambda>(_, data''). size_since data data'')))
      | VEnum variant _ \<Rightarrow>
          (case variant of
             None \<Rightarrow> raise NoVariantName
           | Some name \<Rightarrow>
               (case find_by_variant ids variants name of
                  None \<Rightarrow> raise (NoTagFound name)
                | Some (i, _) \<Rightarrow> and_then (write_tag_id data tag_sz i) (size_since data)))
      | _ \<Rightarrow> raise EncodingMismatch)"

definition encode_option :: "byte \<Rightarrow> byte \<Rightarrow> writer \<Rightarrow> writer" where
  "encode_option some none enc v data =
     (case v of
        VOption wrapped \<Rightarrow>
          (case wrapped of
             Some v' \<Rightarrow> and_then (enc v' (data @ [some])) (\<lambda>(sz, data'). and_then (checked_add 1 sz) (\<lambda>n. Inr (n, data')))
           | None \<Rightarrow> Inr (1, data @ [none]))
      | _ \<Rightarrow> raise EncodingMismatch)"

definition encode_list :: "nat option \<Rightarrow> writer \<Rightarrow> writer" where
  "encode_list limit enc v data =
     (case v of
        VList vs \<Rightarrow>
          (case limit of
             Some bound \<Rightarrow> if length vs > bound then raise (MaximumSizeExceeded bound (length vs)) else encode_elements enc vs data
           | None \<Rightarrow> encode_elements enc vs data)
      | _ \<Rightarrow> raise EncodingMismatch)"

definition encode_sized :: "(nat \<Rightarrow> bool) \<Rightarrow> (nat \<Rightarrow> ser_error) \<Rightarrow> writer \<Rightarrow> writer" where
  "encode_sized ok err enc v data =
     and_then (enc v data) (\<lambda>(sz, data'). if ok sz then Inr (sz, data') else raise (err sz))"

text \<open>
  The writer of a schema, by recursion over it. The fields of a record and the items of a tuple are
  written by \<^verbatim>\<open>encode_any\<close>, which is the same function with the records and tuples taken first.
\<close>

primrec encode_value :: "'b bit_vec \<Rightarrow> big_int_lib \<Rightarrow> custom_codec encoding \<Rightarrow> writer" where
  "encode_value bv bi EUnit = encode_leaf bv bi EUnit"
| "encode_value bv bi EInt8 = encode_leaf bv bi EInt8"
| "encode_value bv bi EUint8 = encode_leaf bv bi EUint8"
| "encode_value bv bi EInt16 = encode_leaf bv bi EInt16"
| "encode_value bv bi EUint16 = encode_leaf bv bi EUint16"
| "encode_value bv bi EInt31 = encode_leaf bv bi EInt31"
| "encode_value bv bi EInt32 = encode_leaf bv bi EInt32"
| "encode_value bv bi EUint32 = encode_leaf bv bi EUint32"
| "encode_value bv bi EInt64 = encode_leaf bv bi EInt64"
| "encode_value bv bi ERangedInt = encode_leaf bv bi ERangedInt"
| "encode_value bv bi EZ = encode_leaf bv bi EZ"
| "encode_value bv bi EMutez = encode_leaf bv bi EMutez"
| "encode_value bv bi EFloat = encode_leaf bv bi EFloat"
| "encode_value bv bi ERangedFloat = encode_leaf bv bi ERangedFloat"
| "encode_value bv bi EBool = encode_leaf bv bi EBool"
| "encode_value bv bi EString = encode_leaf bv bi EString"
| "encode_value bv bi (EBoundedString bound) = encode_leaf bv bi (EBoundedString bound)"
| "encode_value bv bi EBytes = encode_leaf bv bi EBytes"
| "encode_value bv bi (ETags tag_sz ids variants) =
     encode_tags tag_sz (map (map_prod (\<lambda>i. i) (map_prod (\<lambda>n. n) (encode_value bv bi))) ids) variants"
| "encode_value bv bi (EList e) = encode_list None (encode_value bv bi e)"
| "encode_value bv bi (EBoundedList bound e) = encode_list (Some bound) (encode_value bv bi e)"
| "encode_value bv bi EEnum = encode_leaf bv bi EEnum"
| "encode_value bv bi (EOption e) = encode_option 1 0 (encode_value bv bi e)"
| "encode_value bv bi (EOptionalField e) = encode_option 0xFF 0 (encode_value bv bi e)"
| "encode_value bv bi (EObj n schema) = encode_record (map (map_prod (\<lambda>n. n) (encode_value bv bi)) schema)"
| "encode_value bv bi (ETup es) = encode_tuple (map (encode_value bv bi) es)"
| "encode_value bv bi (EDynamic e) = encode_dynamic None (encode_value bv bi e)"
| "encode_value bv bi (EBoundedDynamic bound e) = encode_dynamic (Some bound) (encode_value bv bi e)"
| "encode_value bv bi (ESized n e) = encode_sized (\<lambda>sz. sz = n) (\<lambda>sz. UnexpectedSize sz n) (encode_value bv bi e)"
| "encode_value bv bi (EBounded bound e) = encode_sized (\<lambda>sz. sz \<le> bound) (MaximumSizeExceeded bound) (encode_value bv bi e)"
| "encode_value bv bi (EGreedy e) = encode_value bv bi e"
| "encode_value bv bi (EHash h) = encode_leaf bv bi (EHash h)"
| "encode_value bv bi ETimestamp = encode_leaf bv bi ETimestamp"
| "encode_value bv bi (ECustom c) = (\<lambda>v data. map_err (Err \<circ> of_kind) (c v data))"

definition encode_any :: "'b bit_vec \<Rightarrow> big_int_lib \<Rightarrow> custom_codec encoding \<Rightarrow> writer" where
  "encode_any bv bi e v data =
     (case e of
        EObj _ schema \<Rightarrow> encode_record (map (map_prod (\<lambda>n. n) (encode_value bv bi)) schema) v data
      | ETup es \<Rightarrow> encode_tuple (map (encode_value bv bi) es) v data
      | _ \<Rightarrow> encode_value bv bi e v data)"

text \<open>The outcome of the serializer, written from an empty buffer.\<close>

definition binary_write :: "'b bit_vec \<Rightarrow> big_int_lib \<Rightarrow> custom_codec encoding \<Rightarrow> ser_error + val \<Rightarrow> error_info failure + bytes" where
  "binary_write bv bi e serialized =
     and_then (map_err (Err \<circ> of_kind) serialized) (\<lambda>v.
     and_then (encode_any bv bi e v []) (\<lambda>(_, data). Inr data))"

end
