(* ===== verification/WriterSpec.thy ===== *)
theory WriterSpec
  imports BinaryWriter
begin

text \<open>
  What the binary writer produces: the shape a value must have for a schema, the bytes it becomes, and
  that the writer, with its buffer, sizes and patched placeholders, computes just that.
\<close>

section \<open>Typing and layout\<close>

text \<open>
  The layout of a value is written without a buffer: concatenations, and sizes that are lengths. The
  layout of a value of another shape is of no interest.
\<close>

definition byte_values :: "val list \<Rightarrow> bool" where
  "byte_values vs = list_all (\<lambda>v. case v of VUint8 _ \<Rightarrow> True | _ \<Rightarrow> False) vs"

definition values_bytes :: "val list \<Rightarrow> bytes" where
  "values_bytes vs = map (\<lambda>v. case v of VUint8 b \<Rightarrow> b | _ \<Rightarrow> 0) vs"

definition z_layout :: "'b bit_vec \<Rightarrow> big_int_lib \<Rightarrow> string \<Rightarrow> bytes" where
  "z_layout bv bi s = (case encode_z bv bi [] s of Inr (_, bs) \<Rightarrow> bs | Inl _ \<Rightarrow> [])"

text \<open>The length of a string is written in four bytes, modulo 2 to the power of 32 like the cast of the code.\<close>

definition string_layout :: "string \<Rightarrow> bytes" where
  "string_layout s = to_be_bytes 4 (length s) @ string_bytes s"

fun scalar_bytes :: "val \<Rightarrow> bytes" where
  "scalar_bytes (VInt8 w) = [w]"
| "scalar_bytes (VUint8 w) = [w]"
| "scalar_bytes (VInt16 w) = to_be_bytes 2 (unat w)"
| "scalar_bytes (VUint16 w) = to_be_bytes 2 (unat w)"
| "scalar_bytes (VInt32 w) = to_be_bytes 4 (unat w)"
| "scalar_bytes (VInt64 w) = to_be_bytes 8 (unat w)"
| "scalar_bytes (VFloat w) = to_be_bytes 8 (unat w)"
| "scalar_bytes (VBool b) = [if b then 0xFF else 0]"
| "scalar_bytes (VString s) = string_layout s"
| "scalar_bytes (VEnum _ (Some i)) = [ucast i]"
| "scalar_bytes (VList vs) = values_bytes vs"
| "scalar_bytes _ = []"

definition leaf_layout :: "'b bit_vec \<Rightarrow> big_int_lib \<Rightarrow> custom_codec encoding \<Rightarrow> val \<Rightarrow> bytes" where
  "leaf_layout bv bi e v =
     (case e of
        EUnit \<Rightarrow> []
      | EZ \<Rightarrow> (case v of VString s \<Rightarrow> z_layout bv bi s | _ \<Rightarrow> [])
      | EMutez \<Rightarrow> (case v of VString s \<Rightarrow> z_layout bv bi s | _ \<Rightarrow> [])
      | _ \<Rightarrow> scalar_bytes v)"

definition leaf_typed :: "'b bit_vec \<Rightarrow> big_int_lib \<Rightarrow> custom_codec encoding \<Rightarrow> val \<Rightarrow> bool" where
  "leaf_typed bv bi e v =
     (case v of
        VInt8 _ \<Rightarrow> e \<in> {EUnit, EInt8}
      | VUint8 _ \<Rightarrow> e \<in> {EUnit, EUint8}
      | VInt16 _ \<Rightarrow> e \<in> {EUnit, EInt16}
      | VUint16 _ \<Rightarrow> e \<in> {EUnit, EUint16}
      | VInt32 w \<Rightarrow> e \<in> {EUnit, EInt32} \<or> e \<in> {EInt31, EUint32} \<and> 0 \<le> sint w
      | VInt64 _ \<Rightarrow> e \<in> {EUnit, EInt64, ETimestamp}
      | VFloat _ \<Rightarrow> e \<in> {EUnit, EFloat}
      | VBool _ \<Rightarrow> e \<in> {EUnit, EBool}
      | VString s \<Rightarrow> e \<in> {EUnit, EString} \<or> e \<in> {EZ, EMutez} \<and> \<not> isl (encode_z bv bi [] s) \<or>
          (\<exists>bound. e = EBoundedString bound \<and> length s \<le> bound)
      | VEnum _ i \<Rightarrow> e = EUnit \<or> e = EEnum \<and> (\<exists>n. i = Some n \<and> unat n \<le> 255)
      | VList vs \<Rightarrow> e = EUnit \<or> byte_values vs \<and> (e = EBytes \<or> (\<exists>h. e = EHash h \<and> length vs = hash_size h))
      | _ \<Rightarrow> e = EUnit)"

definition tag_bytes :: "nat \<Rightarrow> 16 word \<Rightarrow> bytes" where
  "tag_bytes tag_sz i = (if tag_sz = 1 then [ucast i] else to_be_bytes 2 (unat i))"

fun tags_layout :: "nat \<Rightarrow> (16 word \<times> string \<times> (val \<Rightarrow> bytes)) list \<Rightarrow> (string \<times> 16 word) list \<Rightarrow> val \<Rightarrow> bytes" where
  "tags_layout tag_sz ids variants (VTag variant v) =
     (case find_by_variant ids variants variant of Some (i, lay) \<Rightarrow> tag_bytes tag_sz i @ lay v | None \<Rightarrow> [])"
| "tags_layout tag_sz ids variants (VEnum (Some variant) _) =
     (case find_by_variant ids variants variant of Some (i, _) \<Rightarrow> tag_bytes tag_sz i | None \<Rightarrow> [])"
| "tags_layout tag_sz ids variants _ = []"

fun tags_typed :: "nat \<Rightarrow> (16 word \<times> string \<times> (val \<Rightarrow> bool)) list \<Rightarrow> (string \<times> 16 word) list \<Rightarrow> val \<Rightarrow> bool" where
  "tags_typed tag_sz ids variants (VTag variant v) =
     (tag_sz \<in> {1, 2} \<and> (case find_by_variant ids variants variant of Some (_, ty) \<Rightarrow> ty v | None \<Rightarrow> False))"
| "tags_typed tag_sz ids variants (VEnum (Some variant) _) =
     (tag_sz \<in> {1, 2} \<and> find_by_variant ids variants variant \<noteq> None)"
| "tags_typed tag_sz ids variants _ = False"

definition list_layout :: "(val \<Rightarrow> bytes) \<Rightarrow> val \<Rightarrow> bytes" where
  "list_layout lay v = (case v of VList vs \<Rightarrow> concat (map lay vs) | _ \<Rightarrow> [])"

definition list_typed :: "nat option \<Rightarrow> (val \<Rightarrow> bool) \<Rightarrow> val \<Rightarrow> bool" where
  "list_typed limit ty v =
     (case v of VList vs \<Rightarrow> list_all ty vs \<and> (case limit of Some bound \<Rightarrow> length vs \<le> bound | None \<Rightarrow> True) | _ \<Rightarrow> False)"

definition option_layout :: "byte \<Rightarrow> byte \<Rightarrow> (val \<Rightarrow> bytes) \<Rightarrow> val \<Rightarrow> bytes" where
  "option_layout some none lay v =
     (case v of VOption w \<Rightarrow> (case w of Some x \<Rightarrow> some # lay x | None \<Rightarrow> [none]) | _ \<Rightarrow> [])"

definition option_typed :: "(val \<Rightarrow> bool) \<Rightarrow> val \<Rightarrow> bool" where
  "option_typed ty v = (case v of VOption w \<Rightarrow> pred_option ty w | _ \<Rightarrow> False)"

definition record_layout :: "(string \<times> (val \<Rightarrow> bytes)) list \<Rightarrow> val \<Rightarrow> bytes" where
  "record_layout lays v =
     (case v of
        VRecord values \<Rightarrow>
          concat (map (\<lambda>(n, lay). case find_value_in_record_values n values of Some x \<Rightarrow> lay x | None \<Rightarrow> []) lays)
      | _ \<Rightarrow> [])"

definition record_typed :: "(string \<times> (val \<Rightarrow> bool)) list \<Rightarrow> val \<Rightarrow> bool" where
  "record_typed tys v =
     (case v of
        VRecord values \<Rightarrow>
          list_all (\<lambda>(n, ty). case find_value_in_record_values n values of Some x \<Rightarrow> ty x | None \<Rightarrow> False) tys
      | _ \<Rightarrow> False)"

definition tuple_layout :: "(val \<Rightarrow> bytes) list \<Rightarrow> val \<Rightarrow> bytes" where
  "tuple_layout lays v = (case v of VTuple values \<Rightarrow> concat (map (\<lambda>(lay, x). lay x) (zip lays values)) | _ \<Rightarrow> [])"

definition tuple_typed :: "(val \<Rightarrow> bool) list \<Rightarrow> val \<Rightarrow> bool" where
  "tuple_typed tys v =
     (case v of
        VTuple values \<Rightarrow> length tys \<le> length values \<and> list_all (\<lambda>(ty, x). ty x) (zip tys values)
      | _ \<Rightarrow> False)"

primrec layout :: "'b bit_vec \<Rightarrow> big_int_lib \<Rightarrow> custom_codec encoding \<Rightarrow> val \<Rightarrow> bytes" where
  "layout bv bi EUnit = leaf_layout bv bi EUnit"
| "layout bv bi EInt8 = leaf_layout bv bi EInt8"
| "layout bv bi EUint8 = leaf_layout bv bi EUint8"
| "layout bv bi EInt16 = leaf_layout bv bi EInt16"
| "layout bv bi EUint16 = leaf_layout bv bi EUint16"
| "layout bv bi EInt31 = leaf_layout bv bi EInt31"
| "layout bv bi EInt32 = leaf_layout bv bi EInt32"
| "layout bv bi EUint32 = leaf_layout bv bi EUint32"
| "layout bv bi EInt64 = leaf_layout bv bi EInt64"
| "layout bv bi ERangedInt = leaf_layout bv bi ERangedInt"
| "layout bv bi EZ = leaf_layout bv bi EZ"
| "layout bv bi EMutez = leaf_layout bv bi EMutez"
| "layout bv bi EFloat = leaf_layout bv bi EFloat"
| "layout bv bi ERangedFloat = leaf_layout bv bi ERangedFloat"
| "layout bv bi EBool = leaf_layout bv bi EBool"
| "layout bv bi EString = leaf_layout bv bi EString"
| "layout bv bi EBytes = leaf_layout bv bi EBytes"
| "layout bv bi EEnum = leaf_layout bv bi EEnum"
| "layout bv bi ETimestamp = leaf_layout bv bi ETimestamp"
| "layout bv bi (EBoundedString bound) = leaf_layout bv bi (EBoundedString bound)"
| "layout bv bi (EHash h) = leaf_layout bv bi (EHash h)"
| "layout bv bi (ETags tag_sz ids variants) =
     tags_layout tag_sz (map (map_prod (\<lambda>i. i) (map_prod (\<lambda>n. n) (layout bv bi))) ids) variants"
| "layout bv bi (EList e) = list_layout (layout bv bi e)"
| "layout bv bi (EBoundedList bound e) = list_layout (layout bv bi e)"
| "layout bv bi (EOption e) = option_layout 1 0 (layout bv bi e)"
| "layout bv bi (EOptionalField e) = option_layout 0xFF 0 (layout bv bi e)"
| "layout bv bi (EObj n schema) = record_layout (map (map_prod (\<lambda>n. n) (layout bv bi)) schema)"
| "layout bv bi (ETup es) = tuple_layout (map (layout bv bi) es)"
| "layout bv bi (EDynamic e) = (\<lambda>v. to_be_bytes 4 (length (layout bv bi e v)) @ layout bv bi e v)"
| "layout bv bi (EBoundedDynamic bound e) = (\<lambda>v. to_be_bytes 4 (length (layout bv bi e v)) @ layout bv bi e v)"
| "layout bv bi (ESized n e) = layout bv bi e"
| "layout bv bi (EBounded bound e) = layout bv bi e"
| "layout bv bi (EGreedy e) = layout bv bi e"
| "layout bv bi (ECustom c) = (\<lambda>v. case c v [] of Inr (_, bs) \<Rightarrow> bs | Inl _ \<Rightarrow> [])"

primrec typed :: "'b bit_vec \<Rightarrow> big_int_lib \<Rightarrow> custom_codec encoding \<Rightarrow> val \<Rightarrow> bool" where
  "typed bv bi EUnit = leaf_typed bv bi EUnit"
| "typed bv bi EInt8 = leaf_typed bv bi EInt8"
| "typed bv bi EUint8 = leaf_typed bv bi EUint8"
| "typed bv bi EInt16 = leaf_typed bv bi EInt16"
| "typed bv bi EUint16 = leaf_typed bv bi EUint16"
| "typed bv bi EInt31 = leaf_typed bv bi EInt31"
| "typed bv bi EInt32 = leaf_typed bv bi EInt32"
| "typed bv bi EUint32 = leaf_typed bv bi EUint32"
| "typed bv bi EInt64 = leaf_typed bv bi EInt64"
| "typed bv bi ERangedInt = leaf_typed bv bi ERangedInt"
| "typed bv bi EZ = leaf_typed bv bi EZ"
| "typed bv bi EMutez = leaf_typed bv bi EMutez"
| "typed bv bi EFloat = leaf_typed bv bi EFloat"
| "typed bv bi ERangedFloat = leaf_typed bv bi ERangedFloat"
| "typed bv bi EBool = leaf_typed bv bi EBool"
| "typed bv bi EString = leaf_typed bv bi EString"
| "typed bv bi EBytes = leaf_typed bv bi EBytes"
| "typed bv bi EEnum = leaf_typed bv bi EEnum"
| "typed bv bi ETimestamp = leaf_typed bv bi ETimestamp"
| "typed bv bi (EBoundedString bound) = leaf_typed bv bi (EBoundedString bound)"
| "typed bv bi (EHash h) = leaf_typed bv bi (EHash h)"
| "typed bv bi (ETags tag_sz ids variants) =
     tags_typed tag_sz (map (map_prod (\<lambda>i. i) (map_prod (\<lambda>n. n) (typed bv bi))) ids) variants"
| "typed bv bi (EList e) = list_typed None (typed bv bi e)"
| "typed bv bi (EBoundedList bound e) = list_typed (Some bound) (typed bv bi e)"
| "typed bv bi (EOption e) = option_typed (typed bv bi e)"
| "typed bv bi (EOptionalField e) = option_typed (typed bv bi e)"
| "typed bv bi (EObj n schema) = record_typed (map (map_prod (\<lambda>n. n) (typed bv bi)) schema)"
| "typed bv bi (ETup es) = tuple_typed (map (typed bv bi) es)"
| "typed bv bi (EDynamic e) = (\<lambda>v. typed bv bi e v \<and> length (layout bv bi e v) < 2 ^ 32)"
| "typed bv bi (EBoundedDynamic bound e) =
     (\<lambda>v. typed bv bi e v \<and> length (layout bv bi e v) < 2 ^ 32 \<and> length (layout bv bi e v) \<le> bound)"
| "typed bv bi (ESized n e) = (\<lambda>v. typed bv bi e v \<and> length (layout bv bi e v) = n)"
| "typed bv bi (EBounded bound e) = (\<lambda>v. typed bv bi e v \<and> length (layout bv bi e v) \<le> bound)"
| "typed bv bi (EGreedy e) = typed bv bi e"
| "typed bv bi (ECustom c) = (\<lambda>v. \<not> isl (c v []))"

text \<open>A codec that appends to the buffer and returns the number of bytes it appended.\<close>

definition appending :: "custom_codec \<Rightarrow> bool" where
  "appending c \<longleftrightarrow> (\<forall>v data. c v data = (case c v [] of Inl e \<Rightarrow> Inl e | Inr (_, bs) \<Rightarrow> Inr (length bs, data @ bs)))"

section \<open>The writer computes the layout\<close>

definition agrees :: "writer \<Rightarrow> (val \<Rightarrow> bool) \<Rightarrow> (val \<Rightarrow> bytes) \<Rightarrow> bool" where
  "agrees enc ty lay \<longleftrightarrow> (\<forall>v data.
     (\<forall>n data'. enc v data = Inr (n, data') \<longrightarrow> ty v \<and> n = length (lay v) \<and> data' = data @ lay v) \<and>
     (ty v \<and> length (lay v) \<le> usize_max \<longrightarrow> enc v data = Inr (length (lay v), data @ lay v)))"

lemma agreesI:
  assumes "\<And>v data n data'. enc v data = Inr (n, data') \<Longrightarrow> ty v \<and> n = length (lay v) \<and> data' = data @ lay v"
    and "\<And>v data. ty v \<Longrightarrow> length (lay v) \<le> usize_max \<Longrightarrow> enc v data = Inr (length (lay v), data @ lay v)"
  shows "agrees enc ty lay"
  unfolding agrees_def using assms by blast

lemma agreesD:
  assumes "agrees enc ty lay"
  shows "enc v data = Inr (n, data') \<Longrightarrow> ty v \<and> n = length (lay v) \<and> data' = data @ lay v"
    and "ty v \<Longrightarrow> length (lay v) \<le> usize_max \<Longrightarrow> enc v data = Inr (length (lay v), data @ lay v)"
  using assms unfolding agrees_def by blast+

text \<open>Writing the elements of a list, and a size that is the length appended.\<close>

lemma size_since_append [simp]: "size_since data (data @ bs) = Inr (length bs, data @ bs)"
  by (simp add: size_since_def)

lemma checked_add_Inr_iff: "checked_add a b = Inr n \<longleftrightarrow> n = a + b \<and> a + b \<le> usize_max"
  by (auto simp: checked_add_def)

lemma write_each_agrees:
  assumes "agrees enc ty lay"
  shows "write_each (\<lambda>v d. map_err f (enc v d)) vs data = Inr data' \<Longrightarrow> list_all ty vs \<and> data' = data @ concat (map lay vs)"
    and "list_all ty vs \<Longrightarrow> length (concat (map lay vs)) \<le> usize_max \<Longrightarrow>
      write_each (\<lambda>v d. map_err f (enc v d)) vs data = Inr (data @ concat (map lay vs))"
proof (induction vs arbitrary: data)
  case (Cons v vs)
  { case 1
    then obtain n d where "enc v data = Inr (n, d)" "write_each (\<lambda>v d. map_err f (enc v d)) vs d = Inr data'"
      by (auto simp: and_then_Inr_iff)
    with Cons.IH(1) [of d] agreesD(1) [OF assms] show ?case
      by fastforce }
  { case 2
    then show ?case
      using Cons.IH(2) agreesD(2) [OF assms, of v data] by simp }
qed simp_all

lemma agrees_list:
  assumes "agrees enc ty lay"
  shows "agrees (encode_list limit enc) (list_typed limit ty) (list_layout lay)"
proof (rule agreesI)
  show "list_typed limit ty v \<and> n = length (list_layout lay v) \<and> data' = data @ list_layout lay v"
    if "encode_list limit enc v data = Inr (n, data')" for v data n data'
    using that
    by (auto simp: encode_list_def encode_elements_def list_typed_def list_layout_def and_then_Inr_iff
        split: val.splits option.splits if_splits dest!: write_each_agrees(1) [OF assms])
  show "encode_list limit enc v data = Inr (length (list_layout lay v), data @ list_layout lay v)"
    if "list_typed limit ty v" "length (list_layout lay v) \<le> usize_max" for v data
    using that
    by (auto simp: encode_list_def encode_elements_def list_typed_def list_layout_def write_each_agrees(2) [OF assms]
        split: val.splits option.splits)
qed

lemma agrees_option:
  assumes "agrees enc ty lay"
  shows "agrees (encode_option some none enc) (option_typed ty) (option_layout some none lay)"
proof (rule agreesI)
  show "option_typed ty v \<and> n = length (option_layout some none lay v) \<and> data' = data @ option_layout some none lay v"
    if "encode_option some none enc v data = Inr (n, data')" for v data n data'
    using that by (auto simp: encode_option_def option_typed_def option_layout_def and_then_Inr_iff checked_add_Inr_iff
        split: val.splits option.splits dest: agreesD(1) [OF assms])
  show "encode_option some none enc v data = Inr (length (option_layout some none lay v), data @ option_layout some none lay v)"
    if "option_typed ty v" "length (option_layout some none lay v) \<le> usize_max" for v data
    using that
    by (auto simp: encode_option_def option_typed_def option_layout_def checked_add_def agreesD(2) [OF assms]
        split: val.splits option.splits)
qed

lemma agrees_sized:
  assumes "agrees enc ty lay"
  shows "agrees (encode_sized ok err enc) (\<lambda>v. ty v \<and> ok (length (lay v))) lay"
  by (rule agreesI) (auto simp: encode_sized_def and_then_Inr_iff agreesD(2) [OF assms] split: if_splits
      dest: agreesD(1) [OF assms])

lemma patch_size_append:
  "patch_size (length data) sz (data @ to_be_bytes 4 0 @ bs) =
    (if sz \<ge> 2 ^ 32 then raise SizeOverflow else Inr (data @ to_be_bytes 4 sz @ bs))"
  by (simp add: patch_size_def)

lemma agrees_dynamic:
  assumes "agrees enc ty lay"
  shows "agrees (encode_dynamic limit enc)
    (\<lambda>v. ty v \<and> length (lay v) < 2 ^ 32 \<and> (case limit of Some bound \<Rightarrow> length (lay v) \<le> bound | None \<Rightarrow> True))
    (\<lambda>v. to_be_bytes 4 (length (lay v)) @ lay v)"
proof (rule agreesI)
  fix v data n data'
  assume "encode_dynamic limit enc v data = Inr (n, data')"
  then obtain sz d where enc: "enc v (data @ to_be_bytes 4 0) = Inr (sz, d)"
    and rest: "\<forall>bound. limit = Some bound \<longrightarrow> sz \<le> bound" "and_then (patch_size (length data) sz d) (size_since data) = Inr (n, data')"
    by (auto simp: encode_dynamic_def and_then_Inr_iff split: option.splits if_splits) (meson not_less)+
  from agreesD(1) [OF assms enc] have ty: "ty v" "sz = length (lay v)" "d = data @ to_be_bytes 4 0 @ lay v"
    by simp_all
  with rest show "(ty v \<and> length (lay v) < 2 ^ 32 \<and> (case limit of Some bound \<Rightarrow> length (lay v) \<le> bound | None \<Rightarrow> True)) \<and>
      n = length (to_be_bytes 4 (length (lay v)) @ lay v) \<and> data' = data @ to_be_bytes 4 (length (lay v)) @ lay v"
    by (simp only: patch_size_append) (auto split: if_splits option.splits)
next
  fix v data
  assume "ty v \<and> length (lay v) < 2 ^ 32 \<and> (case limit of Some bound \<Rightarrow> length (lay v) \<le> bound | None \<Rightarrow> True)"
    "length (to_be_bytes 4 (length (lay v)) @ lay v) \<le> usize_max"
  then show "encode_dynamic limit enc v data =
      Inr (length (to_be_bytes 4 (length (lay v)) @ lay v), data @ to_be_bytes 4 (length (lay v)) @ lay v)"
    using agreesD(2) [OF assms, of v "data @ to_be_bytes 4 0"]
    by (auto simp: encode_dynamic_def patch_size_append split: option.splits)
qed

abbreviation with_names :: "('e \<Rightarrow> 'f) \<Rightarrow> (string \<times> 'e) list \<Rightarrow> (string \<times> 'f) list" where
  "with_names f \<equiv> map (map_prod (\<lambda>n. n) f)"

lemma fields_written:
  assumes "encode_fields (with_names E schema) xs sz data = Inr (n, data')"
    and "\<forall>f \<in> set schema. agrees (E (snd f)) (T (snd f)) (L (snd f))"
  shows "record_typed (with_names T schema) (VRecord xs) \<and>
    n = sz + length (record_layout (with_names L schema) (VRecord xs)) \<and> data' = data @ record_layout (with_names L schema) (VRecord xs)"
  using assms
proof (induction schema arbitrary: sz data)
  case (Cons f schema)
  obtain name e where f: "f = (name, e)"
    by (cases f)
  from Cons.prems(1) obtain v m d where v: "find_value_in_record_values name xs = Some v" "E e v data = Inr (m, d)"
    and rest: "encode_fields (with_names E schema) xs (sz + m) d = Inr (n, data')"
    by (auto simp: f and_then_Inr_iff checked_add_Inr_iff split: option.splits)
  have "agrees (E e) (T e) (L e)"
    using Cons.prems(2) by (simp add: f)
  from agreesD(1) [OF this v(2)] Cons.IH [OF rest] Cons.prems(2) v(1) show ?case
    by (simp add: f record_typed_def record_layout_def)
qed (simp add: record_typed_def record_layout_def)

lemma fields_accepted:
  assumes "record_typed (with_names T schema) (VRecord xs)"
    and "sz + length (record_layout (with_names L schema) (VRecord xs)) \<le> usize_max"
    and "\<forall>f \<in> set schema. agrees (E (snd f)) (T (snd f)) (L (snd f))"
  shows "encode_fields (with_names E schema) xs sz data =
    Inr (sz + length (record_layout (with_names L schema) (VRecord xs)), data @ record_layout (with_names L schema) (VRecord xs))"
  using assms
proof (induction schema arbitrary: sz data)
  case (Cons f schema)
  obtain name e where f: "f = (name, e)"
    by (cases f)
  from Cons.prems(1) obtain v where v: "find_value_in_record_values name xs = Some v" "T e v" "record_typed (with_names T schema) (VRecord xs)"
    by (auto simp: f record_typed_def split: option.splits)
  have "agrees (E e) (T e) (L e)"
    using Cons.prems(3) by (simp add: f)
  from agreesD(2) [OF this v(2), of data] Cons.IH [OF v(3), of "sz + length (L e v)" "data @ L e v"] Cons.prems(2,3) v(1) show ?case
    by (simp add: f record_layout_def checked_add_def add.assoc)
qed (simp add: record_layout_def)

lemma agrees_record:
  assumes "\<forall>f \<in> set schema. agrees (E (snd f)) (T (snd f)) (L (snd f))"
  shows "agrees (encode_record (with_names E schema)) (record_typed (with_names T schema)) (record_layout (with_names L schema))"
proof (rule agreesI)
  fix v data n data'
  assume "encode_record (with_names E schema) v data = Inr (n, data')"
  then obtain xs where "v = VRecord xs" "encode_fields (with_names E schema) xs 0 data = Inr (n, data')"
    by (auto simp: encode_record_def split: val.splits)
  with fields_written [OF _ assms] show "record_typed (with_names T schema) v \<and>
      n = length (record_layout (with_names L schema) v) \<and> data' = data @ record_layout (with_names L schema) v"
    by fastforce
next
  fix v data
  assume v: "record_typed (with_names T schema) v" "length (record_layout (with_names L schema) v) \<le> usize_max"
  then obtain xs where "v = VRecord xs"
    by (auto simp: record_typed_def split: val.splits)
  with v fields_accepted [of T schema xs 0 L E data] assms show "encode_record (with_names E schema) v data =
      Inr (length (record_layout (with_names L schema) v), data @ record_layout (with_names L schema) v)"
    by (simp add: encode_record_def)
qed

lemma items_written:
  assumes "encode_items (map E es) xs sz data = Inr (n, data')" "\<forall>e \<in> set es. agrees (E e) (T e) (L e)"
  shows "tuple_typed (map T es) (VTuple xs) \<and>
    n = sz + length (tuple_layout (map L es) (VTuple xs)) \<and> data' = data @ tuple_layout (map L es) (VTuple xs)"
  using assms
proof (induction es arbitrary: xs sz data)
  case (Cons e es)
  from Cons.prems(1) obtain v ys m d where v: "xs = v # ys" "E e v data = Inr (m, d)"
    and rest: "encode_items (map E es) ys (sz + m) d = Inr (n, data')"
    by (cases xs) (auto simp: and_then_Inr_iff checked_add_Inr_iff)
  have "agrees (E e) (T e) (L e)"
    using Cons.prems(2) by simp
  from agreesD(1) [OF this v(2)] Cons.IH [OF rest] Cons.prems(2) v(1) show ?case
    by (simp add: tuple_typed_def tuple_layout_def)
qed (simp add: tuple_typed_def tuple_layout_def)

lemma items_accepted:
  assumes "tuple_typed (map T es) (VTuple xs)" "sz + length (tuple_layout (map L es) (VTuple xs)) \<le> usize_max"
    and "\<forall>e \<in> set es. agrees (E e) (T e) (L e)"
  shows "encode_items (map E es) xs sz data =
    Inr (sz + length (tuple_layout (map L es) (VTuple xs)), data @ tuple_layout (map L es) (VTuple xs))"
  using assms
proof (induction es arbitrary: xs sz data)
  case (Cons e es)
  from Cons.prems(1) obtain v ys where v: "xs = v # ys" "T e v" "tuple_typed (map T es) (VTuple ys)"
    by (cases xs) (auto simp: tuple_typed_def)
  have "agrees (E e) (T e) (L e)"
    using Cons.prems(3) by simp
  from agreesD(2) [OF this v(2), of data] Cons.IH [OF v(3), of "sz + length (L e v)" "data @ L e v"] Cons.prems(2,3) v(1) show ?case
    by (simp add: tuple_layout_def checked_add_def add.assoc)
qed (simp add: tuple_layout_def)

lemma agrees_tuple:
  assumes "\<forall>e \<in> set es. agrees (E e) (T e) (L e)"
  shows "agrees (encode_tuple (map E es)) (tuple_typed (map T es)) (tuple_layout (map L es))"
proof (rule agreesI)
  fix v data n data'
  assume "encode_tuple (map E es) v data = Inr (n, data')"
  then obtain xs where "v = VTuple xs" "encode_items (map E es) xs 0 data = Inr (n, data')"
    by (auto simp: encode_tuple_def split: val.splits)
  with items_written [OF _ assms] show "tuple_typed (map T es) v \<and> n = length (tuple_layout (map L es) v) \<and>
      data' = data @ tuple_layout (map L es) v"
    by fastforce
next
  fix v data
  assume v: "tuple_typed (map T es) v" "length (tuple_layout (map L es) v) \<le> usize_max"
  then obtain xs where "v = VTuple xs"
    by (auto simp: tuple_typed_def split: val.splits)
  with v items_accepted [of T es xs 0 L E data] assms show "encode_tuple (map E es) v data =
      Inr (length (tuple_layout (map L es) v), data @ tuple_layout (map L es) v)"
    by (simp add: encode_tuple_def)
qed

abbreviation with_ids :: "('e \<Rightarrow> 'f) \<Rightarrow> (16 word \<times> string \<times> 'e) list \<Rightarrow> (16 word \<times> string \<times> 'f) list" where
  "with_ids f \<equiv> map (map_prod (\<lambda>i. i) (map_prod (\<lambda>n. n) f))"

lemma find_by_variant_map:
  "find_by_variant (with_ids f ids) variants t = map_option (map_prod (\<lambda>i. i) f) (find_by_variant ids variants t)"
proof -
  have "map_of (with_ids f ids) i = map_option (map_prod (\<lambda>n. n) f) (map_of ids i)" for i
    by (induction ids) auto
  then show ?thesis
    by (auto simp: find_by_variant_def map_option_case split: option.splits prod.splits)
qed

lemma find_by_variant_mem:
  "find_by_variant ids variants t = Some (i, e) \<Longrightarrow> \<exists>n. (i, n, e) \<in> set ids"
  by (auto simp: find_by_variant_def split: option.splits dest: map_of_SomeD)

lemma write_tag_id_eq:
  "write_tag_id data tag_sz i = (if tag_sz \<in> {1, 2} then Inr (data @ tag_bytes tag_sz i) else raise (UnsupportedTagSize tag_sz))"
  by (simp add: write_tag_id_def tag_bytes_def)

lemma agrees_tags:
  assumes "\<forall>t \<in> set ids. agrees (E (snd (snd t))) (T (snd (snd t))) (L (snd (snd t)))"
  shows "agrees (encode_tags tag_sz (with_ids E ids) variants) (tags_typed tag_sz (with_ids T ids) variants)
    (tags_layout tag_sz (with_ids L ids) variants)"
proof -
  have sub: "agrees (E e) (T e) (L e)" if "find_by_variant ids variants t = Some (i, e)" for t i e
    using find_by_variant_mem [OF that] assms by fastforce
  have dir1: "tags_typed tag_sz (with_ids T ids) variants v \<and> n = length (tags_layout tag_sz (with_ids L ids) variants v) \<and>
      data' = data @ tags_layout tag_sz (with_ids L ids) variants v"
    if "encode_tags tag_sz (with_ids E ids) variants v data = Inr (n, data')" for v data n data'
  proof (cases v)
    case (VTag t x)
    with that obtain i e m d where e: "tag_sz \<in> {1, 2}" "find_by_variant ids variants t = Some (i, e)"
      "E e x (data @ tag_bytes tag_sz i) = Inr (m, d)" "size_since data d = Inr (n, data')"
      by (auto simp: encode_tags_def find_by_variant_map write_tag_id_eq and_then_Inr_iff split: option.splits if_splits)
    from agreesD(1) [OF sub [OF e(2)] e(3)] e(1,2,4) VTag show ?thesis
      by (auto simp: find_by_variant_map)
  next
    case (VEnum t x)
    with that show ?thesis
      by (cases t) (auto simp: encode_tags_def find_by_variant_map write_tag_id_eq split: option.splits if_splits)
  qed (use that in \<open>simp_all add: encode_tags_def\<close>)
  have dir2: "encode_tags tag_sz (with_ids E ids) variants v data =
      Inr (length (tags_layout tag_sz (with_ids L ids) variants v), data @ tags_layout tag_sz (with_ids L ids) variants v)"
    if ty: "tags_typed tag_sz (with_ids T ids) variants v" "length (tags_layout tag_sz (with_ids L ids) variants v) \<le> usize_max" for v data
  proof (cases v)
    case (VTag t x)
    with ty obtain i e where "tag_sz \<in> {1, 2}" "find_by_variant ids variants t = Some (i, e)" "T e x"
      by (auto simp: find_by_variant_map split: option.splits)
    with VTag ty(2) agreesD(2) [OF sub, of t i e x "data @ tag_bytes tag_sz i"] show ?thesis
      by (auto simp: encode_tags_def find_by_variant_map write_tag_id_eq)
  next
    case (VEnum t x)
    with ty show ?thesis
      by (cases t) (auto simp: encode_tags_def find_by_variant_map write_tag_id_eq)
  qed (use ty in simp_all)
  from dir1 dir2 show ?thesis
    by (rule agreesI)
qed

lemma put_chunks_append:
  "put_chunks bv k bits (data @ x) = and_then (put_chunks bv k bits x) (\<lambda>bs. Inr (data @ bs))"
  by (induction k arbitrary: bits x) (auto simp: and_then_def split: sum.splits)

lemma encode_z_append:
  "encode_z bv bi data s = and_then (encode_z bv bi [] s) (\<lambda>(_, bs). Inr (length bs, data @ bs))"
proof -
  have "put_chunks bv k bits (data @ [n]) = and_then (put_chunks bv k bits [n]) (\<lambda>bs. Inr (data @ bs))" for k bits n
    by (rule put_chunks_append)
  then show ?thesis
    by (auto simp: encode_z_def and_then_def Let_def split: list.splits sum.splits)
qed

lemma int31_range: "(w :: i32) AND 0x7FFFFFFF = w \<longleftrightarrow> 0 \<le> sint w"
proof -
  have "w AND 0x7FFFFFFF = take_bit 31 w"
    by (simp add: take_bit_eq_mask mask_eq_exp_minus_1)
  moreover have "take_bit 31 w = w \<longleftrightarrow> \<not> bit w 31"
  proof
    assume "\<not> bit w 31"
    then have "i < 31" if "bit w i" for i
      using that bit_imp_le_length [OF that] by (cases "i = 31") auto
    then show "take_bit 31 w = w"
      by (intro bit_eqI) (auto simp: bit_take_bit_iff)
  qed (metis bit_take_bit_iff less_irrefl)
  moreover have "bit w 31 \<longleftrightarrow> sint w < 0"
    using bit_last_iff [of w] by simp
  ultimately show ?thesis
    by (simp add: not_less)
qed

lemma write_bytes:
  "write_each put_u8 vs data = (if byte_values vs then Inr (data @ values_bytes vs) else raise NotBytes)"
proof (induction vs arbitrary: data)
  case (Cons v vs)
  then show ?case
    by (cases v) (auto simp: byte_values_def values_bytes_def)
qed (simp add: byte_values_def values_bytes_def)

lemma string_layout_length [simp]: "length (string_layout s) = 4 + length s"
  by (simp add: string_layout_def string_bytes_def)

lemma to_be_bytes_mod: "to_be_bytes n (x mod 256 ^ n) = to_be_bytes n x"
  using to_from_be_bytes [of "to_be_bytes n x"] by (simp add: from_to_be_bytes)

lemma encode_string_eq:
  "encode_string s data = (if 4 + length s \<le> usize_max then Inr (length (string_layout s), data @ string_layout s) else raise SizeOverflow)"
  by (simp add: encode_string_def checked_add_def Let_def) (use to_be_bytes_mod [of 4 "length s"] in \<open>simp add: string_layout_def unat_of_nat\<close>)

lemmas leaf_eqs = encode_leaf_def leaf_typed_def leaf_layout_def z_layout_def write_bytes encode_string_eq int31_range

lemma agrees_leaf: "agrees (encode_leaf bv bi e) (leaf_typed bv bi e) (leaf_layout bv bi e)"
proof -
  have "(encode_leaf bv bi e v data = Inr (n, data') \<longrightarrow>
      leaf_typed bv bi e v \<and> n = length (leaf_layout bv bi e v) \<and> data' = data @ leaf_layout bv bi e v) \<and>
    (leaf_typed bv bi e v \<and> length (leaf_layout bv bi e v) \<le> usize_max \<longrightarrow>
      encode_leaf bv bi e v data = Inr (length (leaf_layout bv bi e v), data @ leaf_layout bv bi e v))" for v data n data'
  proof (cases v)
    case (VString s)
    then show ?thesis
      by (cases e) (auto simp: leaf_eqs encode_z_append [of bv bi data] and_then_Inr_iff split: sum.splits)
  next
    case (VEnum x i)
    then show ?thesis
      by (cases i; cases e) (auto simp: leaf_eqs)
  next
    case (VList vs)
    then show ?thesis
      by (cases e) (auto simp: leaf_eqs values_bytes_def)
  qed (cases e; auto simp: leaf_eqs)+
  then show ?thesis
    unfolding agrees_def by blast
qed

lemma agrees_custom:
  assumes "appending c"
  shows "agrees (\<lambda>v data. map_err (Err \<circ> of_kind) (c v data)) (\<lambda>v. \<not> isl (c v [])) (\<lambda>v. case c v [] of Inr (_, bs) \<Rightarrow> bs | Inl _ \<Rightarrow> [])"
proof -
  have eq: "c v data = (case c v [] of Inl e \<Rightarrow> Inl e | Inr (_, bs) \<Rightarrow> Inr (length bs, data @ bs))" for v data
    using assms unfolding appending_def by blast
  show ?thesis
  proof (rule agreesI)
    show "\<not> isl (c v []) \<and> n = length (case c v [] of Inr (_, bs) \<Rightarrow> bs | Inl _ \<Rightarrow> []) \<and>
        data' = data @ (case c v [] of Inr (_, bs) \<Rightarrow> bs | Inl _ \<Rightarrow> [])"
      if "map_err (Err \<circ> of_kind) (c v data) = Inr (n, data')" for v data n data'
      using that eq [of v data] by (cases "c v []") (auto split: prod.splits)
    show "map_err (Err \<circ> of_kind) (c v data) = Inr (length (case c v [] of Inr (_, bs) \<Rightarrow> bs | Inl _ \<Rightarrow> []),
        data @ (case c v [] of Inr (_, bs) \<Rightarrow> bs | Inl _ \<Rightarrow> []))"
      if "\<not> isl (c v [])" for v data
      using that eq [of v data] by (cases "c v []") (auto split: prod.splits)
  qed
qed

text \<open>For all schemas, by induction over them.\<close>

lemma encode_value_agrees:
  "\<forall>c \<in> codecs e. appending c \<Longrightarrow> agrees (encode_value bv bi e) (typed bv bi e) (layout bv bi e)"
proof (induction e)
  case (ETags tag_sz ids variants)
  then have "\<forall>t \<in> set ids. agrees (encode_value bv bi (snd (snd t))) (typed bv bi (snd (snd t))) (layout bv bi (snd (snd t)))"
    by fastforce
  then show ?case
    by (simp add: agrees_tags)
next
  case (EObj n schema)
  then have "\<forall>f \<in> set schema. agrees (encode_value bv bi (snd f)) (typed bv bi (snd f)) (layout bv bi (snd f))"
    by fastforce
  then show ?case
    by (simp add: agrees_record)
next
  case (EDynamic e)
  then show ?case
    using agrees_dynamic [of "encode_value bv bi e" "typed bv bi e" "layout bv bi e" None] by simp
next
  case (EBoundedDynamic bound e)
  then show ?case
    using agrees_dynamic [of "encode_value bv bi e" "typed bv bi e" "layout bv bi e" "Some bound"] by simp
next
  case (ESized n e)
  then show ?case
    using agrees_sized [of "encode_value bv bi e" "typed bv bi e" "layout bv bi e" "\<lambda>sz. sz = n"] by simp
next
  case (EBounded bound e)
  then show ?case
    using agrees_sized [of "encode_value bv bi e" "typed bv bi e" "layout bv bi e" "\<lambda>sz. sz \<le> bound"] by simp
qed (simp_all add: agrees_leaf agrees_list agrees_option agrees_tuple agrees_custom)

lemma encode_any_value: "encode_any bv bi e = encode_value bv bi e"
  by (intro ext) (cases e; simp add: encode_any_def)

section \<open>Properties\<close>

text \<open>
  Property C8. The writer succeeds on exactly the values typed by the schema and then gives their layout: every size
  written into the buffer afterwards is the length of the block it precedes. The custom codecs are those
  that append, and the message fits into the address space.
\<close>

theorem binary_write_correct:
  assumes "\<forall>c \<in> codecs e. appending c" "length (layout bv bi e v) \<le> usize_max"
  shows "binary_write bv bi e (Inr v) = Inr bs \<longleftrightarrow> typed bv bi e v \<and> bs = layout bv bi e v"
proof
  assume "binary_write bv bi e (Inr v) = Inr bs"
  then obtain n where "encode_value bv bi e v [] = Inr (n, bs)"
    by (auto simp: binary_write_def encode_any_value and_then_Inr_iff)
  from agreesD(1) [OF encode_value_agrees [OF assms(1)] this] show "typed bv bi e v \<and> bs = layout bv bi e v"
    by simp
next
  assume "typed bv bi e v \<and> bs = layout bv bi e v"
  with agreesD(2) [OF encode_value_agrees [OF assms(1)] _ assms(2), of "[]"] show "binary_write bv bi e (Inr v) = Inr bs"
    by (simp add: binary_write_def encode_any_value)
qed

definition version_schema :: "custom_codec encoding" where
  "version_schema = EObj ''Rec'' [(''name'', EString), (''major'', EUint16), (''minor'', EDynamic (EOption EUint16))]"

definition version_value :: val where
  "version_value = VRecord [(''minor'', VOption (Some (VUint16 2))), (''name'', VString ''v1.0''), (''major'', VUint16 1)]"

lemma to_be_bytes_numeral:
  "to_be_bytes (numeral k) x = to_be_bytes (pred_numeral k) (x div 256) @ [word_of_nat (x mod 256)]"
  by (simp only: numeral_eq_Suc [of k] to_be_bytes.simps)

lemma version_layout:
  "layout bv bi version_schema version_value = [0, 0, 0, 4, 0x76, 0x31, 0x2E, 0x30, 0, 1, 0, 0, 0, 3, 1, 0, 2]"
  by (simp add: version_schema_def version_value_def record_layout_def find_value_in_record_values_def leaf_layout_def
      string_layout_def string_bytes_def option_layout_def to_be_bytes_numeral)

lemma version_typed: "typed bv bi version_schema version_value"
  by (simp add: version_schema_def version_value_def record_typed_def find_value_in_record_values_def leaf_typed_def
      option_typed_def option_layout_def leaf_layout_def)

theorem binary_write_correct_witness:
  "binary_write list_bit_vec simple_big_int version_schema (Inr version_value) =
    Inr [0, 0, 0, 4, 0x76, 0x31, 0x2E, 0x30, 0, 1, 0, 0, 0, 3, 1, 0, 2]"
proof -
  have "codecs version_schema = {}" "length (layout list_bit_vec simple_big_int version_schema version_value) \<le> usize_max"
    by (simp add: version_schema_def) (simp add: version_layout usize_max_def)
  then show ?thesis
    using binary_write_correct [of version_schema list_bit_vec simple_big_int version_value] by (simp add: version_typed version_layout)
qed

end
