(* ===== verification/PathCodec.thy ===== *)
theory PathCodec
  imports WriterSpec Messages
begin

text \<open>
  The custom codec of Merkle paths (\<^verbatim>\<open>tezos/messages/src/p2p/encoding/operations_for_blocks.rs\<close>). The
  hashes of left steps are written after the end marker, in reverse. The parser combinators are parameters
  with their documented behaviour.
\<close>

section \<open>Writing\<close>

definition MAX_PASS_MERKLE_DEPTH :: "nat option" where
  "MAX_PASS_MERKLE_DEPTH = Some 3"

definition hash_val :: "bytes \<Rightarrow> val" where
  "hash_val h = VList (map VUint8 h)"

fun path_item_val :: "path_item \<Rightarrow> val" where
  "path_item_val (PathRight left) = VTag ''Right'' (VRecord [(''left'', hash_val left)])"
| "path_item_val (PathLeft right) = VTag ''Left'' (VRecord [(''right'', hash_val right)])"

definition serialize_path :: "path_item list \<Rightarrow> ser_error + val" where
  "serialize_path p =
     (case MAX_PASS_MERKLE_DEPTH of
        Some bound \<Rightarrow> if length p > bound then Inl (MaximumSizeExceeded bound (length p)) else Inr (VList (map path_item_val p))
      | None \<Rightarrow> Inr (VList (map path_item_val p)))"

fun value_to_u8 :: "val \<Rightarrow> ser_error + byte" where
  "value_to_u8 (VUint8 u) = Inr u"
| "value_to_u8 _ = Inl EncodingMismatch"

fun collect_u8s :: "val list \<Rightarrow> ser_error + bytes" where
  "collect_u8s [] = Inr []"
| "collect_u8s (v # vs) = and_then (value_to_u8 v) (\<lambda>u. and_then (collect_u8s vs) (\<lambda>us. Inr (u # us)))"

fun list_to_u8s :: "val \<Rightarrow> ser_error + bytes" where
  "list_to_u8s (VList vs) = collect_u8s vs"
| "list_to_u8s _ = Inl EncodingMismatch"

definition encode_bytes :: "bytes \<Rightarrow> val \<Rightarrow> ser_error + bytes" where
  "encode_bytes data v = and_then (list_to_u8s v) (\<lambda>bs. Inr (data @ bs))"

definition encode_left :: "bytes \<Rightarrow> val \<Rightarrow> ser_error + bytes option \<times> bytes" where
  "encode_left data v =
     (case v of
        VRecord fs \<Rightarrow>
          if length fs = 1 \<and> fst (fs ! 0) = ''right''
          then and_then (encode_bytes [] (snd (fs ! 0))) (\<lambda>h. Inr (Some h, data @ [0xF0]))
          else Inl EncodingMismatch
      | _ \<Rightarrow> Inl EncodingMismatch)"

definition encode_right :: "bytes \<Rightarrow> val \<Rightarrow> ser_error + bytes option \<times> bytes" where
  "encode_right data v =
     (case v of
        VRecord fs \<Rightarrow>
          if length fs = 1 \<and> fst (fs ! 0) = ''left''
          then and_then (encode_bytes (data @ [0x0F]) (snd (fs ! 0))) (\<lambda>data'. Inr (None, data'))
          else Inl EncodingMismatch
      | _ \<Rightarrow> Inl EncodingMismatch)"

definition encode_path_item :: "bytes \<Rightarrow> val \<Rightarrow> ser_error + bytes option \<times> bytes" where
  "encode_path_item data v =
     (case v of
        VTag name inner \<Rightarrow>
          if name = ''Left'' then encode_left data inner
          else if name = ''Right'' then encode_right data inner
          else Inl EncodingMismatch
      | _ \<Rightarrow> Inl EncodingMismatch)"

text \<open>The loop pushes the tails to the front of a queue.\<close>

fun encode_path_items :: "val list \<Rightarrow> bytes option list \<Rightarrow> bytes \<Rightarrow> ser_error + bytes option list \<times> bytes" where
  "encode_path_items [] tails data = Inr (tails, data)"
| "encode_path_items (v # vs) tails data =
     and_then (encode_path_item data v) (\<lambda>(tail, data'). encode_path_items vs (tail # tails) data')"

definition path_encode :: custom_codec where
  "path_encode v data =
     (case v of
        VList vs \<Rightarrow>
          and_then (encode_path_items vs [] data) (\<lambda>(tails, data').
          let data'' = data' @ [0] @ concat (List.map_filter (\<lambda>t. t) tails)
          in if length data \<le> length data'' then Inr (length data'' - length data, data'') else Inl EncodingMismatch)
      | _ \<Rightarrow> Inl EncodingMismatch)"

section \<open>Reading\<close>

datatype decode_path_node = DLeft | DRight bytes

record 'e path_nom =
  nom_take :: "nat \<Rightarrow> bytes \<Rightarrow> 'e + bytes \<times> bytes"
  nom_tag :: "bytes \<Rightarrow> bytes \<Rightarrow> 'e + bytes \<times> bytes"
  nom_preceded :: "(bytes \<Rightarrow> 'e + bytes \<times> bytes) \<Rightarrow> (bytes \<Rightarrow> 'e + bytes \<times> decode_path_node) \<Rightarrow> bytes \<Rightarrow> 'e + bytes \<times> decode_path_node"
  nom_preceded_unit :: "(bytes \<Rightarrow> 'e + bytes \<times> bytes) \<Rightarrow> (bytes \<Rightarrow> 'e + bytes \<times> unit) \<Rightarrow> bytes \<Rightarrow> 'e + bytes \<times> unit"
  nom_alt :: "(bytes \<Rightarrow> 'e + bytes \<times> decode_path_node) \<Rightarrow> (bytes \<Rightarrow> 'e + bytes \<times> decode_path_node) \<Rightarrow> bytes \<Rightarrow> 'e + bytes \<times> decode_path_node"
  nom_many_till :: "(bytes \<Rightarrow> 'e + bytes \<times> decode_path_node) \<Rightarrow> (bytes \<Rightarrow> 'e + bytes \<times> unit) \<Rightarrow> bytes \<Rightarrow>
    'e + bytes \<times> decode_path_node list \<times> unit"
  nom_verify :: "(bytes \<Rightarrow> 'e + bytes \<times> decode_path_node list) \<Rightarrow> (decode_path_node list \<Rightarrow> bool) \<Rightarrow> bytes \<Rightarrow> 'e + bytes \<times> decode_path_node list"
  nom_flat_map :: "(bytes \<Rightarrow> 'e + bytes \<times> decode_path_node list) \<Rightarrow> (decode_path_node list \<Rightarrow> bytes \<Rightarrow> 'e + bytes \<times> path_item list) \<Rightarrow>
    bytes \<Rightarrow> 'e + bytes \<times> path_item list"

definition read_hash :: "'e path_nom \<Rightarrow> bytes \<Rightarrow> 'e + bytes \<times> bytes" where
  "read_hash N = nom_take N (hash_size OperationListListHash)"

definition path_left :: "'e path_nom \<Rightarrow> bytes \<Rightarrow> 'e + bytes \<times> decode_path_node" where
  "path_left N = nom_preceded N (nom_tag N [0xF0]) (\<lambda>i. Inr (i, DLeft))"

definition path_right :: "'e path_nom \<Rightarrow> bytes \<Rightarrow> 'e + bytes \<times> decode_path_node" where
  "path_right N = nom_preceded N (nom_tag N [0x0F]) (\<lambda>i. and_then (read_hash N i) (\<lambda>(i', h). Inr (i', DRight h)))"

definition path_op :: "'e path_nom \<Rightarrow> bytes \<Rightarrow> 'e + bytes \<times> unit" where
  "path_op N = nom_preceded_unit N (nom_tag N [0]) (\<lambda>i. Inr (i, ()))"

text \<open>The loop goes over the nodes in reverse and reverses its result.\<close>

fun complete_nodes :: "'e path_nom \<Rightarrow> decode_path_node list \<Rightarrow> path_item list \<Rightarrow> bytes \<Rightarrow> 'e + bytes \<times> path_item list" where
  "complete_nodes N [] res i = Inr (i, rev res)"
| "complete_nodes N (DLeft # nodes) res i =
     and_then (read_hash N i) (\<lambda>(i', h). complete_nodes N nodes (res @ [PathLeft h]) i')"
| "complete_nodes N (DRight h # nodes) res i = complete_nodes N nodes (res @ [PathRight h]) i"

definition path_complete :: "'e path_nom \<Rightarrow> decode_path_node list \<Rightarrow> bytes \<Rightarrow> 'e + bytes \<times> path_item list" where
  "path_complete N nodes i = complete_nodes N (rev nodes) [] i"

definition path_nom_read :: "'e path_nom \<Rightarrow> bytes \<Rightarrow> 'e + bytes \<times> path_item list" where
  "path_nom_read N = nom_flat_map N
     (nom_verify N
        (\<lambda>i. and_then (nom_many_till N (nom_alt N (path_left N) (path_right N)) (path_op N) i) (\<lambda>(i', v, _). Inr (i', v)))
        (\<lambda>nodes. case MAX_PASS_MERKLE_DEPTH of Some v \<Rightarrow> v \<ge> length nodes | None \<Rightarrow> True))
     (path_complete N)"

locale path_nom_laws =
  fixes N :: "'e path_nom"
  assumes take_law: "n \<le> length i \<Longrightarrow> nom_take N n i = Inr (drop n i, take n i)"
    and tag_law: "nom_tag N t (t @ i) = Inr (i, t)" "take (length t) i \<noteq> t \<Longrightarrow> isl (nom_tag N t i)"
    and preceded_law: "nom_preceded N first second i = and_then (first i) (\<lambda>(i', _). second i')"
    and preceded_unit_law: "nom_preceded_unit N first final i = and_then (first i) (\<lambda>(i', _). final i')"
    and alt_law: "f i = Inr r \<Longrightarrow> nom_alt N f g i = Inr r" "isl (f i) \<Longrightarrow> g i = Inr r \<Longrightarrow> nom_alt N f g i = Inr r"
    and many_till_law: "till i = Inr (i', u) \<Longrightarrow> nom_many_till N f till i = Inr (i', [], u)"
      "isl (till i) \<Longrightarrow> f i = Inr (i', x) \<Longrightarrow> length i' < length i \<Longrightarrow>
        nom_many_till N f till i = and_then (nom_many_till N f till i') (\<lambda>(j, xs, u). Inr (j, x # xs, u))"
    and verify_law: "p i = Inr (i', ns) \<Longrightarrow> ok ns \<Longrightarrow> nom_verify N p ok i = Inr (i', ns)"
    and flat_map_law: "nom_flat_map N p h i = and_then (p i) (\<lambda>(i', ns). h ns i')"

section \<open>The layout of a path\<close>

text \<open>The marks of the steps, and the hashes of the left steps from the last to the first.\<close>

fun item_mark :: "path_item \<Rightarrow> bytes" where
  "item_mark (PathRight h) = 0x0F # h"
| "item_mark (PathLeft h) = [0xF0]"

fun item_tail :: "path_item \<Rightarrow> bytes" where
  "item_tail (PathRight h) = []"
| "item_tail (PathLeft h) = h"

fun item_node :: "path_item \<Rightarrow> decode_path_node" where
  "item_node (PathRight h) = DRight h"
| "item_node (PathLeft h) = DLeft"

fun item_hash :: "path_item \<Rightarrow> bytes" where
  "item_hash (PathRight h) = h"
| "item_hash (PathLeft h) = h"

definition path_bytes :: "path_item list \<Rightarrow> bytes" where
  "path_bytes p = concat (map item_mark p) @ [0] @ concat (map item_tail (rev p))"

lemma collect_u8s_bytes: "collect_u8s (map VUint8 h) = Inr h"
  by (induction h) simp_all

lemma encode_path_items_run:
  "encode_path_items (map path_item_val p) tails data =
    Inr (rev (map (\<lambda>x. case x of PathRight _ \<Rightarrow> None | PathLeft h \<Rightarrow> Some h) p) @ tails, data @ concat (map item_mark p))"
proof (induction p arbitrary: tails data)
  case (Cons x p)
  then show ?case
    by (cases x) (simp_all add: encode_path_item_def encode_left_def encode_right_def encode_bytes_def hash_val_def collect_u8s_bytes)
qed simp

lemma tails_concat:
  "concat (List.map_filter (\<lambda>t. t) (map (\<lambda>x. case x of PathRight _ \<Rightarrow> None | PathLeft h \<Rightarrow> Some h) p)) = concat (map item_tail p)"
proof (induction p)
  case (Cons x p)
  then show ?case
    by (cases x) (simp_all add: map_filter_simps)
qed (simp add: map_filter_simps)

lemma path_encode_bytes:
  "path_encode (VList (map path_item_val p)) data = Inr (length (path_bytes p), data @ path_bytes p)"
  by (simp add: path_encode_def encode_path_items_run rev_map tails_concat path_bytes_def Let_def)

lemma encode_path_items_append:
  "encode_path_items vs tails data = and_then (encode_path_items vs tails []) (\<lambda>(ts, bs). Inr (ts, data @ bs))"
proof (induction vs arbitrary: tails data)
  case (Cons v vs)
  have "encode_path_item data v = and_then (encode_path_item [] v) (\<lambda>(t, bs). Inr (t, data @ bs))"
    by (auto simp: encode_path_item_def encode_left_def encode_right_def encode_bytes_def and_then_def split: val.splits sum.splits)
  moreover have "encode_path_items vs (t # tails) (data @ bs) =
      and_then (encode_path_items vs (t # tails) bs) (\<lambda>(ts, bs'). Inr (ts, data @ bs'))" for t bs
    by (subst Cons, subst (2) Cons) (auto simp: and_then_def split: sum.splits)
  ultimately show ?case
    by (auto simp: and_then_def split: sum.splits)
qed simp

lemma appending_path_encode: "appending path_encode"
  unfolding appending_def
proof (intro allI)
  fix v data
  show "path_encode v data = (case path_encode v [] of Inl e \<Rightarrow> Inl e | Inr (_, bs) \<Rightarrow> Inr (length bs, data @ bs))"
  proof (cases v)
    case (VList vs)
    then show ?thesis
      using encode_path_items_append [of vs "[]" data] by (auto simp: path_encode_def and_then_def Let_def split: sum.splits)
  qed (simp_all add: path_encode_def)
qed

context path_nom_laws
begin

lemma read_hash_run: "length h = 32 \<Longrightarrow> read_hash N (h @ i) = Inr (i, h)"
  by (simp add: read_hash_def take_law)

lemma path_op_run: "path_op N (0 # i) = Inr (i, ())" "b \<noteq> 0 \<Longrightarrow> isl (path_op N (b # i))"
  using tag_law(1) [of "[0]" i] tag_law(2) [of "[0]" "b # i"]
  by (auto simp: path_op_def preceded_unit_law and_then_def split: sum.splits)

lemma read_item:
  assumes "length (item_hash x) = 32"
  shows "nom_alt N (path_left N) (path_right N) (item_mark x @ i) = Inr (i, item_node x)"
proof (cases x)
  case (PathRight h)
  have "isl (path_left N (0x0F # h @ i))"
    using tag_law(2) [of "[0xF0]" "0x0F # h @ i"] by (auto simp: path_left_def preceded_law and_then_def split: sum.splits)
  moreover have "path_right N (0x0F # h @ i) = Inr (i, DRight h)"
    using tag_law(1) [of "[0x0F]" "h @ i"] read_hash_run [of h i] assms PathRight by (simp add: path_right_def preceded_law)
  ultimately show ?thesis
    using PathRight by (simp add: alt_law(2))
next
  case (PathLeft h)
  then show ?thesis
    using tag_law(1) [of "[0xF0]" i] by (simp add: path_left_def preceded_law alt_law(1))
qed

lemma read_nodes:
  "\<forall>x \<in> set p. length (item_hash x) = 32 \<Longrightarrow>
    nom_many_till N (nom_alt N (path_left N) (path_right N)) (path_op N) (concat (map item_mark p) @ 0 # i) = Inr (i, map item_node p, ())"
proof (induction p)
  case (Cons x p)
  let ?r = "concat (map item_mark p) @ 0 # i"
  have "isl (path_op N (item_mark x @ ?r))" "length ?r < length (item_mark x @ ?r)"
    by (cases x; simp add: path_op_run(2))+
  with many_till_law(2) [of "path_op N" "item_mark x @ ?r" "nom_alt N (path_left N) (path_right N)" ?r "item_node x"]
    read_item [of x ?r] Cons show ?case
    by simp
qed (simp add: many_till_law(1) path_op_run(1))

lemma complete_nodes_run:
  "\<forall>x \<in> set p. length (item_hash x) = 32 \<Longrightarrow>
    complete_nodes N (map item_node p) res (concat (map item_tail p) @ i) = Inr (i, rev (res @ p))"
proof (induction p arbitrary: res)
  case (Cons x p)
  then show ?case
    by (cases x) (simp_all add: read_hash_run)
qed simp

lemma path_read_back:
  assumes "length p \<le> 3" "\<forall>x \<in> set p. length (item_hash x) = 32"
  shows "path_nom_read N (path_bytes p @ i) = Inr (i, p)"
proof -
  have "nom_verify N (\<lambda>i. and_then (nom_many_till N (nom_alt N (path_left N) (path_right N)) (path_op N) i) (\<lambda>(i', v, _). Inr (i', v)))
      (\<lambda>nodes. case MAX_PASS_MERKLE_DEPTH of Some v \<Rightarrow> v \<ge> length nodes | None \<Rightarrow> True) (path_bytes p @ i) =
    Inr (concat (map item_tail (rev p)) @ i, map item_node p)"
    by (rule verify_law) (use assms in \<open>simp_all add: path_bytes_def read_nodes MAX_PASS_MERKLE_DEPTH_def\<close>)
  then show ?thesis
    using complete_nodes_run [of "rev p" "[]" i] assms(2) by (simp add: path_nom_read_def flat_map_law path_complete_def rev_map)
qed

end

section \<open>The combinators over lists\<close>

function simple_many_till :: "(bytes \<Rightarrow> unit + bytes \<times> decode_path_node) \<Rightarrow> (bytes \<Rightarrow> unit + bytes \<times> unit) \<Rightarrow> bytes \<Rightarrow>
    unit + bytes \<times> decode_path_node list \<times> unit" where
  "simple_many_till f till i =
     (case till i of
        Inr (i', u) \<Rightarrow> Inr (i', [], u)
      | Inl _ \<Rightarrow>
          and_then (f i) (\<lambda>(i', x).
          if length i' < length i then and_then (simple_many_till f till i') (\<lambda>(j, xs, u). Inr (j, x # xs, u)) else Inl ()))"
  by pat_completeness auto
termination
  by (relation "measure (\<lambda>(f, till, i). length i)") simp_all

declare simple_many_till.simps [simp del]

definition simple_path_nom :: "unit path_nom" where
  "simple_path_nom = \<lparr>
     nom_take = (\<lambda>n i. if n \<le> length i then Inr (drop n i, take n i) else Inl ()),
     nom_tag = (\<lambda>t i. if take (length t) i = t then Inr (drop (length t) i, t) else Inl ()),
     nom_preceded = (\<lambda>f g i. and_then (f i) (\<lambda>(i', _). g i')),
     nom_preceded_unit = (\<lambda>f g i. and_then (f i) (\<lambda>(i', _). g i')),
     nom_alt = (\<lambda>f g i. case f i of Inr r \<Rightarrow> Inr r | Inl _ \<Rightarrow> g i),
     nom_many_till = simple_many_till,
     nom_verify = (\<lambda>p ok i. and_then (p i) (\<lambda>(i', ns). if ok ns then Inr (i', ns) else Inl ())),
     nom_flat_map = (\<lambda>p h i. and_then (p i) (\<lambda>(i', ns). h ns i'))\<rparr>"

interpretation spn: path_nom_laws simple_path_nom
proof
  show "nom_many_till simple_path_nom f till i = and_then (nom_many_till simple_path_nom f till i') (\<lambda>(j, xs, u). Inr (j, x # xs, u))"
    if "isl (till i)" "f i = Inr (i', x)" "length i' < length i" for f till i i' x
    using that by (subst (1) simple_path_nom_def) (auto simp: simple_many_till.simps [of f till i] simple_path_nom_def isl_def)
qed (auto simp: simple_path_nom_def simple_many_till.simps isl_def split: sum.splits)

section \<open>Properties\<close>

text \<open>
  Property C18. A path of at most three steps over 32 byte hashes is serialized and written, and the reader gives it
  back and leaves what follows.
\<close>

theorem path_roundtrip:
  assumes "path_nom_laws N" "length p \<le> 3" "\<forall>x \<in> set p. length (item_hash x) = 32"
  shows "\<exists>v out. serialize_path p = Inr v \<and> binary_write bv bi (ECustom path_encode) (Inr v) = Inr out \<and>
    (\<forall>rest. path_nom_read N (out @ rest) = Inr (rest, p))"
proof -
  have "serialize_path p = Inr (VList (map path_item_val p))"
    using assms(2) by (simp add: serialize_path_def MAX_PASS_MERKLE_DEPTH_def)
  moreover have "binary_write bv bi (ECustom path_encode) (Inr (VList (map path_item_val p))) = Inr (path_bytes p)"
    by (simp add: binary_write_def encode_any_def path_encode_bytes)
  ultimately show ?thesis
    using path_nom_laws.path_read_back [OF assms] by blast
qed

theorem path_roundtrip_witness:
  "\<exists>v out. serialize_path [PathLeft (replicate 32 1), PathRight (replicate 32 2)] = Inr v \<and>
    binary_write list_bit_vec simple_big_int (ECustom path_encode) (Inr v) = Inr out \<and>
    (\<forall>rest. path_nom_read simple_path_nom (out @ rest) = Inr (rest, [PathLeft (replicate 32 1), PathRight (replicate 32 2)]))"
  by (rule path_roundtrip [OF spn.path_nom_laws_axioms]) simp_all

end
