(* ===== verification/PeerStream.thy ===== *)
theory PeerStream
  imports Messages
begin

text \<open>
  The encrypted stream between two peers: nonces (\<^verbatim>\<open>crypto/src/nonce.rs\<close>), the box
  (\<^verbatim>\<open>crypto/src/crypto_box.rs\<close>), length-prefixed chunks
  (\<^verbatim>\<open>tezos/messages/src/p2p/binary_message.rs\<close>) and the reader and writer of messages
  (\<^verbatim>\<open>networking/src/p2p/stream.rs\<close>). The hash, the box of the sodium library and the bytes of a big
  integer are parameters with their documented behaviour. The socket is the bytes to come, and the bytes sent
  with the room that is left before it breaks.
\<close>

section \<open>Libraries\<close>

datatype blake2b_error = InvalidLength | Other

record 'k crypto_lib =
  blake2b :: "nat \<Rightarrow> bytes \<Rightarrow> blake2b_error + bytes"
  to_bytes_be :: "nat \<Rightarrow> bytes"
  seal_precomputed :: "bytes \<Rightarrow> bytes \<Rightarrow> 'k \<Rightarrow> bytes"
  open_precomputed :: "bytes \<Rightarrow> bytes \<Rightarrow> 'k \<Rightarrow> bytes option"
  box_precompute :: "bytes \<Rightarrow> bytes \<Rightarrow> 'k"

text \<open>Digests of 16 to 64 bytes; minimal bytes of a number; boxes that are 16 bytes longer and open again; keys that agree.\<close>

locale crypto_laws =
  fixes C :: "'k crypto_lib" and keypair :: "bytes \<Rightarrow> bytes \<Rightarrow> bool"
  assumes blake2b_law: "16 \<le> n \<Longrightarrow> n \<le> 64 \<Longrightarrow> \<exists>h. blake2b C n d = Inr h \<and> length h = n"
    and to_bytes_be_law: "from_be_bytes (to_bytes_be C x) = x" "0 < n \<Longrightarrow> x < 256 ^ n \<Longrightarrow> length (to_bytes_be C x) \<le> n"
    and open_law: "open_precomputed C (seal_precomputed C m nonce k) nonce k = Some m"
    and seal_length: "length (seal_precomputed C m nonce k) = length m + 16"
    and precompute_law: "keypair pk sk \<Longrightarrow> keypair pk' sk' \<Longrightarrow> box_precompute C pk' sk = box_precompute C pk sk'"

section \<open>Nonces\<close>

definition NONCE_SIZE :: nat where "NONCE_SIZE = 24"
definition BOX_ZERO_BYTES :: nat where "BOX_ZERO_BYTES = 32"
definition CRYPTO_KEY_SIZE :: nat where "CRYPTO_KEY_SIZE = 32"

datatype crypto_error = InvalidKeySize nat nat | InvalidNonceSize nat nat | FailedToDecrypt

record nonce =
  nonce_value :: nat

definition nonce_new :: "bytes \<Rightarrow> nonce" where
  "nonce_new bs = \<lparr>nonce_value = from_be_bytes bs\<rparr>"

definition nonce_increment :: "nonce \<Rightarrow> nonce" where
  "nonce_increment n = \<lparr>nonce_value = nonce_value n + 1\<rparr>"

definition nonce_get_bytes :: "'k crypto_lib \<Rightarrow> nonce \<Rightarrow> crypto_error + bytes" where
  "nonce_get_bytes C n =
     (let bs = to_bytes_be C (nonce_value n)
      in if length bs = NONCE_SIZE then Inr bs
         else if length bs < NONCE_SIZE then Inr (replicate (NONCE_SIZE - length bs) 0 @ bs)
         else Inl (InvalidNonceSize NONCE_SIZE (length bs)))"

record nonce_pair =
  np_local :: nonce
  np_remote :: nonce

definition INIT_TO_RESP_SEED :: bytes where
  "INIT_TO_RESP_SEED = map of_char ''Init -> Resp''"

definition RESP_TO_INIT_SEED :: bytes where
  "RESP_TO_INIT_SEED = map of_char ''Resp -> Init''"

definition digest_256 :: "'k crypto_lib \<Rightarrow> bytes \<Rightarrow> blake2b_error + bytes" where
  "digest_256 C d = blake2b C 32 d"

definition digest_128 :: "'k crypto_lib \<Rightarrow> bytes \<Rightarrow> blake2b_error + bytes" where
  "digest_128 C d = blake2b C 16 d"

definition generate_nonces :: "'k crypto_lib \<Rightarrow> bytes \<Rightarrow> bytes \<Rightarrow> bool \<Rightarrow> blake2b_error + nonce_pair" where
  "generate_nonces C sent_msg recv_msg incoming =
     (let (init_msg, resp_msg) = (if incoming then (recv_msg, sent_msg) else (sent_msg, recv_msg))
      in and_then (digest_256 C (init_msg @ resp_msg @ INIT_TO_RESP_SEED)) (\<lambda>h1.
         let nonce_init_to_resp = take NONCE_SIZE h1
         in and_then (digest_256 C (init_msg @ resp_msg @ RESP_TO_INIT_SEED)) (\<lambda>h2.
         let nonce_resp_to_init = take NONCE_SIZE h2
         in Inr (if incoming
              then \<lparr>np_local = nonce_new nonce_init_to_resp, np_remote = nonce_new nonce_resp_to_init\<rparr>
              else \<lparr>np_local = nonce_new nonce_resp_to_init, np_remote = nonce_new nonce_init_to_resp\<rparr>))))"

section \<open>Encryption\<close>

record 'k crypto =
  precomputed_key :: 'k
  crypto_nonce :: nonce

definition box_encrypt :: "'k crypto_lib \<Rightarrow> 'k \<Rightarrow> bytes \<Rightarrow> nonce \<Rightarrow> crypto_error + bytes" where
  "box_encrypt C k msg n = and_then (nonce_get_bytes C n) (\<lambda>box_nonce. Inr (seal_precomputed C msg box_nonce k))"

definition box_decrypt :: "'k crypto_lib \<Rightarrow> 'k \<Rightarrow> bytes \<Rightarrow> nonce \<Rightarrow> crypto_error + bytes" where
  "box_decrypt C k enc n =
     and_then (nonce_get_bytes C n) (\<lambda>box_nonce.
     case open_precomputed C enc box_nonce k of Some msg \<Rightarrow> Inr msg | None \<Rightarrow> Inl FailedToDecrypt)"

definition nonce_fetch_increment :: "'k crypto \<Rightarrow> nonce \<times> 'k crypto" where
  "nonce_fetch_increment c = (crypto_nonce c, c\<lparr>crypto_nonce := nonce_increment (crypto_nonce c)\<rparr>)"

definition encrypt :: "'k crypto_lib \<Rightarrow> bytes \<Rightarrow> 'k crypto \<Rightarrow> (crypto_error + bytes) \<times> 'k crypto" where
  "encrypt C data c = (let (n, c') = nonce_fetch_increment c in (box_encrypt C (precomputed_key c') data n, c'))"

definition decrypt :: "'k crypto_lib \<Rightarrow> bytes \<Rightarrow> 'k crypto \<Rightarrow> (crypto_error + bytes) \<times> 'k crypto" where
  "decrypt C data c = (let (n, c') = nonce_fetch_increment c in (box_decrypt C (precomputed_key c') data n, c'))"

section \<open>Chunks\<close>

definition CONTENT_LENGTH_FIELD_BYTES :: nat where "CONTENT_LENGTH_FIELD_BYTES = 2"
definition CHUNK_CONTENT_MAX :: nat where "CHUNK_CONTENT_MAX = 65535"
definition CONTENT_LENGTH_MAX :: nat where "CONTENT_LENGTH_MAX = CHUNK_CONTENT_MAX - BOX_ZERO_BYTES"

datatype chunk_error = OverflowError | MissingSizeInformation | IncorrectSizeInformation nat nat

text \<open>A chunk is its raw bytes, the length field included.\<close>

datatype binary_chunk = BinaryChunk (chunk_raw: bytes)

definition from_content :: "bytes \<Rightarrow> chunk_error + binary_chunk" where
  "from_content content =
     (if length content \<le> CHUNK_CONTENT_MAX
      then Inr (BinaryChunk (to_be_bytes 2 (unat (word_of_nat (length content) :: 16 word)) @ content))
      else Inl OverflowError)"

definition chunk_content :: "binary_chunk \<Rightarrow> bytes" where
  "chunk_content c = drop CONTENT_LENGTH_FIELD_BYTES (chunk_raw c)"

definition chunk_try_from :: "bytes \<Rightarrow> chunk_error + binary_chunk" where
  "chunk_try_from v =
     (if length v < CONTENT_LENGTH_FIELD_BYTES then Inl MissingSizeInformation
      else if length v \<le> CHUNK_CONTENT_MAX + CONTENT_LENGTH_FIELD_BYTES then
        let expected = from_be_bytes (take CONTENT_LENGTH_FIELD_BYTES v)
        in if expected + CONTENT_LENGTH_FIELD_BYTES = length v then Inr (BinaryChunk v)
           else Inl (IncorrectSizeInformation expected (length v))
      else Inl OverflowError)"

section \<open>Messages\<close>

record sink =
  sent :: bytes
  room :: nat

datatype io_error = UnexpectedEof | BrokenPipe

datatype 'e stream_error =
    FailedToEncryptMessage crypto_error
  | FailedToDecryptMessage crypto_error
  | SerializationError 'e
  | DeserializationError 'e
  | IoError io_error
  | ChunkError chunk_error

definition write_all :: "bytes \<Rightarrow> sink \<Rightarrow> (io_error + unit) \<times> sink" where
  "write_all bs s =
     (if length bs \<le> room s then (Inr (), s\<lparr>sent := sent s @ bs, room := room s - length bs\<rparr>)
      else (Inl BrokenPipe, s\<lparr>sent := sent s @ take (room s) bs, room := 0\<rparr>))"

definition read_exact :: "nat \<Rightarrow> bytes \<Rightarrow> io_error + bytes \<times> bytes" where
  "read_exact n inp = (if n \<le> length inp then Inr (take n inp, drop n inp) else Inl UnexpectedEof)"

text \<open>One chunk from the socket.\<close>

definition read_chunk :: "bytes \<Rightarrow> 'e stream_error + binary_chunk \<times> bytes" where
  "read_chunk inp =
     and_then (map_err IoError (read_exact CONTENT_LENGTH_FIELD_BYTES inp)) (\<lambda>(msg_len_bytes, inp').
     let msg_len = from_be_bytes msg_len_bytes
     in and_then (map_err IoError (read_exact msg_len inp')) (\<lambda>(content, inp'').
     and_then (map_err ChunkError (chunk_try_from (msg_len_bytes @ content))) (\<lambda>c. Inr (c, inp''))))"

definition write_chunk :: "binary_chunk \<Rightarrow> sink \<Rightarrow> ('e stream_error + unit) \<times> sink" where
  "write_chunk c s = (case write_all (chunk_raw c) s of (r, s') \<Rightarrow> (map_err IoError r, s'))"

fun write_chunks :: "'k crypto_lib \<Rightarrow> bytes list \<Rightarrow> 'k crypto \<times> sink \<Rightarrow> ('e stream_error + unit) \<times> 'k crypto \<times> sink" where
  "write_chunks C [] (c, s) = (Inr (), c, s)"
| "write_chunks C (b # bs) (c, s) =
     (case encrypt C b c of
        (Inl e, c') \<Rightarrow> (Inl (FailedToEncryptMessage e), c', s)
      | (Inr enc, c') \<Rightarrow>
          (case from_content enc of
             Inl e \<Rightarrow> (Inl (ChunkError e), c', s)
           | Inr chunk \<Rightarrow>
               (case write_chunk chunk s of
                  (Inl e, s') \<Rightarrow> (Inl e, c', s')
                | (Inr _, s') \<Rightarrow> write_chunks C bs (c', s'))))"

text \<open>A kind of message: how it is written and read, and the size its first chunk announces.\<close>

record ('m, 'e) message_kind =
  as_bytes :: "'m \<Rightarrow> 'e + bytes"
  from_bytes :: "bytes \<Rightarrow> 'e + 'm"
  size_from_chunk :: "bytes \<Rightarrow> 'e + nat"

definition write_message :: "'k crypto_lib \<Rightarrow> ('m, 'e) message_kind \<Rightarrow> 'm \<Rightarrow> 'k crypto \<times> sink \<Rightarrow> ('e stream_error + unit) \<times> 'k crypto \<times> sink" where
  "write_message C M m st =
     (case as_bytes M m of
        Inl e \<Rightarrow> (Inl (SerializationError e), st)
      | Inr bs \<Rightarrow> write_chunks C (chunks CONTENT_LENGTH_MAX bs) st)"

lemma read_chunk_shorter: "read_chunk inp = Inr (c, inp') \<Longrightarrow> length inp' < length inp"
  by (auto simp: read_chunk_def read_exact_def and_then_Inr_iff Let_def CONTENT_LENGTH_FIELD_BYTES_def split: if_splits)

text \<open>
  The loop over the chunks of a message. Every round takes bytes from the socket. A chunk that cannot be read means
  that the stream has ended, after all of its bytes were taken.
\<close>

function read_loop :: "'k crypto_lib \<Rightarrow> ('m, 'e) message_kind \<Rightarrow> nat \<Rightarrow> bytes \<Rightarrow> 'k crypto \<Rightarrow> bytes \<Rightarrow>
    ('e stream_error + 'm) \<times> 'k crypto \<times> bytes" where
  "read_loop C M input_size input_data c inp =
     (case read_chunk inp of
        Inl e \<Rightarrow> (Inl e, c, [])
      | Inr (chunk, inp') \<Rightarrow>
          (case decrypt C (chunk_content chunk) c of
             (Inl e, c') \<Rightarrow> (Inl (FailedToDecryptMessage e), c', inp')
           | (Inr msg, c') \<Rightarrow>
               (case (if input_size = 0 then size_from_chunk M msg else Inr input_size) of
                  Inl e \<Rightarrow> (Inl (DeserializationError e), c', inp')
                | Inr sz \<Rightarrow>
                    if sz \<le> length (input_data @ msg)
                    then (map_err DeserializationError (from_bytes M (input_data @ msg)), c', inp')
                    else read_loop C M sz (input_data @ msg) c' inp')))"
  by pat_completeness auto
termination
  by (relation "measure (\<lambda>(C, M, n, d, c, inp). length inp)") (auto dest: read_chunk_shorter)

declare read_loop.simps [simp del]

definition read_message :: "'k crypto_lib \<Rightarrow> ('m, 'e) message_kind \<Rightarrow> 'k crypto \<Rightarrow> bytes \<Rightarrow> ('e stream_error + 'm) \<times> 'k crypto \<times> bytes" where
  "read_message C M c inp = read_loop C M 0 [] c inp"

section \<open>Chunks are frames\<close>

lemma chunks_Nil [simp]: "chunks n [] = []"
  by (simp add: chunks.simps)

lemma chunks_step: "0 < n \<Longrightarrow> xs \<noteq> [] \<Longrightarrow> chunks n xs = take n xs # chunks n (drop n xs)"
  by (simp add: chunks.simps)

lemma chunks_eq_Nil: "0 < n \<Longrightarrow> chunks n xs = [] \<longleftrightarrow> xs = []"
  by (cases "xs = []") (simp_all add: chunks_step)

lemma length_before_last_chunk:
  "0 < n \<Longrightarrow> xs \<noteq> [] \<Longrightarrow> length (concat (butlast (chunks n xs))) = (length xs - 1) div n * n"
proof (induction n xs rule: chunks.induct)
  case (1 n xs)
  show ?case
  proof (cases "length xs \<le> n")
    case True
    moreover from this 1 have "(length xs - 1) div n = 0"
      by (cases xs) auto
    ultimately show ?thesis
      using 1 by (simp add: chunks_step)
  next
    case False
    then have "(length xs - 1) div n = Suc ((length xs - 1 - n) div n)"
      using 1 by (intro le_div_geq) auto
    with False 1 show ?thesis
      by (simp add: chunks_step chunks_eq_Nil algebra_simps)
  qed
qed

text \<open>The bytes of a frame, and of consecutive frames.\<close>

definition nonce_bytes :: "'k crypto_lib \<Rightarrow> nonce \<Rightarrow> bytes" where
  "nonce_bytes C n = (case nonce_get_bytes C n of Inr bs \<Rightarrow> bs | Inl _ \<Rightarrow> [])"

definition frame :: "'k crypto_lib \<Rightarrow> 'k crypto \<Rightarrow> bytes \<Rightarrow> bytes" where
  "frame C c b = to_be_bytes 2 (length b + 16) @ seal_precomputed C b (nonce_bytes C (crypto_nonce c)) (precomputed_key c)"

definition advance :: "nat \<Rightarrow> 'k crypto \<Rightarrow> 'k crypto" where
  "advance k c = c\<lparr>crypto_nonce := \<lparr>nonce_value = nonce_value (crypto_nonce c) + k\<rparr>\<rparr>"

fun frames :: "'k crypto_lib \<Rightarrow> 'k crypto \<Rightarrow> bytes list \<Rightarrow> bytes" where
  "frames C c [] = []"
| "frames C c (b # bs) = frame C c b @ frames C (advance 1 c) bs"

lemma advance_simps [simp]:
  "advance 0 c = c" "advance j (advance k c) = advance (k + j) c"
  "precomputed_key (advance k c) = precomputed_key c" "nonce_value (crypto_nonce (advance k c)) = nonce_value (crypto_nonce c) + k"
  by (simp_all add: advance_def)

lemma fetch_advance: "nonce_fetch_increment c = (crypto_nonce c, advance 1 c)"
  by (simp add: nonce_fetch_increment_def advance_def nonce_increment_def)

text \<open>What a message needs to pass through the stream.\<close>

definition transferable :: "('m, 'e) message_kind \<Rightarrow> 'm \<Rightarrow> bool" where
  "transferable M m \<longleftrightarrow> (\<exists>bs n. as_bytes M m = Inr bs \<and> bs \<noteq> [] \<and> from_bytes M bs = Inr m \<and>
     size_from_chunk M (take CONTENT_LENGTH_MAX bs) = Inr n \<and> (length bs - 1) div CONTENT_LENGTH_MAX * CONTENT_LENGTH_MAX < n \<and> n \<le> length bs)"

definition message_frames :: "('m, 'e) message_kind \<Rightarrow> 'm \<Rightarrow> bytes list" where
  "message_frames M m = (case as_bytes M m of Inr bs \<Rightarrow> chunks CONTENT_LENGTH_MAX bs | Inl _ \<Rightarrow> [])"

context crypto_laws
begin

lemma nonce_get_bytes_ok:
  assumes "nonce_value n < 256 ^ NONCE_SIZE"
  shows "\<exists>bs. nonce_get_bytes C n = Inr bs \<and> length bs = NONCE_SIZE \<and> from_be_bytes bs = nonce_value n"
proof -
  let ?bs = "to_bytes_be C (nonce_value n)"
  have "length ?bs \<le> NONCE_SIZE"
    using to_bytes_be_law(2) [OF _ assms] by (simp add: NONCE_SIZE_def)
  moreover have "from_be_bytes (replicate k 0 @ bs) = from_be_bytes bs" for k bs
    by (induction bs rule: rev_induct) (simp_all add: from_be_bytes_def append_assoc [symmetric] del: append_assoc,
        induction k, simp_all add: from_be_bytes_def)
  ultimately show ?thesis
    using to_bytes_be_law(1) [of "nonce_value n"] by (auto simp: nonce_get_bytes_def Let_def)
qed

lemma encrypt_ok:
  assumes "nonce_value (crypto_nonce c) < 256 ^ NONCE_SIZE"
  shows "encrypt C b c = (Inr (seal_precomputed C b (nonce_bytes C (crypto_nonce c)) (precomputed_key c)), advance 1 c)"
  using nonce_get_bytes_ok [OF assms] by (auto simp: encrypt_def fetch_advance box_encrypt_def nonce_bytes_def)

lemma decrypt_ok:
  assumes "nonce_value (crypto_nonce c) < 256 ^ NONCE_SIZE"
  shows "decrypt C (seal_precomputed C b (nonce_bytes C (crypto_nonce c)) (precomputed_key c)) c = (Inr b, advance 1 c)"
  using nonce_get_bytes_ok [OF assms] by (auto simp: decrypt_def fetch_advance box_decrypt_def nonce_bytes_def open_law)

lemma from_content_frame:
  assumes "length b \<le> CONTENT_LENGTH_MAX"
  shows "from_content (seal_precomputed C b (nonce_bytes C (crypto_nonce c)) (precomputed_key c)) = Inr (BinaryChunk (frame C c b))"
proof -
  have "length b + 16 < 2 ^ 16"
    using assms by (simp add: CONTENT_LENGTH_MAX_def CHUNK_CONTENT_MAX_def BOX_ZERO_BYTES_def)
  then show ?thesis
    by (simp add: from_content_def seal_length CHUNK_CONTENT_MAX_def frame_def unat_of_nat del: of_nat_add)
qed

lemma length_frame: "length (frame C c b) = length b + 18"
  by (simp add: frame_def seal_length)

lemma read_frame:
  assumes "length b \<le> CONTENT_LENGTH_MAX"
  shows "read_chunk (frame C c b @ rest) = Inr (BinaryChunk (frame C c b), rest)"
proof -
  let ?s = "seal_precomputed C b (nonce_bytes C (crypto_nonce c)) (precomputed_key c)"
  have len: "length b + 16 < 256 ^ 2"
    using assms by (simp add: CONTENT_LENGTH_MAX_def CHUNK_CONTENT_MAX_def BOX_ZERO_BYTES_def)
  then have num: "from_be_bytes (to_be_bytes 2 (length b + 16)) = length b + 16"
    by (simp add: from_to_be_bytes)
  have "chunk_try_from (frame C c b) = Inr (BinaryChunk (frame C c b))"
    using len num by (simp add: chunk_try_from_def length_frame frame_def CONTENT_LENGTH_FIELD_BYTES_def CHUNK_CONTENT_MAX_def seal_length)
  then show ?thesis
    using num by (simp add: read_chunk_def read_exact_def frame_def CONTENT_LENGTH_FIELD_BYTES_def seal_length Let_def)
qed

lemma frame_content: "chunk_content (BinaryChunk (frame C c b)) = seal_precomputed C b (nonce_bytes C (crypto_nonce c)) (precomputed_key c)"
  by (simp add: chunk_content_def frame_def CONTENT_LENGTH_FIELD_BYTES_def)

lemma write_chunks_frames:
  assumes "nonce_value (crypto_nonce c) + length bs \<le> 256 ^ NONCE_SIZE" "\<forall>b \<in> set bs. length b \<le> CONTENT_LENGTH_MAX"
    and "length (frames C c bs) \<le> room s"
  shows "write_chunks C bs (c, s) =
    (Inr (), advance (length bs) c, s\<lparr>sent := sent s @ frames C c bs, room := room s - length (frames C c bs)\<rparr>)"
  using assms
proof (induction bs arbitrary: c s)
  case (Cons b bs)
  then show ?case
    by (simp add: encrypt_ok from_content_frame write_chunk_def write_all_def)
qed simp

text \<open>The reader goes on until the announced size is reached, which is within the last frame.\<close>

lemma read_frames:
  fixes M :: "('m, 'e) message_kind"
  assumes "nonce_value (crypto_nonce c) + length bs \<le> 256 ^ NONCE_SIZE" "\<forall>b \<in> set bs. length b \<le> CONTENT_LENGTH_MAX" "bs \<noteq> []"
    and "(if sz = 0 then size_from_chunk M (hd bs) else Inr sz) = Inr n"
    and "length (data @ concat (butlast bs)) < n" "n \<le> length (data @ concat bs)"
  shows "read_loop C M sz data c (frames C c bs @ rest) =
    (map_err DeserializationError (from_bytes M (data @ concat bs)), advance (length bs) c, rest)"
  using assms
proof (induction bs arbitrary: c sz data)
  case (Cons b bs)
  have step: "read_chunk (frames C c (b # bs) @ rest) = (Inr (BinaryChunk (frame C c b), frames C (advance 1 c) bs @ rest) :: 'e stream_error + _)"
    using read_frame [of b c "frames C (advance 1 c) bs @ rest"] Cons.prems(2) by simp
  have dec: "decrypt C (chunk_content (BinaryChunk (frame C c b))) c = (Inr b, advance 1 c)"
    unfolding frame_content using Cons.prems(1) by (intro decrypt_ok) simp
  show ?case
  proof (cases "bs = []")
    case True
    then show ?thesis
      using step dec Cons.prems(4-6) by (subst read_loop.simps) (auto split: if_splits)
  next
    case False
    then have "\<not> n \<le> length (data @ b)" "n \<noteq> 0"
      using Cons.prems(5) by auto
    then have "read_loop C M sz data c (frames C c (b # bs) @ rest) = read_loop C M n (data @ b) (advance 1 c) (frames C (advance 1 c) bs @ rest)"
      using step dec Cons.prems(4) by (subst read_loop.simps) (auto split: if_splits)
    also have "\<dots> = (map_err DeserializationError (from_bytes M ((data @ b) @ concat bs)), advance (length bs) (advance 1 c), rest)"
      by (rule Cons.IH) (use Cons.prems False \<open>n \<noteq> 0\<close> in auto)
    finally show ?thesis
      by simp
  qed
qed simp

lemma content_length_max_pos: "0 < CONTENT_LENGTH_MAX"
  by (simp add: CONTENT_LENGTH_MAX_def CHUNK_CONTENT_MAX_def BOX_ZERO_BYTES_def)

lemma message_frames_bound: "b \<in> set (message_frames M m) \<Longrightarrow> length b \<le> CONTENT_LENGTH_MAX"
  by (auto simp: message_frames_def split: sum.splits dest: chunks_size)

lemma write_message_frames:
  assumes "transferable M m" "nonce_value (crypto_nonce c) + length (message_frames M m) \<le> 256 ^ NONCE_SIZE"
    and "length (frames C c (message_frames M m)) \<le> room s"
  shows "write_message C M m (c, s) = (Inr (), advance (length (message_frames M m)) c,
    s\<lparr>sent := sent s @ frames C c (message_frames M m), room := room s - length (frames C c (message_frames M m))\<rparr>)"
proof -
  obtain bs where "as_bytes M m = Inr bs"
    using assms(1) by (auto simp: transferable_def)
  moreover have "\<forall>b \<in> set (message_frames M m). length b \<le> CONTENT_LENGTH_MAX"
    by (simp add: message_frames_bound)
  ultimately show ?thesis
    using write_chunks_frames [OF assms(2) _ assms(3)] by (simp add: write_message_def message_frames_def)
qed

lemma read_message_frames:
  assumes "transferable M m" "nonce_value (crypto_nonce c) + length (message_frames M m) \<le> 256 ^ NONCE_SIZE"
  shows "read_message C M c (frames C c (message_frames M m) @ rest) = (Inr m, advance (length (message_frames M m)) c, rest)"
proof -
  obtain bs n where m: "as_bytes M m = Inr bs" "bs \<noteq> []" "from_bytes M bs = Inr m" "size_from_chunk M (take CONTENT_LENGTH_MAX bs) = Inr n"
    "(length bs - 1) div CONTENT_LENGTH_MAX * CONTENT_LENGTH_MAX < n" "n \<le> length bs"
    using assms(1) by (auto simp: transferable_def)
  have fr: "message_frames M m = chunks CONTENT_LENGTH_MAX bs"
    by (simp add: message_frames_def m(1))
  have "hd (chunks CONTENT_LENGTH_MAX bs) = take CONTENT_LENGTH_MAX bs"
    using m(2) by (simp add: chunks_step content_length_max_pos)
  with read_frames [OF assms(2), of 0 M n "[]" rest] m show ?thesis
    by (simp add: fr read_message_def chunks_eq_Nil content_length_max_pos concat_chunks length_before_last_chunk chunks_size)
qed

text \<open>A sequence of messages, one after the other.\<close>

end

fun write_messages :: "'k crypto_lib \<Rightarrow> ('m, 'e) message_kind \<Rightarrow> 'm list \<Rightarrow> 'k crypto \<times> sink \<Rightarrow> ('e stream_error + unit) \<times> 'k crypto \<times> sink" where
  "write_messages C M [] st = (Inr (), st)"
| "write_messages C M (m # ms) st =
     (case write_message C M m st of
        (Inl e, st') \<Rightarrow> (Inl e, st')
      | (Inr _, st') \<Rightarrow> write_messages C M ms st')"

fun read_messages :: "'k crypto_lib \<Rightarrow> ('m, 'e) message_kind \<Rightarrow> nat \<Rightarrow> 'k crypto \<Rightarrow> bytes \<Rightarrow> ('e stream_error + 'm list) \<times> 'k crypto \<times> bytes" where
  "read_messages C M 0 c inp = (Inr [], c, inp)"
| "read_messages C M (Suc k) c inp =
     (case read_message C M c inp of
        (Inl e, c', inp') \<Rightarrow> (Inl e, c', inp')
      | (Inr m, c', inp') \<Rightarrow>
          (case read_messages C M k c' inp' of (r, c'', inp'') \<Rightarrow> (and_then r (\<lambda>ms. Inr (m # ms)), c'', inp'')))"

definition frame_count :: "('m, 'e) message_kind \<Rightarrow> 'm list \<Rightarrow> nat" where
  "frame_count M ms = sum_list (map (\<lambda>m. length (message_frames M m)) ms)"

definition wire_length :: "('m, 'e) message_kind \<Rightarrow> 'm list \<Rightarrow> nat" where
  "wire_length M ms = sum_list (map (\<lambda>m. sum_list (map (\<lambda>b. length b + 18) (message_frames M m))) ms)"

context crypto_laws
begin

lemma length_frames: "length (frames C c bs) = sum_list (map (\<lambda>b. length b + 18) bs)"
  by (induction bs arbitrary: c) (simp_all add: length_frame)

lemma messages_through:
  assumes "\<forall>m \<in> set ms. transferable M m" "nonce_value (crypto_nonce c) + frame_count M ms \<le> 256 ^ NONCE_SIZE"
    and "wire_length M ms \<le> room s"
  shows "\<exists>out. write_messages C M ms (c, s) = (Inr (), advance (frame_count M ms) c, s\<lparr>sent := sent s @ out, room := room s - wire_length M ms\<rparr>) \<and>
    length out = wire_length M ms \<and>
    (\<forall>rest. read_messages C M (length ms) c (out @ rest) = (Inr ms, advance (frame_count M ms) c, rest))"
  using assms
proof (induction ms arbitrary: c s)
  case (Cons m ms)
  define k out1 where "k = length (message_frames M m)" and "out1 = frames C c (message_frames M m)"
  have len: "length out1 + wire_length M ms = wire_length M (m # ms)"
    by (simp add: out1_def length_frames wire_length_def)
  have w: "write_message C M m (c, s) = (Inr (), advance k c, s\<lparr>sent := sent s @ out1, room := room s - length out1\<rparr>)"
    unfolding k_def out1_def using Cons.prems len by (intro write_message_frames) (simp_all add: frame_count_def out1_def)
  have r: "read_message C M c (out1 @ rest) = (Inr m, advance k c, rest)" for rest
    unfolding k_def out1_def using Cons.prems by (intro read_message_frames) (simp_all add: frame_count_def)
  have "\<exists>out. write_messages C M ms (advance k c, s\<lparr>sent := sent s @ out1, room := room s - length out1\<rparr>) =
      (Inr (), advance (frame_count M ms) (advance k c), s\<lparr>sent := sent s @ out1, room := room s - length out1\<rparr>
        \<lparr>sent := sent (s\<lparr>sent := sent s @ out1, room := room s - length out1\<rparr>) @ out,
         room := room (s\<lparr>sent := sent s @ out1, room := room s - length out1\<rparr>) - wire_length M ms\<rparr>) \<and>
    length out = wire_length M ms \<and>
    (\<forall>rest. read_messages C M (length ms) (advance k c) (out @ rest) = (Inr ms, advance (frame_count M ms) (advance k c), rest))"
    using Cons.prems len by (intro Cons.IH) (auto simp: frame_count_def k_def)
  then obtain out where out: "write_messages C M ms (advance k c, s\<lparr>sent := sent s @ out1, room := room s - length out1\<rparr>) =
      (Inr (), advance (frame_count M (m # ms)) c, s\<lparr>sent := sent s @ out1 @ out, room := room s - wire_length M (m # ms)\<rparr>)"
    "length out = wire_length M ms"
    "\<And>rest. read_messages C M (length ms) (advance k c) (out @ rest) = (Inr ms, advance (frame_count M (m # ms)) c, rest)"
    by (auto simp: k_def frame_count_def len [symmetric])
  show ?case
    by (intro exI [of _ "out1 @ out"]) (simp add: w r out len)
qed (auto simp: frame_count_def wire_length_def intro: exI [of _ "[]"])

lemma nonces_agree:
  "\<exists>p q. generate_nonces C a b True = Inr p \<and> generate_nonces C b a False = Inr q \<and>
    np_local p = np_remote q \<and> np_remote p = np_local q \<and>
    nonce_value (np_local p) < 256 ^ NONCE_SIZE \<and> nonce_value (np_remote p) < 256 ^ NONCE_SIZE"
proof -
  have "\<exists>h. digest_256 C d = Inr h \<and> length h = 32" for d
    using blake2b_law [of 32 d] by (simp add: digest_256_def)
  then obtain h1 h2 where "digest_256 C (b @ a @ INIT_TO_RESP_SEED) = Inr h1" "length h1 = 32"
    "digest_256 C (b @ a @ RESP_TO_INIT_SEED) = Inr h2" "length h2 = 32"
    by metis
  moreover have "from_be_bytes (take NONCE_SIZE h) < 256 ^ NONCE_SIZE" if "length h = 32" for h :: bytes
    using from_be_bytes_bound [of "take NONCE_SIZE h"] that by (simp add: NONCE_SIZE_def)
  ultimately show ?thesis
    by (simp add: generate_nonces_def nonce_new_def)
qed

end

section \<open>Peer messages\<close>

text \<open>
  The envelope of peer messages: a dynamic block of bounded size around the message, whose encoder and
  decoder are parameters. The announced size is read from the first four bytes of the first chunk.
\<close>

definition BLOCK_HEADER_MAX_SIZE :: nat where "BLOCK_HEADER_MAX_SIZE = 8 * 1024 * 1024"
definition MEMPOOL_MAX_SIZE :: nat where "MEMPOOL_MAX_SIZE = 8 + MEMPOOL_MAX_OPERATIONS * 32"
definition MESSAGE_MAX_SIZE :: nat where "MESSAGE_MAX_SIZE = 4 + 2 + (4 + 4 + BLOCK_HEADER_MAX_SIZE + MEMPOOL_MAX_SIZE)"

lemmas message_max_defs = MESSAGE_MAX_SIZE_def BLOCK_HEADER_MAX_SIZE_def MEMPOOL_MAX_SIZE_def MEMPOOL_MAX_OPERATIONS_def

definition peer_message_size :: "'e \<Rightarrow> bytes \<Rightarrow> 'e + nat" where
  "peer_message_size err bs = (if length bs < 4 then Inl err else Inr (from_be_bytes (take 4 bs)))"

definition peer_message_kind :: "'e \<Rightarrow> ('m \<Rightarrow> 'e + bytes) \<Rightarrow> (bytes \<Rightarrow> 'e + 'm) \<Rightarrow> ('m, 'e) message_kind" where
  "peer_message_kind err enc dec = \<lparr>
     as_bytes = (\<lambda>m. and_then (enc m) (\<lambda>bs. if length bs > MESSAGE_MAX_SIZE then Inl err else Inr (to_be_bytes 4 (length bs) @ bs))),
     from_bytes = (\<lambda>bs. and_then (peer_message_size err bs) (\<lambda>n.
        if n > MESSAGE_MAX_SIZE \<or> length bs \<noteq> n + 4 then Inl err else dec (drop 4 bs))),
     size_from_chunk = (\<lambda>bs. and_then (peer_message_size err bs) (\<lambda>n. Inr (n + 4)))\<rparr>"

lemma peer_message_transferable:
  assumes "enc m = Inr bs" "dec bs = Inr m" "length bs \<le> MESSAGE_MAX_SIZE"
  shows "transferable (peer_message_kind err enc dec) m"
proof -
  let ?all = "to_be_bytes 4 (length bs) @ bs"
  have size: "from_be_bytes (to_be_bytes 4 (length bs)) = length bs"
    using assms(3) by (simp add: from_to_be_bytes message_max_defs)
  have ne: "to_be_bytes 4 (length bs) \<noteq> []"
    by (simp flip: length_0_conv)
  have "(length ?all - 1) div CONTENT_LENGTH_MAX * CONTENT_LENGTH_MAX < length ?all"
    by (metis div_times_less_eq_dividend le_imp_less_Suc Suc_diff_1 length_greater_0_conv append_is_Nil_conv length_to_be_bytes zero_neq_numeral list.size(3))
  moreover have "take 4 (take CONTENT_LENGTH_MAX ?all) = to_be_bytes 4 (length bs)" "4 \<le> length (take CONTENT_LENGTH_MAX ?all)"
    by (simp_all add: CONTENT_LENGTH_MAX_def CHUNK_CONTENT_MAX_def BOX_ZERO_BYTES_def)
  ultimately show ?thesis
    unfolding transferable_def using assms size ne
    by (intro exI [of _ ?all] exI [of _ "length ?all"]) (auto simp: peer_message_kind_def peer_message_size_def)
qed

section \<open>The libraries over numbers and lists\<close>

fun be_digits :: "nat \<Rightarrow> bytes" where
  "be_digits x = (if x < 256 then [word_of_nat x] else be_digits (x div 256) @ [word_of_nat (x mod 256)])"

declare be_digits.simps [simp del]

definition plain_crypto :: "unit crypto_lib" where
  "plain_crypto = \<lparr>
     blake2b = (\<lambda>n d. if 16 \<le> n \<and> n \<le> 64 then Inr (take n (d @ replicate n 0)) else Inl InvalidLength),
     to_bytes_be = be_digits,
     seal_precomputed = (\<lambda>m _ _. m @ replicate 16 0),
     open_precomputed = (\<lambda>e _ _. if length e < 16 then None else Some (take (length e - 16) e)),
     box_precompute = (\<lambda>_ _. ())\<rparr>"

lemma from_be_digits: "from_be_bytes (be_digits x) = x"
proof (induction x rule: be_digits.induct)
  case (1 x)
  then show ?case
    by (subst be_digits.simps) (simp add: from_be_bytes_def unat_of_nat)
qed

lemma length_be_digits: "0 < n \<Longrightarrow> x < 256 ^ n \<Longrightarrow> length (be_digits x) \<le> n"
proof (induction n arbitrary: x)
  case (Suc n)
  show ?case
  proof (cases "x < 256")
    case False
    then have "n \<noteq> 0" "x div 256 < 256 ^ n"
      using Suc.prems(2) by (auto simp: less_mult_imp_div_less mult.commute intro!: Nat.gr0I)
    with Suc.IH [of "x div 256"] False show ?thesis
      by (subst be_digits.simps) simp
  qed (subst be_digits.simps, simp)
qed simp

interpretation pcl: crypto_laws plain_crypto "\<lambda>_ _. True"
  by unfold_locales (auto simp: plain_crypto_def from_be_digits length_be_digits)

section \<open>Properties\<close>

text \<open>
  Property C40. Both ends of a connection derive the same two nonces from the connection messages, each with the roles
  swapped, and the nonces have the size the box expects.
\<close>

theorem generate_nonces_agree:
  assumes "crypto_laws C keypair"
  shows "\<exists>p q. generate_nonces C a b True = Inr p \<and> generate_nonces C b a False = Inr q \<and>
    np_local p = np_remote q \<and> np_remote p = np_local q \<and>
    (\<exists>bs. nonce_get_bytes C (np_local p) = Inr bs \<and> length bs = NONCE_SIZE) \<and>
    (\<exists>bs. nonce_get_bytes C (np_remote p) = Inr bs \<and> length bs = NONCE_SIZE)"
  using crypto_laws.nonces_agree [OF assms, of a b] crypto_laws.nonce_get_bytes_ok [OF assms] by blast

theorem generate_nonces_agree_witness:
  "\<exists>p q. generate_nonces plain_crypto [1] [2] True = Inr p \<and> generate_nonces plain_crypto [2] [1] False = Inr q \<and>
    np_local p = np_remote q \<and> np_remote p = np_local q \<and>
    (\<exists>bs. nonce_get_bytes plain_crypto (np_local p) = Inr bs \<and> length bs = NONCE_SIZE) \<and>
    (\<exists>bs. nonce_get_bytes plain_crypto (np_remote p) = Inr bs \<and> length bs = NONCE_SIZE)"
  by (rule generate_nonces_agree [OF pcl.crypto_laws_axioms])

text \<open>
  Property C9. Messages of any number of chunks pass through the encrypted stream in order: what the writer sends with
  its nonce, the reader that starts with the same nonce turns back into the messages, leaving what follows,
  and both end with the same nonce.
\<close>

theorem stream_roundtrip:
  assumes "crypto_laws C keypair" "\<forall>m \<in> set ms. transferable M m"
    and "nonce_value (crypto_nonce c) + frame_count M ms \<le> 256 ^ NONCE_SIZE" "wire_length M ms \<le> room s"
  shows "\<exists>c' s' out. write_messages C M ms (c, s) = (Inr (), c', s') \<and> sent s' = sent s @ out \<and> length out = wire_length M ms \<and>
    (\<forall>rest. read_messages C M (length ms) c (out @ rest) = (Inr ms, c', rest))"
  using crypto_laws.messages_through [OF assms] by fastforce

definition sample_kind :: "(bytes, unit) message_kind" where
  "sample_kind = peer_message_kind () Inr Inr"

theorem stream_roundtrip_witness:
  "\<exists>c' s' out. write_messages plain_crypto sample_kind [[1, 2, 3], [4]] (\<lparr>precomputed_key = (), crypto_nonce = \<lparr>nonce_value = 7\<rparr>\<rparr>, \<lparr>sent = [9], room = 100\<rparr>) =
      (Inr (), c', s') \<and>
    sent s' = sent \<lparr>sent = [9], room = 100\<rparr> @ out \<and> length out = wire_length sample_kind [[1, 2, 3], [4]] \<and>
    (\<forall>rest. read_messages plain_crypto sample_kind (length [[1, 2, 3], [4 :: byte]]) \<lparr>precomputed_key = (), crypto_nonce = \<lparr>nonce_value = 7\<rparr>\<rparr> (out @ rest) =
      (Inr [[1, 2, 3], [4]], c', rest))"
proof -
  have fr: "message_frames sample_kind [1, 2, 3] = [to_be_bytes 4 3 @ [1, 2, 3]]" "message_frames sample_kind [4] = [to_be_bytes 4 1 @ [4]]"
    by (simp_all add: message_frames_def sample_kind_def peer_message_kind_def message_max_defs chunks.simps CONTENT_LENGTH_MAX_def
        CHUNK_CONTENT_MAX_def BOX_ZERO_BYTES_def numeral_3_eq_3)
  have ok: "\<forall>m \<in> set [[1, 2, 3], [4]]. transferable sample_kind m"
    by (simp add: sample_kind_def peer_message_transferable [of Inr _ _ Inr] message_max_defs)
  show ?thesis
    by (rule stream_roundtrip [OF pcl.crypto_laws_axioms ok]) (simp_all add: fr frame_count_def wire_length_def NONCE_SIZE_def)
qed

end
