(* ===== verification/Spec2Isabelle.thy ===== *)
theory Spec2Isabelle
  imports Predecessors MempoolState BranchState DataRequester Bootstrap Synchronization SeededStep MerkleCommit MerkleLarge MerkleCaching ContextGC
    FeederQueue PathCodec PeerStream
begin

text \<open>
  A verification library for the TezEdge node, a Tezos node written in Rust.

  \<^bold>\<open>Parts.\<close> Peers talk over an encrypted stream (\<^verbatim>\<open>networking/\<close>,
  \<^verbatim>\<open>crypto/\<close>) in messages with a schema (\<^verbatim>\<open>tezos/encoding/\<close>,
  \<^verbatim>\<open>tezos/messages/\<close>). The shell (\<^verbatim>\<open>shell/\<close>) decides which
  branches and heads to follow, downloads headers and operations of the missing blocks from several peers, and
  hands complete blocks to the chain feeder, which has the protocol apply them in order. Blocks, operations,
  metadata and results are kept in a database and a log, and the context of the protocol in a versioned Merkle
  tree (\<^verbatim>\<open>storage/\<close>). Operations that are not in a block yet wait in the mempool.

  \<^bold>\<open>How the code is modelled.\<close> Structures are records, enumerations datatypes. Every
  function is one definition with the branches of the source. Fallible functions return a sum with the error
  on the left; a panic is the constructor \<open>Panic\<close> of \<open>failure\<close>, and stateful
  functions are computations of the type \<open>act\<close>, which return the state also on errors. Locks
  carry a flag for poisoning. Integers keep their width where the code can overflow. Actors are functions on
  their state, and messages between threads are steps of a relation. Code outside the repository (RocksDB, the
  log, bincode, hashes, the box of the sodium library, the bit vector, parser combinators, the protocol) is a
  parameter, its documented behaviour a locale; each locale has an interpretation.

  \<^bold>\<open>Theories, with their sources and what they show.\<close>

  \<^item> \<^verbatim>\<open>Prelude\<close>, \<^verbatim>\<open>Serial\<close>: results, computations,
    big-endian integers; prefix codes that instantiate the serializers.
  \<^item> \<^verbatim>\<open>Persistent\<close> (\<^verbatim>\<open>storage/src/persistent\<close>): the
    key-value trait, its implementation over the calls of RocksDB, and the contract \<open>kv_contract\<close>
    the storages rely on.
  \<^item> \<^verbatim>\<open>BlockHeader\<close>, \<^verbatim>\<open>Messages\<close>
    (\<^verbatim>\<open>tezos/messages/src/p2p/encoding\<close>): headers, messages, limits.
  \<^item> \<^verbatim>\<open>BlockMeta\<close>, \<^verbatim>\<open>BlockMetaStorage\<close>
    (\<^verbatim>\<open>storage/src/block_meta_storage.rs\<close>): the byte layout reads back, the merge
    operator on bytes refines a merge of records, and the operations refine a map of metadata.
  \<^item> \<^verbatim>\<open>Predecessors\<close>
    (\<^verbatim>\<open>storage/src/predecessor_storage.rs\<close>): the exponential index is kept complete,
    and searches over it find the ancestor at the distance.
  \<^item> \<^verbatim>\<open>OperationsMeta\<close>, \<^verbatim>\<open>OperationsStorage\<close>
    (\<^verbatim>\<open>storage/src/operations_meta_storage.rs\<close>,
    \<^verbatim>\<open>storage/src/operations_storage.rs\<close>): which validation passes have arrived, and
    that they read back.
  \<^item> \<^verbatim>\<open>CommitLog\<close>, \<^verbatim>\<open>BlockStorage\<close>
    (\<^verbatim>\<open>storage/src/persistent/commit_log.rs\<close>,
    \<^verbatim>\<open>storage/src/block_storage.rs\<close>): on every log that keeps the laws of
    \<open>log_laws\<close>, range reads folded into fewer reads are equivalent; the three indexes and the log refine one map of blocks.
  \<^item> \<^verbatim>\<open>HeadState\<close>, \<^verbatim>\<open>History\<close>,
    \<^verbatim>\<open>ChainState\<close> (\<^verbatim>\<open>shell/src/state/head_state.rs\<close>,
    \<^verbatim>\<open>shell/src/state/chain_state.rs\<close>): the head in memory and on disk agree, and
    which blocks replace it, measured by an order on fitness stated without the loops of the code; locators; accepted heads are sound; headers and operations keep the storages consistent with each other.
  \<^item> \<^verbatim>\<open>ApplyResult\<close> (\<^verbatim>\<open>storage/src/lib.rs\<close>): a stored
    result makes a block complete in all storages; where it is interrupted.
  \<^item> \<^verbatim>\<open>ChainFeeder\<close>, \<^verbatim>\<open>FeederQueue\<close>
    (\<^verbatim>\<open>shell/src/chain_feeder.rs\<close>): blocks announced as applied are stored, the cache
    of predecessor data cannot be observed, tickets are conserved and the queue drains under every
    interleaving of actor and thread.
  \<^item> \<^verbatim>\<open>Validation\<close>, \<^verbatim>\<open>MempoolState\<close>
    (\<^verbatim>\<open>shell/src/validation/mod.rs\<close>, \<^verbatim>\<open>shell/src/mempool\<close>):
    fitness and head updates; the reachable states of the mempool, and that each pending operation is validated
    into its class.
  \<^item> \<^verbatim>\<open>ApplyBatch\<close>, \<^verbatim>\<open>BranchInterval\<close>,
    \<^verbatim>\<open>BranchState\<close>, \<^verbatim>\<open>PeerState\<close>,
    \<^verbatim>\<open>DataRequester\<close>, \<^verbatim>\<open>Bootstrap\<close>
    (\<^verbatim>\<open>shell/src/state\<close>): splitting, seeking and applying a branch, requests within
    the limits of each peer, and the invariant of the bootstrap over all peers, whose rounds return; which blocks
    a failing round strands.
  \<^item> \<^verbatim>\<open>Synchronization\<close>, \<^verbatim>\<open>SeededStep\<close>
    (\<^verbatim>\<open>shell/src/state/synchronization_state.rs\<close>,
    \<^verbatim>\<open>crypto/src/seeded_step.rs\<close>): when the node counts as bootstrapped, and the steps
    of a locator.
  \<^item> \<^verbatim>\<open>MerkleHash\<close>, \<^verbatim>\<open>ContextStore\<close>,
    \<^verbatim>\<open>MerkleStorage\<close>, \<^verbatim>\<open>MerkleContents\<close>,
    \<^verbatim>\<open>MerkleCommit\<close>, \<^verbatim>\<open>MerkleLarge\<close>,
    \<^verbatim>\<open>MerkleCaching\<close>, \<^verbatim>\<open>ContextGC\<close>
    (\<^verbatim>\<open>storage/src/context\<close>): a hash commits to its entry; changes of the tree refine
    changes of a map; a commit can be checked out and keeps history, except that new entries in a directory of more
    than 256 cannot be committed; filled caches change no value and no hash; the collector. The hash cells of the nodes are
    part of the state, but no operation of the model fills them: a commit is given the cells that hashing fills right
    before an entry is written, and for larger directories those that the tree already has.
  \<^item> \<^verbatim>\<open>Zarith\<close> (\<^verbatim>\<open>tezos/encoding/src/binary_writer.rs\<close>,
    \<^verbatim>\<open>tezos/encoding/src/nom.rs\<close>,
    \<^verbatim>\<open>tezos/encoding/src/bit_utils.rs\<close>): integers of any size are read back; amounts
    in mutez from 64 on are not.
  \<^item> \<^verbatim>\<open>BinaryWriter\<close>, \<^verbatim>\<open>WriterSpec\<close>
    (\<^verbatim>\<open>tezos/encoding/src/binary_writer.rs\<close>,
    \<^verbatim>\<open>tezos/encoding/src/encoding.rs\<close>): the writer accepts exactly the values typed by
    the schema and writes their layout.
  \<^item> \<^verbatim>\<open>PathCodec\<close>
    (\<^verbatim>\<open>tezos/messages/src/p2p/encoding/operations_for_blocks.rs\<close>): paths are written
    and read back.
  \<^item> \<^verbatim>\<open>PeerStream\<close> (\<^verbatim>\<open>crypto/src/nonce.rs\<close>,
    \<^verbatim>\<open>tezos/messages/src/p2p/binary_message.rs\<close>,
    \<^verbatim>\<open>networking/src/p2p/stream.rs\<close>): both ends derive matching nonces, and sequences
    of messages pass through the stream.

  \<^bold>\<open>Loops and bounds.\<close> Loops over data are structurally recursive or come with a measure:
  the reader of the stream takes bytes from the socket in every round, the queue of batches gets shorter, and
  the wait for a context ends after the 480001 polls that fit into its two hours. The two loops of
  \<^verbatim>\<open>BranchInterval\<close> that follow predecessors in the database are partial functions,
  None standing for a loop that does not end, and the properties show that they return. Recursions that follow
  hashes through the context store have the depth of the call stack as a bound in
  \<open>recursion_depth\<close>; the properties hold for any depth, or for any depth that is not zero. Nonces
  are below 2 to the power of 192, sizes below 2 to the power of 64.

  \<^bold>\<open>Not modelled.\<close> The handshake and the peer actor, the chain manager and the peer
  manager are timers, sockets and dispatch around the parts above. Readers derived by macros are generated by
  the build. The proof of work uses floating point. Further backends of the context, the recording of context
  actions and the system storage only call their databases and files. The protocol runner is foreign code. The
  RPC server, monitoring, logging, the sandbox and the command lines are input and output. Log lines and
  latency statistics are left out everywhere.
\<close>

end
